(* ===== verification/Talon_Prelude.thy ===== *)
theory Talon_Prelude
  imports Main "HOL-Library.Word" "HOL-Library.List_Lexorder" "HOL-Library.Char_ord"
    "HOL-Library.Sublist" "HOL-Library.Multiset" "HOL-Library.AList"
begin

text \<open>
  Shared vocabulary of the talon-db development: Go's integer types, error values with
  wrapping, the result type of fallible calls with its sequencing operations, and generic
  lemmas on sorted lists, association lists and separator-structured strings.

  A Go \<^verbatim>\<open>string\<close> and a Go \<^verbatim>\<open>[]byte\<close> are byte sequences; both are \<^typ>\<open>string\<close>, whose
  elements are 8-bit characters. The order on strings is the bytewise lexicographic one of
  Go's \<^verbatim>\<open><\<close> and \<^verbatim>\<open>bytes.Compare\<close>.
\<close>

section \<open>Machine types\<close>

type_synonym bytes = string
type_synonym u32 = "32 word"
type_synonym u64 = "64 word"
type_synonym i64 = "64 word"

text \<open>A Go slice of bytes that may be nil; nil and empty slices have the same contents.\<close>

type_synonym gobytes = "bytes option"

primrec contents :: "gobytes \<Rightarrow> bytes" where
  "contents None = []"
| "contents (Some b) = b"

named_theorems result_simps \<open>success and failure of sequenced fallible calls\<close>
named_theorems frame_intros \<open>what a call leaves alone\<close>
named_theorems name_simps \<open>distinctness of bucket names\<close>

section \<open>Errors and results\<close>

text \<open>
  The sentinel errors of \<^verbatim>\<open>docstore.go\<close>, \<^verbatim>\<open>indexed.go\<close> and \<^verbatim>\<open>vectorindex/index.go\<close>, the
  documented errors of bbolt, the errors of a cancelled context, and errors made by
  \<^verbatim>\<open>errors.New\<close> and by \<^verbatim>\<open>fmt.Errorf\<close> with and without \<^verbatim>\<open>%w\<close>. The text of a message is kept,
  the arguments formatted into it are not.
\<close>

datatype sentinel =
    ErrNotFound | ErrInvalidEntityID | ErrStatsStale | ErrInvalidValue
  | ErrDimensionMismatch | ErrScopeNotFound | ErrEmptyVector

datatype bolt_err =
    ErrKeyRequired | ErrKeyTooLarge | ErrValueTooLarge | ErrBucketNameRequired
  | ErrBucketNotFound | ErrDatabaseNotOpen | BoltIO nat

datatype err =
    Sentinel sentinel
  | BoltErr bolt_err
  | Canceled
  | DeadlineExceeded
  | NewErr string
  | Wrapf string err

text \<open>\<^verbatim>\<open>errors.Is(err, target)\<close> for the sentinel targets: follow the chain of \<^verbatim>\<open>%w\<close> wraps.\<close>

fun errors_Is :: "err \<Rightarrow> sentinel \<Rightarrow> bool" where
  "errors_Is (Sentinel s) t = (s = t)"
| "errors_Is (Wrapf m e) t = errors_Is e t"
| "errors_Is _ t = False"

type_synonym 'a result = "err + 'a"

primrec bindR :: "'e + 'a \<Rightarrow> ('a \<Rightarrow> 'e + 'b) \<Rightarrow> 'e + 'b" where
  "bindR (Inl e) f = Inl e"
| "bindR (Inr x) f = f x"

primrec wrapR :: "string \<Rightarrow> 'a result \<Rightarrow> 'a result" where
  "wrapR m (Inl e) = Inl (Wrapf m e)"
| "wrapR m (Inr x) = Inr x"

primrec liftB :: "bolt_err + 'a \<Rightarrow> 'a result" where
  "liftB (Inl e) = Inl (BoltErr e)"
| "liftB (Inr x) = Inr x"

text \<open>\<^verbatim>\<open>for _, x := range xs { if err := f(x); err != nil { return err } }\<close>\<close>

primrec foldR :: "('a \<Rightarrow> 's \<Rightarrow> 'e + 's) \<Rightarrow> 'a list \<Rightarrow> 's \<Rightarrow> 'e + 's" where
  "foldR f [] s = Inr s"
| "foldR f (x # xs) s = bindR (f x s) (foldR f xs)"

lemma bindR_Inr_iff [result_simps]:
  "bindR m f = Inr y \<longleftrightarrow> (\<exists>x. m = Inr x \<and> f x = Inr y)"
  by (cases m) auto

lemma bindR_Inl_iff:
  "bindR m f = Inl e \<longleftrightarrow> m = Inl e \<or> (\<exists>x. m = Inr x \<and> f x = Inl e)"
  by (cases m) auto

lemma wrapR_Inr_iff [result_simps]: "wrapR m r = Inr y \<longleftrightarrow> r = Inr y"
  by (cases r) auto

lemma wrapR_Inl_iff: "wrapR m r = Inl e \<longleftrightarrow> (\<exists>e'. r = Inl e' \<and> e = Wrapf m e')"
  by (cases r) auto

lemma liftB_Inr_iff [result_simps]: "liftB r = Inr y \<longleftrightarrow> r = Inr y"
  by (cases r) auto

lemma foldR_append: "foldR f (xs @ ys) s = bindR (foldR f xs s) (foldR f ys)"
proof (induction xs arbitrary: s)
  case (Cons x xs)
  then show ?case by (cases "f x s") auto
qed simp

text \<open>A property kept by every step of a loop, relating its start to its end.\<close>

lemma foldR_rel:
  assumes "foldR f xs s = Inr s'"
    and refl: "\<And>s. R s s"
    and trans: "\<And>s t u. R s t \<Longrightarrow> R t u \<Longrightarrow> R s u"
    and step: "\<And>x s s'. x \<in> set xs \<Longrightarrow> f x s = Inr s' \<Longrightarrow> R s s'"
  shows "R s s'"
  using assms(1) step
proof (induction xs arbitrary: s)
  case Nil
  then show ?case by (simp add: refl)
next
  case (Cons x xs)
  from Cons.prems(1) obtain t where t: "f x s = Inr t" "foldR f xs t = Inr s'"
    by (auto simp: result_simps)
  have "R s t" by (rule Cons.prems(2) [OF _ t(1)]) simp
  moreover have "R t s'" using t(2) Cons.prems(2) by (intro Cons.IH) auto
  ultimately show ?case by (rule trans)
qed

lemma foldR_inv:
  assumes "foldR f xs s = Inr s'" "P s"
    and step: "\<And>x s s'. x \<in> set xs \<Longrightarrow> f x s = Inr s' \<Longrightarrow> P s \<Longrightarrow> P s'"
  shows "P s'"
  using foldR_rel [where R = "\<lambda>s s'. P s \<longrightarrow> P s'", OF assms(1)] assms(2) step by blast

text \<open>A loop over keys whose body updates a view of the state at its own key only, by an
  idempotent operation.\<close>

lemma foldR_view:
  assumes "foldR f xs s = Inr s'"
    and step: "\<And>x s s' y. f x s = Inr s' \<Longrightarrow> V s' y = (if y = x then g (V s y) else V s y)"
    and idem: "\<And>v. g (g v) = g v"
  shows "V s' y = (if y \<in> set xs then g (V s y) else V s y)"
  using assms(1)
proof (induction xs arbitrary: s)
  case (Cons x xs)
  then obtain t where t: "f x s = Inr t" "foldR f xs t = Inr s'"
    by (auto simp: result_simps)
  show ?case
    using Cons.IH [OF t(2)] step [OF t(1), of y] by (auto simp: idem)
qed simp

text \<open>The same over distinct keys, under an invariant, with an operation of the key.\<close>

lemma foldR_distinct_view:
  assumes "foldR f xs s = Inr s'" "distinct xs" "I s"
    and step: "\<And>x s s' y. x \<in> set xs \<Longrightarrow> f x s = Inr s' \<Longrightarrow> I s \<Longrightarrow>
      I s' \<and> V s' y = (if y = x then g x (V s y) else V s y)"
  shows "I s' \<and> V s' y = (if y \<in> set xs then g y (V s y) else V s y)"
  using assms
proof (induction xs arbitrary: s)
  case (Cons x xs)
  then obtain t where t: "f x s = Inr t" "foldR f xs t = Inr s'"
    by (auto simp: result_simps)
  have st: "I t \<and> V t y = (if y = x then g x (V s y) else V s y)"
    by (rule Cons.prems(4) [OF _ t(1) Cons.prems(3)]) simp
  have "I s' \<and> V s' y = (if y \<in> set xs then g y (V t y) else V t y)"
    using t(2) Cons.prems(2,4) st by (intro Cons.IH) auto
  with st Cons.prems(2) show ?case by auto
qed simp

section \<open>Strings with a separator\<close>

text \<open>
  Bucket names have the shape \<open>prefix:entity\<close> or \<open>prefix:entity:rest\<close>. A segment without a
  colon is determined by the whole name.
\<close>

definition no_colon :: "string \<Rightarrow> bool" where
  "no_colon s \<longleftrightarrow> CHR '':'' \<notin> set s"

lemma sep_append_eq:
  assumes "c \<notin> set a" "c \<notin> set b"
  shows "a @ c # x = b @ c # y \<longleftrightarrow> a = b \<and> x = y"
  using assms
proof (induction a arbitrary: b)
  case Nil
  then show ?case by (cases b) auto
next
  case (Cons h t)
  then show ?case by (cases b) auto
qed

lemma no_colon_append_eq [name_simps]:
  "no_colon a \<Longrightarrow> no_colon b \<Longrightarrow> a @ CHR '':'' # x = b @ CHR '':'' # y \<longleftrightarrow> a = b \<and> x = y"
  unfolding no_colon_def by (rule sep_append_eq)

section \<open>Sorted lists\<close>

lemma strict_sorted_set_eqI:
  fixes xs ys :: "'a::linorder list"
  assumes "sorted_wrt (<) xs" "sorted_wrt (<) ys" "set xs = set ys"
  shows "xs = ys"
  using assms by (metis strict_sorted_equal)

lemma sorted_distinct_strict:
  fixes xs :: "'a::linorder list"
  shows "sorted xs \<Longrightarrow> distinct xs \<Longrightarrow> sorted_wrt (<) xs"
  by (simp add: strict_sorted_iff)

lemma dropWhile_less_eq_filter:
  fixes p :: "'k::linorder"
  shows "sorted_wrt (<) (map fst xs) \<Longrightarrow>
    dropWhile (\<lambda>(k, v). k < p) xs = filter (\<lambda>(k, v). p \<le> k) xs"
proof (induction xs)
  case (Cons x xs)
  obtain k v where x: "x = (k, v)" by (cases x)
  have later: "\<forall>y \<in> set xs. k < fst y" using Cons.prems x by auto
  show ?case
  proof (cases "k < p")
    case True
    with Cons x show ?thesis by auto
  next
    case False
    with later have "filter (\<lambda>(k, v). p \<le> k) xs = xs"
      by (intro filter_True) auto
    with False x show ?thesis by auto
  qed
qed simp

lemma takeWhile_upper_eq_filter:
  fixes q :: "'k::linorder"
  shows "sorted_wrt (<) (map fst xs) \<Longrightarrow>
    takeWhile (\<lambda>(k, v). k \<le> q) xs = filter (\<lambda>(k, v). k \<le> q) xs"
proof (induction xs)
  case (Cons x xs)
  obtain k v where x: "x = (k, v)" by (cases x)
  have later: "\<forall>y \<in> set xs. k < fst y" using Cons.prems x by auto
  show ?case
  proof (cases "k \<le> q")
    case True
    with Cons x show ?thesis by auto
  next
    case False
    with later have "filter (\<lambda>(k, v). k \<le> q) xs = []"
      by (fastforce simp: filter_empty_conv)
    with False x show ?thesis by auto
  qed
qed simp

lemma in_map_filter: "y \<in> set (List.map_filter f xs) \<longleftrightarrow> (\<exists>x \<in> set xs. f x = Some y)"
  by (induction xs) (auto simp: List.map_filter_simps split: option.splits)

section \<open>Association lists\<close>

lemma map_of_sort_key_fst:
  assumes "distinct (map fst xs)"
  shows "map_of (sort_key fst xs) = map_of xs"
proof -
  have "distinct (map fst (sort_key fst xs))"
    using assms by (metis distinct_map distinct_sort set_sort)
  then show ?thesis
    using assms by (simp add: map_of_inject_set)
qed

end
