(* ===== verification/Float64.thy ===== *)
theory Float64
  imports Talon_Prelude
begin

text \<open>
  Go's \<^verbatim>\<open>float64\<close>: the IEEE-754 binary64 value carried by its 64 bits, as
  \<^verbatim>\<open>math.Float64bits\<close> shows them. Every finite value is an integer multiple of \<open>2^-1074\<close>, so a
  value is read as that integer (\<open>f64_units\<close>), comparison is comparison of integers, and an
  arithmetic operation is the exact rational result rounded to nearest, ties to even
  (without fusing a product and a sum).
\<close>

type_synonym f64 = "64 word"

section \<open>Fields and classes\<close>

definition f64_neg :: "f64 \<Rightarrow> bool" where
  "f64_neg x \<longleftrightarrow> bit x 63"

definition f64_mag :: "f64 \<Rightarrow> nat" where
  "f64_mag x = unat (take_bit 63 x)"

abbreviation inf_mag :: nat where
  "inf_mag \<equiv> 2047 * 2 ^ 52"

definition f64_isNaN :: "f64 \<Rightarrow> bool" where
  "f64_isNaN x \<longleftrightarrow> inf_mag < f64_mag x"

definition f64_isInf :: "f64 \<Rightarrow> bool" where
  "f64_isInf x \<longleftrightarrow> f64_mag x = inf_mag"

definition f64_finite :: "f64 \<Rightarrow> bool" where
  "f64_finite x \<longleftrightarrow> f64_mag x < inf_mag"

definition f64_make :: "bool \<Rightarrow> nat \<Rightarrow> f64" where
  "f64_make neg m = word_of_nat (m + (if neg then 2 ^ 63 else 0))"

text \<open>The value in units of \<open>2^-1074\<close>; an infinity reads as the first integer above every
  finite value.\<close>

definition mag_units :: "nat \<Rightarrow> nat" where
  "mag_units m =
     (let e = m div 2 ^ 52; f = m mod 2 ^ 52
      in if e = 0 then f else (2 ^ 52 + f) * 2 ^ (e - 1))"

definition f64_units :: "f64 \<Rightarrow> int" where
  "f64_units x = (if f64_neg x then - int (mag_units (f64_mag x)) else int (mag_units (f64_mag x)))"

section \<open>Comparison\<close>

definition f64_lt :: "f64 \<Rightarrow> f64 \<Rightarrow> bool" where
  "f64_lt x y \<longleftrightarrow> \<not> f64_isNaN x \<and> \<not> f64_isNaN y \<and> f64_units x < f64_units y"

definition f64_le :: "f64 \<Rightarrow> f64 \<Rightarrow> bool" where
  "f64_le x y \<longleftrightarrow> \<not> f64_isNaN x \<and> \<not> f64_isNaN y \<and> f64_units x \<le> f64_units y"

definition f64_eq :: "f64 \<Rightarrow> f64 \<Rightarrow> bool" where
  "f64_eq x y \<longleftrightarrow> \<not> f64_isNaN x \<and> \<not> f64_isNaN y \<and> f64_units x = f64_units y"

section \<open>Arithmetic\<close>

fun ilog2 :: "nat \<Rightarrow> nat" where
  "ilog2 n = (if n < 2 then 0 else Suc (ilog2 (n div 2)))"

declare ilog2.simps [simp del]

lemma ilog2_eqI: "2 ^ k \<le> n \<Longrightarrow> n < 2 ^ Suc k \<Longrightarrow> ilog2 n = k"
proof (induction k arbitrary: n)
  case 0
  then show ?case by (subst ilog2.simps) simp
next
  case (Suc k)
  then have "2 ^ k \<le> n div 2" "n div 2 < 2 ^ Suc k" by simp_all
  then have "ilog2 (n div 2) = k" by (rule Suc.IH)
  moreover have "2 \<le> (2 :: nat) ^ Suc k" by simp
  then have "2 \<le> n" using Suc.prems(1) by (rule le_trans)
  ultimately show ?case by (subst ilog2.simps) simp
qed

definition round_half_even :: "nat \<Rightarrow> nat \<Rightarrow> nat" where
  "round_half_even n d =
     (let q = n div d; r = n mod d
      in if 2 * r < d \<or> (2 * r = d \<and> even q) then q else Suc q)"

text \<open>The double nearest to \<open>n / d\<close> units. With \<open>s\<close> the shift that leaves a 53-bit
  significand, the bits are \<open>s * 2^52\<close> plus the rounded significand, carries included.\<close>

definition f64_round :: "bool \<Rightarrow> nat \<Rightarrow> nat \<Rightarrow> f64" where
  "f64_round neg n d =
     (let s = ilog2 (n div d) - 52;
          m = s * 2 ^ 52 + round_half_even n (d * 2 ^ s)
      in f64_make neg (min m inf_mag))"

definition f64_nan :: f64 where
  "f64_nan = f64_make False (inf_mag + 2 ^ 51)"

definition f64_negate :: "f64 \<Rightarrow> f64" where
  "f64_negate x = f64_make (\<not> f64_neg x) (f64_mag x)"

definition f64_add :: "f64 \<Rightarrow> f64 \<Rightarrow> f64" where
  "f64_add x y =
     (if f64_isNaN x \<or> f64_isNaN y then f64_nan
      else if f64_isInf x then
        (if f64_isInf y \<and> f64_neg x \<noteq> f64_neg y then f64_nan else x)
      else if f64_isInf y then y
      else let u = f64_units x + f64_units y
           in if u = 0 then f64_make (f64_neg x \<and> f64_neg y) 0
              else f64_round (u < 0) (nat \<bar>u\<bar>) 1)"

definition f64_sub :: "f64 \<Rightarrow> f64 \<Rightarrow> f64" where
  "f64_sub x y = f64_add x (f64_negate y)"

definition f64_mul :: "f64 \<Rightarrow> f64 \<Rightarrow> f64" where
  "f64_mul x y =
     (let neg = (f64_neg x \<noteq> f64_neg y)
      in if f64_isNaN x \<or> f64_isNaN y then f64_nan
         else if f64_isInf x \<or> f64_isInf y then
           (if f64_mag x = 0 \<or> f64_mag y = 0 then f64_nan else f64_make neg inf_mag)
         else f64_round neg (mag_units (f64_mag x) * mag_units (f64_mag y)) (2 ^ 1074))"

definition f64_div :: "f64 \<Rightarrow> f64 \<Rightarrow> f64" where
  "f64_div x y =
     (let neg = (f64_neg x \<noteq> f64_neg y)
      in if f64_isNaN x \<or> f64_isNaN y then f64_nan
         else if f64_isInf x then (if f64_isInf y then f64_nan else f64_make neg inf_mag)
         else if f64_isInf y then f64_make neg 0
         else if f64_mag y = 0 then
           (if f64_mag x = 0 then f64_nan else f64_make neg inf_mag)
         else f64_round neg (mag_units (f64_mag x) * 2 ^ 1074) (mag_units (f64_mag y)))"

text \<open>Conversions: \<^verbatim>\<open>float64(n)\<close> of a 64-bit integer, and \<^verbatim>\<open>int64(x)\<close>, which truncates towards
  zero and whose result outside the range of \<^verbatim>\<open>int64\<close> Go leaves to the implementation
  (the argument \<open>oor\<close>).\<close>

definition f64_of_int :: "int \<Rightarrow> f64" where
  "f64_of_int n = f64_round (n < 0) (nat \<bar>n\<bar> * 2 ^ 1074) 1"

definition f64_trunc :: "f64 \<Rightarrow> int" where
  "f64_trunc x =
     (let t = int (mag_units (f64_mag x) div 2 ^ 1074) in if f64_neg x then - t else t)"

definition f64_to_i64 :: "(f64 \<Rightarrow> i64) \<Rightarrow> f64 \<Rightarrow> i64" where
  "f64_to_i64 oor x =
     (if f64_finite x \<and> - (2 ^ 63) \<le> f64_trunc x \<and> f64_trunc x < 2 ^ 63
      then word_of_int (f64_trunc x) else oor x)"

section \<open>The order of magnitudes is the order of values\<close>

lemma mag_units_split:
  assumes "f < 2 ^ 52"
  shows "mag_units (e * 2 ^ 52 + f) = (if e = 0 then f else (2 ^ 52 + f) * 2 ^ (e - 1))"
proof -
  have "(e * 2 ^ 52 + f) div 2 ^ 52 = e" "(e * 2 ^ 52 + f) mod 2 ^ 52 = f"
    using assms by (simp_all only: div_mult_self3 mod_mult_self3 div_less mod_less add_0_right
        power_not_zero zero_neq_numeral not_False_eq_True)
  then show ?thesis
    unfolding mag_units_def Let_def by (simp only:)
qed

lemma mag_units_Suc: "mag_units m < mag_units (Suc m)"
proof -
  define e f where "e = m div 2 ^ 52" and "f = m mod (2::nat) ^ 52"
  have f: "f < 2 ^ 52" unfolding f_def by (rule mod_less_divisor) simp
  have m: "m = e * 2 ^ 52 + f" unfolding e_def f_def by (simp only: div_mult_mod_eq)
  show ?thesis
  proof (cases "Suc f < 2 ^ 52")
    case True
    have "Suc m = e * 2 ^ 52 + Suc f" by (simp only: m add_Suc_right)
    then show ?thesis
      by (simp only: m mag_units_split [OF f] mag_units_split [OF True]) simp
  next
    case False
    with f have ff: "Suc f = 2 ^ 52" by linarith
    then have "Suc m = Suc e * 2 ^ 52 + 0"
      by (simp only: m add_Suc_right [symmetric] mult_Suc add.commute add_0_right)
    then have S: "mag_units (Suc m) = 2 ^ 52 * 2 ^ e"
      using mag_units_split [of 0 "Suc e"] by (simp only:) simp
    have "(2 ^ 52 + f) * 2 ^ (e - 1) < 2 ^ 52 * 2 ^ e" if "0 < e"
    proof -
      have "(2 ^ 52 + f) * 2 ^ (e - 1) < 2 ^ 53 * 2 ^ (e - 1)"
        using f by (intro mult_strict_right_mono) simp_all
      also have "\<dots> = 2 ^ 52 * 2 ^ e"
        using that by (cases e) simp_all
      finally show ?thesis .
    qed
    then show ?thesis
      unfolding S unfolding m mag_units_split [OF f] using f by auto
  qed
qed

lemma mag_units_strict_mono: "strict_mono mag_units"
  unfolding strict_mono_Suc_iff by (simp add: mag_units_Suc)

lemma mag_units_less_iff [simp]: "mag_units m < mag_units n \<longleftrightarrow> m < n"
  by (rule strict_mono_less [OF mag_units_strict_mono])

lemma mag_units_eq_iff [simp]: "mag_units m = mag_units n \<longleftrightarrow> m = n"
  by (rule strict_mono_eq [OF mag_units_strict_mono])

lemma mag_units_0 [simp]: "mag_units 0 = 0"
  by (simp add: mag_units_def)

lemma mag_units_pos_iff [simp]: "0 < mag_units m \<longleftrightarrow> 0 < m"
  using mag_units_less_iff [of 0 m] by simp

lemma mag_units_eq_0_iff [simp]: "mag_units m = 0 \<longleftrightarrow> m = 0"
  using mag_units_eq_iff [of m 0] by simp

lemma f64_mag_alt: "f64_mag x = unat x mod 2 ^ 63"
  unfolding f64_mag_def unsigned_take_bit_eq by (rule take_bit_eq_mod)

lemma f64_mag_bound: "f64_mag x < 2 ^ 63"
  unfolding f64_mag_alt by (rule mod_less_divisor) simp

lemma unat_div_63: "unat (x :: 64 word) div 2 ^ 63 < 2"
  by (rule less_mult_imp_div_less) (use unsigned_less [of x] in simp)

lemma f64_neg_alt: "f64_neg x \<longleftrightarrow> unat x div 2 ^ 63 = 1"
proof -
  have "f64_neg x \<longleftrightarrow> bit (unat x) 63"
    unfolding f64_neg_def by (simp add: bit_unsigned_iff)
  also have "\<dots> \<longleftrightarrow> odd (unat x div 2 ^ 63)"
    by (rule bit_iff_odd)
  also have "\<dots> \<longleftrightarrow> unat x div 2 ^ 63 = 1"
    using unat_div_63 [of x] by (auto simp only: less_2_cases_iff even_zero even_Suc One_nat_def)
  finally show ?thesis .
qed

lemma f64_bits: "unat x = (if f64_neg x then 2 ^ 63 else 0) + f64_mag x"
proof -
  have *: "unat x = unat x div 2 ^ 63 * 2 ^ 63 + f64_mag x"
    unfolding f64_mag_alt by (simp only: div_mult_mod_eq)
  have "unat x div 2 ^ 63 = 0 \<or> unat x div 2 ^ 63 = 1"
    using unat_div_63 [of x] by (simp only: less_2_cases_iff One_nat_def)
  then show ?thesis
    unfolding f64_neg_alt using * by auto
qed

lemma f64_eqI: "f64_neg x = f64_neg y \<Longrightarrow> f64_mag x = f64_mag y \<Longrightarrow> x = y"
  by (metis f64_bits word_unat_eq_iff)

lemma int_mag_units_less_iff [simp]:
  "- int (mag_units m) < int (mag_units n) \<longleftrightarrow> 0 < m \<or> 0 < n"
  "\<not> int (mag_units m) < - int (mag_units n)"
proof -
  have "- int (mag_units m) < int (mag_units n) \<longleftrightarrow> 0 < mag_units m \<or> 0 < mag_units n"
    by linarith
  then show "- int (mag_units m) < int (mag_units n) \<longleftrightarrow> 0 < m \<or> 0 < n"
    by (simp only: mag_units_pos_iff)
  show "\<not> int (mag_units m) < - int (mag_units n)" by linarith
qed

lemma int_mag_units_eq_iff [simp]:
  "- int (mag_units m) = int (mag_units n) \<longleftrightarrow> m = 0 \<and> n = 0"
  "int (mag_units m) = - int (mag_units n) \<longleftrightarrow> m = 0 \<and> n = 0"
proof -
  have "- int (mag_units m) = int (mag_units n) \<longleftrightarrow> mag_units m = 0 \<and> mag_units n = 0"
    "int (mag_units m) = - int (mag_units n) \<longleftrightarrow> mag_units m = 0 \<and> mag_units n = 0"
    by linarith+
  then show "- int (mag_units m) = int (mag_units n) \<longleftrightarrow> m = 0 \<and> n = 0"
    "int (mag_units m) = - int (mag_units n) \<longleftrightarrow> m = 0 \<and> n = 0"
    by (simp_all only: mag_units_eq_0_iff)
qed

lemma f64_units_less_iff:
  "f64_units x < f64_units y \<longleftrightarrow>
     (if f64_neg x then (if f64_neg y then f64_mag y < f64_mag x
                         else 0 < f64_mag x \<or> 0 < f64_mag y)
      else \<not> f64_neg y \<and> f64_mag x < f64_mag y)"
  by (simp add: f64_units_def)

lemma f64_units_eq_iff:
  "f64_units x = f64_units y \<longleftrightarrow>
     f64_mag x = f64_mag y \<and> (f64_mag x = 0 \<or> f64_neg x = f64_neg y)"
  by (auto simp: f64_units_def)

lemma f64_eq_refl: "\<not> f64_isNaN x \<Longrightarrow> f64_eq x x"
  by (simp add: f64_eq_def)

lemma f64_finite_iff: "f64_finite x \<longleftrightarrow> \<not> f64_isNaN x \<and> \<not> f64_isInf x"
  by (auto simp: f64_finite_def f64_isNaN_def f64_isInf_def)

end
