(* ===== verification/Externals.thy ===== *)
theory Externals
  imports Float64
begin

text \<open>
  What the program calls but does not contain: bbolt (the B+ tree store), roaring bitmaps,
  snappy, and the text codecs of Go's standard library. Each call is a field of the record
  \<open>ext\<close>, an argument of every definition that makes the call; what the code relies on is
  stated as the laws of the locales \<open>bbolt_laws\<close>, \<open>roaring_laws\<close>, \<open>snappy_laws\<close> and
  \<open>golib_laws\<close>, all of them documented behaviour, collected in \<open>ext_laws\<close>.

  The structs of the program that pass through \<^verbatim>\<open>encoding/json\<close> are declared here because the
  codecs mention them. \<open>'tx\<close> is the type of a transaction's view of the database, \<open>'v\<close> the
  type of a stored value, \<open>'bm\<close> the type of a roaring bitmap.
\<close>

section \<open>Values and structs\<close>

text \<open>A Go \<^verbatim>\<open>any\<close> as the program meets it: what \<^verbatim>\<open>json.Unmarshal\<close> produces, and the number
  types a library caller may put into a query literal. A \<^verbatim>\<open>map[string]any\<close> is the list of
  its entries in the order in which a \<^verbatim>\<open>range\<close> visits them.\<close>

datatype any =
    ANil
  | ABool bool
  | AStr string
  | AFloat f64
  | ANumber string
  | AInt i64
  | AInt64 i64
  | AInt32 "32 word"
  | AFloat32 "32 word"
  | AArr "any list"
  | AObj "(string \<times> any) list"

text \<open>\<^verbatim>\<open>utf8.ValidString\<close>: the byte sequences of RFC 3629, without surrogates and overlong
  forms. JSON text carries such strings only; \<^verbatim>\<open>encoding/json\<close> replaces anything else.\<close>

definition byte_in :: "nat \<Rightarrow> nat \<Rightarrow> char \<Rightarrow> bool" where
  "byte_in lo hi c \<longleftrightarrow> lo \<le> of_char c \<and> of_char c \<le> hi"

fun utf8_ok :: "string \<Rightarrow> bool" where
  "utf8_ok [] = True"
| "utf8_ok (a # s) =
     (if byte_in 0 0x7F a then utf8_ok s
      else case s of
        [] \<Rightarrow> False
      | b # t \<Rightarrow>
          if byte_in 0xC2 0xDF a then byte_in 0x80 0xBF b \<and> utf8_ok t
          else case t of
            [] \<Rightarrow> False
          | c # u \<Rightarrow>
              if byte_in 0xE0 0xEF a then
                byte_in (if byte_in 0xE0 0xE0 a then 0xA0 else 0x80)
                        (if byte_in 0xED 0xED a then 0x9F else 0xBF) b
                \<and> byte_in 0x80 0xBF c \<and> utf8_ok u
              else case u of
                [] \<Rightarrow> False
              | d # w \<Rightarrow>
                  byte_in 0xF0 0xF4 a
                  \<and> byte_in (if byte_in 0xF0 0xF0 a then 0x90 else 0x80)
                            (if byte_in 0xF4 0xF4 a then 0x8F else 0xBF) b
                  \<and> byte_in 0x80 0xBF c \<and> byte_in 0x80 0xBF d \<and> utf8_ok w)"

text \<open>What decoding JSON text into an \<^verbatim>\<open>any\<close> can produce: numbers are \<^verbatim>\<open>float64\<close>, no key occurs twice
  in an object, strings are valid.\<close>

fun any_wf :: "any \<Rightarrow> bool" where
  "any_wf (AStr s) = utf8_ok s"
| "any_wf (AArr xs) = (\<forall>x \<in> set xs. any_wf x)"
| "any_wf (AObj kvs) =
     (distinct (map fst kvs) \<and> (\<forall>kv \<in> set kvs. utf8_ok (fst kv) \<and> any_wf (snd kv)))"
| "any_wf ANil = True"
| "any_wf (ABool b) = True"
| "any_wf (AFloat x) = f64_finite x"
| "any_wf _ = False"

record docMeta =
  CreatedAt :: i64
  UpdatedAt :: i64
  Version :: i64

record temporalEntry =
  At :: i64
  EType :: string
  EDocID :: string

record groupByValue =
  GCount :: i64
  FirstSeen :: i64
  GLastSeen :: i64
  Bitmap :: bytes

record statsValue =
  SCount :: i64
  Mean :: f64
  M2 :: f64
  SMin :: f64
  SMax :: f64
  Stale :: bool

record absenceEntry =
  AbsAt :: i64
  AbsDocID :: string

type_synonym Metric = int

record scopeMeta =
  MDim :: int
  MMetric :: Metric

datatype time_layout = RFC3339Nano | RFC3339

section \<open>The calls\<close>

record ('tx, 'v, 'bm) ext =
  \<comment> \<open>bbolt: transactions and buckets\<close>
  begin_err :: "'tx \<Rightarrow> bolt_err option"
  commit_err :: "'tx \<Rightarrow> bolt_err option"
  has_bucket :: "'tx \<Rightarrow> string \<Rightarrow> bool"
  create_bucket :: "string \<Rightarrow> 'tx \<Rightarrow> bolt_err + 'tx"
  delete_bucket :: "string \<Rightarrow> 'tx \<Rightarrow> bolt_err + 'tx"
  bucket_get :: "'tx \<Rightarrow> string \<Rightarrow> bytes \<Rightarrow> 'v option"
  bucket_put :: "string \<Rightarrow> bytes \<Rightarrow> 'v \<Rightarrow> 'tx \<Rightarrow> bolt_err + 'tx"
  bucket_delete :: "string \<Rightarrow> bytes \<Rightarrow> 'tx \<Rightarrow> bolt_err + 'tx"
  bucket_items :: "'tx \<Rightarrow> string \<Rightarrow> (bytes \<times> 'v) list"
  bucket_seek :: "'tx \<Rightarrow> string \<Rightarrow> bytes \<Rightarrow> (bytes \<times> 'v) list"
  bucket_names :: "'tx \<Rightarrow> string list"
  \<comment> \<open>stored values as byte strings\<close>
  of_bytes :: "bytes \<Rightarrow> 'v"
  to_bytes :: "'v \<Rightarrow> bytes"
  value_fits :: "'v \<Rightarrow> bool"
  \<comment> \<open>roaring bitmaps\<close>
  bm_new :: 'bm
  bm_add :: "u32 \<Rightarrow> 'bm \<Rightarrow> 'bm"
  bm_remove :: "u32 \<Rightarrow> 'bm \<Rightarrow> 'bm"
  bm_checked_add :: "u32 \<Rightarrow> 'bm \<Rightarrow> bool \<times> 'bm"
  bm_checked_remove :: "u32 \<Rightarrow> 'bm \<Rightarrow> bool \<times> 'bm"
  bm_or :: "'bm \<Rightarrow> 'bm \<Rightarrow> 'bm"
  bm_is_empty :: "'bm \<Rightarrow> bool"
  bm_iter :: "'bm \<Rightarrow> u32 list"
  bm_run_optimize :: "'bm \<Rightarrow> 'bm"
  bm_write :: "'bm \<Rightarrow> bytes"
  bm_read :: "bytes \<Rightarrow> 'bm option"
  \<comment> \<open>snappy blocks\<close>
  snappy_encode :: "bytes \<Rightarrow> 'v"
  snappy_decode :: "'v \<Rightarrow> gobytes option"
  \<comment> \<open>encoding/json, time, strconv, strings, fmt, sort\<close>
  json_unmarshal :: "bytes \<Rightarrow> any option"
  enc_meta :: "docMeta \<Rightarrow> 'v"
  dec_meta :: "'v \<Rightarrow> docMeta option"
  enc_log :: "temporalEntry list \<Rightarrow> 'v"
  dec_log :: "'v \<Rightarrow> temporalEntry list option"
  enc_group :: "groupByValue \<Rightarrow> 'v"
  dec_group :: "'v \<Rightarrow> groupByValue option"
  enc_stats :: "statsValue \<Rightarrow> 'v option"
  dec_stats :: "'v \<Rightarrow> statsValue option"
  enc_abs :: "absenceEntry \<Rightarrow> 'v"
  dec_abs :: "'v \<Rightarrow> absenceEntry option"
  enc_chain :: "string list \<Rightarrow> 'v"
  dec_chain :: "'v \<Rightarrow> string list option"
  enc_scope :: "scopeMeta \<Rightarrow> 'v"
  dec_scope :: "'v \<Rightarrow> scopeMeta option"
  time_parse :: "time_layout \<Rightarrow> string \<Rightarrow> i64 option"
  format_g :: "f64 \<Rightarrow> string"
  number_float :: "string \<Rightarrow> f64 option"
  float_oor :: "f64 \<Rightarrow> i64"
  float_of_f32 :: "32 word \<Rightarrow> f64"
  sprint :: "any \<Rightarrow> string"
  to_lower :: "string \<Rightarrow> string"
  sort_slice :: "temporalEntry list \<Rightarrow> temporalEntry list"
  \<comment> \<open>the order in which \<^verbatim>\<open>range\<close> visits the keys of a map built by the program\<close>
  range_order :: "string list \<Rightarrow> string list"

text \<open>\<^verbatim>\<open>json.Unmarshal(doc, &m)\<close> with \<open>m\<close> a \<^verbatim>\<open>map[string]any\<close>: an object fills the map, a JSON
  null leaves it nil without an error, any other top-level value is an error.\<close>

definition unmarshal_map :: "('tx, 'v, 'bm) ext \<Rightarrow> bytes \<Rightarrow> (string \<times> any) list option" where
  "unmarshal_map X doc =
     (case json_unmarshal X doc of
        Some (AObj kvs) \<Rightarrow> Some kvs
      | Some ANil \<Rightarrow> Some []
      | _ \<Rightarrow> None)"

text \<open>\<^verbatim>\<open>db.View\<close> runs its function on the committed state. \<^verbatim>\<open>db.Update\<close> runs it in a writable
  transaction: an error of the function or of the commit rolls everything back.\<close>

definition db_view :: "('tx, 'v, 'bm) ext \<Rightarrow> ('tx \<Rightarrow> 'a result) \<Rightarrow> 'tx \<Rightarrow> 'a result" where
  "db_view X f db = (case begin_err X db of Some e \<Rightarrow> Inl (BoltErr e) | None \<Rightarrow> f db)"

definition db_update ::
  "('tx, 'v, 'bm) ext \<Rightarrow> ('tx \<Rightarrow> ('a \<times> 'tx) result) \<Rightarrow> 'tx \<Rightarrow> 'a result \<times> 'tx" where
  "db_update X f db =
     (case begin_err X db of
        Some e \<Rightarrow> (Inl (BoltErr e), db)
      | None \<Rightarrow>
          (case f db of
             Inl e \<Rightarrow> (Inl e, db)
           | Inr (x, tx) \<Rightarrow>
               (case commit_err X tx of
                  Some e \<Rightarrow> (Inl (BoltErr e), db)
                | None \<Rightarrow> (Inr x, tx))))"

lemma db_update_error: "db_update X f db = (Inl e, db') \<Longrightarrow> db' = db"
  by (auto simp: db_update_def split: option.splits sum.splits)

lemma db_update_ok:
  "db_update X f db = (Inr x, db') \<Longrightarrow> f db = Inr (x, db')"
  by (auto simp: db_update_def split: option.splits sum.splits)

lemma db_view_ok: "db_view X f db = Inr x \<Longrightarrow> f db = Inr x"
  by (auto simp: db_view_def split: option.splits)

section \<open>What the code relies on\<close>

definition max_key_size :: nat where
  "max_key_size = 32768"

definition key_ok :: "bytes \<Rightarrow> bool" where
  "key_ok k \<longleftrightarrow> k \<noteq> [] \<and> length k \<le> max_key_size"

text \<open>bbolt. A bucket maps keys to values; cursors and \<^verbatim>\<open>ForEach\<close> visit keys in byte order;
  a key must not be empty and must not exceed the maximal key size, so none that is stored
  does; a value must not exceed the maximal value size; a bucket's name must not be empty and may be
  refused when it is longer than a key.\<close>

locale bbolt_laws =
  fixes X :: "('tx, 'v, 'bm) ext"
  assumes get_has: "bucket_get X tx n k = Some v \<Longrightarrow> has_bucket X tx n"
    and create_has: "create_bucket X n tx = Inr tx' \<Longrightarrow> has_bucket X tx' m \<longleftrightarrow> m = n \<or> has_bucket X tx m"
    and create_get: "create_bucket X n tx = Inr tx' \<Longrightarrow> bucket_get X tx' m k = bucket_get X tx m k"
    and create_succeeds: "n \<noteq> [] \<Longrightarrow> length n \<le> max_key_size \<or> has_bucket X tx n \<Longrightarrow>
      \<exists>tx'. create_bucket X n tx = Inr tx'"
    and delete_has: "delete_bucket X n tx = Inr tx' \<Longrightarrow> has_bucket X tx' m \<longleftrightarrow> m \<noteq> n \<and> has_bucket X tx m"
    and delete_get: "delete_bucket X n tx = Inr tx' \<Longrightarrow>
      bucket_get X tx' m k = (if m = n then None else bucket_get X tx m k)"
    and delete_succeeds: "has_bucket X tx n \<Longrightarrow> \<exists>tx'. delete_bucket X n tx = Inr tx'"
    and put_has: "bucket_put X n k v tx = Inr tx' \<Longrightarrow> has_bucket X tx' m \<longleftrightarrow> has_bucket X tx m"
    and put_get: "bucket_put X n k v tx = Inr tx' \<Longrightarrow>
      bucket_get X tx' m j = (if m = n \<and> j = k then Some v else bucket_get X tx m j)"
    and put_succeeds: "has_bucket X tx n \<Longrightarrow> k \<noteq> [] \<Longrightarrow> length k \<le> max_key_size \<Longrightarrow>
      value_fits X v \<Longrightarrow> \<exists>tx'. bucket_put X n k v tx = Inr tx'"
    and put_value_too_large: "has_bucket X tx n \<Longrightarrow> k \<noteq> [] \<Longrightarrow> length k \<le> max_key_size \<Longrightarrow>
      \<not> value_fits X v \<Longrightarrow> bucket_put X n k v tx = Inl ErrValueTooLarge"
    and stored_key: "bucket_get X tx n k = Some v \<Longrightarrow> key_ok k"
    and put_key_required: "bucket_put X n [] v tx = Inl ErrKeyRequired"
    and put_key_too_large: "max_key_size < length k \<Longrightarrow> bucket_put X n k v tx = Inl ErrKeyTooLarge"
    and del_has: "bucket_delete X n k tx = Inr tx' \<Longrightarrow> has_bucket X tx' m \<longleftrightarrow> has_bucket X tx m"
    and del_get: "bucket_delete X n k tx = Inr tx' \<Longrightarrow>
      bucket_get X tx' m j = (if m = n \<and> j = k then None else bucket_get X tx m j)"
    and del_succeeds: "has_bucket X tx n \<Longrightarrow> \<exists>tx'. bucket_delete X n k tx = Inr tx'"
    and items_sorted: "sorted_wrt (<) (map fst (bucket_items X tx n))"
    and items_map: "map_of (bucket_items X tx n) = bucket_get X tx n"
    and seek_items: "bucket_seek X tx n p = filter (\<lambda>(k, v). p \<le> k) (bucket_items X tx n)"
    and names_sorted: "sorted_wrt (<) (bucket_names X tx)"
    and names_set: "set (bucket_names X tx) = {n. has_bucket X tx n}"
    and raw_bytes: "to_bytes X (of_bytes X b) = b"

text \<open>Roaring: a bitmap is a set of 32-bit integers, visited in ascending order; writing and
  reading it back gives the same set, and the written form is never empty.\<close>

locale roaring_laws =
  fixes X :: "('tx, 'v, 'bm) ext"
  assumes iter_new: "bm_iter X (bm_new X) = []"
    and iter_sorted: "sorted_wrt (<) (bm_iter X b)"
    and iter_add: "set (bm_iter X (bm_add X i b)) = insert i (set (bm_iter X b))"
    and iter_remove: "set (bm_iter X (bm_remove X i b)) = set (bm_iter X b) - {i}"
    and checked_add: "bm_checked_add X i b = (i \<notin> set (bm_iter X b), bm_add X i b)"
    and checked_remove: "bm_checked_remove X i b = (i \<in> set (bm_iter X b), bm_remove X i b)"
    and iter_or: "set (bm_iter X (bm_or X b c)) = set (bm_iter X b) \<union> set (bm_iter X c)"
    and is_empty: "bm_is_empty X b \<longleftrightarrow> bm_iter X b = []"
    and iter_optimize: "bm_iter X (bm_run_optimize X b) = bm_iter X b"
    and read_write: "\<exists>b'. bm_read X (bm_write X b) = Some b' \<and> bm_iter X b' = bm_iter X b"
    and write_nonempty: "bm_write X b \<noteq> []"

text \<open>Snappy: decoding inverts encoding. Whether the empty block decodes to a nil slice is
  left open.\<close>

locale snappy_laws =
  fixes X :: "('tx, 'v, 'bm) ext"
  assumes snappy_roundtrip: "\<exists>s. snappy_decode X (snappy_encode X d) = Some s \<and> contents s = d"

text \<open>The standard library: decoded objects have distinct keys and valid strings, encoding a
  struct and decoding it gives it back when its strings are valid UTF-8 (other strings are
  altered, but still decode), sorting permutes and orders, a range over a map visits every key
  once. Marshalling fails for infinities and NaNs, which no JSON number denotes.\<close>

definition stats_finite :: "statsValue \<Rightarrow> bool" where
  "stats_finite v \<longleftrightarrow> f64_finite (Mean v) \<and> f64_finite (M2 v) \<and> f64_finite (SMin v) \<and> f64_finite (SMax v)"

locale golib_laws =
  fixes X :: "('tx, 'v, 'bm) ext"
  assumes unmarshal_wf: "json_unmarshal X d = Some v \<Longrightarrow> any_wf v"
    and unmarshal_empty: "json_unmarshal X [] = None"
    and meta_roundtrip: "dec_meta X (enc_meta X m) = Some m"
    and log_decodes: "dec_log X (enc_log X es) \<noteq> None"
    and log_roundtrip: "\<forall>e \<in> set es. utf8_ok (EType e) \<and> utf8_ok (EDocID e) \<Longrightarrow>
      dec_log X (enc_log X es) = Some es"
    and group_roundtrip: "dec_group X (enc_group X g) = Some g"
    and stats_encodes: "enc_stats X sv \<noteq> None \<longleftrightarrow> stats_finite sv"
    and stats_roundtrip: "enc_stats X sv = Some raw \<Longrightarrow> dec_stats X raw = Some sv"
    and stats_decoded: "dec_stats X raw = Some sv \<Longrightarrow> stats_finite sv"
    and abs_decodes: "dec_abs X (enc_abs X a) \<noteq> None"
    and abs_roundtrip: "utf8_ok (AbsDocID a) \<Longrightarrow> dec_abs X (enc_abs X a) = Some a"
    and chain_decodes: "dec_chain X (enc_chain X c) \<noteq> None"
    and chain_roundtrip: "\<forall>s \<in> set c. utf8_ok s \<Longrightarrow> dec_chain X (enc_chain X c) = Some c"
    and scope_roundtrip: "dec_scope X (enc_scope X sm) = Some sm"
    and sort_mset: "mset (sort_slice X es) = mset es"
    and sort_sorted: "sorted_wrt (\<lambda>a b. sint (At a) \<le> sint (At b)) (sort_slice X es)"
    and range_mset: "mset (range_order X ks) = mset ks"

locale ext_laws = bbolt_laws X + roaring_laws X + snappy_laws X + golib_laws X
  for X :: "('tx, 'v, 'bm) ext"

section \<open>Ranging over a map\<close>

text \<open>The entries of a map in the order in which \<^verbatim>\<open>range\<close> visits them.\<close>

definition ranged :: "('tx, 'v, 'bm) ext \<Rightarrow> (string \<times> 'a) list \<Rightarrow> (string \<times> 'a) list" where
  "ranged X m = map (\<lambda>k. (k, the (map_of m k))) (range_order X (map fst m))"

context golib_laws
begin

text \<open>Visiting a map visits each of its keys once.\<close>

lemma ranged_keys: "distinct (map fst m) \<Longrightarrow> distinct (map fst (ranged X m))"
  using range_mset [of "map fst m"] by (simp add: ranged_def comp_def) (metis mset_eq_imp_distinct_iff mset_map)

lemma ranged_map: "map_of (ranged X m) = map_of m"
proof
  fix k
  have s: "set (range_order X (map fst m)) = fst ` set m"
    using range_mset [of "map fst m"] by (metis mset_eq_setD image_set)
  show "map_of (ranged X m) k = map_of m k"
  proof (cases "k \<in> fst ` set m")
    case True
    then obtain v where "map_of m k = Some v" by (metis domD dom_map_of_conv_image_fst)
    with True show ?thesis
      unfolding ranged_def by (simp add: map_of_map_keys s map_of_map_restrict)
  next
    case False
    then have "map_of m k = None" by (simp add: map_of_eq_None_iff)
    with False show ?thesis by (simp add: ranged_def map_of_map_restrict s)
  qed
qed

end

end
