(* ===== verification/Binary.thy ===== *)
theory Binary
  imports Talon_Prelude
begin

text \<open>
  \<^verbatim>\<open>encoding/binary\<close>: fixed-width big- and little-endian encodings. The big-endian form keeps
  the numeric order under bytewise comparison, which the numeric range index and the order
  of bitmap members rely on.
\<close>

fun be_bytes :: "nat \<Rightarrow> nat \<Rightarrow> bytes" where
  "be_bytes 0 v = []"
| "be_bytes (Suc n) v = be_bytes n (v div 256) @ [char_of v]"

definition be_val :: "bytes \<Rightarrow> nat" where
  "be_val b = foldl (\<lambda>a c. a * 256 + of_char c) 0 b"

definition BigEndian_PutUint32 :: "u32 \<Rightarrow> bytes" where
  "BigEndian_PutUint32 w = be_bytes 4 (unat w)"

definition BigEndian_Uint32 :: "bytes \<Rightarrow> u32" where
  "BigEndian_Uint32 b = word_of_nat (be_val (take 4 b))"

definition BigEndian_PutUint64 :: "u64 \<Rightarrow> bytes" where
  "BigEndian_PutUint64 w = be_bytes 8 (unat w)"

definition BigEndian_Uint64 :: "bytes \<Rightarrow> u64" where
  "BigEndian_Uint64 b = word_of_nat (be_val (take 8 b))"

definition LittleEndian_PutUint32 :: "u32 \<Rightarrow> bytes" where
  "LittleEndian_PutUint32 w = rev (be_bytes 4 (unat w))"

definition LittleEndian_Uint32 :: "bytes \<Rightarrow> u32" where
  "LittleEndian_Uint32 b = word_of_nat (be_val (rev (take 4 b)))"

lemma length_be_bytes [simp]: "length (be_bytes n v) = n"
  by (induction n arbitrary: v) auto

lemma be_val_append_single [simp]: "be_val (b @ [c]) = be_val b * 256 + of_char c"
  by (simp add: be_val_def)

lemma be_val_Nil [simp]: "be_val [] = 0"
  by (simp add: be_val_def)

lemma be_val_be_bytes: "be_val (be_bytes n v) = v mod 256 ^ n"
proof (induction n arbitrary: v)
  case (Suc n)
  have "v mod (256 * 256 ^ n) = 256 * (v div 256 mod 256 ^ n) + v mod 256"
    by (rule mod_mult2_eq)
  with Suc show ?case by simp
qed simp

lemma be_val_be_bytes_id [simp]: "v < 256 ^ n \<Longrightarrow> be_val (be_bytes n v) = v"
  by (simp add: be_val_be_bytes)

lemma be_bytes_inject:
  "v < 256 ^ n \<Longrightarrow> w < 256 ^ n \<Longrightarrow> be_bytes n v = be_bytes n w \<longleftrightarrow> v = w"
  by (metis be_val_be_bytes_id)

lemma snoc_less_iff:
  fixes xs ys :: "'a::linorder list"
  assumes "length xs = length ys"
  shows "xs @ [a] < ys @ [b] \<longleftrightarrow> xs < ys \<or> xs = ys \<and> a < b"
  using assms by (induction xs ys rule: list_induct2) auto

lemma char_less_iff: "c < d \<longleftrightarrow> (of_char c :: nat) < of_char d"
  by (simp add: less_char_def)

lemma digits_less_iff:
  fixes q q' r r' b :: nat
  assumes "r < b" "r' < b"
  shows "q * b + r < q' * b + r' \<longleftrightarrow> q < q' \<or> q = q' \<and> r < r'"
proof -
  have "q * b + r < q' * b + r'" if "q < q'" "r < b" for q q' r r' :: nat
  proof -
    have "q * b + r < Suc q * b" using that by simp
    also have "\<dots> \<le> q' * b" using that by (intro mult_right_mono) simp_all
    finally show ?thesis by simp
  qed
  from this [of q q' r r'] this [of q' q r' r] assms show ?thesis
    by (cases q q' rule: linorder_cases) auto
qed

lemma be_bytes_less_iff:
  "v < 256 ^ n \<Longrightarrow> w < 256 ^ n \<Longrightarrow> be_bytes n v < be_bytes n w \<longleftrightarrow> v < w"
proof (induction n arbitrary: v w)
  case (Suc n)
  then have d: "v div 256 < 256 ^ n" "w div 256 < 256 ^ n"
    by (simp_all add: less_mult_imp_div_less mult.commute)
  have "v < w \<longleftrightarrow> v div 256 < w div 256 \<or> v div 256 = w div 256 \<and> v mod 256 < w mod 256"
    using digits_less_iff [of "v mod 256" 256 "w mod 256" "v div 256" "w div 256"]
    by (simp only: div_mult_mod_eq mod_less_divisor zero_less_numeral)
  with d show ?case
    by (simp add: snoc_less_iff Suc.IH be_bytes_inject char_less_iff)
qed simp

lemma unat_u32_bound: "unat (w :: u32) < 256 ^ 4"
  using unsigned_less [of w] by simp

lemma unat_u64_bound: "unat (w :: u64) < 256 ^ 8"
  using unsigned_less [of w] by simp

lemma length_PutUint32 [simp]: "length (BigEndian_PutUint32 w) = 4"
  by (simp add: BigEndian_PutUint32_def)

lemma length_PutUint64 [simp]: "length (BigEndian_PutUint64 w) = 8"
  by (simp add: BigEndian_PutUint64_def)

lemma BigEndian_Uint32_Put [simp]: "BigEndian_Uint32 (BigEndian_PutUint32 w @ r) = w"
  using unat_u32_bound [of w] by (simp add: BigEndian_Uint32_def BigEndian_PutUint32_def)

lemma BigEndian_Uint32_Put' [simp]: "BigEndian_Uint32 (BigEndian_PutUint32 w) = w"
  using BigEndian_Uint32_Put [of w "[]"] by (simp del: BigEndian_Uint32_Put)

lemma BigEndian_Uint64_Put [simp]: "BigEndian_Uint64 (BigEndian_PutUint64 w @ r) = w"
  using unat_u64_bound [of w] by (simp add: BigEndian_Uint64_def BigEndian_PutUint64_def)

lemma PutUint32_inject [simp]: "BigEndian_PutUint32 v = BigEndian_PutUint32 w \<longleftrightarrow> v = w"
  by (metis BigEndian_Uint32_Put')

lemma PutUint64_inject [simp]: "BigEndian_PutUint64 v = BigEndian_PutUint64 w \<longleftrightarrow> v = w"
  by (metis BigEndian_Uint64_Put append_Nil2)

lemma PutUint64_less_iff: "BigEndian_PutUint64 v < BigEndian_PutUint64 w \<longleftrightarrow> v < w"
  unfolding BigEndian_PutUint64_def word_less_nat_alt
  by (rule be_bytes_less_iff [OF unat_u64_bound unat_u64_bound])

lemma PutUint32_less_iff: "BigEndian_PutUint32 v < BigEndian_PutUint32 w \<longleftrightarrow> v < w"
  unfolding BigEndian_PutUint32_def word_less_nat_alt
  by (rule be_bytes_less_iff [OF unat_u32_bound unat_u32_bound])

lemma PutUint32_nonempty [simp]: "BigEndian_PutUint32 w \<noteq> []"
  by (metis length_PutUint32 list.size(3) zero_neq_numeral)

text \<open>Appending a fixed-width suffix keeps the order of the prefix.\<close>

lemma append_less_iff:
  fixes xs ys :: "'a::linorder list"
  assumes "length xs = length ys"
  shows "xs @ a < ys @ b \<longleftrightarrow> xs < ys \<or> xs = ys \<and> a < b"
  using assms by (induction xs ys rule: list_induct2) auto

lemma LittleEndian_Uint32_Put [simp]: "LittleEndian_Uint32 (LittleEndian_PutUint32 w @ r) = w"
  using unat_u32_bound [of w] by (simp add: LittleEndian_Uint32_def LittleEndian_PutUint32_def)

lemma length_LE_PutUint32 [simp]: "length (LittleEndian_PutUint32 w) = 4"
  by (simp add: LittleEndian_PutUint32_def)

end
