(* ===== verification/Buckets.thy ===== *)
theory Buckets
  imports Externals Binary
begin

text \<open>
  Reading and writing buckets inside a transaction: what a call leaves alone (\<open>frame\<close>), the
  contents of a bucket as a list (\<open>bucket_items\<close>), and the roaring bitmaps that three of the
  indexes keep under a key (\<^verbatim>\<open>readBitmap\<close>, \<^verbatim>\<open>writeBitmap\<close>).
\<close>

section \<open>Frames\<close>

text \<open>The transaction \<open>tx'\<close> shows the same buckets as \<open>tx\<close>, the ones named in \<open>N\<close> apart.\<close>

definition frame :: "('tx, 'v, 'bm) ext \<Rightarrow> string set \<Rightarrow> 'tx \<Rightarrow> 'tx \<Rightarrow> bool" where
  "frame X N tx tx' \<longleftrightarrow>
     (\<forall>n. n \<notin> N \<longrightarrow> has_bucket X tx' n = has_bucket X tx n \<and> bucket_get X tx' n = bucket_get X tx n)"

lemma frame_refl [simp, frame_intros]: "frame X N tx tx"
  by (simp add: frame_def)

lemma frame_trans: "frame X N tx tx' \<Longrightarrow> frame X N tx' tx'' \<Longrightarrow> frame X N tx tx''"
  by (simp add: frame_def)

lemma frame_mono: "frame X M tx tx' \<Longrightarrow> M \<subseteq> N \<Longrightarrow> frame X N tx tx'"
  by (auto simp: frame_def)

lemma frame_get: "frame X N tx tx' \<Longrightarrow> n \<notin> N \<Longrightarrow> bucket_get X tx' n = bucket_get X tx n"
  by (simp add: frame_def)

lemma frame_has: "frame X N tx tx' \<Longrightarrow> n \<notin> N \<Longrightarrow> has_bucket X tx' n = has_bucket X tx n"
  by (simp add: frame_def)

lemma frame_foldR:
  assumes "foldR f xs tx = Inr tx'"
    and "\<And>x tx tx'. x \<in> set xs \<Longrightarrow> f x tx = Inr tx' \<Longrightarrow> frame X N tx tx'"
  shows "frame X N tx tx'"
  using assms(1) frame_refl frame_trans assms(2) by (rule foldR_rel)

context bbolt_laws
begin

lemma frame_create [frame_intros]: "create_bucket X n tx = Inr tx' \<Longrightarrow> n \<in> N \<Longrightarrow> frame X N tx tx'"
  by (auto simp: frame_def create_has create_get)

lemma frame_put [frame_intros]: "bucket_put X n k v tx = Inr tx' \<Longrightarrow> n \<in> N \<Longrightarrow> frame X N tx tx'"
  by (auto simp: frame_def put_has put_get)

lemma frame_del [frame_intros]: "bucket_delete X n k tx = Inr tx' \<Longrightarrow> n \<in> N \<Longrightarrow> frame X N tx tx'"
  by (auto simp: frame_def del_has del_get)

lemma frame_delete_bucket [frame_intros]:
  "delete_bucket X n tx = Inr tx' \<Longrightarrow> n \<in> N \<Longrightarrow> frame X N tx tx'"
  by (auto simp: frame_def delete_has delete_get)

text \<open>A bucket as the list its cursor visits.\<close>

lemma distinct_items: "distinct (map fst (bucket_items X tx n))"
  using items_sorted strict_sorted_iff by blast

lemma in_items_iff: "(k, v) \<in> set (bucket_items X tx n) \<longleftrightarrow> bucket_get X tx n k = Some v"
  using map_of_eq_Some_iff [OF distinct_items] by (metis items_map)

lemma items_cong:
  assumes "bucket_get X tx n = bucket_get X tx' n'"
  shows "bucket_items X tx n = bucket_items X tx' n'"
proof -
  have s: "set (bucket_items X tx n) = set (bucket_items X tx' n')"
    using assms by (auto simp: in_items_iff)
  have "inj_on fst (set (bucket_items X tx n) \<union> set (bucket_items X tx' n'))"
    using distinct_items [of tx n] s by (simp add: distinct_map)
  then show ?thesis
    by (rule map_sorted_distinct_set_unique)
       (use items_sorted distinct_items s in \<open>auto simp: strict_sorted_iff\<close>)
qed

lemma frame_items: "frame X N tx tx' \<Longrightarrow> n \<notin> N \<Longrightarrow> bucket_items X tx' n = bucket_items X tx n"
  by (rule items_cong) (rule frame_get)

lemma no_bucket_get: "\<not> has_bucket X tx n \<Longrightarrow> bucket_get X tx n k = None"
  using get_has by (metis not_Some_eq)

end

section \<open>Bitmaps under a key\<close>

definition writeBitmap ::
  "('tx, 'v, 'bm) ext \<Rightarrow> string \<Rightarrow> bytes \<Rightarrow> 'bm \<Rightarrow> 'tx \<Rightarrow> 'tx result" where
  "writeBitmap X n key bm tx =
     liftB (bucket_put X n key (of_bytes X (bm_write X (bm_run_optimize X bm))) tx)"

definition readBitmap :: "('tx, 'v, 'bm) ext \<Rightarrow> string \<Rightarrow> bytes \<Rightarrow> 'tx \<Rightarrow> 'bm result" where
  "readBitmap X n key tx =
     (case bucket_get X tx n key of
        None \<Rightarrow> Inr (bm_new X)
      | Some raw \<Rightarrow>
          (case bm_read X (to_bytes X raw) of
             None \<Rightarrow> Inl (NewErr ''roaring: decode'')
           | Some bm \<Rightarrow> Inr bm))"

text \<open>The set of internal ids stored under a key: empty when the key is absent.\<close>

definition bm_at :: "('tx, 'v, 'bm) ext \<Rightarrow> 'tx \<Rightarrow> string \<Rightarrow> bytes \<Rightarrow> u32 set" where
  "bm_at X tx n k =
     (case bucket_get X tx n k of
        None \<Rightarrow> {}
      | Some raw \<Rightarrow>
          (case bm_read X (to_bytes X raw) of None \<Rightarrow> {} | Some b \<Rightarrow> set (bm_iter X b)))"

text \<open>Every stored value of the bucket is a bitmap with a member.\<close>

definition bm_wf :: "('tx, 'v, 'bm) ext \<Rightarrow> 'tx \<Rightarrow> string \<Rightarrow> bool" where
  "bm_wf X tx n \<longleftrightarrow>
     (\<forall>k raw. bucket_get X tx n k = Some raw \<longrightarrow>
        (\<exists>b. bm_read X (to_bytes X raw) = Some b \<and> bm_iter X b \<noteq> []))"

lemma bm_at_cong: "bucket_get X tx n k = bucket_get X tx' n k \<Longrightarrow> bm_at X tx n k = bm_at X tx' n k"
  by (simp add: bm_at_def)

lemma bm_wf_cong: "bucket_get X tx n = bucket_get X tx' n \<Longrightarrow> bm_wf X tx n = bm_wf X tx' n"
  by (simp add: bm_wf_def)

lemma bm_wf_no_get: "(\<And>k. bucket_get X tx n k = None) \<Longrightarrow> bm_wf X tx n"
  by (simp add: bm_wf_def)

context ext_laws
begin

lemma readBitmap_set:
  "readBitmap X n k tx = Inr bm \<Longrightarrow> set (bm_iter X bm) = bm_at X tx n k"
  by (auto simp: readBitmap_def bm_at_def iter_new split: option.splits)

lemma readBitmap_ok: "bm_wf X tx n \<Longrightarrow> \<exists>bm. readBitmap X n k tx = Inr bm"
  by (cases "bucket_get X tx n k") (force simp: readBitmap_def bm_wf_def split: option.splits)+

lemma writeBitmap_get:
  assumes "writeBitmap X n k bm tx = Inr tx'"
  shows "bucket_get X tx' m j =
    (if m = n \<and> j = k then Some (of_bytes X (bm_write X (bm_run_optimize X bm)))
     else bucket_get X tx m j)"
  using assms put_get unfolding writeBitmap_def liftB_Inr_iff by metis

lemma writeBitmap_bm_at:
  assumes "writeBitmap X n k bm tx = Inr tx'"
  shows "bm_at X tx' m j = (if m = n \<and> j = k then set (bm_iter X bm) else bm_at X tx m j)"
proof (cases "m = n \<and> j = k")
  case True
  obtain b where "bm_read X (bm_write X (bm_run_optimize X bm)) = Some b"
    "bm_iter X b = bm_iter X (bm_run_optimize X bm)"
    using read_write by blast
  with True show ?thesis
    by (simp add: bm_at_def writeBitmap_get [OF assms] raw_bytes iter_optimize)
next
  case False
  then have "bucket_get X tx' m j = bucket_get X tx m j"
    by (subst writeBitmap_get [OF assms]) (rule if_not_P)
  with False show ?thesis
    unfolding bm_at_def by (simp only: if_False if_not_P)
qed

lemma writeBitmap_wf:
  assumes "writeBitmap X n k bm tx = Inr tx'" "bm_wf X tx m" "bm_iter X bm \<noteq> []"
  shows "bm_wf X tx' m"
  unfolding bm_wf_def
proof (intro allI impI)
  fix j raw
  assume raw: "bucket_get X tx' m j = Some raw"
  obtain b where b: "bm_read X (bm_write X (bm_run_optimize X bm)) = Some b"
    "bm_iter X b = bm_iter X (bm_run_optimize X bm)"
    using read_write by blast
  show "\<exists>b. bm_read X (to_bytes X raw) = Some b \<and> bm_iter X b \<noteq> []"
  proof (cases "m = n \<and> j = k")
    case True
    with raw b assms(3) show ?thesis
      by (auto simp: writeBitmap_get [OF assms(1)] raw_bytes iter_optimize)
  next
    case False
    with raw have "bucket_get X tx m j = Some raw"
      by (auto simp: writeBitmap_get [OF assms(1)] split: if_splits)
    with assms(2) show ?thesis unfolding bm_wf_def by blast
  qed
qed

lemma del_wf:
  assumes "bucket_delete X n k tx = Inr tx'" "bm_wf X tx m"
  shows "bm_wf X tx' m"
  using assms(2) unfolding bm_wf_def del_get [OF assms(1)] by (metis option.distinct(1))

lemma del_bm_at:
  assumes "bucket_delete X n k tx = Inr tx'"
  shows "bm_at X tx' m j = (if m = n \<and> j = k then {} else bm_at X tx m j)"
  unfolding bm_at_def del_get [OF assms] by simp

lemma frame_writeBitmap [frame_intros]:
  "writeBitmap X n k bm tx = Inr tx' \<Longrightarrow> n \<in> N \<Longrightarrow> frame X N tx tx'"
  unfolding writeBitmap_def liftB_Inr_iff by (rule frame_put)

end

end
