(* ===== verification/Idmap.thy ===== *)
theory Idmap
  imports Buckets
begin

text \<open>
  \<^verbatim>\<open>bboltstore/idmap.go\<close>: the per-entity two-way mapping between document ids and the dense
  32-bit ids that the bitmaps hold. Ids are handed out by a counter that starts at 1 and is
  never moved back; a counter of 0 means that it has wrapped around.
\<close>

section \<open>Definitions\<close>

definition idmapFwdName :: "string \<Rightarrow> string" where
  "idmapFwdName entityID = ''idmap:'' @ entityID @ '':fwd''"

definition idmapRevName :: "string \<Rightarrow> string" where
  "idmapRevName entityID = ''idmap:'' @ entityID @ '':rev''"

definition idmapMetaName :: "string \<Rightarrow> string" where
  "idmapMetaName entityID = ''idmap:'' @ entityID @ '':meta''"

definition idmapMetaNext :: bytes where
  "idmapMetaNext = ''next''"

text \<open>The counter as \<^verbatim>\<open>idmapAssign\<close> reads it, and the writes of a fresh assignment.\<close>

definition idmapReadNext :: "('tx, 'v, 'bm) ext \<Rightarrow> string \<Rightarrow> 'tx \<Rightarrow> u32 result" where
  "idmapReadNext X entityID tx =
     (case bucket_get X tx (idmapMetaName entityID) idmapMetaNext of
        None \<Rightarrow> Inr 1
      | Some raw \<Rightarrow>
          if length (to_bytes X raw) \<noteq> 4 then Inl (NewErr ''idmap: corrupt meta entry'')
          else Inr (BigEndian_Uint32 (to_bytes X raw)))"

definition idmapWrite ::
  "('tx, 'v, 'bm) ext \<Rightarrow> string \<Rightarrow> string \<Rightarrow> u32 \<Rightarrow> 'tx \<Rightarrow> (u32 \<times> 'tx) result" where
  "idmapWrite X entityID docID next tx =
     bindR (liftB (bucket_put X (idmapFwdName entityID) docID
                     (of_bytes X (BigEndian_PutUint32 next)) tx)) (\<lambda>tx.
     bindR (liftB (bucket_put X (idmapRevName entityID) (BigEndian_PutUint32 next)
                     (of_bytes X docID) tx)) (\<lambda>tx.
     bindR (liftB (bucket_put X (idmapMetaName entityID) idmapMetaNext
                     (of_bytes X (BigEndian_PutUint32 (next + 1))) tx)) (\<lambda>tx.
     Inr (next, tx))))"

definition idmapAssign ::
  "('tx, 'v, 'bm) ext \<Rightarrow> string \<Rightarrow> string \<Rightarrow> 'tx \<Rightarrow> (u32 \<times> 'tx) result" where
  "idmapAssign X entityID docID tx =
     bindR (liftB (create_bucket X (idmapFwdName entityID) tx)) (\<lambda>tx.
     case bucket_get X tx (idmapFwdName entityID) docID of
       Some existing \<Rightarrow>
         if length (to_bytes X existing) \<noteq> 4 then Inl (NewErr ''idmap: corrupt fwd entry'')
         else Inr (BigEndian_Uint32 (to_bytes X existing), tx)
     | None \<Rightarrow>
         bindR (liftB (create_bucket X (idmapRevName entityID) tx)) (\<lambda>tx.
         bindR (liftB (create_bucket X (idmapMetaName entityID) tx)) (\<lambda>tx.
         bindR (idmapReadNext X entityID tx) (\<lambda>next.
         if next = 0 then Inl (NewErr ''idmap: counter exhausted (uint32 wraparound)'')
         else idmapWrite X entityID docID next tx))))"

definition idmapLookup ::
  "('tx, 'v, 'bm) ext \<Rightarrow> string \<Rightarrow> string \<Rightarrow> 'tx \<Rightarrow> (u32 option) result" where
  "idmapLookup X entityID docID tx =
     (if \<not> has_bucket X tx (idmapFwdName entityID) then Inr None
      else case bucket_get X tx (idmapFwdName entityID) docID of
        None \<Rightarrow> Inr None
      | Some raw \<Rightarrow>
          if length (to_bytes X raw) \<noteq> 4 then Inl (NewErr ''idmap: corrupt fwd entry'')
          else Inr (Some (BigEndian_Uint32 (to_bytes X raw))))"

definition idmapReverse ::
  "('tx, 'v, 'bm) ext \<Rightarrow> string \<Rightarrow> u32 \<Rightarrow> 'tx \<Rightarrow> (string option) result" where
  "idmapReverse X entityID internalID tx =
     (if \<not> has_bucket X tx (idmapRevName entityID) then Inr None
      else case bucket_get X tx (idmapRevName entityID) (BigEndian_PutUint32 internalID) of
        None \<Rightarrow> Inr None
      | Some raw \<Rightarrow> Inr (Some (to_bytes X raw)))"

section \<open>The mapping a transaction shows\<close>

definition id_of :: "('tx, 'v, 'bm) ext \<Rightarrow> 'tx \<Rightarrow> string \<Rightarrow> string \<Rightarrow> u32 option" where
  "id_of X tx e d =
     map_option (\<lambda>raw. BigEndian_Uint32 (to_bytes X raw)) (bucket_get X tx (idmapFwdName e) d)"

definition doc_of :: "('tx, 'v, 'bm) ext \<Rightarrow> 'tx \<Rightarrow> string \<Rightarrow> u32 \<Rightarrow> string option" where
  "doc_of X tx e i =
     map_option (to_bytes X) (bucket_get X tx (idmapRevName e) (BigEndian_PutUint32 i))"

definition next_id :: "('tx, 'v, 'bm) ext \<Rightarrow> 'tx \<Rightarrow> string \<Rightarrow> u32" where
  "next_id X tx e =
     (case bucket_get X tx (idmapMetaName e) idmapMetaNext of
        None \<Rightarrow> 1 | Some raw \<Rightarrow> BigEndian_Uint32 (to_bytes X raw))"

definition idmap_names :: "string \<Rightarrow> string set" where
  "idmap_names e = {idmapFwdName e, idmapRevName e, idmapMetaName e}"

text \<open>The invariant: stored ids and the counter have four bytes, the two directions are
  inverse to each other, and every id handed out is positive and below the counter (which
  has wrapped to 0 once the last id is gone).\<close>

definition idmap_ok :: "('tx, 'v, 'bm) ext \<Rightarrow> 'tx \<Rightarrow> string \<Rightarrow> bool" where
  "idmap_ok X tx e \<longleftrightarrow>
     (\<forall>d raw. bucket_get X tx (idmapFwdName e) d = Some raw \<longrightarrow> length (to_bytes X raw) = 4) \<and>
     (\<forall>raw. bucket_get X tx (idmapMetaName e) idmapMetaNext = Some raw \<longrightarrow> length (to_bytes X raw) = 4) \<and>
     (\<forall>d i. id_of X tx e d = Some i \<longleftrightarrow> doc_of X tx e i = Some d) \<and>
     (\<forall>d i. id_of X tx e d = Some i \<longrightarrow> 0 < i \<and> (next_id X tx e = 0 \<or> i < next_id X tx e))"

lemma idmap_name_neq [simp]:
  "idmapFwdName e \<noteq> idmapRevName e'" "idmapFwdName e \<noteq> idmapMetaName e'"
  "idmapRevName e \<noteq> idmapMetaName e'" "idmapRevName e \<noteq> idmapFwdName e'"
  "idmapMetaName e \<noteq> idmapFwdName e'" "idmapMetaName e \<noteq> idmapRevName e'"
  by (auto simp: idmapFwdName_def idmapRevName_def idmapMetaName_def dest: arg_cong [where f = rev])

lemma idmap_views_cong:
  assumes "\<And>n. n \<in> idmap_names e \<Longrightarrow> bucket_get X tx n = bucket_get X tx' n"
  shows "id_of X tx e = id_of X tx' e" "doc_of X tx e = doc_of X tx' e"
    "next_id X tx e = next_id X tx' e" "idmap_ok X tx e = idmap_ok X tx' e"
  using assms [of "idmapFwdName e"] assms [of "idmapRevName e"] assms [of "idmapMetaName e"]
  by (auto simp: idmap_names_def fun_eq_iff id_of_def doc_of_def next_id_def idmap_ok_def)

lemma frame_idmap_views:
  assumes "frame X N tx tx'" "idmap_names e \<inter> N = {}"
  shows "id_of X tx' e = id_of X tx e" "doc_of X tx' e = doc_of X tx e"
    "idmap_ok X tx' e = idmap_ok X tx e"
proof -
  have "\<And>n. n \<in> idmap_names e \<Longrightarrow> bucket_get X tx' n = bucket_get X tx n"
    using assms(2) by (intro frame_get [OF assms(1)]) auto
  then show "id_of X tx' e = id_of X tx e" "doc_of X tx' e = doc_of X tx e"
    "idmap_ok X tx' e = idmap_ok X tx e"
    by (simp_all only: idmap_views_cong [of e X tx' tx])
qed

lemma idmap_okD:
  assumes "idmap_ok X tx e"
  shows "bucket_get X tx (idmapFwdName e) d = Some raw \<Longrightarrow> length (to_bytes X raw) = 4"
    "bucket_get X tx (idmapMetaName e) idmapMetaNext = Some raw \<Longrightarrow> length (to_bytes X raw) = 4"
    "id_of X tx e d = Some i \<longleftrightarrow> doc_of X tx e i = Some d"
    "id_of X tx e d = Some i \<Longrightarrow> 0 < i"
    "id_of X tx e d = Some i \<Longrightarrow> next_id X tx e = 0 \<or> i < next_id X tx e"
  using assms unfolding idmap_ok_def by blast+

lemma idmap_ok_empty:
  "(\<And>n k. n \<in> idmap_names e \<Longrightarrow> bucket_get X tx n k = None) \<Longrightarrow> idmap_ok X tx e"
  by (simp add: idmap_ok_def idmap_names_def id_of_def doc_of_def)

section \<open>Correctness\<close>

context ext_laws
begin

lemma idmapWrite_ok:
  assumes "idmapWrite X e d i tx = Inr (j, tx')"
  shows "j = i"
    "frame X (idmap_names e) tx tx'"
    "id_of X tx' e d' = (if d' = d then Some i else id_of X tx e d')"
    "doc_of X tx' e i' = (if i' = i then Some d else doc_of X tx e i')"
    "next_id X tx' e = i + 1"
    "\<And>d' raw. bucket_get X tx' (idmapFwdName e) d' = Some raw \<Longrightarrow>
       bucket_get X tx (idmapFwdName e) d' = Some raw \<or> length (to_bytes X raw) = 4"
    "\<And>raw. bucket_get X tx' (idmapMetaName e) idmapMetaNext = Some raw \<Longrightarrow> length (to_bytes X raw) = 4"
proof -
  from assms obtain t1 t2 where
    p1: "bucket_put X (idmapFwdName e) d (of_bytes X (BigEndian_PutUint32 i)) tx = Inr t1" and
    p2: "bucket_put X (idmapRevName e) (BigEndian_PutUint32 i) (of_bytes X d) t1 = Inr t2" and
    p3: "bucket_put X (idmapMetaName e) idmapMetaNext (of_bytes X (BigEndian_PutUint32 (i + 1))) t2 = Inr tx'"
    and j: "j = i"
    by (auto simp: idmapWrite_def result_simps)
  note gets = put_get [OF p1] put_get [OF p2] put_get [OF p3]
  show "j = i" by fact
  show "frame X (idmap_names e) tx tx'"
    by (rule frame_trans [OF frame_put [OF p1] frame_trans [OF frame_put [OF p2] frame_put [OF p3]]])
       (simp_all add: idmap_names_def)
  show "id_of X tx' e d' = (if d' = d then Some i else id_of X tx e d')"
    by (simp add: id_of_def gets raw_bytes)
  show "doc_of X tx' e i' = (if i' = i then Some d else doc_of X tx e i')"
    by (simp add: doc_of_def gets raw_bytes)
  show "next_id X tx' e = i + 1"
    by (simp add: next_id_def gets raw_bytes)
  show "bucket_get X tx' (idmapFwdName e) d' = Some raw \<Longrightarrow>
       bucket_get X tx (idmapFwdName e) d' = Some raw \<or> length (to_bytes X raw) = 4" for d' raw
    by (auto simp: gets raw_bytes split: if_splits)
  show "bucket_get X tx' (idmapMetaName e) idmapMetaNext = Some raw \<Longrightarrow> length (to_bytes X raw) = 4" for raw
    by (auto simp: gets raw_bytes)
qed

text \<open>Either the document already has its id and nothing but the empty bucket is created, or
  the counter's value is recorded under a document that had none.\<close>

lemma idmapAssign_cases:
  assumes "idmapAssign X e d tx = Inr (i, tx')"
  obtains (existing) "id_of X tx e d = Some i" "\<And>n. bucket_get X tx' n = bucket_get X tx n"
      "frame X (idmap_names e) tx tx'"
  | (fresh) t where "id_of X tx e d = None" "\<And>n. bucket_get X t n = bucket_get X tx n"
      "frame X (idmap_names e) tx t"
      "i = next_id X tx e" "i \<noteq> 0" "idmapWrite X e d i t = Inr (i, tx')"
proof -
  from assms obtain t1 where c1: "create_bucket X (idmapFwdName e) tx = Inr t1"
    by (auto simp: idmapAssign_def result_simps)
  have g1: "bucket_get X t1 n = bucket_get X tx n" for n
    by (rule ext) (rule create_get [OF c1])
  have f1: "frame X (idmap_names e) tx t1"
    by (rule frame_create [OF c1]) (simp add: idmap_names_def)
  show thesis
  proof (cases "bucket_get X tx (idmapFwdName e) d")
    case (Some raw)
    with assms c1 have "i = BigEndian_Uint32 (to_bytes X raw)" "tx' = t1"
      by (auto simp: idmapAssign_def g1 split: if_splits)
    with Some g1 f1 show thesis
      by (intro existing) (auto simp: id_of_def)
  next
    case None
    with assms c1 obtain t2 t3 nxt where
      c2: "create_bucket X (idmapRevName e) t1 = Inr t2" and
      c3: "create_bucket X (idmapMetaName e) t2 = Inr t3" and
      nx: "idmapReadNext X e t3 = Inr nxt" "nxt \<noteq> 0" and
      w: "idmapWrite X e d nxt t3 = Inr (i, tx')"
      by (auto simp: idmapAssign_def g1 result_simps split: if_splits)
    have g3: "bucket_get X t3 n = bucket_get X tx n" for n
      by (rule ext) (simp add: create_get [OF c3] create_get [OF c2] g1)
    have f3: "frame X (idmap_names e) tx t3"
      by (rule frame_trans [OF f1 frame_trans [OF frame_create [OF c2] frame_create [OF c3]]])
         (simp_all add: idmap_names_def)
    have "i = nxt" by (rule idmapWrite_ok(1) [OF w])
    moreover have "nxt = next_id X tx e"
      using nx(1) by (auto simp: idmapReadNext_def next_id_def g3 split: option.splits if_splits)
    ultimately show thesis
      using None w nx(2) g3 f3 by (intro fresh [of t3]) (auto simp: id_of_def)
  qed
qed

lemma idmapAssign_frame [frame_intros]:
  assumes "idmapAssign X e d tx = Inr (i, tx')"
  shows "frame X (idmap_names e) tx tx'"
  using assms by (cases rule: idmapAssign_cases) (blast intro: frame_trans idmapWrite_ok(2))+

lemma idmapAssign_id_of:
  assumes "idmapAssign X e d tx = Inr (i, tx')"
  shows "id_of X tx' e d' = (if d' = d then Some i else id_of X tx e d')"
  using assms
proof (cases rule: idmapAssign_cases)
  case existing
  then show ?thesis by (simp add: id_of_def)
next
  case (fresh t)
  then show ?thesis
    using idmapWrite_ok(3) [OF fresh(6)] by (simp add: id_of_def)
qed

lemma fresh_id_unused:
  assumes "idmap_ok X tx e" "next_id X tx e \<noteq> 0"
  shows "id_of X tx e d \<noteq> Some (next_id X tx e)"
  using idmap_okD(5) [OF assms(1)] assms(2) by fastforce

lemma word_succ_zero_or_greater: "(i :: u32) + 1 = 0 \<or> i < i + 1"
proof (cases "1 + i = 0")
  case False
  then have "unat (1 + i) = Suc (unat i)" by (rule unatSuc)
  then show ?thesis by (simp add: word_less_nat_alt add.commute)
qed (simp add: add.commute)

lemma idmapAssign_ok:
  assumes "idmap_ok X tx e" "idmapAssign X e d tx = Inr (i, tx')"
  shows "idmap_ok X tx' e"
  using assms(2)
proof (cases rule: idmapAssign_cases)
  case existing
  then show ?thesis
    using assms(1) idmap_views_cong(4) [of e X tx' tx] by simp
next
  case (fresh t)
  note w = idmapWrite_ok [OF fresh(6)]
  have t: "id_of X t e = id_of X tx e" "doc_of X t e = doc_of X tx e"
    "next_id X t e = next_id X tx e" "idmap_ok X t e"
    using idmap_views_cong [of e X t tx] fresh(2) assms(1) by simp_all
  note ok = idmap_okD [OF t(4)]
  have unused: "id_of X t e d' \<noteq> Some i" for d'
    using fresh_id_unused [OF t(4)] fresh(4,5) t(3) by simp
  have none: "id_of X t e d = None" using fresh(1) t(1) by simp
  have inv: "id_of X tx' e d' = Some i' \<longleftrightarrow> doc_of X tx' e i' = Some d'" for d' i'
    using ok(3) [of d' i'] ok(3) [of d i'] unused [of d'] none by (auto simp: w(3,4))
  have bound: "0 < i' \<and> (next_id X tx' e = 0 \<or> i' < next_id X tx' e)" if "id_of X tx' e d' = Some i'" for d' i'
  proof (cases "d' = d")
    case True
    with that fresh(5) word_succ_zero_or_greater [of i] show ?thesis
      by (auto simp: w(3,5) word_neq_0_conv)
  next
    case False
    with that have i': "id_of X t e d' = Some i'" by (simp add: w(3))
    then have "i' < i" using ok(5) [OF i'] fresh(4,5) t(3) by auto
    with ok(4) [OF i'] word_succ_zero_or_greater [of i] show ?thesis
      by (auto simp: w(5))
  qed
  show ?thesis
    unfolding idmap_ok_def using w(6,7) ok(1) inv bound by blast
qed

lemma idmapLookup_ok:
  assumes "idmap_ok X tx e"
  shows "idmapLookup X e d tx = Inr (id_of X tx e d)"
  using idmap_okD(1) [OF assms, of d] no_bucket_get
  by (auto simp: idmapLookup_def id_of_def split: option.splits)

lemma idmapReverse_ok: "idmapReverse X e i tx = Inr (doc_of X tx e i)"
  using no_bucket_get by (auto simp: idmapReverse_def doc_of_def split: option.splits)

end

end
