(* ===== verification/Postings.thy ===== *)
theory Postings
  imports Buckets
begin

text \<open>
  The contract that the inverted, the numeric and the group-by index share: each keeps, per
  key, the ids of the documents that have the key, and one call moves one document from the
  keys of its old contents to the keys of its new contents. From the contract follows, once
  for all three, that an index that is exact for the stored documents stays exact.
\<close>

definition inj_ids :: "(string \<Rightarrow> u32 option) \<Rightarrow> bool" where
  "inj_ids ids \<longleftrightarrow> (\<forall>x y j. ids x = Some j \<longrightarrow> ids y = Some j \<longrightarrow> x = y)"

lemma inj_idsD: "inj_ids ids \<Longrightarrow> ids x = Some j \<Longrightarrow> ids y = Some j \<Longrightarrow> x = y"
  unfolding inj_ids_def by blast

text \<open>An index \<open>M\<close> holds exactly the ids of the documents that have the key; \<open>D\<close> gives the
  contents of every document, empty for one that is not stored.\<close>

definition exact_index ::
  "('k \<Rightarrow> u32 set) \<Rightarrow> (bytes \<Rightarrow> 'k set) \<Rightarrow> (string \<Rightarrow> u32 option) \<Rightarrow> (string \<Rightarrow> bytes) \<Rightarrow> bool" where
  "exact_index M K ids D \<longleftrightarrow> (\<forall>k i. i \<in> M k \<longleftrightarrow> (\<exists>d. ids d = Some i \<and> k \<in> K (D d)))"

lemma exact_index_members:
  "exact_index M K ids D \<Longrightarrow> M k = {i. \<exists>d. ids d = Some i \<and> k \<in> K (D d)}"
  unfolding exact_index_def by blast

lemma exact_index_self:
  assumes "exact_index M K ids D" "inj_ids ids" "ids d = Some i"
  shows "i \<in> M k \<longleftrightarrow> k \<in> K (D d)"
  using assms inj_idsD unfolding exact_index_def by metis

text \<open>A document without contents may receive an id.\<close>

lemma exact_index_assign:
  assumes "exact_index M K ids D" "K [] = {}" "ids d = None \<longrightarrow> D d = []"
    "ids d = None \<or> ids d = Some i"
  shows "exact_index M K (\<lambda>x. if x = d then Some i else ids x) D"
proof (cases "ids d")
  case None
  with assms(3) have "D d = []" by simp
  show ?thesis
    unfolding exact_index_def
  proof (intro allI)
    fix k j
    have "(\<exists>x. (if x = d then Some i else ids x) = Some j \<and> k \<in> K (D x)) \<longleftrightarrow>
        (\<exists>x. ids x = Some j \<and> k \<in> K (D x))"
      using None \<open>D d = []\<close> assms(2) by (metis emptyE option.distinct(1))
    with assms(1) show "j \<in> M k \<longleftrightarrow>
        (\<exists>x. (if x = d then Some i else ids x) = Some j \<and> k \<in> K (D x))"
      unfolding exact_index_def by simp
  qed
next
  case (Some j)
  with assms(4) have "(\<lambda>x. if x = d then Some i else ids x) = ids" by auto
  with assms(1) show ?thesis by simp
qed

locale posting_index =
  fixes X :: "('tx, 'v, 'bm) ext"
    and names :: "string \<Rightarrow> string set"
    and wf :: "'tx \<Rightarrow> string \<Rightarrow> bool"
    and members :: "'tx \<Rightarrow> string \<Rightarrow> 'k \<Rightarrow> u32 set"
    and keys :: "bytes \<Rightarrow> 'k set"
    and update :: "string \<Rightarrow> u32 \<Rightarrow> bytes \<Rightarrow> bytes \<Rightarrow> 'tx \<Rightarrow> 'tx result"
  assumes update_frame: "update e i old new tx = Inr tx' \<Longrightarrow> frame X (names e) tx tx'"
    and update_wf: "update e i old new tx = Inr tx' \<Longrightarrow> wf tx e \<Longrightarrow> wf tx' e"
    and update_other: "update e i old new tx = Inr tx' \<Longrightarrow> wf tx e \<Longrightarrow> j \<noteq> i \<Longrightarrow>
      j \<in> members tx' e k \<longleftrightarrow> j \<in> members tx e k"
    and update_self: "update e i old new tx = Inr tx' \<Longrightarrow> wf tx e \<Longrightarrow>
      (\<And>k. i \<in> members tx e k \<longleftrightarrow> k \<in> keys old) \<Longrightarrow> i \<in> members tx' e k \<longleftrightarrow> k \<in> keys new"
    and frame_view: "frame X N tx tx' \<Longrightarrow> names e \<inter> N = {} \<Longrightarrow>
      members tx' e = members tx e \<and> wf tx' e = wf tx e"
    and no_keys: "keys [] = {}"
begin

abbreviation exact :: "'tx \<Rightarrow> string \<Rightarrow> (string \<Rightarrow> u32 option) \<Rightarrow> (string \<Rightarrow> bytes) \<Rightarrow> bool" where
  "exact tx e ids D \<equiv> wf tx e \<and> exact_index (members tx e) keys ids D"

lemma update_exact:
  assumes run: "update e i (D d) new tx = Inr tx'" and ex: "exact tx e ids D"
    and id: "ids d = Some i" and inj: "inj_ids ids"
  shows "exact tx' e ids (D(d := new))"
proof
  show "wf tx' e" using update_wf [OF run] ex by simp
  show "exact_index (members tx' e) keys ids (D(d := new))"
    unfolding exact_index_def
  proof (intro allI)
    fix k j
    show "j \<in> members tx' e k \<longleftrightarrow> (\<exists>x. ids x = Some j \<and> k \<in> keys ((D(d := new)) x))"
    proof (cases "j = i")
      case True
      have self: "i \<in> members tx e k \<longleftrightarrow> k \<in> keys (D d)" for k
        by (rule exact_index_self [OF ex [THEN conjunct2] inj id])
      have "i \<in> members tx' e k \<longleftrightarrow> k \<in> keys new"
        by (rule update_self [OF run ex [THEN conjunct1] self])
      moreover have "ids x = Some i \<longleftrightarrow> x = d" for x using inj_idsD [OF inj] id by blast
      ultimately show ?thesis using True by simp
    next
      case False
      with id have nd: "ids x = Some j \<Longrightarrow> x \<noteq> d" for x by auto
      have "j \<in> members tx' e k \<longleftrightarrow> j \<in> members tx e k"
        by (rule update_other [OF run ex [THEN conjunct1] False])
      also have "\<dots> \<longleftrightarrow> (\<exists>x. ids x = Some j \<and> k \<in> keys (D x))"
        using ex unfolding exact_index_def by blast
      finally show ?thesis using nd by (metis fun_upd_other)
    qed
  qed
qed

lemma frame_exact: "frame X N tx tx' \<Longrightarrow> names e \<inter> N = {} \<Longrightarrow> exact tx' e ids D = exact tx e ids D"
  using frame_view by simp

lemma assign_exact:
  assumes "exact tx e ids D" "ids d = None \<or> ids d = Some i" "ids d = None \<longrightarrow> D d = []"
  shows "exact tx e (\<lambda>x. if x = d then Some i else ids x) D"
  using assms(1) exact_index_assign [where K = keys and ids = ids and D = D and d = d, OF _ no_keys assms(3,2)]
  by simp

end

end
