(* ===== verification/Terms.thy ===== *)
theory Terms
  imports Externals
begin

text \<open>
  \<^verbatim>\<open>internal/index/terms.go\<close>: walking a decoded JSON document and collecting the terms of the
  inverted index and the fields of the numeric index. The walk is compared with a direct
  description of the leaves of the document (\<open>leaves\<close>).
\<close>

section \<open>Definitions\<close>

record NumericField =
  Path :: string
  Value :: f64

record Result =
  Terms :: "string list"
  Numerics :: "NumericField list"

definition emptyResult :: Result where
  "emptyResult = \<lparr>Terms = [], Numerics = []\<rparr>"

record walker =
  wterms :: "string list"
  wnumerics :: "NumericField list"
  seen :: "string set"

definition emit :: "string \<Rightarrow> walker \<Rightarrow> walker" where
  "emit s w =
     (if s = [] then w
      else if s \<in> seen w then w
      else w\<lparr>seen := insert s (seen w), wterms := wterms w @ [s]\<rparr>)"

definition emitLeaf :: "string list \<Rightarrow> string \<Rightarrow> walker \<Rightarrow> walker" where
  "emitLeaf path value w =
     (let w = emit value w
      in if 0 < length path then emit (last path @ '':'' @ value) w else w)"

definition addNumeric :: "string list \<Rightarrow> f64 \<Rightarrow> walker \<Rightarrow> walker" where
  "addNumeric path x w =
     (if \<not> f64_isNaN x \<and> \<not> f64_isInf x \<and> 0 < length path
      then w\<lparr>wnumerics := wnumerics w @ [\<lparr>Path = last path, Value = x\<rparr>]\<rparr> else w)"

fun walkValue :: "('tx, 'v, 'bm) ext \<Rightarrow> string list \<Rightarrow> any \<Rightarrow> walker \<Rightarrow> walker"
  and walkArray :: "('tx, 'v, 'bm) ext \<Rightarrow> string list \<Rightarrow> any list \<Rightarrow> walker \<Rightarrow> walker"
  and walkObject :: "('tx, 'v, 'bm) ext \<Rightarrow> string list \<Rightarrow> (string \<times> any) list \<Rightarrow> walker \<Rightarrow> walker"
where
  "walkValue X path ANil w = w"
| "walkValue X path (ABool b) w = emitLeaf path (if b then ''true'' else ''false'') w"
| "walkValue X path (AStr s) w = emitLeaf path s w"
| "walkValue X path (AFloat x) w = addNumeric path x (emitLeaf path (format_g X x) w)"
| "walkValue X path (ANumber s) w =
     (let w = emitLeaf path s w
      in case number_float X s of None \<Rightarrow> w | Some f \<Rightarrow> addNumeric path f w)"
| "walkValue X path (AArr xs) w = walkArray X path xs w"
| "walkValue X path (AObj kvs) w = walkObject X path kvs w"
| "walkValue X path v w = emitLeaf path (sprint X v) w"
| "walkArray X path [] w = w"
| "walkArray X path (x # xs) w = walkArray X path xs (walkValue X path x w)"
| "walkObject X path [] w = w"
| "walkObject X path ((k, v) # kvs) w = walkObject X path kvs (walkValue X (path @ [k]) v w)"

definition Extract :: "('tx, 'v, 'bm) ext \<Rightarrow> bytes \<Rightarrow> Result result" where
  "Extract X doc =
     (if length doc = 0 then Inr emptyResult
      else case json_unmarshal X doc of
        None \<Rightarrow> Inl (NewErr ''index: invalid JSON'')
      | Some root \<Rightarrow>
          (case root of
             AObj obj \<Rightarrow>
               (let w = walkObject X [] obj \<lparr>wterms = [], wnumerics = [], seen = {}\<rparr>
                in Inr \<lparr>Terms = sort (wterms w), Numerics = wnumerics w\<rparr>)
           | _ \<Rightarrow> Inl (NewErr ''index: top-level must be object'')))"

text \<open>\<^verbatim>\<open>extractTerms\<close> of \<^verbatim>\<open>indexhooks.go\<close>: no document and no JSON object both give no terms.\<close>

definition extractTerms :: "('tx, 'v, 'bm) ext \<Rightarrow> bytes \<Rightarrow> Result result" where
  "extractTerms X doc =
     (if length doc = 0 then Inr emptyResult
      else case Extract X doc of Inl e \<Rightarrow> Inr emptyResult | Inr r \<Rightarrow> Inr r)"

section \<open>The leaves of a document\<close>

text \<open>A reference description: the scalar leaves with the path that leads to them (array
  positions do not count), and the numbers among them.\<close>

fun leaves :: "('tx, 'v, 'bm) ext \<Rightarrow> string list \<Rightarrow> any \<Rightarrow> (string list \<times> string) list" where
  "leaves X path ANil = []"
| "leaves X path (ABool b) = [(path, if b then ''true'' else ''false'')]"
| "leaves X path (AStr s) = [(path, s)]"
| "leaves X path (AFloat x) = [(path, format_g X x)]"
| "leaves X path (ANumber s) = [(path, s)]"
| "leaves X path (AArr xs) = concat (map (leaves X path) xs)"
| "leaves X path (AObj kvs) = concat (map (\<lambda>kv. leaves X (path @ [fst kv]) (snd kv)) kvs)"
| "leaves X path v = [(path, sprint X v)]"

fun numbers :: "('tx, 'v, 'bm) ext \<Rightarrow> string list \<Rightarrow> any \<Rightarrow> (string list \<times> f64) list" where
  "numbers X path (AFloat x) = [(path, x)]"
| "numbers X path (ANumber s) = (case number_float X s of None \<Rightarrow> [] | Some f \<Rightarrow> [(path, f)])"
| "numbers X path (AArr xs) = concat (map (numbers X path) xs)"
| "numbers X path (AObj kvs) = concat (map (\<lambda>kv. numbers X (path @ [fst kv]) (snd kv)) kvs)"
| "numbers X path v = []"

definition leaf_terms :: "string list \<times> string \<Rightarrow> string set" where
  "leaf_terms pv =
     (case pv of (path, v) \<Rightarrow>
        ({v} \<union> (if path = [] then {} else {last path @ '':'' @ v})) - {[]})"

definition num_fields :: "string list \<times> f64 \<Rightarrow> NumericField list" where
  "num_fields px =
     (case px of (path, x) \<Rightarrow>
        if f64_finite x \<and> path \<noteq> [] then [\<lparr>Path = last path, Value = x\<rparr>] else [])"

text \<open>The terms and numeric fields of a stored document, as sets; an opaque document has
  none.\<close>

definition doc_terms :: "('tx, 'v, 'bm) ext \<Rightarrow> bytes \<Rightarrow> string set" where
  "doc_terms X doc =
     (if doc = [] then {}
      else case json_unmarshal X doc of
        Some (AObj obj) \<Rightarrow> \<Union> (leaf_terms ` set (leaves X [] (AObj obj)))
      | _ \<Rightarrow> {})"

definition doc_numerics :: "('tx, 'v, 'bm) ext \<Rightarrow> bytes \<Rightarrow> NumericField list" where
  "doc_numerics X doc =
     (if doc = [] then []
      else case json_unmarshal X doc of
        Some (AObj obj) \<Rightarrow> concat (map num_fields (numbers X [] (AObj obj)))
      | _ \<Rightarrow> [])"

section \<open>Correctness of the walk\<close>

text \<open>The walker's own invariant: \<open>seen\<close> holds exactly the terms collected so far, none of
  them twice.\<close>

definition walker_ok :: "walker \<Rightarrow> bool" where
  "walker_ok w \<longleftrightarrow> set (wterms w) = seen w \<and> distinct (wterms w) \<and> [] \<notin> seen w"

text \<open>\<open>w'\<close> extends \<open>w\<close> by the terms \<open>T\<close> and the numbers \<open>ns\<close>.\<close>

definition walked :: "string set \<Rightarrow> NumericField list \<Rightarrow> walker \<Rightarrow> walker \<Rightarrow> bool" where
  "walked T ns w w' \<longleftrightarrow>
     (walker_ok w \<longrightarrow> walker_ok w') \<and> seen w' = seen w \<union> T \<and> wnumerics w' = wnumerics w @ ns"

lemma walked_trans:
  "walked T ns w w' \<Longrightarrow> walked U ms w' w'' \<Longrightarrow> walked (T \<union> U) (ns @ ms) w w''"
  by (auto simp: walked_def)

lemma walked_refl: "walked {} [] w w"
  by (simp add: walked_def)

lemma walked_emit: "walked ({s} - {[]}) [] w (emit s w)"
  by (auto simp: walked_def emit_def walker_ok_def)

lemma walked_emitLeaf: "walked (leaf_terms (path, v)) [] w (emitLeaf path v w)"
proof (cases "path = []")
  case True
  then show ?thesis
    using walked_emit [of v w] by (simp add: emitLeaf_def leaf_terms_def)
next
  case False
  from walked_trans [OF walked_emit [of v w] walked_emit [of "last path @ '':'' @ v"]]
  have "walked (({v} - {[]}) \<union> ({last path @ '':'' @ v} - {[]})) [] w
      (emit (last path @ '':'' @ v) (emit v w))" by simp
  moreover have "({v} - {[]}) \<union> ({last path @ '':'' @ v} - {[]}) = leaf_terms (path, v)"
    using False by (auto simp: leaf_terms_def)
  ultimately show ?thesis
    using False by (simp add: emitLeaf_def)
qed

lemma walked_addNumeric: "walked {} (num_fields (path, x)) w (addNumeric path x w)"
  by (auto simp: walked_def addNumeric_def num_fields_def f64_finite_iff walker_ok_def)

lemma walked_leaf_number:
  "walked (leaf_terms (path, v)) (num_fields (path, x)) w (addNumeric path x (emitLeaf path v w))"
  using walked_trans [OF walked_emitLeaf walked_addNumeric] by simp

lemma walk_correct:
  "walked (\<Union> (leaf_terms ` set (leaves X path v))) (concat (map num_fields (numbers X path v)))
     w (walkValue X path v w)"
  "walked (\<Union> (leaf_terms ` set (leaves X path (AArr xs)))) (concat (map num_fields (numbers X path (AArr xs))))
     w (walkArray X path xs w)"
  "walked (\<Union> (leaf_terms ` set (leaves X path (AObj kvs)))) (concat (map num_fields (numbers X path (AObj kvs))))
     w (walkObject X path kvs w)"
proof (induction X path v w and X path xs w and X path kvs w rule: walkValue_walkArray_walkObject.induct)
  case (5 X path s w)
  then show ?case
    by (auto simp: walked_leaf_number walked_emitLeaf Let_def split: option.splits)
next
  case (10 X path x xs w)
  from walked_trans [OF 10(1) 10(2)] show ?case by (simp add: UN_Un)
next
  case (12 X path k v kvs w)
  from walked_trans [OF 12(1) 12(2)] show ?case by (simp add: UN_Un)
qed (simp_all add: walked_refl walked_emitLeaf walked_leaf_number)

text \<open>What \<^verbatim>\<open>Extract\<close> promises: the terms are sorted, without duplicates and without the empty
  string, and they are exactly the values and \<open>last_segment:value\<close> composites of the leaves.\<close>

lemma Extract_ok:
  assumes "Extract X doc = Inr r"
  shows "sorted_wrt (<) (Terms r)" "set (Terms r) = doc_terms X doc" "Numerics r = doc_numerics X doc"
proof -
  have "sorted_wrt (<) (Terms r) \<and> set (Terms r) = doc_terms X doc \<and> Numerics r = doc_numerics X doc"
  proof (cases "doc = []")
    case True
    with assms have "r = emptyResult" by (simp add: Extract_def)
    with True show ?thesis by (simp add: emptyResult_def doc_terms_def doc_numerics_def)
  next
    case False
    with assms obtain obj where obj: "json_unmarshal X doc = Some (AObj obj)"
      by (auto simp: Extract_def split: option.splits any.splits)
    define w where "w = walkObject X [] obj \<lparr>wterms = [], wnumerics = [], seen = {}\<rparr>"
    from walk_correct(3) [of X "[]" obj "\<lparr>wterms = [], wnumerics = [], seen = {}\<rparr>"]
    have w: "walker_ok w" "seen w = doc_terms X doc" "wnumerics w = doc_numerics X doc"
      using False obj
      by (auto simp: w_def [symmetric] walked_def walker_ok_def doc_terms_def doc_numerics_def)
    moreover have "Terms r = sort (wterms w)" "Numerics r = wnumerics w"
      using assms False obj by (auto simp: Extract_def w_def Let_def)
    ultimately show ?thesis
      by (auto simp: walker_ok_def intro: sorted_distinct_strict)
  qed
  then show "sorted_wrt (<) (Terms r)" "set (Terms r) = doc_terms X doc"
    "Numerics r = doc_numerics X doc" by auto
qed

lemma Extract_error_iff:
  "(\<exists>e. Extract X doc = Inl e) \<longleftrightarrow> doc \<noteq> [] \<and> \<not> (\<exists>obj. json_unmarshal X doc = Some (AObj obj))"
  by (auto simp: Extract_def Let_def split: option.splits any.splits)

lemma extractTerms_total: "\<exists>r. extractTerms X doc = Inr r"
  by (simp add: extractTerms_def split: sum.splits)

lemma extractTerms_ok:
  assumes "extractTerms X doc = Inr r"
  shows "sorted_wrt (<) (Terms r)" "set (Terms r) = doc_terms X doc" "Numerics r = doc_numerics X doc"
proof -
  have "sorted_wrt (<) (Terms r) \<and> set (Terms r) = doc_terms X doc \<and> Numerics r = doc_numerics X doc"
  proof (cases "doc \<noteq> [] \<and> (\<exists>s. Extract X doc = Inr s)")
    case True
    with assms have "Extract X doc = Inr r" by (auto simp: extractTerms_def)
    then show ?thesis using Extract_ok by blast
  next
    case False
    then have "doc = [] \<or> (\<exists>e. Extract X doc = Inl e)"
      by (metis sumE)
    then have "doc_terms X doc = {}" "doc_numerics X doc = []"
      unfolding Extract_error_iff
      by (auto simp: doc_terms_def doc_numerics_def split: option.splits any.splits)
    moreover have "r = emptyResult"
      using assms False by (auto simp: extractTerms_def split: sum.splits if_splits)
    ultimately show ?thesis by (simp add: emptyResult_def)
  qed
  then show "sorted_wrt (<) (Terms r)" "set (Terms r) = doc_terms X doc"
    "Numerics r = doc_numerics X doc" by auto
qed

lemma doc_numerics_finite: "n \<in> set (doc_numerics X doc) \<Longrightarrow> f64_finite (Value n)"
  by (auto simp: doc_numerics_def num_fields_def split: if_splits option.splits any.splits)

lemma doc_terms_nonempty: "[] \<notin> doc_terms X doc"
  by (auto simp: doc_terms_def leaf_terms_def split: option.splits any.splits)

end
