(* ===== verification/Invindex.thy ===== *)
theory Invindex
  imports Postings Terms
begin

text \<open>
  \<^verbatim>\<open>bboltstore/invindex.go\<close> and \<^verbatim>\<open>updateInvertedIndex\<close>, \<^verbatim>\<open>diffSortedTerms\<close> of
  \<^verbatim>\<open>bboltstore/indexhooks.go\<close>: the inverted index, one bitmap of internal ids per term.
\<close>

section \<open>Definitions\<close>

definition invIndexBucketName :: "string \<Rightarrow> string" where
  "invIndexBucketName entityID = ''inv:'' @ entityID"

definition decodeInvBitmap :: "('tx, 'v, 'bm) ext \<Rightarrow> 'v \<Rightarrow> 'bm result" where
  "decodeInvBitmap X raw =
     (case bm_read X (to_bytes X raw) of
        None \<Rightarrow> Inl (NewErr ''invindex: decode bitmap'') | Some bm \<Rightarrow> Inr bm)"

definition invIndexAdd ::
  "('tx, 'v, 'bm) ext \<Rightarrow> string \<Rightarrow> string \<Rightarrow> u32 \<Rightarrow> 'tx \<Rightarrow> 'tx result" where
  "invIndexAdd X entityID trm internalID tx =
     (let b = invIndexBucketName entityID in
      bindR (liftB (create_bucket X b tx)) (\<lambda>tx.
      bindR (case bucket_get X tx b trm of
               None \<Rightarrow> Inr (bm_new X)
             | Some raw \<Rightarrow> decodeInvBitmap X raw) (\<lambda>bm.
      writeBitmap X b trm (bm_add X internalID bm) tx)))"

definition invIndexRemove ::
  "('tx, 'v, 'bm) ext \<Rightarrow> string \<Rightarrow> string \<Rightarrow> u32 \<Rightarrow> 'tx \<Rightarrow> 'tx result" where
  "invIndexRemove X entityID trm internalID tx =
     (let b = invIndexBucketName entityID in
      if \<not> has_bucket X tx b then Inr tx
      else case bucket_get X tx b trm of
        None \<Rightarrow> Inr tx
      | Some raw \<Rightarrow>
          bindR (decodeInvBitmap X raw) (\<lambda>bm.
          let bm = bm_remove X internalID bm in
          if bm_is_empty X bm then liftB (bucket_delete X b trm tx)
          else writeBitmap X b trm bm tx))"

definition invIndexLookup :: "('tx, 'v, 'bm) ext \<Rightarrow> string \<Rightarrow> string \<Rightarrow> 'tx \<Rightarrow> 'bm result" where
  "invIndexLookup X entityID trm tx =
     (let b = invIndexBucketName entityID in
      if \<not> has_bucket X tx b then Inr (bm_new X)
      else case bucket_get X tx b trm of
        None \<Rightarrow> Inr (bm_new X)
      | Some raw \<Rightarrow> decodeInvBitmap X raw)"

text \<open>The cursor loop of \<^verbatim>\<open>invIndexLookupPrefix\<close>: from the first key at or after the prefix,
  while the key still has the prefix.\<close>

fun prefixLoop :: "('tx, 'v, 'bm) ext \<Rightarrow> string \<Rightarrow> (bytes \<times> 'v) list \<Rightarrow> 'bm \<Rightarrow> 'bm result" where
  "prefixLoop X p [] acc = Inr acc"
| "prefixLoop X p ((k, v) # rest) acc =
     (if prefix p k
      then bindR (decodeInvBitmap X v) (\<lambda>bm. prefixLoop X p rest (bm_or X acc bm))
      else Inr acc)"

definition invIndexLookupPrefix :: "('tx, 'v, 'bm) ext \<Rightarrow> string \<Rightarrow> string \<Rightarrow> 'tx \<Rightarrow> 'bm result" where
  "invIndexLookupPrefix X entityID pfx tx =
     (let b = invIndexBucketName entityID in
      if \<not> has_bucket X tx b then Inr (bm_new X)
      else prefixLoop X pfx (bucket_seek X tx b pfx) (bm_new X))"

fun diffSortedTerms :: "string list \<Rightarrow> string list \<Rightarrow> string list \<times> string list" where
  "diffSortedTerms (o1 # os) (n1 # ns) =
     (if o1 < n1 then (let (removed, added) = diffSortedTerms os (n1 # ns) in (o1 # removed, added))
      else if o1 > n1 then (let (removed, added) = diffSortedTerms (o1 # os) ns in (removed, n1 # added))
      else diffSortedTerms os ns)"
| "diffSortedTerms os ns = (os, ns)"

definition updateInvertedIndex ::
  "('tx, 'v, 'bm) ext \<Rightarrow> string \<Rightarrow> u32 \<Rightarrow> string list \<Rightarrow> string list \<Rightarrow> 'tx \<Rightarrow> 'tx result" where
  "updateInvertedIndex X entityID internalID oldTerms newTerms tx =
     (let (removed, added) = diffSortedTerms oldTerms newTerms in
      bindR (foldR (\<lambda>trm. invIndexRemove X entityID trm internalID) removed tx)
            (foldR (\<lambda>trm. invIndexAdd X entityID trm internalID) added))"

section \<open>The sorted difference\<close>

lemma diffSortedTerms_set:
  "sorted_wrt (<) os \<Longrightarrow> sorted_wrt (<) ns \<Longrightarrow>
     set (fst (diffSortedTerms os ns)) = set os - set ns \<and>
     set (snd (diffSortedTerms os ns)) = set ns - set os"
proof (induction os ns rule: diffSortedTerms.induct)
  case (1 a as b bs)
  have less: "\<And>x. x \<in> set as \<Longrightarrow> a < x" "\<And>x. x \<in> set bs \<Longrightarrow> b < x"
    using "1.prems" by auto
  show ?case
  proof (cases a b rule: linorder_cases)
    case less_ab: less
    then have "a \<notin> set (b # bs)" using less(2) by force
    with less_ab "1.IH"(1) "1.prems" show ?thesis by (auto split: prod.splits)
  next
    case equal
    with "1.IH"(3) "1.prems" less show ?thesis by fastforce
  next
    case greater
    then have "b \<notin> set (a # as)" using less(1) by force
    with greater "1.IH"(2) "1.prems" show ?thesis by (auto split: prod.splits)
  qed
qed auto

lemma diffSortedTerms_sorted:
  "sorted_wrt (<) os \<Longrightarrow> sorted_wrt (<) ns \<Longrightarrow>
     sorted_wrt (<) (fst (diffSortedTerms os ns)) \<and> sorted_wrt (<) (snd (diffSortedTerms os ns))"
proof (induction os ns rule: diffSortedTerms.induct)
  case (1 a as b bs)
  note sets = diffSortedTerms_set [of as "b # bs"] diffSortedTerms_set [of "a # as" bs]
  from 1 sets show ?case
    by (cases a b rule: linorder_cases) (auto split: prod.splits)
qed auto

section \<open>Effect on the bitmaps\<close>

text \<open>The internal ids recorded for a term.\<close>

abbreviation postings :: "('tx, 'v, 'bm) ext \<Rightarrow> 'tx \<Rightarrow> string \<Rightarrow> string \<Rightarrow> u32 set" where
  "postings X tx e t \<equiv> bm_at X tx (invIndexBucketName e) t"

context ext_laws
begin

lemma decodeInvBitmap_ok:
  "bm_wf X tx n \<Longrightarrow> bucket_get X tx n k = Some raw \<Longrightarrow>
     \<exists>bm. decodeInvBitmap X raw = Inr bm \<and> set (bm_iter X bm) = bm_at X tx n k"
  by (force simp: bm_wf_def decodeInvBitmap_def bm_at_def split: option.splits)

lemma decodeInvBitmap_set:
  "decodeInvBitmap X raw = Inr bm \<Longrightarrow> bucket_get X tx n k = Some raw \<Longrightarrow>
     set (bm_iter X bm) = bm_at X tx n k"
  by (auto simp: decodeInvBitmap_def bm_at_def split: option.splits)

lemma invIndexAdd_effect:
  assumes "invIndexAdd X e t i tx = Inr tx'"
  shows "frame X {invIndexBucketName e} tx tx'"
    "postings X tx' e s = (if s = t then insert i (postings X tx e s) else postings X tx e s)"
    "bm_wf X tx (invIndexBucketName e) \<Longrightarrow> bm_wf X tx' (invIndexBucketName e)"
proof -
  let ?b = "invIndexBucketName e"
  from assms obtain t1 bm where c: "create_bucket X ?b tx = Inr t1"
    and bm: "(case bucket_get X t1 ?b t of None \<Rightarrow> Inr (bm_new X) | Some raw \<Rightarrow> decodeInvBitmap X raw) = Inr bm"
    and w: "writeBitmap X ?b t (bm_add X i bm) t1 = Inr tx'"
    by (auto simp: invIndexAdd_def Let_def result_simps)
  have g1: "bucket_get X t1 n = bucket_get X tx n" for n by (rule ext) (rule create_get [OF c])
  have at1: "bm_at X t1 n k = bm_at X tx n k" for n k by (rule bm_at_cong) (simp add: g1)
  have set_bm: "set (bm_iter X bm) = postings X tx e t"
    using bm decodeInvBitmap_set [of _ bm t1 ?b t]
    by (cases "bucket_get X t1 ?b t") (auto simp: bm_at_def iter_new g1)
  show "frame X {?b} tx tx'"
    by (rule frame_trans [OF frame_create [OF c] frame_writeBitmap [OF w]]) simp_all
  show "postings X tx' e s = (if s = t then insert i (postings X tx e s) else postings X tx e s)"
    by (simp add: writeBitmap_bm_at [OF w] iter_add set_bm at1)
  have "bm_iter X (bm_add X i bm) \<noteq> []"
    using iter_add [of i bm] by auto
  then show "bm_wf X tx' ?b" if "bm_wf X tx ?b"
    using that bm_wf_cong [of X t1 ?b tx] g1 by (intro writeBitmap_wf [OF w]) simp_all
qed

lemma invIndexRemove_effect:
  assumes "invIndexRemove X e t i tx = Inr tx'"
  shows "frame X {invIndexBucketName e} tx tx'"
    "postings X tx' e s = (if s = t then postings X tx e s - {i} else postings X tx e s)"
    "bm_wf X tx (invIndexBucketName e) \<Longrightarrow> bm_wf X tx' (invIndexBucketName e)"
proof -
  let ?b = "invIndexBucketName e"
  consider (same) "tx' = tx" "postings X tx e t = {}"
    | (delete) raw bm where "bucket_get X tx ?b t = Some raw" "decodeInvBitmap X raw = Inr bm"
        "bm_is_empty X (bm_remove X i bm)" "bucket_delete X ?b t tx = Inr tx'"
    | (update) raw bm where "bucket_get X tx ?b t = Some raw" "decodeInvBitmap X raw = Inr bm"
        "\<not> bm_is_empty X (bm_remove X i bm)" "writeBitmap X ?b t (bm_remove X i bm) tx = Inr tx'"
    using assms no_bucket_get [of tx ?b t]
    by (auto simp: invIndexRemove_def Let_def bm_at_def result_simps split: if_splits option.splits)
  then have "frame X {?b} tx tx' \<and>
    postings X tx' e s = (if s = t then postings X tx e s - {i} else postings X tx e s) \<and>
    (bm_wf X tx ?b \<longrightarrow> bm_wf X tx' ?b)"
  proof cases
    case same
    then show ?thesis by simp
  next
    case delete
    from decodeInvBitmap_set [OF delete(2,1)] delete(3)
    have "postings X tx e t - {i} = {}"
      using iter_remove [of i bm] by (simp add: is_empty)
    with delete(4) show ?thesis
      by (simp add: del_bm_at [OF delete(4)] del_wf [OF delete(4)] frame_del [OF delete(4)])
  next
    case update
    from decodeInvBitmap_set [OF update(2,1)] update(3,4) show ?thesis
      by (simp add: writeBitmap_bm_at [OF update(4)] iter_remove is_empty
          writeBitmap_wf [OF update(4)] frame_writeBitmap [OF update(4)])
  qed
  then show "frame X {?b} tx tx'"
    "postings X tx' e s = (if s = t then postings X tx e s - {i} else postings X tx e s)"
    "bm_wf X tx ?b \<Longrightarrow> bm_wf X tx' ?b" by auto
qed

lemma invIndexAdd_loop:
  assumes "foldR (\<lambda>t. invIndexAdd X e t i) ts tx = Inr tx'"
  shows "frame X {invIndexBucketName e} tx tx'"
    "postings X tx' e s = (if s \<in> set ts then insert i (postings X tx e s) else postings X tx e s)"
    "bm_wf X tx (invIndexBucketName e) \<Longrightarrow> bm_wf X tx' (invIndexBucketName e)"
proof -
  show "frame X {invIndexBucketName e} tx tx'"
    using assms invIndexAdd_effect(1) by (rule frame_foldR)
  show "postings X tx' e s = (if s \<in> set ts then insert i (postings X tx e s) else postings X tx e s)"
    by (rule foldR_view [where V = "\<lambda>tx. postings X tx e" and g = "insert i", OF assms])
       (simp_all add: invIndexAdd_effect(2))
  show "bm_wf X tx (invIndexBucketName e) \<Longrightarrow> bm_wf X tx' (invIndexBucketName e)"
    by (rule foldR_inv [OF assms]) (auto intro: invIndexAdd_effect(3))
qed

lemma invIndexRemove_loop:
  assumes "foldR (\<lambda>t. invIndexRemove X e t i) ts tx = Inr tx'"
  shows "frame X {invIndexBucketName e} tx tx'"
    "postings X tx' e s = (if s \<in> set ts then postings X tx e s - {i} else postings X tx e s)"
    "bm_wf X tx (invIndexBucketName e) \<Longrightarrow> bm_wf X tx' (invIndexBucketName e)"
proof -
  show "frame X {invIndexBucketName e} tx tx'"
    using assms invIndexRemove_effect(1) by (rule frame_foldR)
  show "postings X tx' e s = (if s \<in> set ts then postings X tx e s - {i} else postings X tx e s)"
    by (rule foldR_view [where V = "\<lambda>tx. postings X tx e" and g = "\<lambda>P. P - {i}", OF assms])
       (simp_all add: invIndexRemove_effect(2))
  show "bm_wf X tx (invIndexBucketName e) \<Longrightarrow> bm_wf X tx' (invIndexBucketName e)"
    by (rule foldR_inv [OF assms]) (auto intro: invIndexRemove_effect(3))
qed

text \<open>The whole update: the id leaves the terms that went away and joins the new ones.\<close>

lemma updateInvertedIndex_effect:
  assumes "updateInvertedIndex X e i os ns tx = Inr tx'"
    and "sorted_wrt (<) os" "sorted_wrt (<) ns"
  shows "frame X {invIndexBucketName e} tx tx'"
    "postings X tx' e s =
       (if s \<in> set ns - set os then insert i (postings X tx e s)
        else if s \<in> set os - set ns then postings X tx e s - {i}
        else postings X tx e s)"
    "bm_wf X tx (invIndexBucketName e) \<Longrightarrow> bm_wf X tx' (invIndexBucketName e)"
proof -
  obtain removed added where d: "diffSortedTerms os ns = (removed, added)" by fastforce
  have sets: "set removed = set os - set ns" "set added = set ns - set os"
    using diffSortedTerms_set [OF assms(2,3)] d by auto
  from assms(1) d obtain u where
    u1: "foldR (\<lambda>t. invIndexRemove X e t i) removed tx = Inr u" and
    u2: "foldR (\<lambda>t. invIndexAdd X e t i) added u = Inr tx'"
    by (auto simp: updateInvertedIndex_def result_simps)
  show "frame X {invIndexBucketName e} tx tx'"
    by (rule frame_trans [OF invIndexRemove_loop(1) [OF u1] invIndexAdd_loop(1) [OF u2]])
  show "postings X tx' e s =
       (if s \<in> set ns - set os then insert i (postings X tx e s)
        else if s \<in> set os - set ns then postings X tx e s - {i}
        else postings X tx e s)"
    by (simp add: invIndexAdd_loop(2) [OF u2] invIndexRemove_loop(2) [OF u1] sets)
  show "bm_wf X tx (invIndexBucketName e) \<Longrightarrow> bm_wf X tx' (invIndexBucketName e)"
    using invIndexAdd_loop(3) [OF u2] invIndexRemove_loop(3) [OF u1] by blast
qed

section \<open>Lookups\<close>

lemma invIndexLookup_set:
  assumes "invIndexLookup X e t tx = Inr bm"
  shows "set (bm_iter X bm) = postings X tx e t"
proof (cases "bucket_get X tx (invIndexBucketName e) t")
  case None
  with assms show ?thesis
    by (auto simp: invIndexLookup_def bm_at_def iter_new Let_def split: if_splits)
next
  case (Some raw)
  with assms get_has [OF Some] show ?thesis
    by (auto simp: invIndexLookup_def Let_def decodeInvBitmap_set)
qed

lemma invIndexLookup_succeeds:
  assumes "bm_wf X tx (invIndexBucketName e)"
  shows "\<exists>bm. invIndexLookup X e t tx = Inr bm"
  using decodeInvBitmap_ok [OF assms, of t]
  by (auto simp: invIndexLookup_def Let_def split: option.splits)

text \<open>Keys that have the prefix form one block of the sorted bucket, starting at the prefix.\<close>

lemma prefix_le: "prefix p (k :: string) \<Longrightarrow> p \<le> k"
proof (induction p arbitrary: k)
  case (Cons a p)
  then show ?case by (cases k) auto
qed simp

lemma prefix_interval:
  assumes "prefix p (l :: string)" "p \<le> k" "k \<le> l"
  shows "prefix p k"
  using assms
proof (induction p arbitrary: k l)
  case (Cons a p)
  then show ?case by (cases k; cases l) auto
qed simp

lemma prefixLoop_set:
  assumes "sorted_wrt (<) (map fst kvs)" "\<And>k v. (k, v) \<in> set kvs \<Longrightarrow> p \<le> k"
    and "\<And>k v. (k, v) \<in> set kvs \<Longrightarrow> bucket_get X tx n k = Some v"
    and "prefixLoop X p kvs acc = Inr bm"
  shows "set (bm_iter X bm) =
    set (bm_iter X acc) \<union> (\<Union> (k, v) \<in> {(k, v) \<in> set kvs. prefix p k}. bm_at X tx n k)"
  using assms
proof (induction kvs arbitrary: acc)
  case (Cons kv kvs)
  obtain k v where kv: "kv = (k, v)" by (cases kv)
  show ?case
  proof (cases "prefix p k")
    case True
    with Cons.prems(4) kv obtain b where b: "decodeInvBitmap X v = Inr b"
      "prefixLoop X p kvs (bm_or X acc b) = Inr bm"
      by (auto simp: result_simps)
    have "set (bm_iter X b) = bm_at X tx n k"
      using b(1) Cons.prems(3) kv by (intro decodeInvBitmap_set) auto
    moreover have "set (bm_iter X bm) = set (bm_iter X (bm_or X acc b)) \<union>
        (\<Union> (k, v) \<in> {(k, v) \<in> set kvs. prefix p k}. bm_at X tx n k)"
      using Cons.prems b(2) by (intro Cons.IH) auto
    ultimately show ?thesis
      using True kv by (auto simp: iter_or)
  next
    case False
    have "\<not> prefix p l" if "(l, v') \<in> set kvs" for l v'
    proof
      assume "prefix p l"
      moreover have "k < l" using that Cons.prems(1) kv by force
      moreover have "p \<le> k" by (rule Cons.prems(2) [of k v]) (simp add: kv)
      ultimately have "prefix p k" by (intro prefix_interval [of p l k]) auto
      with False show False ..
    qed
    with False Cons.prems(4) kv show ?thesis by auto
  qed
qed auto

lemma invIndexLookupPrefix_set:
  assumes "invIndexLookupPrefix X e p tx = Inr bm"
  shows "set (bm_iter X bm) = (\<Union> t \<in> {t. prefix p t}. postings X tx e t)"
proof (cases "has_bucket X tx (invIndexBucketName e)")
  case False
  with assms show ?thesis
    by (auto simp: invIndexLookupPrefix_def iter_new bm_at_def no_bucket_get)
next
  case True
  let ?n = "invIndexBucketName e"
  have run: "prefixLoop X p (bucket_seek X tx ?n p) (bm_new X) = Inr bm"
    using assms True by (simp add: invIndexLookupPrefix_def)
  have "set (bm_iter X bm) = set (bm_iter X (bm_new X)) \<union>
      (\<Union> (k, v) \<in> {(k, v) \<in> set (bucket_seek X tx ?n p). prefix p k}. bm_at X tx ?n k)"
  proof (rule prefixLoop_set [OF _ _ _ run])
    have "sorted_wrt (<) (map fst (filter (\<lambda>(k, v). p \<le> k) (bucket_items X tx ?n)))"
      using items_sorted [of tx ?n] by (simp add: sorted_wrt_map sorted_wrt_filter)
    then show "sorted_wrt (<) (map fst (bucket_seek X tx ?n p))"
      by (simp add: seek_items)
  qed (auto simp: seek_items in_items_iff)
  also have "\<dots> = (\<Union> t \<in> {t. prefix p t}. postings X tx e t)"
  proof -
    have "\<exists>v. (t, v) \<in> set (bucket_seek X tx ?n p)" if "prefix p t" "i \<in> postings X tx e t" for t i
      using that by (auto simp: seek_items in_items_iff prefix_le bm_at_def split: option.splits)
    then show ?thesis by (fastforce simp: iter_new)
  qed
  finally show ?thesis .
qed

lemma prefixLoop_succeeds:
  assumes "\<forall>(k, v) \<in> set kvs. \<exists>bm. decodeInvBitmap X v = Inr bm"
  shows "\<exists>bm. prefixLoop X p kvs acc = Inr bm"
  using assms by (induction X p kvs acc rule: prefixLoop.induct) auto

lemma invIndexLookupPrefix_succeeds:
  assumes "bm_wf X tx (invIndexBucketName e)"
  shows "\<exists>bm. invIndexLookupPrefix X e p tx = Inr bm"
proof -
  have "\<forall>(k, v) \<in> set (bucket_seek X tx (invIndexBucketName e) p). \<exists>bm. decodeInvBitmap X v = Inr bm"
    using decodeInvBitmap_ok [OF assms] by (fastforce simp: seek_items in_items_iff)
  from prefixLoop_succeeds [OF this] show ?thesis by (simp add: invIndexLookupPrefix_def Let_def)
qed

end

section \<open>The inverted index as a posting index\<close>

text \<open>The two steps of the hook: extract the terms of both contents, move the document.\<close>

definition hookInverted ::
  "('tx, 'v, 'bm) ext \<Rightarrow> string \<Rightarrow> u32 \<Rightarrow> bytes \<Rightarrow> bytes \<Rightarrow> 'tx \<Rightarrow> 'tx result" where
  "hookInverted X e i old new tx =
     bindR (extractTerms X old) (\<lambda>os. bindR (extractTerms X new) (\<lambda>ns.
     updateInvertedIndex X e i (Terms os) (Terms ns) tx))"

sublocale ext_laws \<subseteq> inverted: posting_index X "\<lambda>e. {invIndexBucketName e}"
  "\<lambda>tx e. bm_wf X tx (invIndexBucketName e)" "postings X" "doc_terms X" "hookInverted X"
proof
  fix e i old new tx tx'
  assume "hookInverted X e i old new tx = Inr tx'"
  then obtain os ns where os: "extractTerms X old = Inr os" and ns: "extractTerms X new = Inr ns"
    and run: "updateInvertedIndex X e i (Terms os) (Terms ns) tx = Inr tx'"
    by (auto simp: hookInverted_def result_simps)
  note terms = extractTerms_ok(2) [OF os] extractTerms_ok(2) [OF ns]
  note eff = updateInvertedIndex_effect [OF run extractTerms_ok(1) [OF os] extractTerms_ok(1) [OF ns]]
  show "frame X {invIndexBucketName e} tx tx'" by (rule eff(1))
  assume wf: "bm_wf X tx (invIndexBucketName e)"
  show "bm_wf X tx' (invIndexBucketName e)" by (rule eff(3) [OF wf])
  fix j k
  show "j \<in> postings X tx' e k \<longleftrightarrow> j \<in> postings X tx e k" if "j \<noteq> i"
    using that by (simp add: eff(2))
  assume "\<And>k. i \<in> postings X tx e k \<longleftrightarrow> k \<in> doc_terms X old"
  then show "i \<in> postings X tx' e k \<longleftrightarrow> k \<in> doc_terms X new"
    by (auto simp: eff(2) terms)
next
  fix N tx tx' e
  assume "frame X N tx tx'" "{invIndexBucketName e} \<inter> N = {}"
  then have "bucket_get X tx' (invIndexBucketName e) = bucket_get X tx (invIndexBucketName e)"
    by (intro frame_get) auto
  then show "postings X tx' e = postings X tx e \<and>
      bm_wf X tx' (invIndexBucketName e) = bm_wf X tx (invIndexBucketName e)"
    by (simp add: bm_at_def bm_wf_def fun_eq_iff)
qed (simp add: doc_terms_def)

end
