(* ===== verification/Numidx.thy ===== *)
theory Numidx
  imports Postings Terms
begin

text \<open>
  \<^verbatim>\<open>bboltstore/numidx.go\<close> and \<^verbatim>\<open>updateNumericIndex\<close> of \<^verbatim>\<open>bboltstore/indexhooks.go\<close>: the numeric
  range index. A key is the sortable form of a double followed by an internal id; a range
  query walks the keys between two bounds.
\<close>

unbundle bit_operations_syntax

section \<open>Definitions\<close>

definition numIndexBucketName :: "string \<Rightarrow> string \<Rightarrow> string" where
  "numIndexBucketName entityID attr = ''num:'' @ entityID @ '':'' @ attr"

text \<open>The bits of a double, turned so that unsigned comparison is numeric comparison.\<close>

definition signBit :: u64 where
  "signBit = push_bit 63 1"

definition sortableBits :: "f64 \<Rightarrow> u64" where
  "sortableBits bits =
     (if drop_bit 63 bits = 1 then NOT bits else bits XOR signBit)"

definition numEncode :: "f64 \<Rightarrow> u32 \<Rightarrow> bytes" where
  "numEncode v internalID = BigEndian_PutUint64 (sortableBits v) @ BigEndian_PutUint32 internalID"

definition numEncodeBound :: "f64 \<Rightarrow> bool \<Rightarrow> bytes" where
  "numEncodeBound v upper =
     BigEndian_PutUint64 (sortableBits v) @
       (if upper then replicate 4 (CHR 0xFF) else replicate 4 (CHR 0x00))"

definition decodeFloat :: "bytes \<Rightarrow> f64" where
  "decodeFloat b =
     (let bits = BigEndian_Uint64 b
      in if drop_bit 63 bits = 1 then bits XOR signBit else NOT bits)"

definition numIndexAdd ::
  "('tx, 'v, 'bm) ext \<Rightarrow> string \<Rightarrow> string \<Rightarrow> f64 \<Rightarrow> u32 \<Rightarrow> 'tx \<Rightarrow> 'tx result" where
  "numIndexAdd X entityID attr v internalID tx =
     (if f64_isNaN v \<or> f64_isInf v then Inr tx
      else bindR (liftB (create_bucket X (numIndexBucketName entityID attr) tx)) (\<lambda>tx.
           liftB (bucket_put X (numIndexBucketName entityID attr) (numEncode v internalID)
                    (of_bytes X []) tx)))"

definition numIndexRemove ::
  "('tx, 'v, 'bm) ext \<Rightarrow> string \<Rightarrow> string \<Rightarrow> f64 \<Rightarrow> u32 \<Rightarrow> 'tx \<Rightarrow> 'tx result" where
  "numIndexRemove X entityID attr v internalID tx =
     (if f64_isNaN v \<or> f64_isInf v then Inr tx
      else if \<not> has_bucket X tx (numIndexBucketName entityID attr) then Inr tx
      else liftB (bucket_delete X (numIndexBucketName entityID attr) (numEncode v internalID) tx))"

fun rangeLoop ::
  "('tx, 'v, 'bm) ext \<Rightarrow> f64 \<Rightarrow> f64 \<Rightarrow> bool \<Rightarrow> bool \<Rightarrow> bytes \<Rightarrow> (bytes \<times> 'v) list \<Rightarrow> 'bm \<Rightarrow> 'bm result"
where
  "rangeLoop X mn mx minExclusive maxExclusive hi [] acc = Inr acc"
| "rangeLoop X mn mx minExclusive maxExclusive hi ((k, _) # rest) acc =
     (if k \<le> hi then
        if length k \<noteq> 12 then Inl (NewErr ''numidx: malformed key'')
        else let entryValue = decodeFloat (take 8 k)
             in if minExclusive \<and> f64_eq entryValue mn
                then rangeLoop X mn mx minExclusive maxExclusive hi rest acc
                else if maxExclusive \<and> f64_eq entryValue mx
                then rangeLoop X mn mx minExclusive maxExclusive hi rest acc
                else rangeLoop X mn mx minExclusive maxExclusive hi rest
                       (bm_add X (BigEndian_Uint32 (drop 8 k)) acc)
      else Inr acc)"

definition numIndexRange ::
  "('tx, 'v, 'bm) ext \<Rightarrow> string \<Rightarrow> string \<Rightarrow> f64 \<Rightarrow> f64 \<Rightarrow> bool \<Rightarrow> bool \<Rightarrow> 'tx \<Rightarrow> 'bm result" where
  "numIndexRange X entityID attr mn mx minExclusive maxExclusive tx =
     (if f64_isNaN mn \<or> f64_isNaN mx \<or> f64_isInf mn \<or> f64_isInf mx
      then Inl (NewErr ''numidx: invalid bound (NaN/Inf)'')
      else if f64_lt mx mn then Inr (bm_new X)
      else let b = numIndexBucketName entityID attr
           in if \<not> has_bucket X tx b then Inr (bm_new X)
              else rangeLoop X mn mx minExclusive maxExclusive (numEncodeBound mx True)
                     (bucket_seek X tx b (numEncodeBound mn False)) (bm_new X))"

definition updateNumericIndex ::
  "('tx, 'v, 'bm) ext \<Rightarrow> string \<Rightarrow> u32 \<Rightarrow> NumericField list \<Rightarrow> NumericField list \<Rightarrow> 'tx \<Rightarrow> 'tx result"
where
  "updateNumericIndex X entityID internalID oldNums newNums tx =
     bindR (foldR (\<lambda>n. numIndexRemove X entityID (Path n) (Value n) internalID) oldNums tx)
           (foldR (\<lambda>n. numIndexAdd X entityID (Path n) (Value n) internalID) newNums)"

section \<open>The sortable form\<close>

lemma drop_bit_63_iff: "drop_bit 63 (x :: u64) = 1 \<longleftrightarrow> f64_neg x"
proof -
  have "unat (drop_bit 63 x) = unat x div 2 ^ 63"
    unfolding unat_drop_bit_eq by (rule drop_bit_eq_div)
  then have "drop_bit 63 x = 1 \<longleftrightarrow> unat x div 2 ^ 63 = 1"
    by (metis unsigned_1 word_unat_eq_iff)
  then show ?thesis by (simp only: f64_neg_alt)
qed

lemma unat_not_u64: "unat (NOT (x :: u64)) = 2 ^ 64 - 1 - unat x"
proof -
  have "NOT x = - 1 - x" by (simp add: not_eq_complement)
  moreover have "x \<le> - 1" by (rule word_order.extremum)
  ultimately show ?thesis
    by (simp add: unat_sub unsigned_minus_1_eq_mask mask_eq_exp_minus_1)
qed

lemma bit_signBit [simp]: "bit signBit n \<longleftrightarrow> n = 63"
proof -
  have "bit signBit n \<longleftrightarrow> n < 64 \<and> 63 \<le> n \<and> n - 63 = 0"
    unfolding signBit_def bit_push_bit_iff bit_1_iff by auto
  then show ?thesis by auto
qed

lemma unat_signBit: "unat signBit = 2 ^ 63"
  by (simp add: signBit_def)

lemma xor_signBit_twice: "(x XOR signBit) XOR signBit = x"
  by (simp add: xor.assoc)

lemma unat_xor_top:
  assumes "\<not> f64_neg x"
  shows "unat (x XOR signBit) = unat x + 2 ^ 63"
proof -
  have "x AND signBit = 0"
    using assms by (intro bit_word_eqI) (auto simp: bit_and_iff f64_neg_def)
  then have "x XOR signBit = x + signBit"
    by (simp add: disjunctive_add_eq_xor)
  moreover have "unat x < 2 ^ 63"
    using assms f64_bits [of x] f64_mag_bound [of x] by simp
  ultimately show ?thesis
    by (simp add: unat_word_ariths unat_signBit)
qed

lemma unat_sortableBits:
  "unat (sortableBits x) = (if f64_neg x then 2 ^ 63 - 1 - f64_mag x else 2 ^ 63 + f64_mag x)"
  using f64_bits [of x] f64_mag_bound [of x]
  by (auto simp: sortableBits_def drop_bit_63_iff unat_not_u64 unat_xor_top)

text \<open>The order the index gives to doubles: numeric, with the negative zero first.\<close>

definition f64_before :: "f64 \<Rightarrow> f64 \<Rightarrow> bool" where
  "f64_before x y \<longleftrightarrow>
     f64_units x < f64_units y \<or> (f64_units x = f64_units y \<and> f64_neg x \<and> \<not> f64_neg y)"

lemma sortableBits_less_iff: "sortableBits x < sortableBits y \<longleftrightarrow> f64_before x y"
  using f64_mag_bound [of x] f64_mag_bound [of y]
  by (auto simp: f64_before_def word_less_nat_alt unat_sortableBits f64_units_less_iff f64_units_eq_iff)

lemma sortableBits_inject: "sortableBits x = sortableBits y \<longleftrightarrow> x = y"
proof
  assume "sortableBits x = sortableBits y"
  then have u: "unat (sortableBits x) = unat (sortableBits y)" by simp
  have "f64_neg x = f64_neg y \<and> f64_mag x = f64_mag y"
    using u f64_mag_bound [of x] f64_mag_bound [of y]
    by (auto simp: unat_sortableBits split: if_splits)
  then show "x = y" by (intro f64_eqI) auto
qed simp

lemma f64_before_linear: "x = y \<or> f64_before x y \<or> f64_before y x"
  using sortableBits_inject [of x y] sortableBits_less_iff [of x y] sortableBits_less_iff [of y x]
  by (cases "sortableBits x" "sortableBits y" rule: linorder_cases) auto

lemma f64_before_asym: "f64_before x y \<Longrightarrow> \<not> f64_before y x"
  by (auto simp: f64_before_def)

lemma f64_before_trans: "f64_before x y \<Longrightarrow> f64_before y z \<Longrightarrow> f64_before x z"
  by (auto simp: f64_before_def)

text \<open>Away from zero it is the order of Go's \<^verbatim>\<open><\<close>.\<close>

lemma f64_before_nonzero:
  "\<not> f64_isNaN x \<Longrightarrow> \<not> f64_isNaN y \<Longrightarrow> f64_mag y \<noteq> 0 \<Longrightarrow> f64_before x y \<longleftrightarrow> f64_lt x y"
  "\<not> f64_isNaN x \<Longrightarrow> \<not> f64_isNaN y \<Longrightarrow> f64_mag y \<noteq> 0 \<Longrightarrow> f64_before y x \<longleftrightarrow> f64_lt y x"
  by (auto simp: f64_before_def f64_lt_def f64_units_eq_iff)

lemma decodeFloat_encode: "decodeFloat (BigEndian_PutUint64 (sortableBits v) @ r) = v"
proof -
  have "f64_neg (sortableBits v) \<longleftrightarrow> \<not> f64_neg v"
    using unat_sortableBits [of v] f64_mag_bound [of v] by (auto simp: f64_neg_alt)
  then have "drop_bit 63 (sortableBits v) = 1 \<longleftrightarrow> \<not> f64_neg v"
    by (simp only: drop_bit_63_iff)
  then show ?thesis
    unfolding decodeFloat_def Let_def
    by (simp add: sortableBits_def drop_bit_63_iff xor_signBit_twice)
qed

lemma length_numEncode [simp]: "length (numEncode v i) = 12"
  by (simp add: numEncode_def)

lemma numEncode_parts [simp]:
  "decodeFloat (take 8 (numEncode v i)) = v" "BigEndian_Uint32 (drop 8 (numEncode v i)) = i"
  using decodeFloat_encode [of v "[]"] by (simp_all add: numEncode_def)

lemma numEncode_inject [simp]: "numEncode v i = numEncode w j \<longleftrightarrow> v = w \<and> i = j"
  by (metis numEncode_parts)

lemma numEncode_nonempty [simp]: "numEncode v i \<noteq> []"
  by (metis length_numEncode list.size(3) zero_neq_numeral)

text \<open>Keys compare first by value, then by internal id; the bounds enclose every id.\<close>

lemma replicate_least: "length b = n \<Longrightarrow> replicate n (CHR 0x00) \<le> (b :: string)"
proof (induction b arbitrary: n)
  case (Cons c b)
  have "CHR 0x00 \<le> c" by (simp add: less_eq_char_def)
  with Cons show ?case by (cases n) (auto simp: le_less)
qed simp

lemma replicate_greatest: "length b = n \<Longrightarrow> (b :: string) \<le> replicate n (CHR 0xFF)"
proof (induction b arbitrary: n)
  case (Cons c b)
  have "(of_char c :: nat) \<le> 255" using nat_of_char_less_256 [of c] by linarith
  then have "c \<le> CHR 0xFF" by (simp add: less_eq_char_def)
  with Cons show ?case by (cases n) (auto simp: le_less)
qed simp

lemma append_le_iff:
  fixes xs ys :: "'a::linorder list"
  shows "length xs = length ys \<Longrightarrow> xs @ a \<le> ys @ b \<longleftrightarrow> xs < ys \<or> xs = ys \<and> a \<le> b"
  using append_less_iff [of xs ys a b] by (auto simp: le_less)

lemma lower_bound_iff: "numEncodeBound mn False \<le> numEncode v i \<longleftrightarrow> \<not> f64_before v mn"
  unfolding numEncodeBound_def numEncode_def
  using replicate_least [of "BigEndian_PutUint32 i" 4] f64_before_linear [of mn v]
    f64_before_asym [of mn v]
  by (auto simp: append_le_iff PutUint64_less_iff sortableBits_less_iff sortableBits_inject f64_before_def)

lemma upper_bound_iff: "numEncode v i \<le> numEncodeBound mx True \<longleftrightarrow> \<not> f64_before mx v"
  unfolding numEncodeBound_def numEncode_def
  using replicate_greatest [of "BigEndian_PutUint32 i" 4] f64_before_linear [of mx v]
    f64_before_asym [of mx v]
  by (auto simp: append_le_iff PutUint64_less_iff sortableBits_less_iff sortableBits_inject f64_before_def)

section \<open>The entries of an attribute\<close>

definition num_names :: "string \<Rightarrow> string set" where
  "num_names e = range (numIndexBucketName e)"

definition num_entries :: "('tx, 'v, 'bm) ext \<Rightarrow> 'tx \<Rightarrow> string \<Rightarrow> string \<Rightarrow> (f64 \<times> u32) set" where
  "num_entries X tx e a = {(v, i). bucket_get X tx (numIndexBucketName e a) (numEncode v i) \<noteq> None}"

text \<open>Every key of every numeric bucket of the entity encodes an entry with a finite value.\<close>

definition num_wf :: "('tx, 'v, 'bm) ext \<Rightarrow> 'tx \<Rightarrow> string \<Rightarrow> bool" where
  "num_wf X tx e \<longleftrightarrow>
     (\<forall>a k. bucket_get X tx (numIndexBucketName e a) k \<noteq> None \<longrightarrow> (\<exists>v i. f64_finite v \<and> k = numEncode v i))"

text \<open>The values a range query is after.\<close>

definition in_range :: "f64 \<Rightarrow> f64 \<Rightarrow> bool \<Rightarrow> bool \<Rightarrow> f64 \<Rightarrow> bool" where
  "in_range mn mx minExclusive maxExclusive v \<longleftrightarrow>
     \<not> f64_before v mn \<and> \<not> f64_before mx v \<and>
     \<not> (minExclusive \<and> f64_eq v mn) \<and> \<not> (maxExclusive \<and> f64_eq v mx)"

lemma in_range_numeric:
  assumes "f64_finite v" "f64_finite mn" "f64_finite mx" "f64_mag mn \<noteq> 0" "f64_mag mx \<noteq> 0"
  shows "in_range mn mx lo hi v \<longleftrightarrow>
    (if lo then f64_lt mn v else f64_le mn v) \<and> (if hi then f64_lt v mx else f64_le v mx)"
  using assms f64_before_nonzero [of v mn] f64_before_nonzero [of v mx]
  by (auto simp: in_range_def f64_finite_iff f64_lt_def f64_le_def f64_eq_def)

lemma numIndexBucketName_inject [simp]:
  "numIndexBucketName e a = numIndexBucketName e a' \<longleftrightarrow> a = a'"
  by (simp add: numIndexBucketName_def)

lemma num_entries_cong:
  "bucket_get X tx (numIndexBucketName e a) = bucket_get X tx' (numIndexBucketName e a) \<Longrightarrow>
     num_entries X tx e a = num_entries X tx' e a"
  by (simp add: num_entries_def)

lemma frame_num_views:
  assumes "frame X N tx tx'" "num_names e \<inter> N = {}"
  shows "num_entries X tx' e a = num_entries X tx e a" "num_wf X tx' e = num_wf X tx e"
proof -
  have "bucket_get X tx' (numIndexBucketName e a) = bucket_get X tx (numIndexBucketName e a)" for a
    using assms(2) by (intro frame_get [OF assms(1)]) (auto simp: num_names_def)
  then show "num_entries X tx' e a = num_entries X tx e a" "num_wf X tx' e = num_wf X tx e"
    by (simp_all add: num_entries_def num_wf_def)
qed

context ext_laws
begin

lemma numIndexAdd_effect:
  assumes "numIndexAdd X e a v i tx = Inr tx'" "f64_finite v"
  shows "frame X (num_names e) tx tx'"
    "num_entries X tx' e b = (if b = a then insert (v, i) (num_entries X tx e b) else num_entries X tx e b)"
    "num_wf X tx e \<Longrightarrow> num_wf X tx' e"
proof -
  let ?n = "numIndexBucketName e a"
  from assms obtain t where c: "create_bucket X ?n tx = Inr t"
    and p: "bucket_put X ?n (numEncode v i) (of_bytes X []) t = Inr tx'"
    by (auto simp: numIndexAdd_def f64_finite_iff result_simps)
  have n: "?n \<in> num_names e" by (simp add: num_names_def)
  show "frame X (num_names e) tx tx'"
    by (rule frame_trans [OF frame_create [OF c n] frame_put [OF p n]])
  have g: "bucket_get X tx' m k = (if m = ?n \<and> k = numEncode v i then Some (of_bytes X []) else bucket_get X tx m k)" for m k
    by (simp add: put_get [OF p] create_get [OF c])
  show "num_entries X tx' e b = (if b = a then insert (v, i) (num_entries X tx e b) else num_entries X tx e b)"
    by (auto simp: num_entries_def g split: if_splits)
  show "num_wf X tx e \<Longrightarrow> num_wf X tx' e"
    using assms(2) unfolding num_wf_def g by metis
qed

lemma numIndexRemove_effect:
  assumes "numIndexRemove X e a v i tx = Inr tx'" "f64_finite v"
  shows "frame X (num_names e) tx tx'"
    "num_entries X tx' e b = (if b = a then num_entries X tx e b - {(v, i)} else num_entries X tx e b)"
    "num_wf X tx e \<Longrightarrow> num_wf X tx' e"
proof -
  let ?n = "numIndexBucketName e a"
  have n: "?n \<in> num_names e" by (simp add: num_names_def)
  have *: "frame X (num_names e) tx tx' \<and>
    (\<forall>m k. bucket_get X tx' m k = (if m = ?n \<and> k = numEncode v i then None else bucket_get X tx m k))"
  proof (cases "has_bucket X tx ?n")
    case True
    with assms have d: "bucket_delete X ?n (numEncode v i) tx = Inr tx'"
      by (auto simp: numIndexRemove_def f64_finite_iff result_simps)
    show ?thesis using frame_del [OF d n] del_get [OF d] by blast
  next
    case False
    with assms have "tx' = tx" by (auto simp: numIndexRemove_def f64_finite_iff)
    then show ?thesis using no_bucket_get [OF False] by simp
  qed
  then show "frame X (num_names e) tx tx'" ..
  note g = * [THEN conjunct2, rule_format]
  show "num_entries X tx' e b = (if b = a then num_entries X tx e b - {(v, i)} else num_entries X tx e b)"
    by (auto simp: num_entries_def g split: if_splits)
  show "num_wf X tx e \<Longrightarrow> num_wf X tx' e"
    unfolding num_wf_def g by metis
qed

text \<open>The two loops of \<^verbatim>\<open>updateNumericIndex\<close>, on the entries of one attribute.\<close>

lemma numIndexRemove_loop:
  assumes "foldR (\<lambda>n. numIndexRemove X e (Path n) (Value n) i) ns tx = Inr tx'"
    and "\<forall>n \<in> set ns. f64_finite (Value n)"
  shows "frame X (num_names e) tx tx' \<and> (num_wf X tx e \<longrightarrow> num_wf X tx' e) \<and>
    num_entries X tx' e a = num_entries X tx e a - {(v, i) |v. \<lparr>Path = a, Value = v\<rparr> \<in> set ns}"
  using assms
proof (induction ns arbitrary: tx)
  case (Cons n ns)
  from Cons.prems(1) obtain t where t: "numIndexRemove X e (Path n) (Value n) i tx = Inr t"
    "foldR (\<lambda>n. numIndexRemove X e (Path n) (Value n) i) ns t = Inr tx'"
    by (auto simp: result_simps)
  have fin: "f64_finite (Value n)" using Cons.prems(2) by simp
  note one = numIndexRemove_effect [OF t(1) fin]
  have "frame X (num_names e) t tx' \<and> (num_wf X t e \<longrightarrow> num_wf X tx' e) \<and>
    num_entries X tx' e a = num_entries X t e a - {(v, i) |v. \<lparr>Path = a, Value = v\<rparr> \<in> set ns}"
    by (rule Cons.IH [OF t(2)]) (use Cons.prems(2) in simp)
  moreover have "\<lparr>Path = a, Value = v\<rparr> = n \<longleftrightarrow> a = Path n \<and> v = Value n" for v
    by (cases n) auto
  ultimately show ?case
    using one by (auto intro: frame_trans)
qed simp

lemma numIndexAdd_loop:
  assumes "foldR (\<lambda>n. numIndexAdd X e (Path n) (Value n) i) ns tx = Inr tx'"
    and "\<forall>n \<in> set ns. f64_finite (Value n)"
  shows "frame X (num_names e) tx tx' \<and> (num_wf X tx e \<longrightarrow> num_wf X tx' e) \<and>
    num_entries X tx' e a = num_entries X tx e a \<union> {(v, i) |v. \<lparr>Path = a, Value = v\<rparr> \<in> set ns}"
  using assms
proof (induction ns arbitrary: tx)
  case (Cons n ns)
  from Cons.prems(1) obtain t where t: "numIndexAdd X e (Path n) (Value n) i tx = Inr t"
    "foldR (\<lambda>n. numIndexAdd X e (Path n) (Value n) i) ns t = Inr tx'"
    by (auto simp: result_simps)
  have fin: "f64_finite (Value n)" using Cons.prems(2) by simp
  note one = numIndexAdd_effect [OF t(1) fin]
  have "frame X (num_names e) t tx' \<and> (num_wf X t e \<longrightarrow> num_wf X tx' e) \<and>
    num_entries X tx' e a = num_entries X t e a \<union> {(v, i) |v. \<lparr>Path = a, Value = v\<rparr> \<in> set ns}"
    by (rule Cons.IH [OF t(2)]) (use Cons.prems(2) in simp)
  moreover have "\<lparr>Path = a, Value = v\<rparr> = n \<longleftrightarrow> a = Path n \<and> v = Value n" for v
    by (cases n) auto
  ultimately show ?case
    using one by (auto intro: frame_trans)
qed simp

lemma updateNumericIndex_effect:
  assumes "updateNumericIndex X e i os ns tx = Inr tx'"
    and "\<forall>n \<in> set os. f64_finite (Value n)" "\<forall>n \<in> set ns. f64_finite (Value n)"
  shows "frame X (num_names e) tx tx'" "num_wf X tx e \<Longrightarrow> num_wf X tx' e"
    "num_entries X tx' e a =
       num_entries X tx e a - {(v, i) |v. \<lparr>Path = a, Value = v\<rparr> \<in> set os}
         \<union> {(v, i) |v. \<lparr>Path = a, Value = v\<rparr> \<in> set ns}"
proof -
  from assms(1) obtain t where
    t: "foldR (\<lambda>n. numIndexRemove X e (Path n) (Value n) i) os tx = Inr t"
    "foldR (\<lambda>n. numIndexAdd X e (Path n) (Value n) i) ns t = Inr tx'"
    by (auto simp: updateNumericIndex_def result_simps)
  from numIndexRemove_loop [OF t(1) assms(2), of a] numIndexAdd_loop [OF t(2) assms(3), of a]
  show "frame X (num_names e) tx tx'" "num_wf X tx e \<Longrightarrow> num_wf X tx' e"
    "num_entries X tx' e a =
       num_entries X tx e a - {(v, i) |v. \<lparr>Path = a, Value = v\<rparr> \<in> set os}
         \<union> {(v, i) |v. \<lparr>Path = a, Value = v\<rparr> \<in> set ns}"
    by (auto intro: frame_trans)
qed

section \<open>Range queries\<close>

lemma rangeLoop_set:
  assumes "sorted_wrt (<) (map fst kvs)"
    and "\<And>k x. (k, x) \<in> set kvs \<Longrightarrow> \<exists>v i. k = numEncode v i"
    and "rangeLoop X mn mx lo hi ub kvs acc = Inr bm"
  shows "set (bm_iter X bm) = set (bm_iter X acc) \<union>
    {i. \<exists>v x. (numEncode v i, x) \<in> set kvs \<and> numEncode v i \<le> ub \<and>
        \<not> (lo \<and> f64_eq v mn) \<and> \<not> (hi \<and> f64_eq v mx)}"
  using assms
proof (induction kvs arbitrary: acc)
  case (Cons kx kvs)
  obtain k x where kx: "kx = (k, x)" by (cases kx)
  obtain v i where k: "k = numEncode v i" using Cons.prems(2) [of k x] kx by auto
  show ?case
  proof (cases "k \<le> ub")
    case True
    define acc' where "acc' = (if lo \<and> f64_eq v mn \<or> hi \<and> f64_eq v mx then acc else bm_add X i acc)"
    have "rangeLoop X mn mx lo hi ub kvs acc' = Inr bm"
      using Cons.prems(3) True by (auto simp: kx k acc'_def Let_def split: if_splits)
    then have "set (bm_iter X bm) = set (bm_iter X acc') \<union>
      {i. \<exists>v x. (numEncode v i, x) \<in> set kvs \<and> numEncode v i \<le> ub \<and>
          \<not> (lo \<and> f64_eq v mn) \<and> \<not> (hi \<and> f64_eq v mx)}"
      using Cons.prems(1,2) by (intro Cons.IH) auto
    with True show ?thesis by (auto simp: kx k acc'_def iter_add)
  next
    case False
    have "k < l" if "(l, y) \<in> set kvs" for l y using that Cons.prems(1) kx by force
    with False have "\<not> l \<le> ub" if "(l, y) \<in> set kvs" for l y
      using that by (meson dual_order.strict_trans1 not_le_imp_less less_imp_le order.trans)
    with False Cons.prems(3) show ?thesis by (auto simp: kx k)
  qed
qed auto

lemma numIndexRange_set:
  assumes wf: "num_wf X tx e" and run: "numIndexRange X e a mn mx lo hi tx = Inr bm"
  shows "set (bm_iter X bm) = {i. \<exists>v. (v, i) \<in> num_entries X tx e a \<and> in_range mn mx lo hi v}"
proof -
  let ?n = "numIndexBucketName e a"
  have bounds: "\<not> f64_isNaN mn" "\<not> f64_isNaN mx"
    using run by (auto simp: numIndexRange_def split: if_splits)
  consider "f64_lt mx mn" "bm = bm_new X" | "\<not> has_bucket X tx ?n" "bm = bm_new X"
    | "has_bucket X tx ?n"
      "rangeLoop X mn mx lo hi (numEncodeBound mx True) (bucket_seek X tx ?n (numEncodeBound mn False)) (bm_new X) = Inr bm"
    using run by (auto simp: numIndexRange_def Let_def split: if_splits)
  then show ?thesis
  proof cases
    case 1
    then have "f64_before mx mn" by (simp add: f64_lt_def f64_before_def)
    then have "\<not> in_range mn mx lo hi v" for v
      using f64_before_linear [of mx v] f64_before_trans [of v mx mn] by (auto simp: in_range_def)
    with 1 show ?thesis by (simp add: iter_new)
  next
    case 2
    then show ?thesis by (auto simp: iter_new num_entries_def no_bucket_get)
  next
    case 3
    have keys: "\<exists>v i. k = numEncode v i" if "bucket_get X tx ?n k = Some x" for k x
      using wf that unfolding num_wf_def by (metis option.distinct(1))
    have "set (bm_iter X bm) = set (bm_iter X (bm_new X)) \<union>
      {i. \<exists>v x. (numEncode v i, x) \<in> set (bucket_seek X tx ?n (numEncodeBound mn False)) \<and>
          numEncode v i \<le> numEncodeBound mx True \<and> \<not> (lo \<and> f64_eq v mn) \<and> \<not> (hi \<and> f64_eq v mx)}"
    proof (rule rangeLoop_set [OF _ _ 3(2)])
      show "sorted_wrt (<) (map fst (bucket_seek X tx ?n (numEncodeBound mn False)))"
        using items_sorted [of tx ?n] by (simp add: seek_items sorted_wrt_map sorted_wrt_filter)
    qed (auto simp: seek_items in_items_iff keys)
    then show ?thesis
      by (auto simp: iter_new seek_items in_items_iff lower_bound_iff upper_bound_iff
          num_entries_def in_range_def)
  qed
qed

lemma rangeLoop_total:
  assumes "\<And>k x. (k, x) \<in> set kvs \<Longrightarrow> \<exists>v i. k = numEncode v i"
  shows "\<exists>bm. rangeLoop X mn mx lo hi ub kvs acc = Inr bm"
  using assms
proof (induction kvs arbitrary: acc)
  case (Cons kx kvs)
  have IH: "\<exists>bm. rangeLoop X mn mx lo hi ub kvs acc' = Inr bm" for acc'
    by (rule Cons.IH) (use Cons.prems in auto)
  obtain k x where kx: "kx = (k, x)" by (cases kx)
  then obtain v i where "k = numEncode v i" using Cons.prems [of k x] by auto
  with IH [of acc] IH [of "bm_add X i acc"] kx show ?case by (auto simp: Let_def)
qed simp

text \<open>On a well-formed index a query fails exactly for a bound that is not finite.\<close>

lemma numIndexRange_error_iff:
  assumes "num_wf X tx e"
  shows "(\<exists>err. numIndexRange X e a mn mx lo hi tx = Inl err) \<longleftrightarrow> \<not> (f64_finite mn \<and> f64_finite mx)"
proof -
  let ?n = "numIndexBucketName e a"
  have "\<exists>v i. k = numEncode v i" if "(k, x) \<in> set (bucket_seek X tx ?n p)" for k x p
    using assms that unfolding num_wf_def seek_items by (fastforce simp: in_items_iff)
  then have "\<exists>bm. rangeLoop X mn mx lo hi ub (bucket_seek X tx ?n p) acc = Inr bm" for ub p acc
    by (rule rangeLoop_total)
  then show ?thesis
    by (auto simp: numIndexRange_def f64_finite_iff Let_def) (metis Inl_Inr_False)+
qed

end

section \<open>The numeric index as a posting index\<close>

definition hookNumeric ::
  "('tx, 'v, 'bm) ext \<Rightarrow> string \<Rightarrow> u32 \<Rightarrow> bytes \<Rightarrow> bytes \<Rightarrow> 'tx \<Rightarrow> 'tx result" where
  "hookNumeric X e i old new tx =
     bindR (extractTerms X old) (\<lambda>os. bindR (extractTerms X new) (\<lambda>ns.
     updateNumericIndex X e i (Numerics os) (Numerics ns) tx))"

text \<open>The ids under an attribute and a value, and the attributes and values of a document.\<close>

definition num_members :: "('tx, 'v, 'bm) ext \<Rightarrow> 'tx \<Rightarrow> string \<Rightarrow> string \<times> f64 \<Rightarrow> u32 set" where
  "num_members X tx e av = {i. (snd av, i) \<in> num_entries X tx e (fst av)}"

definition num_keys :: "('tx, 'v, 'bm) ext \<Rightarrow> bytes \<Rightarrow> (string \<times> f64) set" where
  "num_keys X doc = (\<lambda>n. (Path n, Value n)) ` set (doc_numerics X doc)"

lemma num_keys_iff: "(a, v) \<in> num_keys X doc \<longleftrightarrow> \<lparr>Path = a, Value = v\<rparr> \<in> set (doc_numerics X doc)"
proof -
  have "n = \<lparr>Path = a, Value = v\<rparr> \<longleftrightarrow> Path n = a \<and> Value n = v" for n :: NumericField
    by (cases n) auto
  then show ?thesis unfolding num_keys_def image_iff by (metis prod.inject)
qed

sublocale ext_laws \<subseteq> numeric: posting_index X num_names "num_wf X" "num_members X" "num_keys X" "hookNumeric X"
proof
  fix e i old new tx tx'
  assume "hookNumeric X e i old new tx = Inr tx'"
  then obtain os ns where os: "extractTerms X old = Inr os" and ns: "extractTerms X new = Inr ns"
    and run: "updateNumericIndex X e i (Numerics os) (Numerics ns) tx = Inr tx'"
    by (auto simp: hookNumeric_def result_simps)
  have nums: "Numerics os = doc_numerics X old" "Numerics ns = doc_numerics X new"
    using extractTerms_ok(3) [OF os] extractTerms_ok(3) [OF ns] by auto
  have fin: "\<forall>n \<in> set (Numerics os). f64_finite (Value n)" "\<forall>n \<in> set (Numerics ns). f64_finite (Value n)"
    unfolding nums using doc_numerics_finite by blast+
  note eff = updateNumericIndex_effect [OF run fin, unfolded nums num_keys_iff [symmetric]]
  show "frame X (num_names e) tx tx'" by (rule eff(1))
  assume wf: "num_wf X tx e"
  show "num_wf X tx' e" by (rule eff(2) [OF wf])
  fix j k
  show "j \<in> num_members X tx' e k \<longleftrightarrow> j \<in> num_members X tx e k" if "j \<noteq> i"
    using that by (simp add: num_members_def eff(3))
  assume "\<And>k. i \<in> num_members X tx e k \<longleftrightarrow> k \<in> num_keys X old"
  then have "(v, i) \<in> num_entries X tx e a \<longleftrightarrow> (a, v) \<in> num_keys X old" for a v
    by (simp add: num_members_def split_paired_all)
  then show "i \<in> num_members X tx' e k \<longleftrightarrow> k \<in> num_keys X new"
    by (cases k) (simp add: num_members_def eff(3))
next
  fix N tx tx' e
  assume "frame X N tx tx'" "num_names e \<inter> N = {}"
  from frame_num_views [OF this] show "num_members X tx' e = num_members X tx e \<and> num_wf X tx' e = num_wf X tx e"
    by (simp add: num_members_def fun_eq_iff)
qed (simp add: num_keys_def doc_numerics_def)

end
