(* ===== verification/Temporal.thy ===== *)
theory Temporal
  imports Buckets
begin

text \<open>
  \<^verbatim>\<open>bboltstore/temporal.go\<close> and \<^verbatim>\<open>updateTemporalIndex\<close> of \<^verbatim>\<open>bboltstore/indexhooks.go\<close>: one event
  log per item, kept in the order of the event times.
\<close>

section \<open>Definitions\<close>

definition temporalBucketName :: "string \<Rightarrow> string \<Rightarrow> string" where
  "temporalBucketName entityID itemID = ''temp:'' @ entityID @ '':'' @ itemID"

definition logKey :: bytes where
  "logKey = ''log''"

text \<open>The item, the type and the time of a document, when it has all three.\<close>

definition temporalFields :: "('tx, 'v, 'bm) ext \<Rightarrow> bytes \<Rightarrow> (string \<times> string \<times> i64) option" where
  "temporalFields X doc =
     (if length doc = 0 then None
      else case unmarshal_map X doc of
        None \<Rightarrow> None
      | Some m \<Rightarrow>
          (case (map_of m ''item_id'', map_of m ''type'', map_of m ''at'') of
             (Some (AStr itemStr), Some (AStr typeStr), Some atRaw) \<Rightarrow>
               (case atRaw of
                  AFloat v \<Rightarrow> Some (itemStr, typeStr, f64_to_i64 (float_oor X) v)
                | AStr s \<Rightarrow>
                    (case time_parse X RFC3339Nano s of
                       Some t \<Rightarrow> Some (itemStr, typeStr, t)
                     | None \<Rightarrow>
                         (case time_parse X RFC3339 s of
                            Some t \<Rightarrow> Some (itemStr, typeStr, t)
                          | None \<Rightarrow> None))
                | _ \<Rightarrow> None)
           | _ \<Rightarrow> None))"

definition loadTemporal ::
  "('tx, 'v, 'bm) ext \<Rightarrow> string \<Rightarrow> string \<Rightarrow> 'tx \<Rightarrow> (temporalEntry list) result" where
  "loadTemporal X entityID itemID tx =
     (let b = temporalBucketName entityID itemID in
      if \<not> has_bucket X tx b then Inr []
      else case bucket_get X tx b logKey of
        None \<Rightarrow> Inr []
      | Some raw \<Rightarrow>
          (case dec_log X raw of
             None \<Rightarrow> Inl (NewErr ''temporal: decode log'')
           | Some entries \<Rightarrow> Inr entries))"

definition storeTemporal ::
  "('tx, 'v, 'bm) ext \<Rightarrow> string \<Rightarrow> string \<Rightarrow> temporalEntry list \<Rightarrow> 'tx \<Rightarrow> 'tx result" where
  "storeTemporal X entityID itemID entries tx =
     (let b = temporalBucketName entityID itemID in
      bindR (liftB (create_bucket X b tx)) (\<lambda>tx.
      liftB (bucket_put X b logKey (enc_log X entries) tx)))"

definition deleteTemporalKey :: "('tx, 'v, 'bm) ext \<Rightarrow> string \<Rightarrow> string \<Rightarrow> 'tx \<Rightarrow> 'tx result" where
  "deleteTemporalKey X entityID itemID tx =
     (let name = temporalBucketName entityID itemID in
      if \<not> has_bucket X tx name then Inr tx else liftB (delete_bucket X name tx))"

definition filterOutDocID :: "string \<Rightarrow> temporalEntry list \<Rightarrow> temporalEntry list" where
  "filterOutDocID docID entries = filter (\<lambda>e. EDocID e \<noteq> docID) entries"

definition temporalAdd ::
  "('tx, 'v, 'bm) ext \<Rightarrow> string \<Rightarrow> string \<Rightarrow> string \<Rightarrow> string \<Rightarrow> i64 \<Rightarrow> 'tx \<Rightarrow> 'tx result" where
  "temporalAdd X entityID itemID docID recordType at tx =
     bindR (loadTemporal X entityID itemID tx) (\<lambda>entries.
     let entries = filterOutDocID docID entries;
         entries = entries @ [\<lparr>At = at, EType = recordType, EDocID = docID\<rparr>];
         entries = sort_slice X entries
     in storeTemporal X entityID itemID entries tx)"

definition temporalRemove ::
  "('tx, 'v, 'bm) ext \<Rightarrow> string \<Rightarrow> string \<Rightarrow> string \<Rightarrow> 'tx \<Rightarrow> 'tx result" where
  "temporalRemove X entityID itemID docID tx =
     bindR (loadTemporal X entityID itemID tx) (\<lambda>entries.
     let entries = filterOutDocID docID entries
     in if length entries = 0 then deleteTemporalKey X entityID itemID tx
        else storeTemporal X entityID itemID entries tx)"

definition temporalRead ::
  "('tx, 'v, 'bm) ext \<Rightarrow> string \<Rightarrow> string \<Rightarrow> string list \<Rightarrow> 'tx \<Rightarrow> (temporalEntry list) result" where
  "temporalRead X entityID itemID types tx =
     bindR (loadTemporal X entityID itemID tx) (\<lambda>entries.
     if length types = 0 then Inr entries
     else Inr (filter (\<lambda>e. EType e \<in> set types) entries))"

definition updateTemporalIndex ::
  "('tx, 'v, 'bm) ext \<Rightarrow> string \<Rightarrow> string \<Rightarrow> bytes \<Rightarrow> bytes \<Rightarrow> 'tx \<Rightarrow> 'tx result" where
  "updateTemporalIndex X entityID docID oldDoc newDoc tx =
     bindR (if length oldDoc > 0 then
              (case temporalFields X oldDoc of
                 Some (oldItem, _, _) \<Rightarrow> temporalRemove X entityID oldItem docID tx
               | None \<Rightarrow> Inr tx)
            else Inr tx) (\<lambda>tx.
     if length newDoc > 0 then
       (case temporalFields X newDoc of
          Some (newItem, recType, at) \<Rightarrow> temporalAdd X entityID newItem docID recType at tx
        | None \<Rightarrow> Inr tx)
     else Inr tx)"

section \<open>The logs a transaction shows\<close>

definition temporal_names :: "string \<Rightarrow> string set" where
  "temporal_names e = range (temporalBucketName e)"

definition log_of :: "('tx, 'v, 'bm) ext \<Rightarrow> 'tx \<Rightarrow> string \<Rightarrow> string \<Rightarrow> temporalEntry list" where
  "log_of X tx e item =
     (case bucket_get X tx (temporalBucketName e item) logKey of
        None \<Rightarrow> []
      | Some raw \<Rightarrow> (case dec_log X raw of None \<Rightarrow> [] | Some es \<Rightarrow> es))"

abbreviation sorted_log :: "temporalEntry list \<Rightarrow> bool" where
  "sorted_log es \<equiv> sorted_wrt (\<lambda>a b. sint (At a) \<le> sint (At b)) es"

definition entry_ok :: "temporalEntry \<Rightarrow> bool" where
  "entry_ok en \<longleftrightarrow> utf8_ok (EType en) \<and> utf8_ok (EDocID en)"

text \<open>The invariant of an entity's logs: each one decodes, is in time order, mentions a
  document once and holds strings that survive JSON.\<close>

definition temporal_ok :: "('tx, 'v, 'bm) ext \<Rightarrow> 'tx \<Rightarrow> string \<Rightarrow> bool" where
  "temporal_ok X tx e \<longleftrightarrow>
     (\<forall>item raw. bucket_get X tx (temporalBucketName e item) logKey = Some raw \<longrightarrow> dec_log X raw \<noteq> None) \<and>
     (\<forall>item. sorted_log (log_of X tx e item) \<and> distinct (map EDocID (log_of X tx e item)) \<and>
        (\<forall>en \<in> set (log_of X tx e item). entry_ok en))"

text \<open>The logs hold exactly the events of the stored documents.\<close>

definition log_exact :: "('tx, 'v, 'bm) ext \<Rightarrow> 'tx \<Rightarrow> string \<Rightarrow> (string \<Rightarrow> bytes) \<Rightarrow> bool" where
  "log_exact X tx e D \<longleftrightarrow>
     (\<forall>item en. en \<in> set (log_of X tx e item) \<longleftrightarrow>
        temporalFields X (D (EDocID en)) = Some (item, EType en, At en))"

text \<open>What an update makes of one log.\<close>

definition log_update ::
  "('tx, 'v, 'bm) ext \<Rightarrow> string \<Rightarrow> (string \<times> string \<times> i64) option \<Rightarrow> (string \<times> string \<times> i64) option \<Rightarrow>
     string \<Rightarrow> temporalEntry list \<Rightarrow> temporalEntry list" where
  "log_update X d old new item es =
     (case new of
        Some (item', ty, at) \<Rightarrow>
          if item = item'
          then sort_slice X (filterOutDocID d es @ [\<lparr>At = at, EType = ty, EDocID = d\<rparr>])
          else (case old of Some (item'', _, _) \<Rightarrow> if item = item'' then filterOutDocID d es else es | None \<Rightarrow> es)
      | None \<Rightarrow>
          (case old of Some (item'', _, _) \<Rightarrow> if item = item'' then filterOutDocID d es else es | None \<Rightarrow> es))"

lemma temporalBucketName_inject [simp]:
  "temporalBucketName e a = temporalBucketName e a' \<longleftrightarrow> a = a'"
  by (simp add: temporalBucketName_def)

lemma in_temporal_names [simp]: "temporalBucketName e a \<in> temporal_names e"
  by (simp add: temporal_names_def)

lemma frame_temporal_views:
  assumes "frame X N tx tx'" "temporal_names e \<inter> N = {}"
  shows "log_of X tx' e = log_of X tx e" "temporal_ok X tx' e = temporal_ok X tx e"
proof -
  have "bucket_get X tx' (temporalBucketName e a) = bucket_get X tx (temporalBucketName e a)" for a
    using assms(2) by (intro frame_get [OF assms(1)]) (auto simp: temporal_names_def)
  then show "log_of X tx' e = log_of X tx e" "temporal_ok X tx' e = temporal_ok X tx e"
    by (simp_all add: log_of_def fun_eq_iff temporal_ok_def)
qed

lemma filterOutDocID_twice [simp]: "filterOutDocID d (filterOutDocID d es) = filterOutDocID d es"
  by (simp add: filterOutDocID_def)

lemma temporalFields_nonempty: "temporalFields X doc \<noteq> None \<Longrightarrow> doc \<noteq> []"
  by (auto simp: temporalFields_def)

section \<open>Correctness\<close>

context ext_laws
begin

lemma temporalFields_utf8:
  assumes "temporalFields X doc = Some (item, ty, at)"
  shows "utf8_ok ty" "utf8_ok item"
proof -
  obtain m where m: "unmarshal_map X doc = Some m"
    "map_of m ''item_id'' = Some (AStr item)" "map_of m ''type'' = Some (AStr ty)"
    using assms by (auto simp: temporalFields_def split: if_splits option.splits any.splits)
  then obtain kvs where k: "json_unmarshal X doc = Some (AObj kvs)" "m = kvs"
    by (auto simp: unmarshal_map_def split: option.splits any.splits)
  from unmarshal_wf [OF k(1)] have "\<forall>kv \<in> set m. any_wf (snd kv)" using k(2) by simp
  with m show "utf8_ok ty" "utf8_ok item"
    by (auto dest!: map_of_SomeD)
qed

lemma loadTemporal_ok: "loadTemporal X e item tx = Inr es \<Longrightarrow> es = log_of X tx e item"
  using no_bucket_get
  by (auto simp: loadTemporal_def log_of_def Let_def split: if_splits option.splits)

lemma loadTemporal_succeeds:
  assumes "temporal_ok X tx e"
  shows "loadTemporal X e item tx = Inr (log_of X tx e item)"
proof (cases "bucket_get X tx (temporalBucketName e item) logKey")
  case None
  then show ?thesis by (simp add: loadTemporal_def log_of_def Let_def)
next
  case (Some raw)
  with assms obtain es where "dec_log X raw = Some es"
    unfolding temporal_ok_def by blast
  with Some get_has [OF Some] show ?thesis
    by (simp add: loadTemporal_def log_of_def Let_def)
qed

lemma storeTemporal_effect:
  assumes "storeTemporal X e item es tx = Inr tx'"
  shows "frame X (temporal_names e) tx tx'"
    "bucket_get X tx' n k =
      (if n = temporalBucketName e item \<and> k = logKey then Some (enc_log X es) else bucket_get X tx n k)"
proof -
  from assms obtain t where c: "create_bucket X (temporalBucketName e item) tx = Inr t"
    and p: "bucket_put X (temporalBucketName e item) logKey (enc_log X es) t = Inr tx'"
    by (auto simp: storeTemporal_def Let_def result_simps)
  show "frame X (temporal_names e) tx tx'"
    by (rule frame_trans [OF frame_create [OF c] frame_put [OF p]]) simp_all
  show "bucket_get X tx' n k =
      (if n = temporalBucketName e item \<and> k = logKey then Some (enc_log X es) else bucket_get X tx n k)"
    by (simp add: put_get [OF p] create_get [OF c])
qed

lemma storeTemporal_log:
  assumes "storeTemporal X e item es tx = Inr tx'" "\<forall>en \<in> set es. entry_ok en"
  shows "log_of X tx' e i = (if i = item then es else log_of X tx e i)"
  using log_roundtrip [of es] assms(2)
  by (auto simp: log_of_def storeTemporal_effect(2) [OF assms(1)] entry_ok_def)

lemma storeTemporal_temporal_ok:
  assumes "storeTemporal X e item es tx = Inr tx'" "\<forall>en \<in> set es. entry_ok en"
    and "temporal_ok X tx e" "sorted_log es" "distinct (map EDocID es)"
  shows "temporal_ok X tx' e"
  using assms(2-5) log_decodes [of es]
  unfolding temporal_ok_def storeTemporal_log [OF assms(1,2)] storeTemporal_effect(2) [OF assms(1)]
  by auto

lemma deleteTemporalKey_effect:
  assumes "deleteTemporalKey X e item tx = Inr tx'"
  shows "frame X (temporal_names e) tx tx'"
    "bucket_get X tx' n k = (if n = temporalBucketName e item then None else bucket_get X tx n k)"
proof -
  let ?n = "temporalBucketName e item"
  have "frame X (temporal_names e) tx tx' \<and>
    (\<forall>n k. bucket_get X tx' n k = (if n = ?n then None else bucket_get X tx n k))"
  proof (cases "has_bucket X tx ?n")
    case True
    with assms have d: "delete_bucket X ?n tx = Inr tx'"
      by (simp add: deleteTemporalKey_def Let_def result_simps)
    from frame_delete_bucket [OF d] delete_get [OF d] show ?thesis by simp
  next
    case False
    with assms have "tx' = tx" by (simp add: deleteTemporalKey_def Let_def)
    with no_bucket_get [OF False] show ?thesis by simp
  qed
  then show "frame X (temporal_names e) tx tx'"
    "bucket_get X tx' n k = (if n = ?n then None else bucket_get X tx n k)" by auto
qed

lemma filterOut_keeps:
  assumes "sorted_log es" "distinct (map EDocID es)" "\<forall>en \<in> set es. entry_ok en"
  shows "sorted_log (filterOutDocID d es)" "distinct (map EDocID (filterOutDocID d es))"
    "\<forall>en \<in> set (filterOutDocID d es). entry_ok en"
  using assms by (auto simp: filterOutDocID_def sorted_wrt_filter distinct_map_filter)

lemma temporalAdd_effect:
  assumes run: "temporalAdd X e item d ty at tx = Inr tx'"
    and ok: "temporal_ok X tx e" and u: "utf8_ok d" "utf8_ok ty"
  shows "frame X (temporal_names e) tx tx'" "temporal_ok X tx' e"
    "log_of X tx' e i = (if i = item
       then sort_slice X (filterOutDocID d (log_of X tx e item) @ [\<lparr>At = at, EType = ty, EDocID = d\<rparr>])
       else log_of X tx e i)"
proof -
  let ?new = "\<lparr>At = at, EType = ty, EDocID = d\<rparr>"
  let ?es = "sort_slice X (filterOutDocID d (log_of X tx e item) @ [?new])"
  from run obtain es where "loadTemporal X e item tx = Inr es"
    and "storeTemporal X e item (sort_slice X (filterOutDocID d es @ [?new])) tx = Inr tx'"
    by (auto simp: temporalAdd_def Let_def result_simps)
  then have st: "storeTemporal X e item ?es tx = Inr tx'" using loadTemporal_ok by blast
  have old: "sorted_log (log_of X tx e item)" "distinct (map EDocID (log_of X tx e item))"
    "\<forall>en \<in> set (log_of X tx e item). entry_ok en"
    using ok by (auto simp: temporal_ok_def)
  note kept = filterOut_keeps [OF old, of d]
  have m: "mset ?es = mset (filterOutDocID d (log_of X tx e item)) + {#?new#}"
    by (simp add: sort_mset)
  then have s: "set ?es = insert ?new (set (filterOutDocID d (log_of X tx e item)))"
    using mset_eq_setD [of ?es "filterOutDocID d (log_of X tx e item) @ [?new]"] by (simp add: sort_mset)
  then have good: "\<forall>en \<in> set ?es. entry_ok en"
    using kept(3) u by (auto simp: entry_ok_def)
  have "mset (map EDocID ?es) = mset (map EDocID (filterOutDocID d (log_of X tx e item) @ [?new]))"
    by (simp add: m)
  then have "distinct (map EDocID ?es) \<longleftrightarrow>
      distinct (map EDocID (filterOutDocID d (log_of X tx e item) @ [?new]))"
    by (rule mset_eq_imp_distinct_iff)
  also have "\<dots>" using kept(2) by (auto simp: filterOutDocID_def)
  finally have dist: "distinct (map EDocID ?es)" .
  show "frame X (temporal_names e) tx tx'" by (rule storeTemporal_effect(1) [OF st])
  show "temporal_ok X tx' e"
    by (rule storeTemporal_temporal_ok [OF st good ok sort_sorted dist])
  show "log_of X tx' e i = (if i = item then ?es else log_of X tx e i)"
    by (rule storeTemporal_log [OF st good])
qed

lemma temporalRemove_effect:
  assumes run: "temporalRemove X e item d tx = Inr tx'" and ok: "temporal_ok X tx e"
  shows "frame X (temporal_names e) tx tx'" "temporal_ok X tx' e"
    "log_of X tx' e i = (if i = item then filterOutDocID d (log_of X tx e i) else log_of X tx e i)"
proof -
  let ?es = "filterOutDocID d (log_of X tx e item)"
  have old: "sorted_log (log_of X tx e item)" "distinct (map EDocID (log_of X tx e item))"
    "\<forall>en \<in> set (log_of X tx e item). entry_ok en"
    using ok by (auto simp: temporal_ok_def)
  note kept = filterOut_keeps [OF old, of d]
  from run obtain es where "loadTemporal X e item tx = Inr es"
    and "(if length (filterOutDocID d es) = 0 then deleteTemporalKey X e item tx
          else storeTemporal X e item (filterOutDocID d es) tx) = Inr tx'"
    by (auto simp: temporalRemove_def Let_def result_simps)
  then have step: "(if ?es = [] then deleteTemporalKey X e item tx
      else storeTemporal X e item ?es tx) = Inr tx'"
    using loadTemporal_ok by fastforce
  have "frame X (temporal_names e) tx tx' \<and> temporal_ok X tx' e \<and>
    log_of X tx' e i = (if i = item then filterOutDocID d (log_of X tx e i) else log_of X tx e i)"
  proof (cases "?es = []")
    case True
    with step have del: "deleteTemporalKey X e item tx = Inr tx'" by simp
    note g = deleteTemporalKey_effect(2) [OF del]
    have log: "log_of X tx' e j = (if j = item then [] else log_of X tx e j)" for j
      by (simp add: log_of_def g)
    have "temporal_ok X tx' e"
      using ok unfolding temporal_ok_def log by (auto simp: g)
    with True log deleteTemporalKey_effect(1) [OF del] show ?thesis by simp
  next
    case False
    with step have st: "storeTemporal X e item ?es tx = Inr tx'" by simp
    show ?thesis
      using storeTemporal_effect(1) [OF st] storeTemporal_log [OF st kept(3)]
        storeTemporal_temporal_ok [OF st kept(3) ok kept(1,2)] by auto
  qed
  then show "frame X (temporal_names e) tx tx'" "temporal_ok X tx' e"
    "log_of X tx' e i = (if i = item then filterOutDocID d (log_of X tx e i) else log_of X tx e i)" by auto
qed

text \<open>Even with a document id that JSON does not carry, only the temporal buckets change.\<close>

lemma temporalAdd_frame: "temporalAdd X e item d ty at tx = Inr tx' \<Longrightarrow> frame X (temporal_names e) tx tx'"
  by (auto simp: temporalAdd_def Let_def result_simps intro: storeTemporal_effect(1))

lemma temporalRemove_frame: "temporalRemove X e item d tx = Inr tx' \<Longrightarrow> frame X (temporal_names e) tx tx'"
  by (auto simp: temporalRemove_def Let_def result_simps split: if_splits
      intro: storeTemporal_effect(1) deleteTemporalKey_effect(1))

lemma updateTemporalIndex_frame:
  assumes "updateTemporalIndex X e d old new tx = Inr tx'"
  shows "frame X (temporal_names e) tx tx'"
  using assms
  by (auto simp: updateTemporalIndex_def result_simps split: if_splits option.splits
      intro: temporalAdd_frame temporalRemove_frame frame_trans)

lemma updateTemporalIndex_effect:
  assumes run: "updateTemporalIndex X e d old new tx = Inr tx'"
    and ok: "temporal_ok X tx e" and u: "utf8_ok d"
  shows "temporal_ok X tx' e"
    "log_of X tx' e item =
       log_update X d (temporalFields X old) (temporalFields X new) item (log_of X tx e item)"
proof -
  from run obtain t where
    t1: "(case temporalFields X old of
            Some (oldItem, _, _) \<Rightarrow> temporalRemove X e oldItem d tx | None \<Rightarrow> Inr tx) = Inr t" and
    t2: "(case temporalFields X new of
            Some (newItem, recType, at) \<Rightarrow> temporalAdd X e newItem d recType at t | None \<Rightarrow> Inr t) = Inr tx'"
    using temporalFields_nonempty
    by (auto simp: updateTemporalIndex_def result_simps temporalFields_def split: if_splits)
  have mid: "temporal_ok X t e \<and> (\<forall>i. log_of X t e i =
      (case temporalFields X old of
         Some (oldItem, _, _) \<Rightarrow> if i = oldItem then filterOutDocID d (log_of X tx e i) else log_of X tx e i
       | None \<Rightarrow> log_of X tx e i))"
    using t1 temporalRemove_effect [OF _ ok] ok by (auto split: option.splits)
  show "temporal_ok X tx' e"
    using t2 mid temporalAdd_effect(2) [OF _ _ u temporalFields_utf8(1)]
    by (auto split: option.splits)
  show "log_of X tx' e item =
       log_update X d (temporalFields X old) (temporalFields X new) item (log_of X tx e item)"
  proof (cases "temporalFields X new")
    case None
    with t2 mid show ?thesis by (auto simp: log_update_def split: option.splits)
  next
    case (Some f)
    obtain item' ty at where f: "f = (item', ty, at)" by (cases f)
    from t2 Some f have "temporalAdd X e item' d ty at t = Inr tx'" by simp
    from temporalAdd_effect(3) [OF this _ u temporalFields_utf8(1) [OF Some [unfolded f]], of item] mid
    show ?thesis
      by (auto simp: log_update_def Some f split: option.splits)
  qed
qed

lemma log_update_set:
  "set (log_update X d old new item es) =
    (case new of Some (item', ty, at) \<Rightarrow> if item = item' then {\<lparr>At = at, EType = ty, EDocID = d\<rparr>} else {}
       | None \<Rightarrow> {}) \<union>
    (if (\<exists>ty at. new = Some (item, ty, at)) \<or> (\<exists>ty at. old = Some (item, ty, at))
     then {en \<in> set es. EDocID en \<noteq> d} else set es)"
proof -
  have "set (sort_slice X xs) = set xs" for xs using mset_eq_setD [OF sort_mset] .
  then show ?thesis
    by (auto simp: log_update_def filterOutDocID_def split: option.splits)
qed

lemma updateTemporalIndex_exact:
  assumes run: "updateTemporalIndex X e d (D d) new tx = Inr tx'"
    and ok: "temporal_ok X tx e" and u: "utf8_ok d" and ex: "log_exact X tx e D"
  shows "log_exact X tx' e (D(d := new))"
  unfolding log_exact_def
proof (intro allI)
  fix item and en :: temporalEntry
  obtain a t x where en: "en = \<lparr>At = a, EType = t, EDocID = x\<rparr>" by (cases en)
  note l = updateTemporalIndex_effect(2) [OF run ok u, of item]
  have old: "en \<in> set (log_of X tx e item) \<longleftrightarrow> temporalFields X (D x) = Some (item, t, a)"
    using ex unfolding log_exact_def by (simp add: en)
  have "en \<in> set (log_of X tx' e item) \<longleftrightarrow> temporalFields X ((D(d := new)) x) = Some (item, t, a)"
  proof (cases "x = d")
    case True
    with old show ?thesis
      unfolding l log_update_set en by (cases "temporalFields X new") (auto split: if_splits)
  next
    case False
    with old show ?thesis
      unfolding l log_update_set en by (cases "temporalFields X new") (auto split: if_splits)
  qed
  then show "en \<in> set (log_of X tx' e item) \<longleftrightarrow>
      temporalFields X ((D(d := new)) (EDocID en)) = Some (item, EType en, At en)" by (simp add: en)
qed

end

end
