(* ===== verification/Groupby.thy ===== *)
theory Groupby
  imports Postings Temporal
begin

text \<open>
  \<^verbatim>\<open>bboltstore/groupby.go\<close> and \<^verbatim>\<open>updateGroupByIndex\<close> of \<^verbatim>\<open>bboltstore/indexhooks.go\<close>: counters per
  \<open>(item, attribute, value)\<close>, each with the bitmap of the documents it counts.
\<close>

section \<open>Definitions\<close>

definition groupByBucketName :: "string \<Rightarrow> string" where
  "groupByBucketName entityID = ''gby:'' @ entityID"

text \<open>The scalar at one field of the document, as a string.\<close>

fun scalarField :: "('tx, 'v, 'bm) ext \<Rightarrow> string \<times> any \<Rightarrow> (string \<times> string) option" where
  "scalarField X (k, v) =
     (if k = ''item_id'' then None
      else case v of
        AStr x \<Rightarrow> Some (k, x)
      | ABool x \<Rightarrow> Some (k, if x then ''true'' else ''false'')
      | AFloat x \<Rightarrow> Some (k, format_g X x)
      | ANumber x \<Rightarrow> Some (k, x)
      | _ \<Rightarrow> None)"

definition groupByFields ::
  "('tx, 'v, 'bm) ext \<Rightarrow> bytes \<Rightarrow> (string \<times> (string \<times> string) list) option" where
  "groupByFields X doc =
     (if length doc = 0 then None
      else case unmarshal_map X doc of
        None \<Rightarrow> None
      | Some m \<Rightarrow>
          (case map_of m ''item_id'' of
             Some (AStr itemStr) \<Rightarrow> Some (itemStr, List.map_filter (scalarField X) m)
           | _ \<Rightarrow> None))"

definition groupByKey :: "string \<Rightarrow> string \<Rightarrow> string \<Rightarrow> bytes" where
  "groupByKey itemID attr v = itemID @ ''|'' @ attr @ ''|'' @ v"

definition zeroGroup :: groupByValue where
  "zeroGroup = \<lparr>GCount = 0, FirstSeen = 0, GLastSeen = 0, Bitmap = []\<rparr>"

definition groupBitmap :: "('tx, 'v, 'bm) ext \<Rightarrow> groupByValue \<Rightarrow> 'bm result" where
  "groupBitmap X v =
     (if 0 < length (Bitmap v) then
        (case bm_read X (Bitmap v) of
           None \<Rightarrow> Inl (NewErr ''groupby: decode bitmap'') | Some bm \<Rightarrow> Inr bm)
      else Inr (bm_new X))"

definition decodeGroup :: "('tx, 'v, 'bm) ext \<Rightarrow> 'v \<Rightarrow> groupByValue result" where
  "decodeGroup X raw =
     (case dec_group X raw of None \<Rightarrow> Inl (NewErr ''groupby: decode'') | Some v \<Rightarrow> Inr v)"

text \<open>The counter and the two timestamps of a group after one more document, \<open>added\<close> telling
  whether the document was new to it.\<close>

definition bumpGroup :: "bool \<Rightarrow> i64 \<Rightarrow> groupByValue \<Rightarrow> groupByValue" where
  "bumpGroup added at v =
     (let v = (if added then v\<lparr>GCount := GCount v + 1\<rparr> else v);
          v = (if FirstSeen v = 0 \<or> sint at < sint (FirstSeen v) then v\<lparr>FirstSeen := at\<rparr> else v)
      in if sint at > sint (GLastSeen v) then v\<lparr>GLastSeen := at\<rparr> else v)"

definition groupByAdd ::
  "('tx, 'v, 'bm) ext \<Rightarrow> string \<Rightarrow> string \<Rightarrow> string \<Rightarrow> string \<Rightarrow> u32 \<Rightarrow> i64 \<Rightarrow> 'tx \<Rightarrow> 'tx result" where
  "groupByAdd X entityID itemID attr vl internalID at tx =
     (let b = groupByBucketName entityID; key = groupByKey itemID attr vl in
      bindR (liftB (create_bucket X b tx)) (\<lambda>tx.
      bindR (case bucket_get X tx b key of
               None \<Rightarrow> Inr zeroGroup | Some raw \<Rightarrow> decodeGroup X raw) (\<lambda>v.
      bindR (groupBitmap X v) (\<lambda>bm.
      let (added, bm) = bm_checked_add X internalID bm;
          v = (bumpGroup added at v)\<lparr>Bitmap := bm_write X bm\<rparr>
      in liftB (bucket_put X b key (enc_group X v) tx)))))"

definition groupByRemove ::
  "('tx, 'v, 'bm) ext \<Rightarrow> string \<Rightarrow> string \<Rightarrow> string \<Rightarrow> string \<Rightarrow> u32 \<Rightarrow> 'tx \<Rightarrow> 'tx result" where
  "groupByRemove X entityID itemID attr vl internalID tx =
     (let b = groupByBucketName entityID; key = groupByKey itemID attr vl in
      if \<not> has_bucket X tx b then Inr tx
      else case bucket_get X tx b key of
        None \<Rightarrow> Inr tx
      | Some raw \<Rightarrow>
          bindR (decodeGroup X raw) (\<lambda>v.
          bindR (groupBitmap X v) (\<lambda>bm.
          let (removed, bm) = bm_checked_remove X internalID bm in
          if \<not> removed then Inr tx
          else let v = v\<lparr>GCount := GCount v - 1\<rparr> in
               if sint (GCount v) \<le> 0 \<or> bm_is_empty X bm then liftB (bucket_delete X b key tx)
               else let v = v\<lparr>Bitmap := bm_write X bm\<rparr>
                    in liftB (bucket_put X b key (enc_group X v) tx))))"

definition groupByRead ::
  "('tx, 'v, 'bm) ext \<Rightarrow> string \<Rightarrow> string \<Rightarrow> string \<Rightarrow> string \<Rightarrow> 'tx \<Rightarrow> (groupByValue \<times> 'bm) result" where
  "groupByRead X entityID itemID attr vl tx =
     (let b = groupByBucketName entityID in
      if \<not> has_bucket X tx b then Inr (zeroGroup, bm_new X)
      else case bucket_get X tx b (groupByKey itemID attr vl) of
        None \<Rightarrow> Inr (zeroGroup, bm_new X)
      | Some raw \<Rightarrow>
          bindR (decodeGroup X raw) (\<lambda>v.
          bindR (groupBitmap X v) (\<lambda>bm. Inr (v, bm))))"

definition updateGroupByIndex ::
  "('tx, 'v, 'bm) ext \<Rightarrow> string \<Rightarrow> u32 \<Rightarrow> bytes \<Rightarrow> bytes \<Rightarrow> 'tx \<Rightarrow> 'tx result" where
  "updateGroupByIndex X entityID internalID oldDoc newDoc tx =
     bindR (if length oldDoc > 0 then
              (case groupByFields X oldDoc of
                 Some (oldItem, oldScalars) \<Rightarrow>
                   foldR (\<lambda>(attr, vl). groupByRemove X entityID oldItem attr vl internalID) oldScalars tx
               | None \<Rightarrow> Inr tx)
            else Inr tx) (\<lambda>tx.
     if length newDoc > 0 then
       (case groupByFields X newDoc of
          Some (newItem, newScalars) \<Rightarrow>
            (let at = (case temporalFields X newDoc of Some (_, _, at) \<Rightarrow> at | None \<Rightarrow> 0)
             in foldR (\<lambda>(attr, vl). groupByAdd X entityID newItem attr vl internalID at) newScalars tx)
        | None \<Rightarrow> Inr tx)
     else Inr tx)"

section \<open>The groups a transaction shows\<close>

text \<open>The documents counted under a key of the bucket.\<close>

definition group_members :: "('tx, 'v, 'bm) ext \<Rightarrow> 'tx \<Rightarrow> string \<Rightarrow> bytes \<Rightarrow> u32 set" where
  "group_members X tx e k =
     (case bucket_get X tx (groupByBucketName e) k of
        None \<Rightarrow> {}
      | Some raw \<Rightarrow>
          (case dec_group X raw of
             None \<Rightarrow> {}
           | Some g \<Rightarrow> (case bm_read X (Bitmap g) of None \<Rightarrow> {} | Some bm \<Rightarrow> set (bm_iter X bm))))"

text \<open>The invariant: every stored group decodes, has members, and counts them.\<close>

definition group_value_ok :: "('tx, 'v, 'bm) ext \<Rightarrow> 'v \<Rightarrow> bool" where
  "group_value_ok X raw \<longleftrightarrow>
     (\<exists>g bm. dec_group X raw = Some g \<and> bm_read X (Bitmap g) = Some bm \<and> Bitmap g \<noteq> [] \<and>
        bm_iter X bm \<noteq> [] \<and> GCount g = word_of_nat (length (bm_iter X bm)))"

definition group_ok :: "('tx, 'v, 'bm) ext \<Rightarrow> 'tx \<Rightarrow> string \<Rightarrow> bool" where
  "group_ok X tx e \<longleftrightarrow>
     (\<forall>k raw. bucket_get X tx (groupByBucketName e) k = Some raw \<longrightarrow> group_value_ok X raw)"

text \<open>The keys a document is counted under.\<close>

definition group_keys :: "('tx, 'v, 'bm) ext \<Rightarrow> bytes \<Rightarrow> bytes set" where
  "group_keys X doc =
     (case groupByFields X doc of
        None \<Rightarrow> {}
      | Some (item, scalars) \<Rightarrow> (\<lambda>(attr, vl). groupByKey item attr vl) ` set scalars)"

lemma frame_group_views:
  assumes "frame X N tx tx'" "groupByBucketName e \<notin> N"
  shows "group_members X tx' e = group_members X tx e" "group_ok X tx' e = group_ok X tx e"
  using frame_get [OF assms] by (simp_all add: group_members_def group_ok_def fun_eq_iff)

lemma groupByKey_inject:
  assumes "CHR ''|'' \<notin> set item" "CHR ''|'' \<notin> set item'" "CHR ''|'' \<notin> set attr" "CHR ''|'' \<notin> set attr'"
  shows "groupByKey item attr v = groupByKey item' attr' v' \<longleftrightarrow> item = item' \<and> attr = attr' \<and> v = v'"
  using assms by (simp add: groupByKey_def sep_append_eq)

text \<open>What a group is meant to hold, stated on the JSON value of a document: its item is the one asked
  for, and the field, other than the item's, has a scalar that prints as the value.\<close>

fun scalar_text :: "('tx, 'v, 'bm) ext \<Rightarrow> any \<Rightarrow> string option" where
  "scalar_text X (AStr s) = Some s"
| "scalar_text X (ABool b) = Some (if b then ''true'' else ''false'')"
| "scalar_text X (AFloat x) = Some (format_g X x)"
| "scalar_text X _ = None"

definition in_group :: "('tx, 'v, 'bm) ext \<Rightarrow> string \<Rightarrow> string \<Rightarrow> string \<Rightarrow> bytes \<Rightarrow> bool" where
  "in_group X item attr vl doc \<longleftrightarrow>
     (\<exists>obj v. doc \<noteq> [] \<and> json_unmarshal X doc = Some (AObj obj) \<and> map_of obj ''item_id'' = Some (AStr item) \<and>
        attr \<noteq> ''item_id'' \<and> map_of obj attr = Some v \<and> scalar_text X v = Some vl)"

text \<open>A key without bars but the two separators comes from one triple only.\<close>

lemma groupByKey_plain:
  assumes "CHR ''|'' \<notin> set item" "CHR ''|'' \<notin> set attr" "CHR ''|'' \<notin> set v"
  shows "groupByKey item attr v = groupByKey item' attr' v' \<longleftrightarrow> item = item' \<and> attr = attr' \<and> v = v'"
proof
  assume eq: "groupByKey item attr v = groupByKey item' attr' v'"
  have "count_list (groupByKey item attr v) (CHR ''|'') = 2"
    using assms by (simp add: groupByKey_def count_notin)
  with eq have "count_list (groupByKey item' attr' v') (CHR ''|'') = 2" by simp
  then have "CHR ''|'' \<notin> set item'" "CHR ''|'' \<notin> set attr'" by (simp_all add: groupByKey_def count_list_0_iff)
  with eq assms show "item = item' \<and> attr = attr' \<and> v = v'" using groupByKey_inject by blast
qed simp

lemma GCount_bumpGroup: "GCount (bumpGroup added at v) = (if added then GCount v + 1 else GCount v)"
  by (simp add: bumpGroup_def Let_def)

lemma groupByFields_nonempty: "groupByFields X doc \<noteq> None \<Longrightarrow> doc \<noteq> []"
  by (auto simp: groupByFields_def)

section \<open>Correctness\<close>

context ext_laws
begin

lemma group_keys_in_group:
  assumes "CHR ''|'' \<notin> set item" "CHR ''|'' \<notin> set attr" "CHR ''|'' \<notin> set vl"
  shows "groupByKey item attr vl \<in> group_keys X doc \<longleftrightarrow> in_group X item attr vl doc"
proof (cases "\<exists>obj item'. doc \<noteq> [] \<and> json_unmarshal X doc = Some (AObj obj) \<and> map_of obj ''item_id'' = Some (AStr item')")
  case True
  then obtain obj item' where obj: "doc \<noteq> []" "json_unmarshal X doc = Some (AObj obj)"
    "map_of obj ''item_id'' = Some (AStr item')" by blast
  have wf: "any_wf (AObj obj)" by (rule unmarshal_wf [OF obj(2)])
  have f: "scalarField X (a, v) = Some (attr, vl) \<longleftrightarrow> a = attr \<and> attr \<noteq> ''item_id'' \<and> scalar_text X v = Some vl"
    if "any_wf v" for a v
    using that by (cases v) auto
  have "(attr, vl) \<in> set (List.map_filter (scalarField X) obj) \<longleftrightarrow>
      (\<exists>a v. (a, v) \<in> set obj \<and> scalarField X (a, v) = Some (attr, vl))"
    unfolding in_map_filter by (simp only: bex_simps Bex_def split_paired_Ex)
  also have "\<dots> \<longleftrightarrow> (\<exists>v. (attr, v) \<in> set obj \<and> attr \<noteq> ''item_id'' \<and> scalar_text X v = Some vl)"
    using f any_wf.simps(3) [THEN iffD1, OF wf] by (metis snd_conv)
  also have "\<dots> \<longleftrightarrow> (\<exists>v. map_of obj attr = Some v \<and> attr \<noteq> ''item_id'' \<and> scalar_text X v = Some vl)"
    using wf by (auto simp: map_of_eq_Some_iff)
  finally have m: "(attr, vl) \<in> set (List.map_filter (scalarField X) obj) \<longleftrightarrow>
      (\<exists>v. map_of obj attr = Some v \<and> attr \<noteq> ''item_id'' \<and> scalar_text X v = Some vl)" .
  have "group_keys X doc = (\<lambda>(a, v). groupByKey item' a v) ` set (List.map_filter (scalarField X) obj)"
    using obj by (simp add: group_keys_def groupByFields_def unmarshal_map_def)
  then have "groupByKey item attr vl \<in> group_keys X doc \<longleftrightarrow>
      item = item' \<and> (attr, vl) \<in> set (List.map_filter (scalarField X) obj)"
    using groupByKey_plain [OF assms] by force
  with m obj show ?thesis by (auto simp: in_group_def)
next
  case False
  then have "groupByFields X doc = None"
    by (auto simp: groupByFields_def unmarshal_map_def split: option.splits any.splits)
  with False show ?thesis by (auto simp: group_keys_def in_group_def)
qed

lemma iter_length_le: "length (bm_iter X bm) \<le> 2 ^ 32"
proof -
  have "length (bm_iter X bm) = card (set (bm_iter X bm))"
    using iter_sorted [of bm] strict_sorted_iff distinct_card by metis
  also have "\<dots> \<le> card (UNIV :: u32 set)" by (rule card_mono) simp_all
  finally show ?thesis by (simp add: card_word)
qed

lemma iter_card: "length (bm_iter X bm) = card (set (bm_iter X bm))"
  using iter_sorted [of bm] strict_sorted_iff distinct_card by metis

lemma group_value_write:
  assumes "GCount g = word_of_nat (card (set (bm_iter X bm)))" "bm_iter X bm \<noteq> []"
  shows "group_value_ok X (enc_group X (g\<lparr>Bitmap := bm_write X bm\<rparr>))"
  using read_write [of bm] assms
  by (auto simp: group_value_ok_def group_roundtrip write_nonempty iter_card)

text \<open>Reading a well-formed group: its bitmap holds the members, its counter their number.\<close>

lemma group_read:
  assumes "group_ok X tx e" "bucket_get X tx (groupByBucketName e) k = Some raw"
  obtains g bm where "decodeGroup X raw = Inr g" "groupBitmap X g = Inr bm"
    "set (bm_iter X bm) = group_members X tx e k" "bm_iter X bm \<noteq> []"
    "GCount g = word_of_nat (card (group_members X tx e k))"
proof -
  from assms obtain g bm where g: "dec_group X raw = Some g" "bm_read X (Bitmap g) = Some bm"
    "Bitmap g \<noteq> []" "bm_iter X bm \<noteq> []" "GCount g = word_of_nat (length (bm_iter X bm))"
    unfolding group_ok_def group_value_ok_def by blast
  with assms(2) show thesis
    by (intro that [of g bm])
       (auto simp: decodeGroup_def groupBitmap_def group_members_def iter_card)
qed

lemma group_put:
  assumes p: "bucket_put X (groupByBucketName e) k (enc_group X (g\<lparr>Bitmap := bm_write X bm\<rparr>)) tx = Inr tx'"
    and ok: "group_ok X tx e"
    and g: "GCount g = word_of_nat (card (set (bm_iter X bm)))" "bm_iter X bm \<noteq> []"
  shows "group_ok X tx' e"
    "group_members X tx' e j = (if j = k then set (bm_iter X bm) else group_members X tx e j)"
proof -
  show "group_ok X tx' e"
    using ok group_value_write [OF g] by (auto simp: group_ok_def put_get [OF p] split: if_splits)
  obtain b where "bm_read X (bm_write X bm) = Some b" "bm_iter X b = bm_iter X bm"
    using read_write by blast
  then show "group_members X tx' e j = (if j = k then set (bm_iter X bm) else group_members X tx e j)"
    by (simp add: group_members_def put_get [OF p] group_roundtrip)
qed

lemma groupByAdd_frame:
  "groupByAdd X e item attr vl i at tx = Inr tx' \<Longrightarrow> frame X {groupByBucketName e} tx tx'"
  by (auto simp: groupByAdd_def Let_def result_simps checked_add
      intro: frame_trans frame_create frame_put)

lemma groupByRemove_frame:
  "groupByRemove X e item attr vl i tx = Inr tx' \<Longrightarrow> frame X {groupByBucketName e} tx tx'"
  by (auto simp: groupByRemove_def Let_def result_simps checked_remove split: option.splits if_splits
      intro: frame_del frame_put)

lemma groupByAdd_effect:
  assumes run: "groupByAdd X e item attr vl i at tx = Inr tx'" and ok: "group_ok X tx e"
  shows "group_ok X tx' e"
    "group_members X tx' e k =
      (if k = groupByKey item attr vl then insert i (group_members X tx e k) else group_members X tx e k)"
proof -
  let ?b = "groupByBucketName e" and ?k = "groupByKey item attr vl"
  from run obtain t v bm where c: "create_bucket X ?b tx = Inr t"
    and v: "(case bucket_get X t ?b ?k of None \<Rightarrow> Inr zeroGroup | Some raw \<Rightarrow> decodeGroup X raw) = Inr v"
    and bm: "groupBitmap X v = Inr bm"
    and p: "bucket_put X ?b ?k (enc_group X ((bumpGroup (i \<notin> set (bm_iter X bm)) at v)\<lparr>Bitmap := bm_write X (bm_add X i bm)\<rparr>)) t = Inr tx'"
    by (auto simp: groupByAdd_def Let_def result_simps checked_add)
  have g: "bucket_get X t n = bucket_get X tx n" for n by (rule ext) (rule create_get [OF c])
  have t: "group_ok X t e" "group_members X t e = group_members X tx e"
    using ok by (simp_all add: group_ok_def group_members_def g fun_eq_iff)
  have m: "set (bm_iter X bm) = group_members X tx e ?k \<and>
      GCount v = word_of_nat (card (group_members X tx e ?k))"
  proof (cases "bucket_get X tx ?b ?k")
    case None
    with v bm g show ?thesis
      by (auto simp: zeroGroup_def groupBitmap_def group_members_def iter_new)
  next
    case (Some raw)
    obtain g' bm' where "decodeGroup X raw = Inr g'" "groupBitmap X g' = Inr bm'"
      "set (bm_iter X bm') = group_members X tx e ?k"
      "GCount g' = word_of_nat (card (group_members X tx e ?k))"
      using group_read [OF ok Some] by blast
    with v bm g Some show ?thesis by simp
  qed
  have fin: "finite (group_members X tx e ?k)" using m by (metis List.finite_set)
  have cnt: "GCount (bumpGroup (i \<notin> set (bm_iter X bm)) at v) = word_of_nat (card (set (bm_iter X (bm_add X i bm))))"
    using m by (simp add: iter_add GCount_bumpGroup insert_absorb card_insert_if [OF fin])
  have ne: "bm_iter X (bm_add X i bm) \<noteq> []" using iter_add [of i bm] by auto
  show "group_ok X tx' e" by (rule group_put(1) [OF p t(1) cnt ne])
  show "group_members X tx' e k =
      (if k = ?k then insert i (group_members X tx e k) else group_members X tx e k)"
    using group_put(2) [OF p t(1) cnt ne, of k] m by (simp add: iter_add t(2))
qed

lemma groupByRemove_effect:
  assumes run: "groupByRemove X e item attr vl i tx = Inr tx'" and ok: "group_ok X tx e"
  shows "group_ok X tx' e"
    "group_members X tx' e k =
      (if k = groupByKey item attr vl then group_members X tx e k - {i} else group_members X tx e k)"
proof -
  let ?b = "groupByBucketName e" and ?k = "groupByKey item attr vl"
  have "group_ok X tx' e \<and> group_members X tx' e k =
      (if k = ?k then group_members X tx e k - {i} else group_members X tx e k)"
  proof (cases "bucket_get X tx ?b ?k")
    case None
    with run have "tx' = tx" by (auto simp: groupByRemove_def Let_def split: if_splits)
    with None ok show ?thesis by (simp add: group_members_def)
  next
    case (Some raw)
    obtain g bm where r: "decodeGroup X raw = Inr g" "groupBitmap X g = Inr bm"
      "set (bm_iter X bm) = group_members X tx e ?k" "bm_iter X bm \<noteq> []"
      "GCount g = word_of_nat (card (group_members X tx e ?k))"
      using group_read [OF ok Some] by blast
    let ?bm = "bm_remove X i bm"
    have set_rm: "set (bm_iter X ?bm) = group_members X tx e ?k - {i}"
      by (simp add: iter_remove r(3))
    show ?thesis
    proof (cases "i \<in> group_members X tx e ?k")
      case False
      with run Some get_has [OF Some] r have "tx' = tx"
        by (auto simp: groupByRemove_def Let_def checked_remove)
      with False ok show ?thesis by auto
    next
      case True
      have fin: "finite (group_members X tx e ?k)" using r(3) by (metis List.finite_set)
      then have pos: "0 < card (group_members X tx e ?k)" using True card_gt_0_iff by blast
      have card: "card (group_members X tx e ?k) - 1 = card (set (bm_iter X ?bm))"
        using True fin by (simp add: set_rm)
      have cnt: "GCount g - 1 = word_of_nat (card (set (bm_iter X ?bm)))"
        using r(5) card pos by (simp add: of_nat_diff flip: card)
      have bound: "card (set (bm_iter X ?bm)) \<le> 2 ^ 32"
        using iter_length_le [of ?bm] by (simp add: iter_card)
      then have "sint (GCount g - 1) = int (card (set (bm_iter X ?bm)))"
        unfolding cnt by (simp add: signed_of_nat signed_take_bit_int_eq_self)
      then have empty: "sint (GCount g - 1) \<le> 0 \<or> bm_is_empty X ?bm \<longleftrightarrow> bm_iter X ?bm = []"
        by (auto simp: is_empty)
      show ?thesis
      proof (cases "bm_iter X ?bm = []")
        case True': True
        with run Some get_has [OF Some] r True empty have d: "bucket_delete X ?b ?k tx = Inr tx'"
          by (auto simp: groupByRemove_def Let_def checked_remove result_simps)
        have "group_ok X tx' e" using ok by (auto simp: group_ok_def del_get [OF d])
        moreover have "group_members X tx' e k = (if k = ?k then {} else group_members X tx e k)"
          by (simp add: group_members_def del_get [OF d])
        ultimately show ?thesis using True' set_rm by auto
      next
        case False
        with run Some get_has [OF Some] r True empty
        have p: "bucket_put X ?b ?k (enc_group X ((g\<lparr>GCount := GCount g - 1\<rparr>)\<lparr>Bitmap := bm_write X ?bm\<rparr>)) tx = Inr tx'"
          by (auto simp: groupByRemove_def Let_def checked_remove result_simps)
        have "GCount (g\<lparr>GCount := GCount g - 1\<rparr>) = word_of_nat (card (set (bm_iter X ?bm)))"
          using cnt by simp
        from group_put(1) [OF p ok this False] group_put(2) [OF p ok this False] set_rm
        show ?thesis by simp
      qed
    qed
  qed
  then show "group_ok X tx' e" "group_members X tx' e k =
      (if k = ?k then group_members X tx e k - {i} else group_members X tx e k)" by auto
qed

text \<open>The loops of \<^verbatim>\<open>updateGroupByIndex\<close>: the document leaves its old groups and joins its
  new ones.\<close>

lemma groupByRemove_loop:
  assumes "foldR (\<lambda>(attr, vl). groupByRemove X e item attr vl i) scalars tx = Inr tx'" "group_ok X tx e"
  shows "group_ok X tx' e \<and> group_members X tx' e k =
    (if k \<in> (\<lambda>(attr, vl). groupByKey item attr vl) ` set scalars
     then group_members X tx e k - {i} else group_members X tx e k)"
  using assms
proof (induction scalars arbitrary: tx)
  case (Cons av scalars)
  obtain attr vl where av: "av = (attr, vl)" by (cases av)
  from Cons.prems(1) obtain t where t: "groupByRemove X e item attr vl i tx = Inr t"
    "foldR (\<lambda>(attr, vl). groupByRemove X e item attr vl i) scalars t = Inr tx'"
    by (auto simp: result_simps av)
  note one = groupByRemove_effect [OF t(1) Cons.prems(2)]
  from Cons.IH [OF t(2) one(1)] one(2) [of k] show ?case
    by (auto simp: av)
qed simp

lemma groupByAdd_loop:
  assumes "foldR (\<lambda>(attr, vl). groupByAdd X e item attr vl i at) scalars tx = Inr tx'" "group_ok X tx e"
  shows "group_ok X tx' e \<and> group_members X tx' e k =
    (if k \<in> (\<lambda>(attr, vl). groupByKey item attr vl) ` set scalars
     then insert i (group_members X tx e k) else group_members X tx e k)"
  using assms
proof (induction scalars arbitrary: tx)
  case (Cons av scalars)
  obtain attr vl where av: "av = (attr, vl)" by (cases av)
  from Cons.prems(1) obtain t where t: "groupByAdd X e item attr vl i at tx = Inr t"
    "foldR (\<lambda>(attr, vl). groupByAdd X e item attr vl i at) scalars t = Inr tx'"
    by (auto simp: result_simps av)
  note one = groupByAdd_effect [OF t(1) Cons.prems(2)]
  from Cons.IH [OF t(2) one(1)] one(2) [of k] show ?case
    by (auto simp: av)
qed simp

lemma updateGroupByIndex_frame:
  assumes "updateGroupByIndex X e i old new tx = Inr tx'"
  shows "frame X {groupByBucketName e} tx tx'"
proof -
  have r: "foldR (\<lambda>(attr, vl). groupByRemove X e item attr vl i) sc t = Inr t' \<Longrightarrow> frame X {groupByBucketName e} t t'"
    and a: "foldR (\<lambda>(attr, vl). groupByAdd X e item attr vl i at) sc t = Inr t' \<Longrightarrow> frame X {groupByBucketName e} t t'"
    for item sc t t' at
    by (erule frame_foldR, auto intro: groupByRemove_frame groupByAdd_frame)+
  show ?thesis
    using assms
    by (auto simp: updateGroupByIndex_def result_simps Let_def split: if_splits option.splits
        intro: r a frame_trans)
qed

lemma updateGroupByIndex_effect:
  assumes run: "updateGroupByIndex X e i old new tx = Inr tx'" and ok: "group_ok X tx e"
  shows "group_ok X tx' e"
    "group_members X tx' e k =
      (let m = (if k \<in> group_keys X old then group_members X tx e k - {i} else group_members X tx e k)
       in if k \<in> group_keys X new then insert i m else m)"
proof -
  from run obtain t where
    t1: "(case groupByFields X old of
            Some (oldItem, oldScalars) \<Rightarrow>
              foldR (\<lambda>(attr, vl). groupByRemove X e oldItem attr vl i) oldScalars tx
          | None \<Rightarrow> Inr tx) = Inr t" and
    t2: "(case groupByFields X new of
            Some (newItem, newScalars) \<Rightarrow>
              (let at = (case temporalFields X new of Some (_, _, at) \<Rightarrow> at | None \<Rightarrow> 0)
               in foldR (\<lambda>(attr, vl). groupByAdd X e newItem attr vl i at) newScalars t)
          | None \<Rightarrow> Inr t) = Inr tx'"
    by (auto simp: updateGroupByIndex_def result_simps groupByFields_def split: if_splits)
  have mid: "group_ok X t e \<and> group_members X t e k =
      (if k \<in> group_keys X old then group_members X tx e k - {i} else group_members X tx e k)"
  proof (cases "groupByFields X old")
    case None
    with t1 ok show ?thesis by (simp add: group_keys_def)
  next
    case (Some f)
    obtain item sc where f: "f = (item, sc)" by (cases f)
    with t1 Some have "foldR (\<lambda>(attr, vl). groupByRemove X e item attr vl i) sc tx = Inr t" by simp
    from groupByRemove_loop [OF this ok, of k] show ?thesis by (simp add: group_keys_def Some f)
  qed
  have "group_ok X tx' e \<and> group_members X tx' e k =
      (if k \<in> group_keys X new then insert i (group_members X t e k) else group_members X t e k)"
  proof (cases "groupByFields X new")
    case None
    with t2 mid show ?thesis by (simp add: group_keys_def)
  next
    case (Some f)
    obtain item sc where f: "f = (item, sc)" by (cases f)
    with t2 Some have "foldR (\<lambda>(attr, vl). groupByAdd X e item attr vl i
        (case temporalFields X new of Some (_, _, at) \<Rightarrow> at | None \<Rightarrow> 0)) sc t = Inr tx'"
      by (simp add: Let_def)
    from groupByAdd_loop [OF this, of k] mid show ?thesis by (simp add: group_keys_def Some f)
  qed
  with mid show "group_ok X tx' e" "group_members X tx' e k =
      (let m = (if k \<in> group_keys X old then group_members X tx e k - {i} else group_members X tx e k)
       in if k \<in> group_keys X new then insert i m else m)" by auto
qed

text \<open>\<^verbatim>\<open>groupByRead\<close> returns the members and their number.\<close>

lemma groupByRead_ok:
  assumes "group_ok X tx e"
  obtains g bm where "groupByRead X e item attr vl tx = Inr (g, bm)"
    "set (bm_iter X bm) = group_members X tx e (groupByKey item attr vl)"
    "GCount g = word_of_nat (card (group_members X tx e (groupByKey item attr vl)))"
proof (cases "bucket_get X tx (groupByBucketName e) (groupByKey item attr vl)")
  case None
  then show thesis
    by (intro that [of zeroGroup "bm_new X"])
       (auto simp: groupByRead_def Let_def group_members_def iter_new zeroGroup_def)
next
  case (Some raw)
  obtain g bm where "decodeGroup X raw = Inr g" "groupBitmap X g = Inr bm"
    "set (bm_iter X bm) = group_members X tx e (groupByKey item attr vl)"
    "GCount g = word_of_nat (card (group_members X tx e (groupByKey item attr vl)))"
    using group_read [OF assms Some] by blast
  with Some get_has [OF Some] show thesis
    by (intro that [of g bm]) (auto simp: groupByRead_def Let_def)
qed

end

section \<open>The group-by index as a posting index\<close>

sublocale ext_laws \<subseteq> groups: posting_index X "\<lambda>e. {groupByBucketName e}" "group_ok X" "group_members X"
  "group_keys X" "updateGroupByIndex X"
proof
  fix e i old new tx tx'
  assume run: "updateGroupByIndex X e i old new tx = Inr tx'"
  show "frame X {groupByBucketName e} tx tx'" by (rule updateGroupByIndex_frame [OF run])
  assume ok: "group_ok X tx e"
  note eff = updateGroupByIndex_effect [OF run ok]
  show "group_ok X tx' e" by (rule eff(1))
  fix j k
  show "j \<in> group_members X tx' e k \<longleftrightarrow> j \<in> group_members X tx e k" if "j \<noteq> i"
    using that by (simp add: eff(2) Let_def)
  assume "\<And>k. i \<in> group_members X tx e k \<longleftrightarrow> k \<in> group_keys X old"
  then show "i \<in> group_members X tx' e k \<longleftrightarrow> k \<in> group_keys X new"
    by (simp add: eff(2) Let_def)
next
  fix N tx tx' e
  assume "frame X N tx tx'" "{groupByBucketName e} \<inter> N = {}"
  then have "bucket_get X tx' (groupByBucketName e) = bucket_get X tx (groupByBucketName e)"
    by (intro frame_get) auto
  then show "group_members X tx' e = group_members X tx e \<and> group_ok X tx' e = group_ok X tx e"
    by (simp add: group_members_def group_ok_def fun_eq_iff)
qed (simp add: group_keys_def groupByFields_def)

end
