(* ===== verification/Closure.thy ===== *)
theory Closure
  imports Buckets
begin

text \<open>
  \<^verbatim>\<open>bboltstore/closure.go\<close> and \<^verbatim>\<open>updateClosureIndex\<close> of \<^verbatim>\<open>bboltstore/indexhooks.go\<close>: for every
  document with a \<^verbatim>\<open>parent\<close> the chain of its ancestors, and for every ancestor the bitmap of
  the documents below it. The bitmaps are the inverse of the chains.
\<close>

section \<open>Definitions\<close>

definition closureAscBucket :: "string \<Rightarrow> string" where
  "closureAscBucket entityID = ''clo:asc:'' @ entityID"

definition closureDescBucket :: "string \<Rightarrow> string" where
  "closureDescBucket entityID = ''clo:desc:'' @ entityID"

definition closureMaxDepth :: nat where
  "closureMaxDepth = 256"

definition closureParent :: "('tx, 'v, 'bm) ext \<Rightarrow> bytes \<Rightarrow> string option" where
  "closureParent X doc =
     (if length doc = 0 then None
      else case unmarshal_map X doc of
        None \<Rightarrow> None
      | Some m \<Rightarrow>
          (case map_of m ''parent'' of
             Some (AStr s) \<Rightarrow> if s = [] then None else Some s
           | _ \<Rightarrow> None))"

definition closureBuildAncestors ::
  "('tx, 'v, 'bm) ext \<Rightarrow> string \<Rightarrow> string \<Rightarrow> 'tx \<Rightarrow> (string list) result" where
  "closureBuildAncestors X entityID parentID tx =
     (let b = closureAscBucket entityID in
      if \<not> has_bucket X tx b then Inr [parentID]
      else case bucket_get X tx b parentID of
        None \<Rightarrow> Inr [parentID]
      | Some raw \<Rightarrow>
          (case dec_chain X raw of
             None \<Rightarrow> Inl (NewErr ''closure: decode asc'')
           | Some existing \<Rightarrow>
               let out = parentID # existing in
               if length out > closureMaxDepth then Inl (NewErr ''closure: depth exceeds'')
               else Inr out))"

definition closureAdd ::
  "('tx, 'v, 'bm) ext \<Rightarrow> string \<Rightarrow> string \<Rightarrow> string \<Rightarrow> u32 \<Rightarrow> 'tx \<Rightarrow> 'tx result" where
  "closureAdd X entityID docID parentID internalID tx =
     bindR (closureBuildAncestors X entityID parentID tx) (\<lambda>chain.
     if docID \<in> set chain then Inl (NewErr ''closure: cycle detected'')
     else
       bindR (liftB (create_bucket X (closureAscBucket entityID) tx)) (\<lambda>tx.
       bindR (liftB (bucket_put X (closureAscBucket entityID) docID (enc_chain X chain) tx)) (\<lambda>tx.
       bindR (liftB (create_bucket X (closureDescBucket entityID) tx)) (\<lambda>tx.
       foldR (\<lambda>anc tx.
         bindR (readBitmap X (closureDescBucket entityID) anc tx) (\<lambda>bm.
         writeBitmap X (closureDescBucket entityID) anc (bm_add X internalID bm) tx)) chain tx))))"

definition closureRemove ::
  "('tx, 'v, 'bm) ext \<Rightarrow> string \<Rightarrow> string \<Rightarrow> u32 \<Rightarrow> 'tx \<Rightarrow> 'tx result" where
  "closureRemove X entityID docID internalID tx =
     (let ascB = closureAscBucket entityID; descB = closureDescBucket entityID in
      if \<not> has_bucket X tx ascB then Inr tx
      else case bucket_get X tx ascB docID of
        None \<Rightarrow> Inr tx
      | Some raw \<Rightarrow>
          (case dec_chain X raw of
             None \<Rightarrow> Inl (NewErr ''closure: decode asc'')
           | Some chain \<Rightarrow>
               bindR (liftB (bucket_delete X ascB docID tx)) (\<lambda>tx.
               if \<not> has_bucket X tx descB then Inr tx
               else foldR (\<lambda>anc tx.
                 bindR (readBitmap X descB anc tx) (\<lambda>bm.
                 let bm = bm_remove X internalID bm in
                 if bm_is_empty X bm then liftB (bucket_delete X descB anc tx)
                 else writeBitmap X descB anc bm tx)) chain tx)))"

definition closureReadAncestors ::
  "('tx, 'v, 'bm) ext \<Rightarrow> string \<Rightarrow> string \<Rightarrow> 'tx \<Rightarrow> (string list) result" where
  "closureReadAncestors X entityID docID tx =
     (let b = closureAscBucket entityID in
      if \<not> has_bucket X tx b then Inr []
      else case bucket_get X tx b docID of
        None \<Rightarrow> Inr []
      | Some raw \<Rightarrow>
          (case dec_chain X raw of
             None \<Rightarrow> Inl (NewErr ''closure: decode asc'')
           | Some chain \<Rightarrow> Inr chain))"

definition closureReadDescendants ::
  "('tx, 'v, 'bm) ext \<Rightarrow> string \<Rightarrow> string \<Rightarrow> 'tx \<Rightarrow> 'bm result" where
  "closureReadDescendants X entityID rootID tx =
     (if \<not> has_bucket X tx (closureDescBucket entityID) then Inr (bm_new X)
      else readBitmap X (closureDescBucket entityID) rootID tx)"

definition updateClosureIndex ::
  "('tx, 'v, 'bm) ext \<Rightarrow> string \<Rightarrow> string \<Rightarrow> u32 \<Rightarrow> bytes \<Rightarrow> bytes \<Rightarrow> 'tx \<Rightarrow> 'tx result" where
  "updateClosureIndex X entityID docID internalID oldDoc newDoc tx =
     bindR (if length oldDoc > 0 then
              (case closureParent X oldDoc of
                 Some _ \<Rightarrow> closureRemove X entityID docID internalID tx
               | None \<Rightarrow> Inr tx)
            else Inr tx) (\<lambda>tx.
     if length newDoc > 0 then
       (case closureParent X newDoc of
          Some parent \<Rightarrow> closureAdd X entityID docID parent internalID tx
        | None \<Rightarrow> Inr tx)
     else Inr tx)"

section \<open>Chains and bitmaps a transaction shows\<close>

definition closure_names :: "string \<Rightarrow> string set" where
  "closure_names e = {closureAscBucket e, closureDescBucket e}"

definition chain_of :: "('tx, 'v, 'bm) ext \<Rightarrow> 'tx \<Rightarrow> string \<Rightarrow> string \<Rightarrow> string list option" where
  "chain_of X tx e d =
     (case bucket_get X tx (closureAscBucket e) d of None \<Rightarrow> None | Some raw \<Rightarrow> dec_chain X raw)"

abbreviation below :: "('tx, 'v, 'bm) ext \<Rightarrow> 'tx \<Rightarrow> string \<Rightarrow> string \<Rightarrow> u32 set" where
  "below X tx e a \<equiv> bm_at X tx (closureDescBucket e) a"

text \<open>The chain through a parent: the parent followed by what is stored for it.\<close>

definition chain_via :: "('tx, 'v, 'bm) ext \<Rightarrow> 'tx \<Rightarrow> string \<Rightarrow> string \<Rightarrow> string list" where
  "chain_via X tx e p = p # (case chain_of X tx e p of None \<Rightarrow> [] | Some c \<Rightarrow> c)"

text \<open>The bitmaps are the inverse of the chains, with documents named by their ids.\<close>

definition closure_exact ::
  "('tx, 'v, 'bm) ext \<Rightarrow> 'tx \<Rightarrow> string \<Rightarrow> (string \<Rightarrow> u32 option) \<Rightarrow> bool" where
  "closure_exact X tx e ids \<longleftrightarrow>
     (\<forall>a i. i \<in> below X tx e a \<longleftrightarrow> (\<exists>d c. ids d = Some i \<and> chain_of X tx e d = Some c \<and> a \<in> set c))"

text \<open>A chain that may be stored for document \<open>d\<close>: not empty, within the depth cap, of
  strings that survive JSON, and free of \<open>d\<close> itself.\<close>

definition chain_ok :: "string \<Rightarrow> string list \<Rightarrow> bool" where
  "chain_ok d c \<longleftrightarrow> c \<noteq> [] \<and> length c \<le> closureMaxDepth \<and> d \<notin> set c \<and> (\<forall>s \<in> set c. utf8_ok s)"

definition closure_ok :: "('tx, 'v, 'bm) ext \<Rightarrow> 'tx \<Rightarrow> string \<Rightarrow> bool" where
  "closure_ok X tx e \<longleftrightarrow>
     bm_wf X tx (closureDescBucket e) \<and>
     (\<forall>d raw. bucket_get X tx (closureAscBucket e) d = Some raw \<longrightarrow>
        (\<exists>c. dec_chain X raw = Some c \<and> chain_ok d c))"

lemma closure_bucket_names [simp]:
  "closureAscBucket e \<noteq> closureDescBucket e'" "closureDescBucket e' \<noteq> closureAscBucket e"
  "closureAscBucket e \<in> closure_names e" "closureDescBucket e \<in> closure_names e"
  by (simp_all add: closureAscBucket_def closureDescBucket_def closure_names_def)

lemma frame_closure_views:
  assumes "frame X N tx tx'" "closure_names e \<inter> N = {}"
  shows "chain_of X tx' e = chain_of X tx e" "below X tx' e = below X tx e"
    "closure_ok X tx' e = closure_ok X tx e"
proof -
  have "bucket_get X tx' n = bucket_get X tx n" if "n \<in> closure_names e" for n
    using assms(2) that by (intro frame_get [OF assms(1)]) auto
  then show "chain_of X tx' e = chain_of X tx e" "below X tx' e = below X tx e"
    "closure_ok X tx' e = closure_ok X tx e"
    by (simp_all add: chain_of_def bm_at_def closure_ok_def bm_wf_def fun_eq_iff)
qed

lemma closure_ok_chain: "closure_ok X tx e \<Longrightarrow> chain_of X tx e d = Some c \<Longrightarrow> chain_ok d c"
  by (force simp: closure_ok_def chain_of_def split: option.splits)

lemma closureParent_nonempty: "closureParent X doc \<noteq> None \<Longrightarrow> doc \<noteq> []"
  by (auto simp: closureParent_def)

section \<open>Correctness\<close>

context ext_laws
begin

lemma closureParent_utf8:
  assumes "closureParent X doc = Some p"
  shows "utf8_ok p" "p \<noteq> []"
proof -
  obtain m where m: "unmarshal_map X doc = Some m" "map_of m ''parent'' = Some (AStr p)" "p \<noteq> []"
    using assms by (auto simp: closureParent_def split: if_splits option.splits any.splits)
  then obtain kvs where k: "json_unmarshal X doc = Some (AObj kvs)" "m = kvs"
    by (auto simp: unmarshal_map_def split: option.splits any.splits)
  from unmarshal_wf [OF k(1)] have "\<forall>kv \<in> set m. any_wf (snd kv)" using k(2) by simp
  with m show "utf8_ok p" "p \<noteq> []" by (auto dest!: map_of_SomeD)
qed

lemma closureBuildAncestors_result:
  assumes "closure_ok X tx e"
  shows "closureBuildAncestors X e p tx =
    (if length (chain_via X tx e p) > closureMaxDepth then Inl (NewErr ''closure: depth exceeds'')
     else Inr (chain_via X tx e p))"
proof (cases "bucket_get X tx (closureAscBucket e) p")
  case None
  then show ?thesis
    by (simp add: closureBuildAncestors_def chain_via_def chain_of_def Let_def closureMaxDepth_def)
next
  case (Some raw)
  with assms obtain c where "dec_chain X raw = Some c" by (auto simp: closure_ok_def)
  with Some get_has [OF Some] show ?thesis
    by (simp add: closureBuildAncestors_def chain_via_def chain_of_def Let_def)
qed

lemma chain_via_utf8: "closure_ok X tx e \<Longrightarrow> utf8_ok p \<Longrightarrow> \<forall>s \<in> set (chain_via X tx e p). utf8_ok s"
  by (cases "chain_of X tx e p") (auto simp: chain_via_def chain_ok_def dest: closure_ok_chain)

text \<open>The loops over the chain change bitmaps only.\<close>

lemma desc_add_loop:
  assumes "foldR (\<lambda>anc tx. bindR (readBitmap X n anc tx) (\<lambda>bm. writeBitmap X n anc (bm_add X i bm) tx)) chain tx = Inr tx'"
  shows "frame X {n} tx tx'" "bm_wf X tx n \<Longrightarrow> bm_wf X tx' n"
    "bm_at X tx' n a = (if a \<in> set chain then insert i (bm_at X tx n a) else bm_at X tx n a)"
proof -
  show "frame X {n} tx tx'"
    using assms by (rule frame_foldR) (auto simp: result_simps intro: frame_writeBitmap)
  show "bm_wf X tx' n" if "bm_wf X tx n"
    using assms that
  proof (rule foldR_inv)
    fix anc s s'
    assume "bindR (readBitmap X n anc s) (\<lambda>bm. writeBitmap X n anc (bm_add X i bm) s) = Inr s'"
      and wf: "bm_wf X s n"
    then obtain bm where w: "writeBitmap X n anc (bm_add X i bm) s = Inr s'"
      by (auto simp: result_simps)
    have "bm_iter X (bm_add X i bm) \<noteq> []" using iter_add [of i bm] by auto
    with writeBitmap_wf [OF w wf] show "bm_wf X s' n" by simp
  qed
  show "bm_at X tx' n a = (if a \<in> set chain then insert i (bm_at X tx n a) else bm_at X tx n a)"
  proof (rule foldR_view [where V = "\<lambda>tx. bm_at X tx n", OF assms])
    fix x s s' y
    assume "bindR (readBitmap X n x s) (\<lambda>bm. writeBitmap X n x (bm_add X i bm) s) = Inr s'"
    then obtain bm where "readBitmap X n x s = Inr bm" "writeBitmap X n x (bm_add X i bm) s = Inr s'"
      by (auto simp: result_simps)
    with readBitmap_set writeBitmap_bm_at
    show "bm_at X s' n y = (if y = x then insert i (bm_at X s n y) else bm_at X s n y)"
      by (auto simp: iter_add)
  qed simp
qed

lemma desc_remove_step:
  assumes "bindR (readBitmap X n anc s) (\<lambda>bm. let bm = bm_remove X i bm in
      if bm_is_empty X bm then liftB (bucket_delete X n anc s) else writeBitmap X n anc bm s) = Inr s'"
  shows "frame X {n} s s'" "bm_wf X s n \<Longrightarrow> bm_wf X s' n"
    "bm_at X s' n y = (if y = anc then bm_at X s n y - {i} else bm_at X s n y)"
proof -
  from assms obtain bm where r: "readBitmap X n anc s = Inr bm"
    and w: "(if bm_iter X (bm_remove X i bm) = [] then liftB (bucket_delete X n anc s)
             else writeBitmap X n anc (bm_remove X i bm) s) = Inr s'"
    by (auto simp: result_simps Let_def is_empty)
  have set_rm: "set (bm_iter X (bm_remove X i bm)) = bm_at X s n anc - {i}"
    by (simp add: iter_remove readBitmap_set [OF r])
  have "frame X {n} s s' \<and> (bm_wf X s n \<longrightarrow> bm_wf X s' n) \<and>
    bm_at X s' n y = (if y = anc then bm_at X s n y - {i} else bm_at X s n y)"
  proof (cases "bm_iter X (bm_remove X i bm) = []")
    case True
    with w have d: "bucket_delete X n anc s = Inr s'" by (simp add: result_simps)
    from True set_rm have "bm_at X s n anc - {i} = {}" by (metis empty_set)
    with frame_del [OF d] del_wf [OF d] del_bm_at [OF d, of n y] show ?thesis by auto
  next
    case False
    with w have d: "writeBitmap X n anc (bm_remove X i bm) s = Inr s'" by simp
    from frame_writeBitmap [OF d] writeBitmap_wf [OF d _ False] writeBitmap_bm_at [OF d, of n y] set_rm
    show ?thesis by auto
  qed
  then show "frame X {n} s s'" "bm_wf X s n \<Longrightarrow> bm_wf X s' n"
    "bm_at X s' n y = (if y = anc then bm_at X s n y - {i} else bm_at X s n y)" by auto
qed

lemma desc_remove_loop:
  assumes "foldR (\<lambda>anc tx. bindR (readBitmap X n anc tx) (\<lambda>bm. let bm = bm_remove X i bm in
      if bm_is_empty X bm then liftB (bucket_delete X n anc tx) else writeBitmap X n anc bm tx)) chain tx = Inr tx'"
  shows "frame X {n} tx tx'" "bm_wf X tx n \<Longrightarrow> bm_wf X tx' n"
    "bm_at X tx' n a = (if a \<in> set chain then bm_at X tx n a - {i} else bm_at X tx n a)"
proof -
  show "frame X {n} tx tx'"
    using assms by (rule frame_foldR) (rule desc_remove_step(1))
  show "bm_wf X tx' n" if "bm_wf X tx n"
    using assms that by (rule foldR_inv) (rule desc_remove_step(2))
  show "bm_at X tx' n a = (if a \<in> set chain then bm_at X tx n a - {i} else bm_at X tx n a)"
    by (rule foldR_view [where V = "\<lambda>tx. bm_at X tx n", OF assms]) (erule desc_remove_step(3), simp)
qed

lemma closureAdd_effect:
  assumes run: "closureAdd X e d p i tx = Inr tx'" and ok: "closure_ok X tx e" and u: "utf8_ok p"
  shows "closure_ok X tx' e"
    "chain_of X tx' e x = (if x = d then Some (chain_via X tx e p) else chain_of X tx e x)"
    "below X tx' e a = (if a \<in> set (chain_via X tx e p) then insert i (below X tx e a) else below X tx e a)"
proof -
  let ?A = "closureAscBucket e" and ?D = "closureDescBucket e" and ?c = "chain_via X tx e p"
  from run have build: "closureBuildAncestors X e p tx = Inr ?c" "length ?c \<le> closureMaxDepth"
    using closureBuildAncestors_result [OF ok, of p]
    by (auto simp: closureAdd_def result_simps split: if_splits)
  from run build obtain t1 t2 t3 where nc: "d \<notin> set ?c" and c1: "create_bucket X ?A tx = Inr t1"
    and p1: "bucket_put X ?A d (enc_chain X ?c) t1 = Inr t2" and c2: "create_bucket X ?D t2 = Inr t3"
    and loop: "foldR (\<lambda>anc tx. bindR (readBitmap X ?D anc tx) (\<lambda>bm. writeBitmap X ?D anc (bm_add X i bm) tx)) ?c t3 = Inr tx'"
    by (auto simp: closureAdd_def result_simps split: if_splits)
  have g3: "bucket_get X t3 n k = (if n = ?A \<and> k = d then Some (enc_chain X ?c) else bucket_get X tx n k)" for n k
    by (simp add: create_get [OF c2] put_get [OF p1] create_get [OF c1])
  have asc: "bucket_get X tx' ?A = bucket_get X t3 ?A"
    by (rule frame_get [OF desc_add_loop(1) [OF loop]]) simp
  have dec: "dec_chain X (enc_chain X ?c) = Some ?c"
    by (rule chain_roundtrip [OF chain_via_utf8 [OF ok u]])
  have desc3: "below X t3 e b = below X tx e b" "bm_wf X t3 ?D = bm_wf X tx ?D" for b
    by (simp_all add: bm_at_def bm_wf_def g3)
  have "chain_ok d ?c"
    using build(2) nc chain_via_utf8 [OF ok u] by (simp add: chain_ok_def chain_via_def)
  then show "closure_ok X tx' e"
    using ok desc_add_loop(2) [OF loop] desc3(2)
    by (auto simp: closure_ok_def asc g3 dec)
  show "chain_of X tx' e x = (if x = d then Some ?c else chain_of X tx e x)"
    by (simp add: chain_of_def asc g3 dec)
  show "below X tx' e a = (if a \<in> set ?c then insert i (below X tx e a) else below X tx e a)"
    by (simp add: desc_add_loop(3) [OF loop] desc3)
qed

lemma closureRemove_effect:
  assumes run: "closureRemove X e d i tx = Inr tx'" and ok: "closure_ok X tx e"
    and inv: "\<And>c a. chain_of X tx e d = Some c \<Longrightarrow> i \<in> below X tx e a \<Longrightarrow> a \<in> set c"
  shows "closure_ok X tx' e"
    "chain_of X tx' e x = (if x = d then None else chain_of X tx e x)"
    "chain_of X tx e d \<noteq> None \<Longrightarrow> below X tx' e a = below X tx e a - {i}"
    "chain_of X tx e d = None \<Longrightarrow> tx' = tx"
proof -
  let ?A = "closureAscBucket e" and ?D = "closureDescBucket e"
  have "closure_ok X tx' e \<and> chain_of X tx' e x = (if x = d then None else chain_of X tx e x) \<and>
    (chain_of X tx e d \<noteq> None \<longrightarrow> below X tx' e a = below X tx e a - {i}) \<and>
    (chain_of X tx e d = None \<longrightarrow> tx' = tx)"
  proof (cases "bucket_get X tx ?A d")
    case None
    then have "tx' = tx" "chain_of X tx e d = None"
      using run by (auto simp: closureRemove_def Let_def chain_of_def split: if_splits)
    then show ?thesis using ok by auto
  next
    case (Some raw)
    with ok obtain c where c: "dec_chain X raw = Some c" by (auto simp: closure_ok_def)
    with Some have cd: "chain_of X tx e d = Some c" by (simp add: chain_of_def)
    from run Some get_has [OF Some] c obtain t where d: "bucket_delete X ?A d tx = Inr t"
      and rest: "(if \<not> has_bucket X t ?D then Inr t
        else foldR (\<lambda>anc tx. bindR (readBitmap X ?D anc tx) (\<lambda>bm. let bm = bm_remove X i bm in
          if bm_is_empty X bm then liftB (bucket_delete X ?D anc tx) else writeBitmap X ?D anc bm tx)) c t) = Inr tx'"
      by (auto simp: closureRemove_def Let_def result_simps)
    have g: "bucket_get X t n k = (if n = ?A \<and> k = d then None else bucket_get X tx n k)" for n k
      by (rule del_get [OF d])
    have dt: "below X t e b = below X tx e b" "bm_wf X t ?D = bm_wf X tx ?D" for b
      by (simp_all add: bm_at_def bm_wf_def g)
    have "frame X {?D} t tx' \<and> (bm_wf X t ?D \<longrightarrow> bm_wf X tx' ?D) \<and>
        (\<forall>a. below X tx' e a = (if a \<in> set c then below X t e a - {i} else below X t e a))"
    proof (cases "has_bucket X t ?D")
      case True
      with rest desc_remove_loop [where n = ?D and i = i and chain = c and tx = t and tx' = tx'] show ?thesis by simp
    next
      case False
      with rest no_bucket_get [OF False] show ?thesis by (auto simp: bm_at_def)
    qed
    moreover from this have "bucket_get X tx' ?A = bucket_get X t ?A"
      by (intro frame_get [of X "{?D}"]) auto
    ultimately show ?thesis
      using ok inv [OF cd] cd dt g by (auto simp: closure_ok_def chain_of_def)
  qed
  then show "closure_ok X tx' e"
    "chain_of X tx' e x = (if x = d then None else chain_of X tx e x)"
    "chain_of X tx e d \<noteq> None \<Longrightarrow> below X tx' e a = below X tx e a - {i}"
    "chain_of X tx e d = None \<Longrightarrow> tx' = tx" by auto
qed

text \<open>\<^verbatim>\<open>closureAdd\<close> refuses a chain that is too long or leads back to the document.\<close>

lemma closureAdd_refuses:
  assumes "closure_ok X tx e"
  shows "length (chain_via X tx e p) > closureMaxDepth \<Longrightarrow>
      closureAdd X e d p i tx = Inl (NewErr ''closure: depth exceeds'')"
    "length (chain_via X tx e p) \<le> closureMaxDepth \<Longrightarrow> d \<in> set (chain_via X tx e p) \<Longrightarrow>
      closureAdd X e d p i tx = Inl (NewErr ''closure: cycle detected'')"
  by (simp_all add: closureAdd_def closureBuildAncestors_result [OF assms])

lemma closureAdd_frame:
  assumes "closureAdd X e d p i tx = Inr tx'"
  shows "frame X (closure_names e) tx tx'"
proof -
  from assms obtain c t1 t2 t3 where c1: "create_bucket X (closureAscBucket e) tx = Inr t1"
    and p1: "bucket_put X (closureAscBucket e) d (enc_chain X c) t1 = Inr t2"
    and c2: "create_bucket X (closureDescBucket e) t2 = Inr t3"
    and loop: "foldR (\<lambda>anc tx. bindR (readBitmap X (closureDescBucket e) anc tx)
      (\<lambda>bm. writeBitmap X (closureDescBucket e) anc (bm_add X i bm) tx)) c t3 = Inr tx'"
    by (auto simp: closureAdd_def result_simps split: if_splits)
  have "frame X (closure_names e) t3 tx'"
    by (rule frame_mono [OF desc_add_loop(1) [OF loop]]) simp
  with frame_create [OF c1] frame_put [OF p1] frame_create [OF c2] show ?thesis
    by (meson closure_bucket_names frame_trans)
qed

lemma closureRemove_frame:
  assumes "closureRemove X e d i tx = Inr tx'"
  shows "frame X (closure_names e) tx tx'"
proof (cases "tx' = tx")
  case False
  with assms obtain c t where d: "bucket_delete X (closureAscBucket e) d tx = Inr t"
    and loop: "tx' = t \<or> foldR (\<lambda>anc tx. bindR (readBitmap X (closureDescBucket e) anc tx) (\<lambda>bm. let bm = bm_remove X i bm in
      if bm_is_empty X bm then liftB (bucket_delete X (closureDescBucket e) anc tx)
      else writeBitmap X (closureDescBucket e) anc bm tx)) c t = Inr tx'"
    by (auto simp: closureRemove_def Let_def result_simps split: if_splits option.splits)
  have "frame X (closure_names e) t tx'"
    using loop by (auto intro: frame_mono [OF desc_remove_loop(1)])
  with frame_del [OF d] show ?thesis by (meson closure_bucket_names frame_trans)
qed simp

lemma updateClosureIndex_frame:
  "updateClosureIndex X e d i old new tx = Inr tx' \<Longrightarrow> frame X (closure_names e) tx tx'"
  by (auto simp: updateClosureIndex_def result_simps split: if_splits option.splits
      intro: closureAdd_frame closureRemove_frame frame_trans)

lemma updateClosureIndex_effect:
  assumes run: "updateClosureIndex X e d i old new tx = Inr tx'" and ok: "closure_ok X tx e"
    and ex: "closure_exact X tx e ids" and id: "ids d = Some i"
    and inj: "\<And>x y j. ids x = Some j \<Longrightarrow> ids y = Some j \<Longrightarrow> x = y"
    and has: "chain_of X tx e d \<noteq> None \<longleftrightarrow> closureParent X old \<noteq> None"
  shows "closure_ok X tx' e" "closure_exact X tx' e ids"
    "chain_of X tx' e x =
      (if x = d then map_option (chain_via X tx e) (closureParent X new) else chain_of X tx e x)"
proof -
  from run obtain t where
    t1: "(case closureParent X old of Some _ \<Rightarrow> closureRemove X e d i tx | None \<Rightarrow> Inr tx) = Inr t" and
    t2: "(case closureParent X new of Some p \<Rightarrow> closureAdd X e d p i t | None \<Rightarrow> Inr t) = Inr tx'"
    by (auto simp: updateClosureIndex_def result_simps closureParent_def split: if_splits)
  have only: "a \<in> set c" if "chain_of X tx e d = Some c" "i \<in> below X tx e a" for c a
    using that ex id inj unfolding closure_exact_def by (metis option.inject)
  have mid: "closure_ok X t e \<and> (\<forall>x. chain_of X t e x = (if x = d then None else chain_of X tx e x)) \<and>
      (\<forall>a. below X t e a = below X tx e a - {i})"
  proof (cases "closureParent X old")
    case None
    with has have nd: "chain_of X tx e d = None" by simp
    have "i \<notin> below X tx e a" for a
      using ex id inj nd unfolding closure_exact_def by (metis option.distinct(1))
    with None t1 ok nd show ?thesis by auto
  next
    case (Some p)
    with t1 have r: "closureRemove X e d i tx = Inr t" by simp
    from has Some have "chain_of X tx e d \<noteq> None" by simp
    with closureRemove_effect [OF r ok only] show ?thesis by blast
  qed
  have ex_t: "closure_exact X t e ids"
    unfolding closure_exact_def
  proof (intro allI)
    fix a j
    show "j \<in> below X t e a \<longleftrightarrow> (\<exists>x c. ids x = Some j \<and> chain_of X t e x = Some c \<and> a \<in> set c)"
    proof (cases "j = i")
      case True
      have "x = d" if "ids x = Some i" for x using that id inj by blast
      with True mid show ?thesis by auto
    next
      case False
      with id have "x \<noteq> d" if "ids x = Some j" for x using that by auto
      with False mid have "(\<exists>x c. ids x = Some j \<and> chain_of X t e x = Some c \<and> a \<in> set c) \<longleftrightarrow>
          (\<exists>x c. ids x = Some j \<and> chain_of X tx e x = Some c \<and> a \<in> set c)" by (metis (full_types))
      with False mid ex show ?thesis unfolding closure_exact_def by simp
    qed
  qed
  have "closure_ok X tx' e \<and> closure_exact X tx' e ids \<and>
      chain_of X tx' e x = (if x = d then map_option (chain_via X tx e) (closureParent X new)
        else chain_of X t e x)"
  proof (cases "closureParent X new")
    case None
    with t2 mid ex_t show ?thesis by auto
  next
    case (Some p)
    with t2 have add: "closureAdd X e d p i t = Inr tx'" by simp
    note eff = closureAdd_effect [OF add mid [THEN conjunct1] closureParent_utf8(1) [OF Some]]
    have "closure_exact X tx' e ids"
      unfolding closure_exact_def
    proof (intro allI)
      fix a j
      show "j \<in> below X tx' e a \<longleftrightarrow> (\<exists>x c. ids x = Some j \<and> chain_of X tx' e x = Some c \<and> a \<in> set c)"
        using mid ex_t id inj unfolding closure_exact_def eff(2,3) by (auto split: if_splits) metis+
    qed
    moreover have "d \<notin> set (chain_via X t e p)"
      using closure_ok_chain [OF eff(1), of d] eff(2) [of d] by (simp add: chain_ok_def)
    then have "p \<noteq> d" by (auto simp: chain_via_def)
    with mid have "chain_via X t e p = chain_via X tx e p" by (simp add: chain_via_def)
    ultimately show ?thesis using eff Some by auto
  qed
  with mid show "closure_ok X tx' e" "closure_exact X tx' e ids"
    "chain_of X tx' e x =
      (if x = d then map_option (chain_via X tx e) (closureParent X new) else chain_of X tx e x)" by auto
qed

text \<open>The readers.\<close>

lemma closureReadAncestors_result:
  assumes "closure_ok X tx e"
  shows "closureReadAncestors X e d tx = Inr (case chain_of X tx e d of None \<Rightarrow> [] | Some c \<Rightarrow> c)"
proof (cases "bucket_get X tx (closureAscBucket e) d")
  case None
  then show ?thesis by (simp add: closureReadAncestors_def chain_of_def Let_def)
next
  case (Some raw)
  with assms obtain c where "dec_chain X raw = Some c" by (auto simp: closure_ok_def)
  with Some get_has [OF Some] show ?thesis by (simp add: closureReadAncestors_def chain_of_def Let_def)
qed

lemma closureReadDescendants_ok:
  assumes "closure_ok X tx e"
  obtains bm where "closureReadDescendants X e r tx = Inr bm" "set (bm_iter X bm) = below X tx e r"
proof (cases "has_bucket X tx (closureDescBucket e)")
  case True
  obtain bm where "readBitmap X (closureDescBucket e) r tx = Inr bm"
    using assms readBitmap_ok unfolding closure_ok_def by blast
  with that True readBitmap_set show thesis by (simp add: closureReadDescendants_def)
next
  case False
  with that [of "bm_new X"] show thesis
    by (simp add: closureReadDescendants_def iter_new bm_at_def no_bucket_get)
qed

end

end
