(* ===== verification/Stats.thy ===== *)
theory Stats
  imports Numidx
begin

text \<open>
  \<^verbatim>\<open>bboltstore/stats.go\<close> and \<^verbatim>\<open>updateStatsIndex\<close> of \<^verbatim>\<open>bboltstore/indexhooks.go\<close>: Welford's
  running aggregate per attribute, marked stale by an overwrite or a delete and rebuilt from
  the numeric index by the next read.
\<close>

section \<open>Definitions\<close>

definition statsBucketName :: "string \<Rightarrow> string" where
  "statsBucketName entityID = ''stat:'' @ entityID"

definition zeroStats :: statsValue where
  "zeroStats = \<lparr>SCount = 0, Mean = 0, M2 = 0, SMin = 0, SMax = 0, Stale = False\<rparr>"

text \<open>The update of mean and sum of squares, with the arithmetic as an argument: the code runs
  it on \<^verbatim>\<open>float64\<close>.\<close>

definition welfordStep ::
  "('f \<Rightarrow> 'f \<Rightarrow> 'f) \<Rightarrow> ('f \<Rightarrow> 'f \<Rightarrow> 'f) \<Rightarrow> ('f \<Rightarrow> 'f \<Rightarrow> 'f) \<Rightarrow> ('f \<Rightarrow> 'f \<Rightarrow> 'f) \<Rightarrow> 'f \<Rightarrow> 'f \<Rightarrow> 'f \<times> 'f \<Rightarrow> 'f \<times> 'f"
where
  "welfordStep add sub mul dv n x s =
     (let mean = fst s; m2 = snd s;
          delta = sub x mean;
          mean = add mean (dv delta n);
          delta2 = sub x mean
      in (mean, add m2 (mul delta delta2)))"

definition statsWelfordAdd :: "f64 \<Rightarrow> statsValue \<Rightarrow> statsValue" where
  "statsWelfordAdd x v =
     (let cnt = SCount v + 1;
          s = welfordStep f64_add f64_sub f64_mul f64_div (f64_of_int (sint cnt)) x (Mean v, M2 v)
      in v\<lparr>SCount := cnt, Mean := fst s, M2 := snd s,
           SMin := (if cnt = 1 \<or> f64_lt x (SMin v) then x else SMin v),
           SMax := (if cnt = 1 \<or> f64_lt (SMax v) x then x else SMax v)\<rparr>)"

definition statsLoad ::
  "('tx, 'v, 'bm) ext \<Rightarrow> string \<Rightarrow> string \<Rightarrow> 'tx \<Rightarrow> (statsValue \<times> bool) result" where
  "statsLoad X entityID attr tx =
     (let b = statsBucketName entityID in
      if \<not> has_bucket X tx b then Inr (zeroStats, False)
      else case bucket_get X tx b attr of
        None \<Rightarrow> Inr (zeroStats, False)
      | Some raw \<Rightarrow>
          (case dec_stats X raw of
             None \<Rightarrow> Inl (NewErr ''stats: decode'')
           | Some v \<Rightarrow> Inr (v, True)))"

definition statsStore ::
  "('tx, 'v, 'bm) ext \<Rightarrow> string \<Rightarrow> string \<Rightarrow> statsValue \<Rightarrow> 'tx \<Rightarrow> 'tx result" where
  "statsStore X entityID attr v tx =
     bindR (liftB (create_bucket X (statsBucketName entityID) tx)) (\<lambda>tx.
     case enc_stats X v of
       None \<Rightarrow> Inl (NewErr ''json: unsupported value'')
     | Some raw \<Rightarrow> liftB (bucket_put X (statsBucketName entityID) attr raw tx))"

definition statsMarkStale :: "('tx, 'v, 'bm) ext \<Rightarrow> string \<Rightarrow> string \<Rightarrow> 'tx \<Rightarrow> 'tx result" where
  "statsMarkStale X entityID attr tx =
     bindR (statsLoad X entityID attr tx) (\<lambda>(v, exists).
     let v = (if \<not> exists then zeroStats\<lparr>Stale := True\<rparr> else v)
     in statsStore X entityID attr (v\<lparr>Stale := True\<rparr>) tx)"

definition statsAddFresh :: "('tx, 'v, 'bm) ext \<Rightarrow> string \<Rightarrow> string \<Rightarrow> f64 \<Rightarrow> 'tx \<Rightarrow> 'tx result" where
  "statsAddFresh X entityID attr x tx =
     (if f64_isNaN x \<or> f64_isInf x then Inr tx
      else bindR (statsLoad X entityID attr tx) (\<lambda>(v, _).
        if Stale v then statsStore X entityID attr v tx
        else statsStore X entityID attr (statsWelfordAdd x v) tx))"

fun recomputeLoop :: "(bytes \<times> 'v) list \<Rightarrow> statsValue \<Rightarrow> statsValue" where
  "recomputeLoop [] v = v"
| "recomputeLoop ((k, _) # rest) v =
     (if length k \<noteq> 12 then recomputeLoop rest v
      else recomputeLoop rest (statsWelfordAdd (decodeFloat (take 8 k)) v))"

definition statsRecompute ::
  "('tx, 'v, 'bm) ext \<Rightarrow> string \<Rightarrow> string \<Rightarrow> 'tx \<Rightarrow> (statsValue \<times> 'tx) result" where
  "statsRecompute X entityID attr tx =
     (let b = numIndexBucketName entityID attr in
      if \<not> has_bucket X tx b then Inr (zeroStats, tx)
      else let v = recomputeLoop (bucket_items X tx b) zeroStats
           in bindR (statsStore X entityID attr v tx) (\<lambda>tx. Inr (v, tx)))"

text \<open>\<^verbatim>\<open>statsRead\<close> takes the database, not a transaction: a read, and a writable transaction only
  when the aggregate is stale.\<close>

definition statsRead ::
  "('tx, 'v, 'bm) ext \<Rightarrow> string \<Rightarrow> string \<Rightarrow> 'tx \<Rightarrow> statsValue result \<times> 'tx" where
  "statsRead X entityID attr db =
     (case db_view X (statsLoad X entityID attr) db of
        Inl e \<Rightarrow> (Inl e, db)
      | Inr (v, _) \<Rightarrow>
          if \<not> Stale v then (Inr v, db) else db_update X (statsRecompute X entityID attr) db)"

text \<open>A map from paths to values, filled in the order of the fields: the last value wins.\<close>

definition byPath :: "NumericField list \<Rightarrow> (string \<times> f64) list" where
  "byPath nums = foldl (\<lambda>m n. AList.update (Path n) (Value n) m) [] nums"

definition updateStatsIndex ::
  "('tx, 'v, 'bm) ext \<Rightarrow> string \<Rightarrow> NumericField list \<Rightarrow> NumericField list \<Rightarrow> 'tx \<Rightarrow> 'tx result" where
  "updateStatsIndex X entityID oldNums newNums tx =
     (let oldByPath = byPath oldNums; newByPath = byPath newNums in
      bindR (foldR (\<lambda>path tx.
               case map_of newByPath path of
                 Some _ \<Rightarrow> statsMarkStale X entityID path tx
               | None \<Rightarrow> statsMarkStale X entityID path tx)
             (range_order X (map fst oldByPath)) tx)
        (foldR (\<lambda>path tx.
               case map_of oldByPath path of
                 Some _ \<Rightarrow> Inr tx
               | None \<Rightarrow>
                   (case map_of newByPath path of
                      Some x \<Rightarrow> statsAddFresh X entityID path x tx
                    | None \<Rightarrow> Inr tx))
             (range_order X (map fst newByPath))))"

section \<open>Welford's recurrence\<close>

text \<open>In exact arithmetic the recurrence keeps the mean and the sum of squared deviations.\<close>

definition welford_exact :: "'a::field_char_0 list \<Rightarrow> nat \<times> 'a \<times> 'a" where
  "welford_exact xs =
     foldl (\<lambda>(n, s) x. (Suc n, welfordStep (+) (-) (*) (/) (of_nat (Suc n)) x s)) (0, 0, 0) xs"

lemma welfordStep_exact:
  fixes x :: "'a::field_char_0"
  assumes mean: "m * of_nat n = S" and m2: "q = Q - of_nat n * m\<^sup>2"
    and st: "welfordStep (+) (-) (*) (/) (of_nat (Suc n)) x (m, q) = (m', q')"
  shows "m' * of_nat (Suc n) = S + x" "q' = Q + x\<^sup>2 - of_nat (Suc n) * m'\<^sup>2"
proof -
  define N where "N = (of_nat (Suc n) :: 'a)"
  define r where "r = (x - m) / N"
  have N: "N \<noteq> 0" "of_nat n = N - 1" unfolding N_def by (simp_all del: of_nat_Suc) simp
  have r: "r * N = x - m" using N by (simp add: r_def)
  have m': "m' = m + r" and q': "q' = q + (x - m) * (x - m')"
    using st by (auto simp: welfordStep_def Let_def r_def N_def)
  have x: "x = m + r * N" using r by simp
  show "m' * of_nat (Suc n) = S + x"
    unfolding N_def [symmetric] using mean N(2) m' x by (simp add: algebra_simps)
  show "q' = Q + x\<^sup>2 - of_nat (Suc n) * m'\<^sup>2"
    unfolding N_def [symmetric] q' m2 N(2) m' x by (simp add: power2_eq_square algebra_simps)
qed

lemma welford_exact_state:
  "\<exists>m q. welford_exact xs = (length xs, m, q) \<and> m * of_nat (length xs) = sum_list xs \<and>
     q = (\<Sum>x\<leftarrow>xs. x\<^sup>2) - of_nat (length xs) * m\<^sup>2"
proof (induction xs rule: rev_induct)
  case Nil
  then show ?case by (simp add: welford_exact_def)
next
  case (snoc x xs)
  then obtain m q where mq: "welford_exact xs = (length xs, m, q)" "m * of_nat (length xs) = sum_list xs"
    "q = (\<Sum>x\<leftarrow>xs. x\<^sup>2) - of_nat (length xs) * m\<^sup>2" by blast
  obtain m' q' where st: "welfordStep (+) (-) (*) (/) (of_nat (Suc (length xs))) x (m, q) = (m', q')"
    by fastforce
  have "welford_exact (xs @ [x]) = (Suc (length xs), m', q')"
    using mq(1) st by (simp add: welford_exact_def)
  with welfordStep_exact [OF mq(2,3) st] show ?case by auto
qed

lemma squared_deviations:
  fixes m :: "'a::field_char_0"
  assumes "m * of_nat (length xs) = sum_list xs"
  shows "(\<Sum>x\<leftarrow>xs. (x - m)\<^sup>2) = (\<Sum>x\<leftarrow>xs. x\<^sup>2) - of_nat (length xs) * m\<^sup>2"
proof -
  have "(\<Sum>x\<leftarrow>xs. (x - m)\<^sup>2) = (\<Sum>x\<leftarrow>xs. x\<^sup>2) - 2 * m * sum_list xs + of_nat (length xs) * m\<^sup>2"
    by (induction xs) (simp_all add: power2_eq_square algebra_simps)
  also have "2 * m * sum_list xs = 2 * (of_nat (length xs) * m\<^sup>2)"
    by (simp flip: assms add: power2_eq_square algebra_simps)
  finally show ?thesis by simp
qed

section \<open>Count, minimum and maximum\<close>

definition welford :: "f64 list \<Rightarrow> statsValue" where
  "welford vs = foldl (\<lambda>v x. statsWelfordAdd x v) zeroStats vs"

lemma welford_simps [simp]:
  "welford [] = zeroStats" "welford [x] = statsWelfordAdd x zeroStats"
  "welford (vs @ [x]) = statsWelfordAdd x (welford vs)"
  by (simp_all add: welford_def)

lemma statsWelfordAdd_simps [simp]:
  "SCount (statsWelfordAdd x v) = SCount v + 1" "Stale (statsWelfordAdd x v) = Stale v"
  "SMin (statsWelfordAdd x v) = (if SCount v + 1 = 1 \<or> f64_lt x (SMin v) then x else SMin v)"
  "SMax (statsWelfordAdd x v) = (if SCount v + 1 = 1 \<or> f64_lt (SMax v) x then x else SMax v)"
  by (simp_all add: statsWelfordAdd_def Let_def)

lemma welford_count: "SCount (welford vs) = word_of_nat (length vs)" "\<not> Stale (welford vs)"
  by (induction vs rule: rev_induct) (simp_all add: zeroStats_def)

lemma welford_extremes:
  assumes "vs \<noteq> []" "length vs < 2 ^ 64" "\<forall>x \<in> set vs. f64_finite x"
  shows "SMin (welford vs) \<in> set vs" "\<forall>x \<in> set vs. f64_le (SMin (welford vs)) x"
    "SMax (welford vs) \<in> set vs" "\<forall>x \<in> set vs. f64_le x (SMax (welford vs))"
proof -
  have "SMin (welford vs) \<in> set vs \<and> (\<forall>x \<in> set vs. f64_le (SMin (welford vs)) x) \<and>
    SMax (welford vs) \<in> set vs \<and> (\<forall>x \<in> set vs. f64_le x (SMax (welford vs)))"
    using assms
  proof (induction vs rule: rev_induct)
    case (snoc x vs)
    show ?case
    proof (cases "vs = []")
      case True
      with snoc.prems show ?thesis by (simp add: f64_le_def f64_finite_iff zeroStats_def)
    next
      case False
      with snoc.prems have "SCount (welford vs) \<noteq> 0"
        by (simp add: welford_count word_of_nat_eq_0_iff nat_dvd_not_less)
      with snoc False show ?thesis
        by (auto simp: f64_lt_def f64_le_def f64_finite_iff)
    qed
  qed simp
  then show "SMin (welford vs) \<in> set vs" "\<forall>x \<in> set vs. f64_le (SMin (welford vs)) x"
    "SMax (welford vs) \<in> set vs" "\<forall>x \<in> set vs. f64_le x (SMax (welford vs))" by auto
qed

section \<open>The aggregates a transaction shows\<close>

definition stats_of :: "('tx, 'v, 'bm) ext \<Rightarrow> 'tx \<Rightarrow> string \<Rightarrow> string \<Rightarrow> statsValue option" where
  "stats_of X tx e a =
     (case bucket_get X tx (statsBucketName e) a of None \<Rightarrow> None | Some raw \<Rightarrow> dec_stats X raw)"

definition stats_ok :: "('tx, 'v, 'bm) ext \<Rightarrow> 'tx \<Rightarrow> string \<Rightarrow> bool" where
  "stats_ok X tx e \<longleftrightarrow> (\<forall>a raw. bucket_get X tx (statsBucketName e) a = Some raw \<longrightarrow> dec_stats X raw \<noteq> None)"

definition stats_or_zero :: "statsValue option \<Rightarrow> statsValue" where
  "stats_or_zero s = (case s of None \<Rightarrow> zeroStats | Some v \<Rightarrow> v)"

text \<open>What a write does to the aggregate of one attribute, from the attribute's value in the
  old and in the new document.\<close>

definition stats_update :: "f64 option \<Rightarrow> f64 option \<Rightarrow> statsValue option \<Rightarrow> statsValue option" where
  "stats_update old new s =
     (case old of
        Some _ \<Rightarrow> Some ((stats_or_zero s)\<lparr>Stale := True\<rparr>)
      | None \<Rightarrow>
          (case new of
             None \<Rightarrow> s
           | Some x \<Rightarrow>
               let v = stats_or_zero s in Some (if Stale v then v else statsWelfordAdd x v)))"

lemma frame_stats_views:
  assumes "frame X N tx tx'" "statsBucketName e \<notin> N"
  shows "stats_of X tx' e = stats_of X tx e" "stats_ok X tx' e = stats_ok X tx e"
  using frame_get [OF assms] by (simp_all add: stats_of_def stats_ok_def fun_eq_iff)

lemma map_of_byPath: "map_of (byPath nums) a = map_of (rev (map (\<lambda>n. (Path n, Value n)) nums)) a"
  by (induction nums rule: rev_induct) (simp_all add: byPath_def update_conv')

lemma distinct_byPath: "distinct (map fst (byPath nums))"
  by (induction nums rule: rev_induct) (simp_all add: byPath_def distinct_update)

lemma map_of_byPath_finite:
  assumes "\<forall>n \<in> set nums. f64_finite (Value n)" "map_of (byPath nums) a = Some x"
  shows "f64_finite x"
  using assms unfolding map_of_byPath by (auto dest!: map_of_SomeD)

context ext_laws
begin

lemma statsStore_effect:
  assumes "statsStore X e a v tx = Inr tx'"
  shows "frame X {statsBucketName e} tx tx'"
    "stats_of X tx' e b = (if b = a then Some v else stats_of X tx e b)"
    "stats_ok X tx e \<Longrightarrow> stats_ok X tx' e"
proof -
  from assms obtain t raw where c: "create_bucket X (statsBucketName e) tx = Inr t"
    and enc: "enc_stats X v = Some raw" and p: "bucket_put X (statsBucketName e) a raw t = Inr tx'"
    by (auto simp: statsStore_def result_simps split: option.splits)
  show "frame X {statsBucketName e} tx tx'"
    by (rule frame_trans [OF frame_create [OF c] frame_put [OF p]]) simp_all
  have g: "bucket_get X tx' n k = (if n = statsBucketName e \<and> k = a then Some raw else bucket_get X tx n k)" for n k
    by (simp add: put_get [OF p] create_get [OF c])
  show "stats_of X tx' e b = (if b = a then Some v else stats_of X tx e b)"
    by (simp add: stats_of_def g stats_roundtrip [OF enc])
  show "stats_ok X tx e \<Longrightarrow> stats_ok X tx' e"
    by (auto simp: stats_ok_def g stats_roundtrip [OF enc])
qed

lemma statsLoad_result:
  assumes "stats_ok X tx e"
  shows "statsLoad X e a tx = Inr (stats_or_zero (stats_of X tx e a), stats_of X tx e a \<noteq> None)"
proof (cases "bucket_get X tx (statsBucketName e) a")
  case None
  then show ?thesis by (simp add: statsLoad_def stats_of_def Let_def stats_or_zero_def)
next
  case (Some raw)
  with assms obtain v where "dec_stats X raw = Some v" by (auto simp: stats_ok_def)
  with Some get_has [OF Some] show ?thesis by (simp add: statsLoad_def stats_of_def Let_def stats_or_zero_def)
qed

lemma statsMarkStale_effect:
  assumes "statsMarkStale X e a tx = Inr tx'" "stats_ok X tx e"
  shows "stats_ok X tx' e"
    "stats_of X tx' e b =
      (if b = a then Some ((stats_or_zero (stats_of X tx e a))\<lparr>Stale := True\<rparr>) else stats_of X tx e b)"
proof -
  have st: "statsStore X e a ((stats_or_zero (stats_of X tx e a))\<lparr>Stale := True\<rparr>) tx = Inr tx'"
    using assms(1)
    by (cases "stats_of X tx e a")
       (auto simp: statsMarkStale_def statsLoad_result [OF assms(2)] stats_or_zero_def Let_def)
  from statsStore_effect(3) [OF st assms(2)] statsStore_effect(2) [OF st] show "stats_ok X tx' e"
    "stats_of X tx' e b =
      (if b = a then Some ((stats_or_zero (stats_of X tx e a))\<lparr>Stale := True\<rparr>) else stats_of X tx e b)"
    by auto
qed

lemma statsAddFresh_effect:
  assumes "statsAddFresh X e a x tx = Inr tx'" "stats_ok X tx e" "f64_finite x"
  shows "stats_ok X tx' e"
    "stats_of X tx' e b = (if b = a then stats_update None (Some x) (stats_of X tx e a) else stats_of X tx e b)"
proof -
  let ?v = "stats_or_zero (stats_of X tx e a)"
  have st: "statsStore X e a (if Stale ?v then ?v else statsWelfordAdd x ?v) tx = Inr tx'"
    using assms(1,3)
    by (auto simp: statsAddFresh_def f64_finite_iff statsLoad_result [OF assms(2)] split: if_splits)
  from statsStore_effect(3) [OF st assms(2)] statsStore_effect(2) [OF st] show "stats_ok X tx' e"
    "stats_of X tx' e b = (if b = a then stats_update None (Some x) (stats_of X tx e a) else stats_of X tx e b)"
    by (auto simp: stats_update_def Let_def)
qed

lemma statsMarkStale_frame: "statsMarkStale X e a tx = Inr tx' \<Longrightarrow> frame X {statsBucketName e} tx tx'"
  by (auto simp: statsMarkStale_def result_simps Let_def intro: statsStore_effect(1))

lemma statsAddFresh_frame: "statsAddFresh X e a x tx = Inr tx' \<Longrightarrow> frame X {statsBucketName e} tx tx'"
  by (auto simp: statsAddFresh_def result_simps split: if_splits intro: statsStore_effect(1))

lemma updateStatsIndex_frame:
  assumes "updateStatsIndex X e os ns tx = Inr tx'"
  shows "frame X {statsBucketName e} tx tx'"
proof -
  from assms obtain t where
    t1: "foldR (\<lambda>path. statsMarkStale X e path) (range_order X (map fst (byPath os))) tx = Inr t" and
    t2: "foldR (\<lambda>path tx. case map_of (byPath os) path of Some _ \<Rightarrow> Inr tx | None \<Rightarrow>
           (case map_of (byPath ns) path of Some x \<Rightarrow> statsAddFresh X e path x tx | None \<Rightarrow> Inr tx))
         (range_order X (map fst (byPath ns))) t = Inr tx'"
    by (auto simp: updateStatsIndex_def Let_def result_simps option.case_eq_if)
  have "frame X {statsBucketName e} tx t" using t1 by (rule frame_foldR) (rule statsMarkStale_frame)
  moreover have "frame X {statsBucketName e} t tx'"
    using t2 by (rule frame_foldR) (auto split: option.splits intro: statsAddFresh_frame)
  ultimately show ?thesis by (rule frame_trans)
qed

lemma updateStatsIndex_effect:
  assumes run: "updateStatsIndex X e os ns tx = Inr tx'" and ok: "stats_ok X tx e"
    and fin: "\<forall>n \<in> set ns. f64_finite (Value n)"
  shows "stats_ok X tx' e"
    "stats_of X tx' e a = stats_update (map_of (byPath os) a) (map_of (byPath ns) a) (stats_of X tx e a)"
proof -
  let ?os = "range_order X (map fst (byPath os))" and ?ns = "range_order X (map fst (byPath ns))"
  have keys: "distinct ?os" "set ?os = dom (map_of (byPath os))"
    "distinct ?ns" "set ?ns = dom (map_of (byPath ns))"
    using distinct_byPath mset_eq_imp_distinct_iff [OF range_mset] mset_eq_setD [OF range_mset]
    by (auto simp: dom_map_of_conv_image_fst)
  from run obtain t where
    t1: "foldR (\<lambda>path. statsMarkStale X e path) ?os tx = Inr t" and
    t2: "foldR (\<lambda>path tx. case map_of (byPath os) path of Some _ \<Rightarrow> Inr tx | None \<Rightarrow>
           (case map_of (byPath ns) path of Some x \<Rightarrow> statsAddFresh X e path x tx | None \<Rightarrow> Inr tx))
         ?ns t = Inr tx'"
    by (auto simp: updateStatsIndex_def Let_def result_simps option.case_eq_if)
  have mid: "stats_ok X t e \<and> stats_of X t e a =
      (if a \<in> set ?os then Some ((stats_or_zero (stats_of X tx e a))\<lparr>Stale := True\<rparr>) else stats_of X tx e a)"
    using t1 keys(1) ok
    by (rule foldR_distinct_view [where V = "\<lambda>tx. stats_of X tx e"]) (use statsMarkStale_effect in simp)
  have "stats_ok X tx' e \<and> stats_of X tx' e a =
      (if a \<in> set ?ns then (case map_of (byPath os) a of Some _ \<Rightarrow> stats_of X t e a
         | None \<Rightarrow> stats_update None (map_of (byPath ns) a) (stats_of X t e a)) else stats_of X t e a)"
    using t2 keys(3) mid [THEN conjunct1]
  proof (rule foldR_distinct_view [where V = "\<lambda>tx. stats_of X tx e"
      and g = "\<lambda>a s. case map_of (byPath os) a of Some _ \<Rightarrow> s
         | None \<Rightarrow> stats_update None (map_of (byPath ns) a) s"])
    fix path s s' y
    assume "(case map_of (byPath os) path of Some _ \<Rightarrow> Inr s | None \<Rightarrow>
         (case map_of (byPath ns) path of Some x \<Rightarrow> statsAddFresh X e path x s | None \<Rightarrow> Inr s)) = Inr s'"
      and "stats_ok X s e"
    with statsAddFresh_effect map_of_byPath_finite [OF fin, of path]
    show "stats_ok X s' e \<and> stats_of X s' e y =
        (if y = path then (case map_of (byPath os) path of Some _ \<Rightarrow> stats_of X s e y
           | None \<Rightarrow> stats_update None (map_of (byPath ns) path) (stats_of X s e y)) else stats_of X s e y)"
      by (auto split: option.splits simp: stats_update_def)
  qed
  with mid keys(2,4) show "stats_ok X tx' e"
    "stats_of X tx' e a = stats_update (map_of (byPath os) a) (map_of (byPath ns) a) (stats_of X tx e a)"
    by (auto simp: stats_update_def split: option.splits)
qed

text \<open>A recomputation aggregates every entry of the numeric index, in ascending order.\<close>

lemma recomputeLoop_all:
  "\<forall>(k, r) \<in> set items. length k = 12 \<Longrightarrow>
    recomputeLoop items v = foldl (\<lambda>v x. statsWelfordAdd x v) v (map (\<lambda>(k, _). decodeFloat (take 8 k)) items)"
  by (induction items arbitrary: v) auto

lemma num_item_key:
  assumes "num_wf X tx e" "kr \<in> set (bucket_items X tx (numIndexBucketName e a))"
  obtains v i where "fst kr = numEncode v i" "(v, i) \<in> num_entries X tx e a" "f64_finite v"
proof -
  obtain k r where kr: "kr = (k, r)" by (cases kr)
  with assms have g: "bucket_get X tx (numIndexBucketName e a) k = Some r" by (simp add: in_items_iff)
  with assms(1) obtain v i where "f64_finite v" "k = numEncode v i"
    unfolding num_wf_def by (metis option.distinct(1))
  with that kr g show thesis by (auto simp: num_entries_def)
qed

lemma entries_of_items:
  assumes "num_wf X tx e"
  shows "mset (map (\<lambda>(k, _). (decodeFloat (take 8 k), BigEndian_Uint32 (drop 8 k)))
      (bucket_items X tx (numIndexBucketName e a))) = mset_set (num_entries X tx e a)"
proof -
  let ?items = "bucket_items X tx (numIndexBucketName e a)"
  let ?f = "\<lambda>k. (decodeFloat (take 8 k), BigEndian_Uint32 (drop 8 k))"
  have key: "\<exists>v i. k = numEncode v i \<and> (v, i) \<in> num_entries X tx e a" if "k \<in> fst ` set ?items" for k
    using that num_item_key [OF assms] by (metis imageE)
  have inj: "inj_on ?f (set (map fst ?items))"
  proof (rule inj_onI)
    fix k j assume "k \<in> set (map fst ?items)" "j \<in> set (map fst ?items)" "?f k = ?f j"
    with key [of k] key [of j] show "k = j" by auto
  qed
  have dist: "distinct (map ?f (map fst ?items))"
    using distinct_items inj by (subst distinct_map) blast
  have "set (map ?f (map fst ?items)) = num_entries X tx e a"
  proof
    show "set (map ?f (map fst ?items)) \<subseteq> num_entries X tx e a"
    proof
      fix vi assume "vi \<in> set (map ?f (map fst ?items))"
      then obtain k where k: "k \<in> fst ` set ?items" "vi = ?f k" by auto
      from key [OF k(1)] obtain v i where "k = numEncode v i" "(v, i) \<in> num_entries X tx e a" by blast
      with k(2) show "vi \<in> num_entries X tx e a" by simp
    qed
    show "num_entries X tx e a \<subseteq> set (map ?f (map fst ?items))"
    proof
      fix vi assume "vi \<in> num_entries X tx e a"
      then obtain v i r where "vi = (v, i)" "(numEncode v i, r) \<in> set ?items"
        by (auto simp: num_entries_def in_items_iff)
      then have "numEncode v i \<in> set (map fst ?items)" by (simp add: rev_image_eqI)
      then have "?f (numEncode v i) \<in> ?f ` set (map fst ?items)" by (rule imageI)
      then show "vi \<in> set (map ?f (map fst ?items))" using \<open>vi = (v, i)\<close> by (simp add: image_image)
    qed
  qed
  then have "mset (map ?f (map fst ?items)) = mset_set (num_entries X tx e a)"
    using mset_set_set [OF dist] by (simp only:)
  then show ?thesis by (simp add: case_prod_unfold comp_def)
qed

lemma statsRecompute_result:
  assumes run: "statsRecompute X e a tx = Inr (v, tx')" and wf: "num_wf X tx e"
  shows "\<exists>vs. v = welford vs \<and> mset vs = image_mset fst (mset_set (num_entries X tx e a))"
    "frame X {statsBucketName e} tx tx'"
    "has_bucket X tx (numIndexBucketName e a) \<Longrightarrow>
      stats_of X tx' e b = (if b = a then Some v else stats_of X tx e b)"
proof -
  let ?b = "numIndexBucketName e a"
  let ?vs = "map (\<lambda>(k, _). decodeFloat (take 8 k)) (bucket_items X tx ?b)"
  have all12: "\<forall>(k, r) \<in> set (bucket_items X tx ?b). length k = 12"
  proof
    fix kr assume "kr \<in> set (bucket_items X tx ?b)"
    then obtain v i where "fst kr = numEncode v i" by (rule num_item_key [OF wf])
    then show "case kr of (k, r) \<Rightarrow> length k = 12" by (simp add: case_prod_unfold)
  qed
  have ms: "mset ?vs = image_mset fst (mset_set (num_entries X tx e a))"
    unfolding entries_of_items [OF wf, symmetric]
    by (simp add: case_prod_unfold image_mset.compositionality comp_def)
  have loop: "recomputeLoop (bucket_items X tx ?b) zeroStats = welford ?vs"
    by (simp add: recomputeLoop_all [OF all12] welford_def)
  have empty: "?vs = []" if "\<not> has_bucket X tx ?b"
  proof -
    have "kr \<notin> set (bucket_items X tx ?b)" for kr
      using no_bucket_get [OF that] by (cases kr) (simp add: in_items_iff)
    then have "bucket_items X tx ?b = []" by (metis list.set_intros(1) list.exhaust)
    then show ?thesis by simp
  qed
  show "\<exists>vs. v = welford vs \<and> mset vs = image_mset fst (mset_set (num_entries X tx e a))"
    using run ms loop empty
    by (intro exI [of _ ?vs]) (auto simp: statsRecompute_def Let_def result_simps split: if_splits)
  show "frame X {statsBucketName e} tx tx'"
    using run by (auto simp: statsRecompute_def Let_def result_simps split: if_splits intro: statsStore_effect(1))
  show "stats_of X tx' e b = (if b = a then Some v else stats_of X tx e b)"
    if "has_bucket X tx ?b"
    using run that statsStore_effect(2) by (auto simp: statsRecompute_def Let_def result_simps split: if_splits)
qed

end

section \<open>Aggregates and stored documents\<close>

text \<open>The value of a document that the aggregate of an attribute counts: its last number at the
  attribute.\<close>

definition attr_value :: "('tx, 'v, 'bm) ext \<Rightarrow> string \<Rightarrow> bytes \<Rightarrow> f64 option" where
  "attr_value X a doc = map_of (byPath (doc_numerics X doc)) a"

definition having :: "('tx, 'v, 'bm) ext \<Rightarrow> string \<Rightarrow> (string \<Rightarrow> bytes) \<Rightarrow> string set" where
  "having X a D = {d. attr_value X a (D d) \<noteq> None}"

text \<open>An aggregate over one value of every document that has the attribute, each document
  once.\<close>

definition counts_all :: "('tx, 'v, 'bm) ext \<Rightarrow> string \<Rightarrow> (string \<Rightarrow> bytes) \<Rightarrow> statsValue \<Rightarrow> bool" where
  "counts_all X a D v \<longleftrightarrow>
     (\<exists>vs. v = welford vs \<and> mset vs = image_mset (\<lambda>d. the (attr_value X a (D d))) (mset_set (having X a D)))"

text \<open>A document may carry several numbers at an attribute (an array of numbers): the running
  update counts the last one, a recomputation counts each different one. The two agree on attributes
  that no document repeats.\<close>

definition single_valued :: "('tx, 'v, 'bm) ext \<Rightarrow> string \<Rightarrow> (string \<Rightarrow> bytes) \<Rightarrow> bool" where
  "single_valued X a D \<longleftrightarrow> (\<forall>d. length (filter (\<lambda>n. Path n = a) (doc_numerics X (D d))) \<le> 1)"

definition stats_exact :: "('tx, 'v, 'bm) ext \<Rightarrow> 'tx \<Rightarrow> string \<Rightarrow> (string \<Rightarrow> bytes) \<Rightarrow> bool" where
  "stats_exact X tx e D \<longleftrightarrow>
     (\<forall>a. finite (having X a D) \<and> (having X a D \<noteq> {} \<longrightarrow> stats_of X tx e a \<noteq> None) \<and>
        (single_valued X a D \<longrightarrow>
           (let v = stats_or_zero (stats_of X tx e a) in Stale v \<or> counts_all X a D v)))"

lemma attr_value_finite: "attr_value X a doc = Some x \<Longrightarrow> f64_finite x"
  unfolding attr_value_def by (rule map_of_byPath_finite) (use doc_numerics_finite in auto)

lemma attr_value_None_iff: "attr_value X a doc = None \<longleftrightarrow> filter (\<lambda>n. Path n = a) (doc_numerics X doc) = []"
  unfolding attr_value_def map_of_byPath by (auto simp: map_of_eq_None_iff filter_empty_conv image_image)

lemma attr_value_single:
  assumes "length (filter (\<lambda>n. Path n = a) (doc_numerics X doc)) \<le> 1"
  shows "attr_value X a doc = Some v \<longleftrightarrow> (a, v) \<in> num_keys X doc"
proof -
  let ?f = "filter (\<lambda>n. Path n = a) (doc_numerics X doc)"
  have keys: "(a, w) \<in> num_keys X doc \<longleftrightarrow> (\<exists>n \<in> set ?f. Value n = w)" for w
    by (auto simp: num_keys_def)
  have dom: "attr_value X a doc = Some w \<Longrightarrow> (a, w) \<in> num_keys X doc" for w
    unfolding attr_value_def map_of_byPath num_keys_def by (auto dest!: map_of_SomeD)
  consider "?f = []" | n where "?f = [n]" using assms by (cases ?f rule: remdups_adj.cases) auto
  then show ?thesis
  proof cases
    case 1
    then show ?thesis using attr_value_None_iff [of X a doc] keys [of v] by simp
  next
    case 2
    then have "attr_value X a doc \<noteq> None" by (simp add: attr_value_None_iff)
    then obtain w where w: "attr_value X a doc = Some w" by blast
    with dom [OF w] keys 2 show ?thesis by auto
  qed
qed

lemma having_upd:
  "having X a (D(d := new)) = (if attr_value X a new \<noteq> None then insert d (having X a D) else having X a D - {d})"
  by (auto simp: having_def)

lemma counts_all_count:
  assumes "counts_all X a D v"
  shows "SCount v = word_of_nat (card (having X a D))"
proof -
  from assms obtain vs where "v = welford vs"
    and "mset vs = image_mset (\<lambda>d. the (attr_value X a (D d))) (mset_set (having X a D))"
    unfolding counts_all_def by blast
  moreover from this have "length vs = card (having X a D)"
    by (metis size_image_mset size_mset size_mset_set)
  ultimately show ?thesis by (simp add: welford_count)
qed

lemma counts_all_cong:
  assumes "\<And>x. attr_value X a (D x) = attr_value X a (D' x)"
  shows "counts_all X a D v = counts_all X a D' v" "having X a D = having X a D'"
  unfolding counts_all_def having_def assms by simp_all

lemma counts_all_add:
  assumes "counts_all X a D v" "finite (having X a D)" "attr_value X a (D d) = None"
    "attr_value X a new = Some x"
  shows "counts_all X a (D(d := new)) (statsWelfordAdd x v)"
proof -
  from assms(1) obtain vs where vs: "v = welford vs"
    "mset vs = image_mset (\<lambda>d. the (attr_value X a (D d))) (mset_set (having X a D))"
    unfolding counts_all_def by blast
  have d: "d \<notin> having X a D" using assms(3) by (simp add: having_def)
  have "image_mset (\<lambda>y. the (attr_value X a ((D(d := new)) y))) (mset_set (having X a D)) =
      image_mset (\<lambda>y. the (attr_value X a (D y))) (mset_set (having X a D))"
    using d by (intro image_mset_cong) (auto simp: assms(2))
  with vs d assms(2,4) have "mset (vs @ [x]) =
      image_mset (\<lambda>y. the (attr_value X a ((D(d := new)) y))) (mset_set (having X a (D(d := new))))"
    by (simp add: having_upd)
  moreover have "statsWelfordAdd x v = welford (vs @ [x])" using vs(1) by simp
  ultimately show ?thesis unfolding counts_all_def by blast
qed

context ext_laws
begin

lemma updateStatsIndex_exact:
  assumes run: "updateStatsIndex X e (doc_numerics X (D d)) (doc_numerics X new) tx = Inr tx'"
    and ok: "stats_ok X tx e" and ex: "stats_exact X tx e D"
  shows "stats_exact X tx' e (D(d := new))"
  unfolding stats_exact_def
proof (intro allI conjI)
  fix a
  have fin: "finite (having X a D)" using ex by (simp add: stats_exact_def)
  then show "finite (having X a (D(d := new)))" by (simp add: having_upd)
  have eff: "stats_of X tx' e a =
      stats_update (attr_value X a (D d)) (attr_value X a new) (stats_of X tx e a)"
    unfolding attr_value_def
    by (rule updateStatsIndex_effect(2) [OF run ok]) (use doc_numerics_finite in blast)
  have "having X a D \<noteq> {} \<longrightarrow> stats_of X tx e a \<noteq> None" using ex by (simp add: stats_exact_def)
  then show "having X a (D(d := new)) \<noteq> {} \<longrightarrow> stats_of X tx' e a \<noteq> None"
    by (auto simp: eff stats_update_def having_def Let_def split: option.splits if_splits)
  show "single_valued X a (D(d := new)) \<longrightarrow>
      (let v = stats_or_zero (stats_of X tx' e a) in Stale v \<or> counts_all X a (D(d := new)) v)"
  proof
  assume sv: "single_valued X a (D(d := new))"
  show "let v = stats_or_zero (stats_of X tx' e a) in Stale v \<or> counts_all X a (D(d := new)) v"
  proof (cases "attr_value X a (D d)")
    case (Some y)
    then show ?thesis by (simp add: eff stats_update_def stats_or_zero_def)
  next
    case None
    then have "length (filter (\<lambda>n. Path n = a) (doc_numerics X (D d))) \<le> 1"
      unfolding attr_value_None_iff by simp
    with sv have "single_valued X a D" unfolding single_valued_def by (metis fun_upd_other)
    with ex have v: "Stale (stats_or_zero (stats_of X tx e a)) \<or> counts_all X a D (stats_or_zero (stats_of X tx e a))"
      by (simp add: stats_exact_def Let_def)
    show ?thesis
    proof (cases "attr_value X a new")
      case None': None
      with None have "attr_value X a (D x) = attr_value X a ((D(d := new)) x)" for x by simp
      then have "counts_all X a (D(d := new)) w = counts_all X a D w" for w
        by (intro counts_all_cong(1) [symmetric])
      with v None None' show ?thesis by (simp only: eff stats_update_def Let_def option.case)
    next
      case (Some x)
      with None v counts_all_add [OF _ fin None Some] show ?thesis
        by (auto simp: eff stats_update_def stats_or_zero_def Let_def)
    qed
  qed
  qed
qed

text \<open>A recomputation over an exact numeric index counts every document that has the
  attribute.\<close>

lemma recompute_counts_all:
  assumes num: "exact_index (num_members X tx e) (num_keys X) ids D" and inj: "inj_ids ids"
    and all: "\<forall>d. D d \<noteq> [] \<longrightarrow> ids d \<noteq> None" and sv: "single_valued X a D"
    and v: "v = welford vs" "mset vs = image_mset fst (mset_set (num_entries X tx e a))"
  shows "counts_all X a D v"
proof -
  let ?f = "\<lambda>d. (the (attr_value X a (D d)), the (ids d))"
  have val: "attr_value X a (D d) = Some w \<longleftrightarrow> (a, w) \<in> num_keys X (D d)" for d w
    using sv by (intro attr_value_single) (simp add: single_valued_def)
  have id: "\<exists>i. ids d = Some i" if "d \<in> having X a D" for d
  proof -
    from that have "D d \<noteq> []" by (auto simp: having_def attr_value_def doc_numerics_def byPath_def)
    with all show ?thesis by blast
  qed
  have entries: "(w, i) \<in> num_entries X tx e a \<longleftrightarrow> (\<exists>d. ids d = Some i \<and> attr_value X a (D d) = Some w)" for w i
    using num unfolding exact_index_def val by (auto simp: num_members_def)
  have im: "num_entries X tx e a = ?f ` having X a D"
  proof (intro set_eqI iffI)
    fix wi assume "wi \<in> num_entries X tx e a"
    then obtain w i d where "wi = (w, i)" "ids d = Some i" "attr_value X a (D d) = Some w"
      using entries by (cases wi) blast
    then show "wi \<in> ?f ` having X a D" by (intro image_eqI [of _ _ d]) (auto simp: having_def)
  next
    fix wi assume "wi \<in> ?f ` having X a D"
    then obtain d where "d \<in> having X a D" "wi = ?f d" by blast
    with id [of d] entries show "wi \<in> num_entries X tx e a" by (auto simp: having_def)
  qed
  have "inj_on ?f (having X a D)"
    using id inj_idsD [OF inj] by (intro inj_onI) (metis option.sel prod.inject)
  then have "mset_set (num_entries X tx e a) = image_mset ?f (mset_set (having X a D))"
    unfolding im by (rule image_mset_mset_set [symmetric])
  with v(2) have "mset vs = image_mset (\<lambda>d. the (attr_value X a (D d))) (mset_set (having X a D))"
    by (simp add: image_mset.compositionality comp_def)
  with v(1) show ?thesis unfolding counts_all_def by blast
qed

lemma stats_exact_store:
  assumes ex: "stats_exact X tx e D" and v: "single_valued X a D \<Longrightarrow> counts_all X a D v"
    and st: "\<And>b. stats_of X tx' e b = (if b = a then Some v else stats_of X tx e b)"
  shows "stats_exact X tx' e D"
  using ex v unfolding stats_exact_def st by (auto simp: stats_or_zero_def Let_def)

end

end
