(* ===== verification/Absence.thy ===== *)
theory Absence
  imports Temporal
begin

text \<open>
  \<^verbatim>\<open>bboltstore/absence.go\<close> and \<^verbatim>\<open>updateAbsenceIndex\<close> of \<^verbatim>\<open>bboltstore/indexhooks.go\<close>: a cache of
  the latest event time per item and record type, with the document that owns it.
\<close>

section \<open>Definitions\<close>

definition absenceBucketName :: "string \<Rightarrow> string" where
  "absenceBucketName entityID = ''absbucket:'' @ entityID"

definition absenceCellKey :: "string \<Rightarrow> string \<Rightarrow> bytes" where
  "absenceCellKey itemID recordType = itemID @ ''|'' @ recordType"

definition absenceRecord ::
  "('tx, 'v, 'bm) ext \<Rightarrow> string \<Rightarrow> string \<Rightarrow> string \<Rightarrow> string \<Rightarrow> i64 \<Rightarrow> 'tx \<Rightarrow> 'tx result" where
  "absenceRecord X entityID itemID recordType docID at tx =
     (let b = absenceBucketName entityID; key = absenceCellKey itemID recordType;
          write = (\<lambda>tx. liftB (bucket_put X b key (enc_abs X \<lparr>AbsAt = at, AbsDocID = docID\<rparr>) tx))
      in bindR (liftB (create_bucket X b tx)) (\<lambda>tx.
         case bucket_get X tx b key of
           Some raw \<Rightarrow>
             (case dec_abs X raw of
                None \<Rightarrow> Inl (NewErr ''absence: decode'')
              | Some cur \<Rightarrow>
                  if sint at \<le> sint (AbsAt cur) \<and> AbsDocID cur \<noteq> docID then Inr tx else write tx)
         | None \<Rightarrow> write tx))"

text \<open>The loop of \<^verbatim>\<open>absenceRetract\<close>: the latest entry of another document, starting from the zero
  entry.\<close>

definition retractMax :: "string \<Rightarrow> temporalEntry list \<Rightarrow> absenceEntry" where
  "retractMax docID entries =
     foldl (\<lambda>newMax e.
       if EDocID e = docID then newMax
       else if sint (At e) > sint (AbsAt newMax) then \<lparr>AbsAt = At e, AbsDocID = EDocID e\<rparr>
       else newMax) \<lparr>AbsAt = 0, AbsDocID = []\<rparr> entries"

definition absenceRetract ::
  "('tx, 'v, 'bm) ext \<Rightarrow> string \<Rightarrow> string \<Rightarrow> string \<Rightarrow> string \<Rightarrow> 'tx \<Rightarrow> 'tx result" where
  "absenceRetract X entityID itemID recordType docID tx =
     (let b = absenceBucketName entityID; key = absenceCellKey itemID recordType in
      if \<not> has_bucket X tx b then Inr tx
      else case bucket_get X tx b key of
        None \<Rightarrow> Inr tx
      | Some raw \<Rightarrow>
          (case dec_abs X raw of
             None \<Rightarrow> Inl (NewErr ''absence: decode'')
           | Some cur \<Rightarrow>
               if AbsDocID cur \<noteq> docID then Inr tx
               else bindR (temporalRead X entityID itemID [recordType] tx) (\<lambda>entries.
                 let newMax = retractMax docID entries in
                 if AbsAt newMax = 0 then liftB (bucket_delete X b key tx)
                 else liftB (bucket_put X b key (enc_abs X newMax) tx))))"

definition absenceLookup ::
  "('tx, 'v, 'bm) ext \<Rightarrow> string \<Rightarrow> string \<Rightarrow> string \<Rightarrow> 'tx \<Rightarrow> (i64 \<times> bool) result" where
  "absenceLookup X entityID itemID recordType tx =
     (let b = absenceBucketName entityID in
      if \<not> has_bucket X tx b then Inr (0, False)
      else case bucket_get X tx b (absenceCellKey itemID recordType) of
        None \<Rightarrow> Inr (0, False)
      | Some raw \<Rightarrow>
          (case dec_abs X raw of
             None \<Rightarrow> Inl (NewErr ''absence: decode'')
           | Some e \<Rightarrow> Inr (AbsAt e, True)))"

definition updateAbsenceIndex ::
  "('tx, 'v, 'bm) ext \<Rightarrow> string \<Rightarrow> string \<Rightarrow> bytes \<Rightarrow> bytes \<Rightarrow> 'tx \<Rightarrow> 'tx result" where
  "updateAbsenceIndex X entityID docID oldDoc newDoc tx =
     bindR (if length oldDoc > 0 then
              (case temporalFields X oldDoc of
                 Some (oldItem, oldType, _) \<Rightarrow>
                   if length newDoc = 0 then absenceRetract X entityID oldItem oldType docID tx else Inr tx
               | None \<Rightarrow> Inr tx)
            else Inr tx) (\<lambda>tx.
     if length newDoc > 0 then
       (case temporalFields X newDoc of
          Some (newItem, newType, at) \<Rightarrow> absenceRecord X entityID newItem newType docID at tx
        | None \<Rightarrow> Inr tx)
     else Inr tx)"

section \<open>The cells a transaction shows\<close>

definition cell_of :: "('tx, 'v, 'bm) ext \<Rightarrow> 'tx \<Rightarrow> string \<Rightarrow> bytes \<Rightarrow> absenceEntry option" where
  "cell_of X tx e k =
     (case bucket_get X tx (absenceBucketName e) k of None \<Rightarrow> None | Some raw \<Rightarrow> dec_abs X raw)"

definition absence_ok :: "('tx, 'v, 'bm) ext \<Rightarrow> 'tx \<Rightarrow> string \<Rightarrow> bool" where
  "absence_ok X tx e \<longleftrightarrow>
     (\<forall>k raw. bucket_get X tx (absenceBucketName e) k = Some raw \<longrightarrow> dec_abs X raw \<noteq> None)"

text \<open>What recording an event makes of its cell.\<close>

definition cell_record :: "string \<Rightarrow> i64 \<Rightarrow> absenceEntry option \<Rightarrow> absenceEntry" where
  "cell_record d at c =
     (case c of
        Some cur \<Rightarrow>
          if sint at \<le> sint (AbsAt cur) \<and> AbsDocID cur \<noteq> d then cur else \<lparr>AbsAt = at, AbsDocID = d\<rparr>
      | None \<Rightarrow> \<lparr>AbsAt = at, AbsDocID = d\<rparr>)"

definition cell_retract :: "string \<Rightarrow> temporalEntry list \<Rightarrow> absenceEntry option \<Rightarrow> absenceEntry option" where
  "cell_retract d es c =
     (case c of
        Some cur \<Rightarrow>
          if AbsDocID cur \<noteq> d then Some cur
          else if AbsAt (retractMax d es) = 0 then None else Some (retractMax d es)
      | None \<Rightarrow> None)"

lemma frame_absence_views:
  assumes "frame X N tx tx'" "absenceBucketName e \<notin> N"
  shows "cell_of X tx' e = cell_of X tx e" "absence_ok X tx' e = absence_ok X tx e"
  using frame_get [OF assms] by (simp_all add: cell_of_def absence_ok_def fun_eq_iff)

text \<open>The result of the loop: the latest positive time among the other documents' entries.\<close>

lemma retractMax_snoc:
  "retractMax d (es @ [en]) =
    (if EDocID en = d then retractMax d es
     else if sint (At en) > sint (AbsAt (retractMax d es)) then \<lparr>AbsAt = At en, AbsDocID = EDocID en\<rparr>
     else retractMax d es)"
  by (simp add: retractMax_def)

lemma retractMax_spec:
  "(retractMax d es = \<lparr>AbsAt = 0, AbsDocID = []\<rparr> \<or>
     (\<exists>en \<in> set es. EDocID en \<noteq> d \<and> retractMax d es = \<lparr>AbsAt = At en, AbsDocID = EDocID en\<rparr> \<and> 0 < sint (At en))) \<and>
   0 \<le> sint (AbsAt (retractMax d es)) \<and>
   (\<forall>en \<in> set es. EDocID en \<noteq> d \<longrightarrow> sint (At en) \<le> sint (AbsAt (retractMax d es)))"
proof (induction es rule: rev_induct)
  case Nil
  then show ?case by (simp add: retractMax_def)
next
  case (snoc en es)
  then show ?case by (auto simp: retractMax_snoc)
qed

lemma retractMax_utf8: "\<forall>en \<in> set es. utf8_ok (EDocID en) \<Longrightarrow> utf8_ok (AbsDocID (retractMax d es))"
  using retractMax_spec [of d es] by auto

context ext_laws
begin

lemma absenceLookup_result:
  assumes "absence_ok X tx e"
  shows "absenceLookup X e item ty tx =
    Inr (case cell_of X tx e (absenceCellKey item ty) of None \<Rightarrow> (0, False) | Some c \<Rightarrow> (AbsAt c, True))"
proof (cases "bucket_get X tx (absenceBucketName e) (absenceCellKey item ty)")
  case None
  then show ?thesis by (simp add: absenceLookup_def cell_of_def Let_def)
next
  case (Some raw)
  with assms obtain c where "dec_abs X raw = Some c" by (auto simp: absence_ok_def)
  with Some get_has [OF Some] show ?thesis by (simp add: absenceLookup_def cell_of_def Let_def)
qed

lemma absence_put:
  assumes p: "bucket_put X (absenceBucketName e) k (enc_abs X c) tx = Inr tx'" and u: "utf8_ok (AbsDocID c)"
  shows "cell_of X tx' e j = (if j = k then Some c else cell_of X tx e j)"
    "absence_ok X tx e \<Longrightarrow> absence_ok X tx' e"
  using abs_roundtrip [OF u] by (auto simp: cell_of_def absence_ok_def put_get [OF p])

lemma absenceRecord_effect:
  assumes run: "absenceRecord X e item ty d at tx = Inr tx'" and ok: "absence_ok X tx e" and u: "utf8_ok d"
  shows "absence_ok X tx' e"
    "cell_of X tx' e k =
      (if k = absenceCellKey item ty then Some (cell_record d at (cell_of X tx e k)) else cell_of X tx e k)"
proof -
  let ?b = "absenceBucketName e" and ?k = "absenceCellKey item ty" and ?n = "\<lparr>AbsAt = at, AbsDocID = d\<rparr>"
  from run obtain t where c: "create_bucket X ?b tx = Inr t"
    and rest: "(case bucket_get X t ?b ?k of
           Some raw \<Rightarrow>
             (case dec_abs X raw of
                None \<Rightarrow> Inl (NewErr ''absence: decode'')
              | Some cur \<Rightarrow>
                  if sint at \<le> sint (AbsAt cur) \<and> AbsDocID cur \<noteq> d then Inr t
                  else liftB (bucket_put X ?b ?k (enc_abs X ?n) t))
         | None \<Rightarrow> liftB (bucket_put X ?b ?k (enc_abs X ?n) t)) = Inr tx'"
    by (auto simp: absenceRecord_def Let_def result_simps)
  have t: "cell_of X t e = cell_of X tx e" "absence_ok X t e"
    using ok by (simp_all add: cell_of_def absence_ok_def create_get [OF c] fun_eq_iff)
  have "(tx' = t \<and> (\<exists>cur. cell_of X t e ?k = Some cur \<and> sint at \<le> sint (AbsAt cur) \<and> AbsDocID cur \<noteq> d)) \<or>
    (bucket_put X ?b ?k (enc_abs X ?n) t = Inr tx' \<and>
      \<not> (\<exists>cur. cell_of X t e ?k = Some cur \<and> sint at \<le> sint (AbsAt cur) \<and> AbsDocID cur \<noteq> d))"
    using rest by (auto simp: cell_of_def result_simps split: option.splits if_splits)
  then have "absence_ok X tx' e \<and> cell_of X tx' e k =
      (if k = ?k then Some (cell_record d at (cell_of X tx e k)) else cell_of X tx e k)"
  proof (elim disjE conjE)
    assume "tx' = t" and ex: "\<exists>cur. cell_of X t e ?k = Some cur \<and> sint at \<le> sint (AbsAt cur) \<and> AbsDocID cur \<noteq> d"
    with t show ?thesis by (auto simp: cell_record_def)
  next
    assume p: "bucket_put X ?b ?k (enc_abs X ?n) t = Inr tx'"
      and "\<not> (\<exists>cur. cell_of X t e ?k = Some cur \<and> sint at \<le> sint (AbsAt cur) \<and> AbsDocID cur \<noteq> d)"
    with absence_put [OF p] t u show ?thesis
      by (auto simp: cell_record_def split: option.splits)
  qed
  then show "absence_ok X tx' e"
    "cell_of X tx' e k = (if k = ?k then Some (cell_record d at (cell_of X tx e k)) else cell_of X tx e k)" by auto
qed

lemma absenceRetract_effect:
  assumes run: "absenceRetract X e item ty d tx = Inr tx'" and ok: "absence_ok X tx e"
    and log: "temporal_ok X tx e"
  shows "absence_ok X tx' e"
    "cell_of X tx' e k =
      (if k = absenceCellKey item ty
       then cell_retract d (filter (\<lambda>en. EType en = ty) (log_of X tx e item)) (cell_of X tx e k)
       else cell_of X tx e k)"
proof -
  let ?b = "absenceBucketName e" and ?k = "absenceCellKey item ty"
  let ?es = "filter (\<lambda>en. EType en = ty) (log_of X tx e item)"
  have es: "temporalRead X e item [ty] tx = Inr ?es"
    by (simp add: temporalRead_def loadTemporal_succeeds [OF log])
  have u: "utf8_ok (AbsDocID (retractMax d ?es))"
    using log by (intro retractMax_utf8) (auto simp: temporal_ok_def entry_ok_def)
  have "absence_ok X tx' e \<and> cell_of X tx' e k =
      (if k = ?k then cell_retract d ?es (cell_of X tx e k) else cell_of X tx e k)"
  proof (cases "bucket_get X tx ?b ?k")
    case None
    with run have "tx' = tx" by (auto simp: absenceRetract_def Let_def split: if_splits)
    with None ok show ?thesis by (simp add: cell_of_def cell_retract_def)
  next
    case (Some raw)
    with ok obtain cur where "dec_abs X raw = Some cur" by (auto simp: absence_ok_def)
    with Some have cur: "dec_abs X raw = Some cur" "cell_of X tx e ?k = Some cur" by (simp_all add: cell_of_def)
    show ?thesis
    proof (cases "AbsDocID cur = d")
      case False
      with run Some get_has [OF Some] cur have "tx' = tx" by (simp add: absenceRetract_def Let_def)
      with False ok cur show ?thesis by (auto simp: cell_retract_def)
    next
      case True
      with run Some get_has [OF Some] cur es
      have "(if AbsAt (retractMax d ?es) = 0 then liftB (bucket_delete X ?b ?k tx)
             else liftB (bucket_put X ?b ?k (enc_abs X (retractMax d ?es)) tx)) = Inr tx'"
        by (simp add: absenceRetract_def Let_def)
      then consider (del) "AbsAt (retractMax d ?es) = 0" "bucket_delete X ?b ?k tx = Inr tx'"
        | (put) "AbsAt (retractMax d ?es) \<noteq> 0" "bucket_put X ?b ?k (enc_abs X (retractMax d ?es)) tx = Inr tx'"
        by (auto simp: result_simps split: if_splits)
      then show ?thesis
      proof cases
        case del
        with True ok cur show ?thesis
          by (auto simp: cell_of_def absence_ok_def del_get [OF del(2)] cell_retract_def)
      next
        case put
        with absence_put [OF put(2) u] True ok cur show ?thesis by (auto simp: cell_retract_def)
      qed
    qed
  qed
  then show "absence_ok X tx' e"
    "cell_of X tx' e k = (if k = ?k then cell_retract d ?es (cell_of X tx e k) else cell_of X tx e k)" by auto
qed

lemma absenceRecord_frame:
  assumes "absenceRecord X e item ty d at tx = Inr tx'"
  shows "frame X {absenceBucketName e} tx tx'"
proof -
  from assms obtain t where c: "create_bucket X (absenceBucketName e) tx = Inr t"
    and "(case bucket_get X t (absenceBucketName e) (absenceCellKey item ty) of
           Some raw \<Rightarrow>
             (case dec_abs X raw of
                None \<Rightarrow> Inl (NewErr ''absence: decode'')
              | Some cur \<Rightarrow>
                  if sint at \<le> sint (AbsAt cur) \<and> AbsDocID cur \<noteq> d then Inr t
                  else liftB (bucket_put X (absenceBucketName e) (absenceCellKey item ty)
                         (enc_abs X \<lparr>AbsAt = at, AbsDocID = d\<rparr>) t))
         | None \<Rightarrow> liftB (bucket_put X (absenceBucketName e) (absenceCellKey item ty)
                         (enc_abs X \<lparr>AbsAt = at, AbsDocID = d\<rparr>) t)) = Inr tx'"
    by (auto simp: absenceRecord_def Let_def result_simps)
  then have "frame X {absenceBucketName e} t tx'"
    by (auto simp: result_simps split: option.splits if_splits intro: frame_put)
  with frame_create [OF c] show ?thesis by (blast intro: frame_trans)
qed

lemma absenceRetract_frame:
  "absenceRetract X e item ty d tx = Inr tx' \<Longrightarrow> frame X {absenceBucketName e} tx tx'"
  by (auto simp: absenceRetract_def Let_def result_simps split: option.splits if_splits
      intro: frame_del frame_put)

lemma updateAbsenceIndex_frame:
  "updateAbsenceIndex X e d old new tx = Inr tx' \<Longrightarrow> frame X {absenceBucketName e} tx tx'"
  by (auto simp: updateAbsenceIndex_def result_simps split: if_splits option.splits
      intro: absenceRecord_frame absenceRetract_frame frame_trans)

lemma updateAbsenceIndex_ok:
  assumes "updateAbsenceIndex X e d old new tx = Inr tx'" "absence_ok X tx e" "temporal_ok X tx e" "utf8_ok d"
  shows "absence_ok X tx' e"
  using assms
  by (auto simp: updateAbsenceIndex_def result_simps split: if_splits option.splits
      intro: absenceRecord_effect(1) absenceRetract_effect(1))

end

text \<open>Recording the events of distinct documents one after the other leaves, in each cell, the
  latest time of the cell's events.\<close>

lemma cell_record_max:
  assumes "distinct (map fst evs)" "evs \<noteq> []"
    and "foldl (\<lambda>c (d, at). Some (cell_record d at c)) None evs = Some c"
  shows "(AbsDocID c, AbsAt c) \<in> set evs \<and> (\<forall>(d, at) \<in> set evs. sint at \<le> sint (AbsAt c))"
  using assms
proof (induction evs arbitrary: c rule: rev_induct)
  case (snoc ev evs)
  obtain d at where ev: "ev = (d, at)" by (cases ev)
  show ?case
  proof (cases "evs = []")
    case True
    with snoc.prems ev show ?thesis by (auto simp: cell_record_def)
  next
    case False
    then obtain c0 where c0: "foldl (\<lambda>c (d, at). Some (cell_record d at c)) None evs = Some c0"
      by (cases evs rule: rev_cases) auto
    have ih: "(AbsDocID c0, AbsAt c0) \<in> set evs" "\<forall>(d, at) \<in> set evs. sint at \<le> sint (AbsAt c0)"
      using snoc.IH [OF _ False c0] snoc.prems(1) by auto
    have "AbsDocID c0 \<noteq> d" using ih(1) snoc.prems(1) ev by force
    with snoc.prems(3) c0 ev ih show ?thesis
      by (auto simp: cell_record_def split: if_splits)
  qed
qed simp

end
