(* ===== verification/Indexhooks.thy ===== *)
theory Indexhooks
  imports Idmap Invindex Numidx Temporal Groupby Closure Stats Absence
begin

text \<open>
  \<^verbatim>\<open>indexDocOnPut\<close> and \<^verbatim>\<open>indexDocOnDelete\<close> of \<^verbatim>\<open>bboltstore/indexhooks.go\<close>: one write drives every
  secondary index. The theory states the invariant that ties the indexes of an entity to the
  documents stored for it, and shows that both hooks keep it and touch no bucket of another
  kind or of another entity.
\<close>

section \<open>Definitions\<close>

definition indexDocOnPut ::
  "('tx, 'v, 'bm) ext \<Rightarrow> string \<Rightarrow> string \<Rightarrow> bytes \<Rightarrow> bytes \<Rightarrow> 'tx \<Rightarrow> 'tx result" where
  "indexDocOnPut X entityID docID oldDoc newDoc tx =
     bindR (wrapR ''indexhook: idmap assign'' (idmapAssign X entityID docID tx)) (\<lambda>(internalID, tx).
     bindR (wrapR ''indexhook: extract old'' (extractTerms X oldDoc)) (\<lambda>oldTerms.
     bindR (wrapR ''indexhook: extract new'' (extractTerms X newDoc)) (\<lambda>newTerms.
     bindR (wrapR ''indexhook: inverted''
       (updateInvertedIndex X entityID internalID (Terms oldTerms) (Terms newTerms) tx)) (\<lambda>tx.
     bindR (wrapR ''indexhook: numeric''
       (updateNumericIndex X entityID internalID (Numerics oldTerms) (Numerics newTerms) tx)) (\<lambda>tx.
     bindR (wrapR ''indexhook: temporal'' (updateTemporalIndex X entityID docID oldDoc newDoc tx)) (\<lambda>tx.
     bindR (wrapR ''indexhook: groupby'' (updateGroupByIndex X entityID internalID oldDoc newDoc tx)) (\<lambda>tx.
     bindR (wrapR ''indexhook: closure''
       (updateClosureIndex X entityID docID internalID oldDoc newDoc tx)) (\<lambda>tx.
     bindR (wrapR ''indexhook: stats''
       (updateStatsIndex X entityID (Numerics oldTerms) (Numerics newTerms) tx)) (\<lambda>tx.
     wrapR ''indexhook: absence'' (updateAbsenceIndex X entityID docID oldDoc newDoc tx))))))))))"

definition indexDocOnDelete ::
  "('tx, 'v, 'bm) ext \<Rightarrow> string \<Rightarrow> string \<Rightarrow> bytes \<Rightarrow> 'tx \<Rightarrow> 'tx result" where
  "indexDocOnDelete X entityID docID oldDoc tx =
     bindR (wrapR ''indexhook: idmap lookup'' (idmapLookup X entityID docID tx)) (\<lambda>found.
     case found of
       None \<Rightarrow> Inr tx
     | Some internalID \<Rightarrow>
         bindR (wrapR ''indexhook: extract'' (extractTerms X oldDoc)) (\<lambda>terms.
         bindR (wrapR ''indexhook: inverted''
           (updateInvertedIndex X entityID internalID (Terms terms) [] tx)) (\<lambda>tx.
         bindR (wrapR ''indexhook: numeric''
           (updateNumericIndex X entityID internalID (Numerics terms) [] tx)) (\<lambda>tx.
         bindR (wrapR ''indexhook: temporal'' (updateTemporalIndex X entityID docID oldDoc [] tx)) (\<lambda>tx.
         bindR (wrapR ''indexhook: groupby'' (updateGroupByIndex X entityID internalID oldDoc [] tx)) (\<lambda>tx.
         bindR (wrapR ''indexhook: closure''
           (updateClosureIndex X entityID docID internalID oldDoc [] tx)) (\<lambda>tx.
         bindR (wrapR ''indexhook: stats''
           (updateStatsIndex X entityID (Numerics terms) [] tx)) (\<lambda>tx.
         wrapR ''indexhook: absence'' (updateAbsenceIndex X entityID docID oldDoc [] tx)))))))))"

section \<open>Bucket names\<close>

definition index_names :: "string \<Rightarrow> string set" where
  "index_names e =
     idmap_names e \<union> {invIndexBucketName e} \<union> num_names e \<union> temporal_names e \<union>
     {groupByBucketName e} \<union> closure_names e \<union> {statsBucketName e} \<union> {absenceBucketName e}"

text \<open>The entity a bucket belongs to: the second segment of its name, the third one for the
  closure table.\<close>

fun after_colon :: "string \<Rightarrow> string" where
  "after_colon [] = []"
| "after_colon (c # s) = (if c = CHR '':'' then s else after_colon s)"

definition entity_of :: "string \<Rightarrow> string" where
  "entity_of n =
     takeWhile (\<lambda>c. c \<noteq> CHR '':'')
       (if prefix ''clo:'' n then after_colon (after_colon n) else after_colon n)"

lemma takeWhile_no_colon:
  "no_colon e \<Longrightarrow> takeWhile (\<lambda>c. c \<noteq> CHR '':'') e = e"
  "no_colon e \<Longrightarrow> takeWhile (\<lambda>c. c \<noteq> CHR '':'') (e @ CHR '':'' # r) = e"
  by (auto simp: no_colon_def takeWhile_append)

lemma entity_of_names [simp]:
  assumes "no_colon e"
  shows "entity_of (idmapFwdName e) = e" "entity_of (idmapRevName e) = e" "entity_of (idmapMetaName e) = e"
    "entity_of (invIndexBucketName e) = e" "entity_of (numIndexBucketName e a) = e"
    "entity_of (temporalBucketName e a) = e" "entity_of (groupByBucketName e) = e"
    "entity_of (closureAscBucket e) = e" "entity_of (closureDescBucket e) = e"
    "entity_of (statsBucketName e) = e" "entity_of (absenceBucketName e) = e"
  by (simp_all add: entity_of_def takeWhile_no_colon [OF assms] idmapFwdName_def idmapRevName_def
      idmapMetaName_def invIndexBucketName_def numIndexBucketName_def temporalBucketName_def
      groupByBucketName_def closureAscBucket_def closureDescBucket_def statsBucketName_def
      absenceBucketName_def)

lemma entity_of_index_names:
  assumes "no_colon e" "n \<in> index_names e"
  shows "entity_of n = e"
proof -
  from assms(2) consider "n \<in> {idmapFwdName e, idmapRevName e, idmapMetaName e, invIndexBucketName e,
      groupByBucketName e, closureAscBucket e, closureDescBucket e, statsBucketName e, absenceBucketName e}"
    | a where "n = numIndexBucketName e a" | a where "n = temporalBucketName e a"
    unfolding index_names_def idmap_names_def num_names_def temporal_names_def closure_names_def by blast
  then show ?thesis using assms(1) by cases auto
qed

lemmas bucket_name_defs =
  idmap_names_def num_names_def temporal_names_def closure_names_def
  idmapFwdName_def idmapRevName_def idmapMetaName_def invIndexBucketName_def numIndexBucketName_def
  temporalBucketName_def groupByBucketName_def closureAscBucket_def closureDescBucket_def
  statsBucketName_def absenceBucketName_def

text \<open>Indexes of one entity live in different buckets.\<close>

lemma index_names_disjoint [simp]:
  "idmap_names e \<inter> {invIndexBucketName e} = {}" "idmap_names e \<inter> num_names e = {}"
  "idmap_names e \<inter> temporal_names e = {}" "idmap_names e \<inter> {groupByBucketName e} = {}"
  "idmap_names e \<inter> closure_names e = {}" "idmap_names e \<inter> {statsBucketName e} = {}"
  "idmap_names e \<inter> {absenceBucketName e} = {}"
  "{invIndexBucketName e} \<inter> num_names e = {}" "{invIndexBucketName e} \<inter> temporal_names e = {}"
  "{invIndexBucketName e} \<inter> {groupByBucketName e} = {}" "{invIndexBucketName e} \<inter> closure_names e = {}"
  "{invIndexBucketName e} \<inter> {statsBucketName e} = {}" "{invIndexBucketName e} \<inter> {absenceBucketName e} = {}"
  "num_names e \<inter> temporal_names e = {}" "num_names e \<inter> {groupByBucketName e} = {}"
  "num_names e \<inter> closure_names e = {}" "num_names e \<inter> {statsBucketName e} = {}"
  "num_names e \<inter> {absenceBucketName e} = {}"
  "temporal_names e \<inter> {groupByBucketName e} = {}" "temporal_names e \<inter> closure_names e = {}"
  "temporal_names e \<inter> {statsBucketName e} = {}" "temporal_names e \<inter> {absenceBucketName e} = {}"
  "{groupByBucketName e} \<inter> closure_names e = {}" "{groupByBucketName e} \<inter> {statsBucketName e} = {}"
  "{groupByBucketName e} \<inter> {absenceBucketName e} = {}"
  "closure_names e \<inter> {statsBucketName e} = {}" "closure_names e \<inter> {absenceBucketName e} = {}"
  "{statsBucketName e} \<inter> {absenceBucketName e} = {}"
  unfolding bucket_name_defs by auto

lemmas index_names_disjoint' [simp] = index_names_disjoint [THEN trans [OF Int_commute]]

section \<open>The invariant\<close>

text \<open>How the indexes of the entity agree with the documents: \<open>D\<close> gives the contents of each
  document id, empty when none is stored. The inverted, numeric, temporal and group indexes have
  exactly the entries that the documents determine, and a running aggregate is marked stale or counts
  exactly the documents. Two indexes depend on the order of the writes and are tied less closely: a
  stored chain starts with the parent its document names, with the descendant bitmaps as the inverse
  of all chains, but its tail may be older than the documents; and the cells of the last-seen cache
  decode, but may name an event that an overwrite has moved away. While a write is on its
  way the indexes it has not reached yet still show the old documents, so each index has a \<open>D\<close> of
  its own here.\<close>

definition index_inv ::
  "('tx, 'v, 'bm) ext \<Rightarrow> 'tx \<Rightarrow> string \<Rightarrow> (string \<Rightarrow> bytes) \<Rightarrow> (string \<Rightarrow> bytes) \<Rightarrow> (string \<Rightarrow> bytes) \<Rightarrow>
     (string \<Rightarrow> bytes) \<Rightarrow> (string \<Rightarrow> bytes) \<Rightarrow> (string \<Rightarrow> bytes) \<Rightarrow> bool" where
  "index_inv X tx e Dinv Dnum Dtmp Dgrp Dclo Dsta \<longleftrightarrow>
     idmap_ok X tx e \<and>
     (bm_wf X tx (invIndexBucketName e) \<and> exact_index (postings X tx e) (doc_terms X) (id_of X tx e) Dinv) \<and>
     (num_wf X tx e \<and> exact_index (num_members X tx e) (num_keys X) (id_of X tx e) Dnum) \<and>
     (temporal_ok X tx e \<and> log_exact X tx e Dtmp) \<and>
     (group_ok X tx e \<and> exact_index (group_members X tx e) (group_keys X) (id_of X tx e) Dgrp) \<and>
     (closure_ok X tx e \<and> closure_exact X tx e (id_of X tx e) \<and>
       (\<forall>d. map_option hd (chain_of X tx e d) = closureParent X (Dclo d))) \<and>
     (stats_ok X tx e \<and> stats_exact X tx e Dsta) \<and>
     absence_ok X tx e"

definition index_ok :: "('tx, 'v, 'bm) ext \<Rightarrow> 'tx \<Rightarrow> string \<Rightarrow> (string \<Rightarrow> bytes) \<Rightarrow> bool" where
  "index_ok X tx e D \<longleftrightarrow> index_inv X tx e D D D D D D \<and> (\<forall>d. D d \<noteq> [] \<longrightarrow> id_of X tx e d \<noteq> None)"

lemma idmap_ok_inj: "idmap_ok X tx e \<Longrightarrow> inj_ids (id_of X tx e)"
  unfolding inj_ids_def using idmap_okD(3) by (metis option.inject)

context ext_laws
begin

text \<open>The views of one index do not see the buckets of another.\<close>

lemma frame_views:
  assumes "frame X N tx tx'"
  shows "idmap_names e \<inter> N = {} \<Longrightarrow> id_of X tx' e = id_of X tx e \<and> idmap_ok X tx' e = idmap_ok X tx e"
    "{invIndexBucketName e} \<inter> N = {} \<Longrightarrow> postings X tx' e = postings X tx e \<and>
      bm_wf X tx' (invIndexBucketName e) = bm_wf X tx (invIndexBucketName e)"
    "num_names e \<inter> N = {} \<Longrightarrow> num_members X tx' e = num_members X tx e \<and> num_wf X tx' e = num_wf X tx e"
    "temporal_names e \<inter> N = {} \<Longrightarrow> log_of X tx' e = log_of X tx e \<and> temporal_ok X tx' e = temporal_ok X tx e"
    "{groupByBucketName e} \<inter> N = {} \<Longrightarrow> group_members X tx' e = group_members X tx e \<and> group_ok X tx' e = group_ok X tx e"
    "closure_names e \<inter> N = {} \<Longrightarrow> chain_of X tx' e = chain_of X tx e \<and> below X tx' e = below X tx e \<and>
      closure_ok X tx' e = closure_ok X tx e"
    "{statsBucketName e} \<inter> N = {} \<Longrightarrow> stats_of X tx' e = stats_of X tx e \<and> stats_ok X tx' e = stats_ok X tx e"
    "{absenceBucketName e} \<inter> N = {} \<Longrightarrow> absence_ok X tx' e = absence_ok X tx e"
  using frame_idmap_views [OF assms, of e] inverted.frame_view [OF assms, of e] numeric.frame_view [OF assms, of e]
    frame_temporal_views [OF assms, of e] groups.frame_view [OF assms, of e] frame_closure_views [OF assms, of e]
    frame_stats_views [OF assms, of e] frame_absence_views [OF assms, of e]
  by simp_all

lemma index_inv_frame:
  assumes "frame X N tx tx'" "index_names e \<inter> N = {}"
  shows "index_inv X tx' e = index_inv X tx e" "id_of X tx' e = id_of X tx e"
    "index_ok X tx' e = index_ok X tx e" "absence_ok X tx' e = absence_ok X tx e"
proof -
  have n: "idmap_names e \<inter> N = {}" "{invIndexBucketName e} \<inter> N = {}" "num_names e \<inter> N = {}"
    "temporal_names e \<inter> N = {}" "{groupByBucketName e} \<inter> N = {}" "closure_names e \<inter> N = {}"
    "{statsBucketName e} \<inter> N = {}" "{absenceBucketName e} \<inter> N = {}"
    using assms(2) unfolding index_names_def by auto
  note v = frame_views(1) [OF assms(1) n(1)] frame_views(2) [OF assms(1) n(2)] frame_views(3) [OF assms(1) n(3)]
    frame_views(4) [OF assms(1) n(4)] frame_views(5) [OF assms(1) n(5)] frame_views(6) [OF assms(1) n(6)]
    frame_views(7) [OF assms(1) n(7)] frame_views(8) [OF assms(1) n(8)]
  show i: "index_inv X tx' e = index_inv X tx e"
    by (simp add: fun_eq_iff index_inv_def v log_exact_def closure_exact_def stats_exact_def)
  show "id_of X tx' e = id_of X tx e" "absence_ok X tx' e = absence_ok X tx e" using v by auto
  then show "index_ok X tx' e = index_ok X tx e" by (simp add: fun_eq_iff index_ok_def i)
qed

text \<open>One step of the hooks at a time: the step's own index moves to the new documents, the
  other indexes stay.\<close>

lemma inj_of: "index_inv X tx e A B C F G H \<Longrightarrow> inj_ids (id_of X tx e)"
  by (simp add: index_inv_def idmap_ok_inj)

lemma step_inverted:
  assumes run: "hookInverted X e i (A d) new tx = Inr tx'" and inv: "index_inv X tx e A B C F G H"
    and id: "id_of X tx e d = Some i"
  shows "index_inv X tx' e (A(d := new)) B C F G H" "id_of X tx' e d = Some i"
proof -
  note f = inverted.update_frame [OF run]
  have "bm_wf X tx' (invIndexBucketName e) \<and>
      exact_index (postings X tx' e) (doc_terms X) (id_of X tx e) (A(d := new))"
    using inv by (intro inverted.update_exact [where D = A and d = d, OF run _ id inj_of [OF inv]]) (simp add: index_inv_def)
  with inv show "index_inv X tx' e (A(d := new)) B C F G H"
    by (simp add: index_inv_def frame_views [OF f] log_exact_def closure_exact_def stats_exact_def)
  show "id_of X tx' e d = Some i" using id by (simp add: frame_views [OF f])
qed

lemma step_numeric:
  assumes run: "hookNumeric X e i (B d) new tx = Inr tx'" and inv: "index_inv X tx e A B C F G H"
    and id: "id_of X tx e d = Some i"
  shows "index_inv X tx' e A (B(d := new)) C F G H" "id_of X tx' e d = Some i"
proof -
  note f = numeric.update_frame [OF run]
  have "num_wf X tx' e \<and> exact_index (num_members X tx' e) (num_keys X) (id_of X tx e) (B(d := new))"
    using inv by (intro numeric.update_exact [where D = B and d = d, OF run _ id inj_of [OF inv]]) (simp add: index_inv_def)
  with inv show "index_inv X tx' e A (B(d := new)) C F G H"
    by (simp add: index_inv_def frame_views [OF f] log_exact_def closure_exact_def stats_exact_def)
  show "id_of X tx' e d = Some i" using id by (simp add: frame_views [OF f])
qed

lemma step_temporal:
  assumes run: "updateTemporalIndex X e d (C d) new tx = Inr tx'" and inv: "index_inv X tx e A B C F G H"
    and id: "id_of X tx e d = Some i" and u: "utf8_ok d"
  shows "index_inv X tx' e A B (C(d := new)) F G H" "id_of X tx' e d = Some i"
proof -
  note f = updateTemporalIndex_frame [OF run]
  have "temporal_ok X tx' e \<and> log_exact X tx' e (C(d := new))"
    using inv updateTemporalIndex_effect(1) [OF run _ u] updateTemporalIndex_exact [where D = C and d = d, OF run _ u]
    by (simp add: index_inv_def)
  with inv show "index_inv X tx' e A B (C(d := new)) F G H"
    by (simp add: index_inv_def frame_views [OF f] closure_exact_def stats_exact_def)
  show "id_of X tx' e d = Some i" using id by (simp add: frame_views [OF f])
qed

lemma step_groupby:
  assumes run: "updateGroupByIndex X e i (F d) new tx = Inr tx'" and inv: "index_inv X tx e A B C F G H"
    and id: "id_of X tx e d = Some i"
  shows "index_inv X tx' e A B C (F(d := new)) G H" "id_of X tx' e d = Some i"
proof -
  note f = groups.update_frame [OF run]
  have "group_ok X tx' e \<and> exact_index (group_members X tx' e) (group_keys X) (id_of X tx e) (F(d := new))"
    using inv by (intro groups.update_exact [where D = F and d = d, OF run _ id inj_of [OF inv]]) (simp add: index_inv_def)
  with inv show "index_inv X tx' e A B C (F(d := new)) G H"
    by (simp add: index_inv_def frame_views [OF f] log_exact_def closure_exact_def stats_exact_def)
  show "id_of X tx' e d = Some i" using id by (simp add: frame_views [OF f])
qed

lemma step_closure:
  assumes run: "updateClosureIndex X e d i (G d) new tx = Inr tx'" and inv: "index_inv X tx e A B C F G H"
    and id: "id_of X tx e d = Some i"
  shows "index_inv X tx' e A B C F (G(d := new)) H" "id_of X tx' e d = Some i"
proof -
  note f = updateClosureIndex_frame [OF run]
  have ok: "closure_ok X tx e" and ex: "closure_exact X tx e (id_of X tx e)"
    and par: "\<And>x. map_option hd (chain_of X tx e x) = closureParent X (G x)"
    using inv by (simp_all add: index_inv_def)
  have has: "chain_of X tx e d \<noteq> None \<longleftrightarrow> closureParent X (G d) \<noteq> None"
    using par [of d] by (metis option.map_disc_iff)
  note eff = updateClosureIndex_effect [OF run ok ex id inj_idsD [OF inj_of [OF inv]] has]
  have "map_option hd (chain_of X tx' e x) = closureParent X ((G(d := new)) x)" for x
    using par [of x] by (cases "closureParent X new") (simp_all add: eff(3) chain_via_def)
  with inv eff(1,2) show "index_inv X tx' e A B C F (G(d := new)) H"
    by (simp add: index_inv_def frame_views [OF f] log_exact_def stats_exact_def)
  show "id_of X tx' e d = Some i" using id by (simp add: frame_views [OF f])
qed

lemma step_stats:
  assumes run: "updateStatsIndex X e (doc_numerics X (H d)) (doc_numerics X new) tx = Inr tx'"
    and inv: "index_inv X tx e A B C F G H"
  shows "index_inv X tx' e A B C F G (H(d := new))" "id_of X tx' e = id_of X tx e"
proof -
  note f = updateStatsIndex_frame [OF run]
  have fin: "\<forall>n \<in> set (doc_numerics X new). f64_finite (Value n)" using doc_numerics_finite by blast
  have "stats_ok X tx' e \<and> stats_exact X tx' e (H(d := new))"
    using inv updateStatsIndex_effect(1) [OF run] updateStatsIndex_exact [where D = H and d = d, OF run] fin
    by (simp add: index_inv_def)
  with inv show "index_inv X tx' e A B C F G (H(d := new))"
    by (simp add: index_inv_def frame_views [OF f] log_exact_def closure_exact_def)
  show "id_of X tx' e = id_of X tx e" by (simp add: frame_views [OF f])
qed

lemma step_absence:
  assumes run: "updateAbsenceIndex X e d old new tx = Inr tx'"
    and inv: "index_inv X tx e A B C F G H" and u: "utf8_ok d"
  shows "index_inv X tx' e A B C F G H" "id_of X tx' e = id_of X tx e"
proof -
  note f = updateAbsenceIndex_frame [OF run]
  have "absence_ok X tx' e"
    using inv updateAbsenceIndex_ok [OF run _ _ u] by (simp add: index_inv_def)
  with inv show "index_inv X tx' e A B C F G H"
    by (simp add: index_inv_def frame_views [OF f] log_exact_def closure_exact_def stats_exact_def)
  show "id_of X tx' e = id_of X tx e" by (simp add: frame_views [OF f])
qed

lemma step_assign:
  assumes run: "idmapAssign X e d tx = Inr (i, tx')" and ok: "index_ok X tx e D"
  shows "index_inv X tx' e D D D D D D" "id_of X tx' e d = Some i"
    "\<forall>x. D x \<noteq> [] \<longrightarrow> id_of X tx' e x \<noteq> None"
proof -
  note f = idmapAssign_frame [OF run]
  have inv: "index_inv X tx e D D D D D D" and all: "\<forall>x. D x \<noteq> [] \<longrightarrow> id_of X tx e x \<noteq> None"
    using ok by (simp_all add: index_ok_def)
  have idm: "idmap_ok X tx e" using inv by (simp add: index_inv_def)
  have ids: "id_of X tx' e = (\<lambda>x. if x = d then Some i else id_of X tx e x)"
    by (rule ext) (rule idmapAssign_id_of [OF run])
  have old: "id_of X tx e d = None \<or> id_of X tx e d = Some i"
    using run by (cases rule: idmapAssign_cases) auto
  have nodoc: "id_of X tx e d = None \<longrightarrow> D d = []" using all by blast
  have post: "exact_index (postings X tx' e) (doc_terms X) (id_of X tx' e) D"
    and num: "exact_index (num_members X tx' e) (num_keys X) (id_of X tx' e) D"
    and grp: "exact_index (group_members X tx' e) (group_keys X) (id_of X tx' e) D"
    using inverted.assign_exact [where ids = "id_of X tx e" and d = d and D = D, OF _ old nodoc] numeric.assign_exact [where ids = "id_of X tx e" and d = d and D = D, OF _ old nodoc]
      groups.assign_exact [where ids = "id_of X tx e" and d = d and D = D, OF _ old nodoc] inv
    by (simp_all add: ids frame_views [OF f] index_inv_def)
  have nochain: "chain_of X tx e d = None" if "id_of X tx e d = None"
  proof -
    have "closureParent X (D d) = None" using nodoc that by (simp add: closureParent_def)
    with inv show ?thesis by (simp add: index_inv_def) (metis option.map_disc_iff)
  qed
  have "closure_exact X tx' e (id_of X tx' e)"
    unfolding closure_exact_def
  proof (intro allI)
    fix a j
    have "(\<exists>x c. id_of X tx' e x = Some j \<and> chain_of X tx e x = Some c \<and> a \<in> set c) \<longleftrightarrow>
        (\<exists>x c. id_of X tx e x = Some j \<and> chain_of X tx e x = Some c \<and> a \<in> set c)"
      using old nochain by (metis ids option.distinct(1))
    with inv show "j \<in> below X tx' e a \<longleftrightarrow>
        (\<exists>x c. id_of X tx' e x = Some j \<and> chain_of X tx' e x = Some c \<and> a \<in> set c)"
      by (simp add: index_inv_def closure_exact_def frame_views [OF f])
  qed
  with inv idmapAssign_ok [OF idm run] post num grp show "index_inv X tx' e D D D D D D"
    by (simp add: index_inv_def frame_views [OF f] log_exact_def stats_exact_def)
  show "id_of X tx' e d = Some i" by (simp add: ids)
  show "\<forall>x. D x \<noteq> [] \<longrightarrow> id_of X tx' e x \<noteq> None" using all by (simp add: ids)
qed

text \<open>The steps after the id is known, shared by both hooks.\<close>

definition index_steps ::
  "string \<Rightarrow> string \<Rightarrow> u32 \<Rightarrow> bytes \<Rightarrow> bytes \<Rightarrow> 'tx \<Rightarrow> 'tx result" where
  "index_steps e d i old new tx =
     bindR (hookInverted X e i old new tx) (\<lambda>tx.
     bindR (hookNumeric X e i old new tx) (\<lambda>tx.
     bindR (updateTemporalIndex X e d old new tx) (\<lambda>tx.
     bindR (updateGroupByIndex X e i old new tx) (\<lambda>tx.
     bindR (updateClosureIndex X e d i old new tx) (\<lambda>tx.
     bindR (updateStatsIndex X e (doc_numerics X old) (doc_numerics X new) tx) (\<lambda>tx.
     updateAbsenceIndex X e d old new tx))))))"

lemma indexDocOnPut_steps:
  "indexDocOnPut X e d old new tx = Inr tx' \<longleftrightarrow>
    (\<exists>i t. idmapAssign X e d tx = Inr (i, t) \<and> index_steps e d i old new t = Inr tx')"
proof -
  obtain os ns where r: "extractTerms X old = Inr os" "extractTerms X new = Inr ns"
    using extractTerms_total by blast
  then show ?thesis
    by (auto simp: indexDocOnPut_def index_steps_def hookInverted_def hookNumeric_def result_simps
        extractTerms_ok(3) [OF r(1)] extractTerms_ok(3) [OF r(2)])
qed

lemma indexDocOnDelete_steps:
  assumes "idmap_ok X tx e"
  shows "indexDocOnDelete X e d old tx = Inr tx' \<longleftrightarrow>
    (case id_of X tx e d of None \<Rightarrow> tx' = tx | Some i \<Rightarrow> index_steps e d i old [] tx = Inr tx')"
proof -
  obtain os where r: "extractTerms X old = Inr os" using extractTerms_total by blast
  have e: "extractTerms X [] = Inr emptyResult" by (simp add: extractTerms_def)
  show ?thesis
    by (auto simp: indexDocOnDelete_def index_steps_def hookInverted_def hookNumeric_def result_simps
        r e emptyResult_def doc_numerics_def [of X "[]"] extractTerms_ok(3) [OF r] idmapLookup_ok [OF assms]
        split: option.splits)
qed

lemma index_steps_ok:
  assumes run: "index_steps e d i (D d) new tx = Inr tx'" and inv: "index_inv X tx e D D D D D D"
    and id: "id_of X tx e d = Some i" and u: "utf8_ok d"
  shows "index_inv X tx' e (D(d := new)) (D(d := new)) (D(d := new)) (D(d := new)) (D(d := new)) (D(d := new))"
proof -
  let ?D = "D(d := new)"
  from run obtain t1 t2 t3 t4 t5 t6 where r: "hookInverted X e i (D d) new tx = Inr t1"
    "hookNumeric X e i (D d) new t1 = Inr t2" "updateTemporalIndex X e d (D d) new t2 = Inr t3"
    "updateGroupByIndex X e i (D d) new t3 = Inr t4" "updateClosureIndex X e d i (D d) new t4 = Inr t5"
    "updateStatsIndex X e (doc_numerics X (D d)) (doc_numerics X new) t5 = Inr t6"
    "updateAbsenceIndex X e d (D d) new t6 = Inr tx'"
    by (auto simp: index_steps_def result_simps)
  note s1 = step_inverted [where A = D and d = d, OF r(1) inv id]
  note s2 = step_numeric [where B = D and d = d, OF r(2) s1]
  note s3 = step_temporal [where C = D and d = d, OF r(3) s2 u]
  note s4 = step_groupby [where F = D and d = d, OF r(4) s3]
  note s5 = step_closure [where G = D and d = d, OF r(5) s4]
  note s6 = step_stats [where H = D and d = d, OF r(6) s5(1)]
  show ?thesis by (rule step_absence(1) [OF r(7) s6(1) u])
qed

lemma index_steps_frame:
  assumes "index_steps e d i old new tx = Inr tx'"
  shows "frame X (index_names e - idmap_names e) tx tx'"
proof -
  let ?N = "index_names e - idmap_names e"
  from assms obtain t1 t2 t3 t4 t5 t6 where r: "hookInverted X e i old new tx = Inr t1"
    "hookNumeric X e i old new t1 = Inr t2" "updateTemporalIndex X e d old new t2 = Inr t3"
    "updateGroupByIndex X e i old new t3 = Inr t4" "updateClosureIndex X e d i old new t4 = Inr t5"
    "updateStatsIndex X e (doc_numerics X old) (doc_numerics X new) t5 = Inr t6"
    "updateAbsenceIndex X e d old new t6 = Inr tx'"
    by (auto simp: index_steps_def result_simps)
  have n: "M \<subseteq> ?N" if "M \<subseteq> index_names e" "idmap_names e \<inter> M = {}" for M using that by blast
  have "{invIndexBucketName e} \<subseteq> ?N" "num_names e \<subseteq> ?N" "temporal_names e \<subseteq> ?N"
    "{groupByBucketName e} \<subseteq> ?N" "closure_names e \<subseteq> ?N" "{statsBucketName e} \<subseteq> ?N" "{absenceBucketName e} \<subseteq> ?N"
    by (rule n, simp add: index_names_def subset_iff, simp)+
  then have "frame X ?N tx t1" "frame X ?N t1 t2" "frame X ?N t2 t3" "frame X ?N t3 t4"
    "frame X ?N t4 t5" "frame X ?N t5 t6" "frame X ?N t6 tx'"
    using inverted.update_frame [OF r(1)] numeric.update_frame [OF r(2)] updateTemporalIndex_frame [OF r(3)]
      groups.update_frame [OF r(4)] updateClosureIndex_frame [OF r(5)] updateStatsIndex_frame [OF r(6)]
      updateAbsenceIndex_frame [OF r(7)] by (auto intro: frame_mono)
  then show ?thesis by (meson frame_trans)
qed

theorem indexDocOnPut_ok:
  assumes run: "indexDocOnPut X e d (D d) new tx = Inr tx'" and ok: "index_ok X tx e D" and u: "utf8_ok d"
  shows "index_ok X tx' e (D(d := new))"
proof -
  from run obtain i t where a: "idmapAssign X e d tx = Inr (i, t)"
    and s: "index_steps e d i (D d) new t = Inr tx'"
    by (auto simp: indexDocOnPut_steps)
  note st = step_assign [OF a ok]
  have "index_inv X tx' e (D(d := new)) (D(d := new)) (D(d := new)) (D(d := new)) (D(d := new)) (D(d := new))"
    by (rule index_steps_ok [where D = D and d = d, OF s st(1,2) u])
  moreover have "id_of X tx' e = id_of X t e"
    using frame_idmap_views(1) [OF index_steps_frame [OF s]] by blast
  ultimately show ?thesis using st(2,3) by (simp add: index_ok_def)
qed

theorem indexDocOnDelete_ok:
  assumes run: "indexDocOnDelete X e d (D d) tx = Inr tx'" and ok: "index_ok X tx e D" and u: "utf8_ok d"
  shows "index_ok X tx' e (D(d := []))"
proof (cases "id_of X tx e d")
  case None
  have "idmap_ok X tx e" using ok by (simp add: index_ok_def index_inv_def)
  with run None have "tx' = tx" by (simp add: indexDocOnDelete_steps)
  moreover have "D d = []" using ok None unfolding index_ok_def by (metis option.distinct(1))
  then have "D(d := []) = D" by (simp add: fun_eq_iff)
  ultimately show ?thesis using ok by simp
next
  case (Some i)
  have inv: "index_inv X tx e D D D D D D" and idm: "idmap_ok X tx e"
    using ok by (simp_all add: index_ok_def index_inv_def)
  with run Some have s: "index_steps e d i (D d) [] tx = Inr tx'" by (simp add: indexDocOnDelete_steps)
  have "id_of X tx' e = id_of X tx e"
    using frame_idmap_views(1) [OF index_steps_frame [OF s]] by blast
  with index_steps_ok [where D = D and d = d, OF s inv Some u] ok show ?thesis by (auto simp: index_ok_def)
qed

lemma indexDocOnPut_frame: "indexDocOnPut X e d old new tx = Inr tx' \<Longrightarrow> frame X (index_names e) tx tx'"
  unfolding indexDocOnPut_steps
  using idmapAssign_frame index_steps_frame
  by (smt (verit) Diff_subset frame_mono frame_trans index_names_def le_supI1 sup_ge1)

lemma indexDocOnDelete_frame:
  assumes "indexDocOnDelete X e d old tx = Inr tx'" "idmap_ok X tx e"
  shows "frame X (index_names e) tx tx'"
  using assms frame_mono [OF index_steps_frame Diff_subset]
  by (auto simp: indexDocOnDelete_steps split: option.splits)

text \<open>Reading an aggregate, which may recompute and store it, keeps the invariant and returns
  the aggregate of all documents.\<close>

lemma statsRecompute_ok:
  assumes run: "statsRecompute X e a db = Inr (v, db')" and ok: "index_ok X db e D"
  shows "index_ok X db' e D" "single_valued X a D \<Longrightarrow> counts_all X a D v"
    "frame X {statsBucketName e} db db'"
proof -
  have inv: "index_inv X db e D D D D D D" and all: "\<forall>d. D d \<noteq> [] \<longrightarrow> id_of X db e d \<noteq> None"
    using ok by (simp_all add: index_ok_def)
  have wf: "num_wf X db e" and num: "exact_index (num_members X db e) (num_keys X) (id_of X db e) D"
    and so: "stats_ok X db e" and ex: "stats_exact X db e D"
    using inv by (simp_all add: index_inv_def)
  note r = statsRecompute_result [OF run wf]
  from r(1) obtain vs where vs: "v = welford vs" "mset vs = image_mset fst (mset_set (num_entries X db e a))"
    by blast
  show c: "counts_all X a D v" if "single_valued X a D"
    by (rule recompute_counts_all [OF num inj_of [OF inv] all that vs])
  show f: "frame X {statsBucketName e} db db'" by (rule r(2))
  have "stats_ok X db' e \<and> stats_exact X db' e D"
  proof (cases "has_bucket X db (numIndexBucketName e a)")
    case True
    with run have "statsStore X e a v db = Inr db'"
      by (auto simp: statsRecompute_def Let_def result_simps)
    from statsStore_effect(3) [OF this so] stats_exact_store [OF ex c r(3) [OF True]] show ?thesis by blast
  next
    case False
    with run have "db' = db" by (simp add: statsRecompute_def Let_def)
    with so ex show ?thesis by simp
  qed
  with inv all show "index_ok X db' e D"
    by (simp add: index_ok_def index_inv_def frame_views [OF f] log_exact_def closure_exact_def)
qed

lemma statsRead_ok:
  assumes run: "statsRead X e a db = (r, db')" and ok: "index_ok X db e D"
  shows "index_ok X db' e D" "frame X {statsBucketName e} db db'"
    "r = Inr v \<Longrightarrow> single_valued X a D \<Longrightarrow> counts_all X a D v"
proof -
  have so: "stats_ok X db e" and ex: "stats_exact X db e D"
    using ok by (simp_all add: index_ok_def index_inv_def)
  let ?v = "stats_or_zero (stats_of X db e a)"
  have "index_ok X db' e D \<and> frame X {statsBucketName e} db db' \<and>
    (r = Inr v \<longrightarrow> single_valued X a D \<longrightarrow> counts_all X a D v)"
  proof (cases "begin_err X db = None \<and> Stale ?v")
    case True
    with run have u: "db_update X (statsRecompute X e a) db = (r, db')"
      by (simp add: statsRead_def db_view_def statsLoad_result [OF so])
    show ?thesis
    proof (cases r)
      case (Inl er)
      with db_update_error [OF u [unfolded Inl]] ok show ?thesis by auto
    next
      case (Inr w)
      from statsRecompute_ok [OF db_update_ok [OF u [unfolded Inr]] ok] Inr show ?thesis by auto
    qed
  next
    case False
    with run have "db' = db" "r = Inr v \<longrightarrow> v = ?v \<and> \<not> Stale ?v"
      by (auto simp: statsRead_def db_view_def statsLoad_result [OF so] split: option.splits)
    with ok ex show ?thesis by (auto simp: stats_exact_def Let_def)
  qed
  then show "index_ok X db' e D" "frame X {statsBucketName e} db db'"
    "r = Inr v \<Longrightarrow> single_valued X a D \<Longrightarrow> counts_all X a D v" by auto
qed

end

end
