(* ===== verification/Events.thy ===== *)
theory Events
  imports Talon_Prelude
begin

text \<open>
  \<^verbatim>\<open>events.go\<close>: mutation events and the emitter that fans them out. Subscribers run
  synchronously and may call back into the store or the emitter, so a call of a subscriber is
  an arbitrary change of a state that contains the emitter.
\<close>

section \<open>Definitions\<close>

datatype EventKind = EventAssert | EventChange | EventRetract

definition EventKind_String :: "EventKind \<Rightarrow> string" where
  "EventKind_String k =
     (case k of EventAssert \<Rightarrow> ''assert'' | EventChange \<Rightarrow> ''change'' | EventRetract \<Rightarrow> ''retract'')"

record MutationEvent =
  Kind :: EventKind
  EntityID :: string
  DocID :: string
  OldDoc :: gobytes
  NewDoc :: gobytes
  AtUnixNanos :: i64

text \<open>The emitter's slice of subscribers; an unsubscribed slot is nil. A subscription is the
  slot it owns and whether its \<^verbatim>\<open>sync.Once\<close> has fired.\<close>

record 'sub EventEmitter =
  subs :: "'sub option list"

record subscription =
  idx :: nat
  fired :: bool

definition Subscribe :: "'sub \<Rightarrow> 'sub EventEmitter \<Rightarrow> subscription \<times> 'sub EventEmitter" where
  "Subscribe s e = (\<lparr>idx = length (subs e), fired = False\<rparr>, e\<lparr>subs := subs e @ [Some s]\<rparr>)"

definition unsubscribe ::
  "subscription \<Rightarrow> 'sub EventEmitter \<Rightarrow> subscription \<times> 'sub EventEmitter" where
  "unsubscribe sn e =
     (if fired sn then (sn, e)
      else (sn\<lparr>fired := True\<rparr>,
            if idx sn < length (subs e) then e\<lparr>subs := (subs e)[idx sn := None]\<rparr> else e))"

text \<open>The loop over the snapshot; \<open>call\<close> runs one subscriber.\<close>

fun emitLoop :: "('sub \<Rightarrow> MutationEvent \<Rightarrow> 's \<Rightarrow> 's) \<Rightarrow> 'sub option list \<Rightarrow> MutationEvent \<Rightarrow> 's \<Rightarrow> 's" where
  "emitLoop call [] ev s = s"
| "emitLoop call (None # snapshot) ev s = emitLoop call snapshot ev s"
| "emitLoop call (Some sub # snapshot) ev s = emitLoop call snapshot ev (call sub ev s)"

definition Emit ::
  "('s \<Rightarrow> 'sub EventEmitter) \<Rightarrow> ('sub \<Rightarrow> MutationEvent \<Rightarrow> 's \<Rightarrow> 's) \<Rightarrow> MutationEvent \<Rightarrow> 's \<Rightarrow> 's" where
  "Emit emitter call ev s = emitLoop call (subs (emitter s)) ev s"

section \<open>Correctness\<close>

definition live :: "'sub EventEmitter \<Rightarrow> 'sub list" where
  "live e = List.map_filter (\<lambda>x. x) (subs e)"

lemma emitLoop_fold: "emitLoop call snapshot ev s = fold (\<lambda>sub. call sub ev) (List.map_filter (\<lambda>x. x) snapshot) s"
  by (induction call snapshot ev s rule: emitLoop.induct) (simp_all add: List.map_filter_simps)

lemma live_Subscribe: "live (snd (Subscribe s e)) = live e @ [s]"
  by (simp add: live_def Subscribe_def List.map_filter_def)

lemma live_unsubscribe:
  assumes "subs e = xs @ Some s # ys" "\<not> fired sn" "idx sn = length xs"
  shows "live (snd (unsubscribe sn e)) = List.map_filter (\<lambda>x. x) xs @ List.map_filter (\<lambda>x. x) ys"
  using assms by (simp add: live_def unsubscribe_def List.map_filter_def list_update_append)

text \<open>What other users of an emitter do: subscribe, and end subscriptions of theirs.\<close>

datatype 'sub emitter_op = OpSubscribe 'sub | OpUnsubscribe subscription

fun emitter_exec :: "'sub emitter_op \<Rightarrow> 'sub EventEmitter \<Rightarrow> 'sub EventEmitter" where
  "emitter_exec (OpSubscribe s) e = snd (Subscribe s e)"
| "emitter_exec (OpUnsubscribe sn) e = snd (unsubscribe sn e)"

text \<open>They leave a slot that is not theirs as it is.\<close>

lemma slot_kept:
  assumes "i < length (subs e)" "\<forall>sn. OpUnsubscribe sn \<in> set ops \<longrightarrow> idx sn \<noteq> i"
  shows "i < length (subs (fold emitter_exec ops e)) \<and> subs (fold emitter_exec ops e) ! i = subs e ! i"
  using assms
proof (induction ops arbitrary: e)
  case (Cons a ops)
  have "i < length (subs (emitter_exec a e)) \<and> subs (emitter_exec a e) ! i = subs e ! i"
    using Cons.prems by (cases a) (auto simp: Subscribe_def unsubscribe_def nth_append nth_list_update)
  with Cons.IH [of "emitter_exec a e"] Cons.prems show ?case by auto
qed simp

lemma unsubscribe_twice:
  "unsubscribe (fst (unsubscribe sn e)) e' = (fst (unsubscribe sn e), e')"
  by (simp add: unsubscribe_def)

end
