(* ===== verification/Store.thy ===== *)
theory Store
  imports Indexhooks Events
begin

text \<open>
  \<^verbatim>\<open>bboltstore/store.go\<close>: the document store. An operation takes the committed database and
  returns its result, the database after it and the events it hands to the emitter. A context
  is the function that gives the outcome of its successive \<^verbatim>\<open>ctx.Err()\<close> polls, a clock the
  readings of \<^verbatim>\<open>s.now().UnixNano()\<close> in the order they are taken.
\<close>

section \<open>Definitions\<close>

type_synonym ctx = "nat \<Rightarrow> err option"

definition docsBucket :: "string \<Rightarrow> string" where
  "docsBucket entityID = ''docs:'' @ entityID"

definition metaBucket :: "string \<Rightarrow> string" where
  "metaBucket entityID = ''meta:'' @ entityID"

definition validateEntityID :: "string \<Rightarrow> unit result" where
  "validateEntityID entityID =
     (if entityID = [] then Inl (Wrapf '': empty'' (Sentinel ErrInvalidEntityID))
      else if CHR '':'' \<in> set entityID
      then Inl (Wrapf '': contains reserved character'' (Sentinel ErrInvalidEntityID))
      else Inr ())"

definition validateDocID :: "string \<Rightarrow> unit result" where
  "validateDocID docID =
     (if docID = [] then Inl (NewErr ''bboltstore: docID must not be empty'') else Inr ())"

definition validateIDs :: "string \<Rightarrow> string \<Rightarrow> unit result" where
  "validateIDs entityID docID = bindR (validateEntityID entityID) (\<lambda>_. validateDocID docID)"

definition ctxErr :: "ctx \<Rightarrow> nat \<Rightarrow> unit result" where
  "ctxErr ctx n = (case ctx n of Some e \<Rightarrow> Inl e | None \<Rightarrow> Inr ())"

text \<open>The prior contents of a document, nil when there are none.\<close>

definition priorDoc :: "('tx, 'v, 'bm) ext \<Rightarrow> string \<Rightarrow> string \<Rightarrow> 'tx \<Rightarrow> gobytes result" where
  "priorDoc X entityID docID tx =
     (case bucket_get X tx (docsBucket entityID) docID of
        None \<Rightarrow> Inr None
      | Some prior \<Rightarrow>
          (case snappy_decode X prior of
             None \<Rightarrow> Inl (NewErr ''bboltstore: decode prior doc'')
           | Some decoded \<Rightarrow> Inr decoded))"

definition nextMeta :: "('tx, 'v, 'bm) ext \<Rightarrow> i64 \<Rightarrow> 'v option \<Rightarrow> docMeta result" where
  "nextMeta X now existing =
     (case existing of
        Some raw \<Rightarrow>
          (case dec_meta X raw of
             None \<Rightarrow> Inl (NewErr ''bboltstore: decode meta'')
           | Some m \<Rightarrow> Inr (m\<lparr>UpdatedAt := now, Version := Version m + 1\<rparr>))
      | None \<Rightarrow> Inr \<lparr>CreatedAt = now, UpdatedAt = now, Version = 1\<rparr>)"

definition putInTxEvents ::
  "('tx, 'v, 'bm) ext \<Rightarrow> i64 \<Rightarrow> string \<Rightarrow> string \<Rightarrow> bytes \<Rightarrow> 'tx \<Rightarrow> (MutationEvent \<times> 'tx) result" where
  "putInTxEvents X now entityID docID doc tx =
     bindR (liftB (create_bucket X (docsBucket entityID) tx)) (\<lambda>tx.
     bindR (liftB (create_bucket X (metaBucket entityID) tx)) (\<lambda>tx.
     bindR (priorDoc X entityID docID tx) (\<lambda>oldDoc.
     bindR (nextMeta X now (bucket_get X tx (metaBucket entityID) docID)) (\<lambda>m.
     bindR (liftB (bucket_put X (metaBucket entityID) docID (enc_meta X m) tx)) (\<lambda>tx.
     bindR (liftB (bucket_put X (docsBucket entityID) docID (snappy_encode X doc) tx)) (\<lambda>tx.
     bindR (indexDocOnPut X entityID docID (contents oldDoc) doc tx) (\<lambda>tx.
     Inr (\<lparr>Kind = (if oldDoc \<noteq> None then EventChange else EventAssert),
           EntityID = entityID, DocID = docID, OldDoc = oldDoc,
           NewDoc = (if doc = [] then None else Some doc), AtUnixNanos = now\<rparr>, tx))))))))"

text \<open>After the transaction: pending events are emitted when it has committed.\<close>

definition finish :: "(MutationEvent list) result \<times> 'tx \<Rightarrow> unit result \<times> 'tx \<times> MutationEvent list" where
  "finish r =
     (case r of (Inr pending, db) \<Rightarrow> (Inr (), db, pending) | (Inl e, db) \<Rightarrow> (Inl e, db, []))"

definition Put ::
  "('tx, 'v, 'bm) ext \<Rightarrow> ctx \<Rightarrow> i64 \<Rightarrow> string \<Rightarrow> string \<Rightarrow> bytes \<Rightarrow> 'tx \<Rightarrow>
     unit result \<times> 'tx \<times> MutationEvent list" where
  "Put X ctx now entityID docID doc db =
     (case bindR (validateIDs entityID docID) (\<lambda>_. ctxErr ctx 0) of
        Inl e \<Rightarrow> (Inl e, db, [])
      | Inr _ \<Rightarrow>
          finish (db_update X (\<lambda>tx.
            bindR (putInTxEvents X now entityID docID doc tx) (\<lambda>(ev, tx). Inr ([ev], tx))) db))"

definition Get :: "('tx, 'v, 'bm) ext \<Rightarrow> ctx \<Rightarrow> string \<Rightarrow> string \<Rightarrow> 'tx \<Rightarrow> gobytes result" where
  "Get X ctx entityID docID db =
     bindR (validateIDs entityID docID) (\<lambda>_.
     bindR (ctxErr ctx 0) (\<lambda>_.
     db_view X (\<lambda>tx.
       if \<not> has_bucket X tx (docsBucket entityID) then Inl (Sentinel ErrNotFound)
       else case bucket_get X tx (docsBucket entityID) docID of
         None \<Rightarrow> Inl (Sentinel ErrNotFound)
       | Some raw \<Rightarrow>
           (case snappy_decode X raw of
              None \<Rightarrow> Inl (NewErr ''bboltstore: snappy decode'')
            | Some decoded \<Rightarrow> Inr decoded)) db))"

definition deleteKey :: "('tx, 'v, 'bm) ext \<Rightarrow> string \<Rightarrow> bytes \<Rightarrow> 'tx \<Rightarrow> 'tx result" where
  "deleteKey X n k tx =
     (if has_bucket X tx n then liftB (bucket_delete X n k tx) else Inr tx)"

definition deleteInTx ::
  "('tx, 'v, 'bm) ext \<Rightarrow> i64 \<Rightarrow> string \<Rightarrow> string \<Rightarrow> 'tx \<Rightarrow> (MutationEvent list \<times> 'tx) result" where
  "deleteInTx X now entityID docID tx =
     bindR (if has_bucket X tx (docsBucket entityID) then priorDoc X entityID docID tx else Inr None) (\<lambda>oldDoc.
     bindR (deleteKey X (docsBucket entityID) docID tx) (\<lambda>tx.
     bindR (deleteKey X (metaBucket entityID) docID tx) (\<lambda>tx.
     case oldDoc of
       None \<Rightarrow> Inr ([], tx)
     | Some old \<Rightarrow>
         bindR (indexDocOnDelete X entityID docID old tx) (\<lambda>tx.
         Inr ([\<lparr>Kind = EventRetract, EntityID = entityID, DocID = docID, OldDoc = oldDoc,
                NewDoc = None, AtUnixNanos = now\<rparr>], tx)))))"

definition Delete ::
  "('tx, 'v, 'bm) ext \<Rightarrow> ctx \<Rightarrow> i64 \<Rightarrow> string \<Rightarrow> string \<Rightarrow> 'tx \<Rightarrow>
     unit result \<times> 'tx \<times> MutationEvent list" where
  "Delete X ctx now entityID docID db =
     (case bindR (validateIDs entityID docID) (\<lambda>_. ctxErr ctx 0) of
        Inl e \<Rightarrow> (Inl e, db, [])
      | Inr _ \<Rightarrow> finish (db_update X (deleteInTx X now entityID docID) db))"

text \<open>The loop of \<^verbatim>\<open>BatchPut\<close> over the documents in the order in which \<^verbatim>\<open>range\<close> visits the map.\<close>

fun batchLoop ::
  "('tx, 'v, 'bm) ext \<Rightarrow> ctx \<Rightarrow> (nat \<Rightarrow> i64) \<Rightarrow> string \<Rightarrow> nat \<Rightarrow> (string \<times> bytes) list \<Rightarrow>
     MutationEvent list \<Rightarrow> 'tx \<Rightarrow> (MutationEvent list \<times> 'tx) result" where
  "batchLoop X ctx now entityID n [] pending tx = Inr (pending, tx)"
| "batchLoop X ctx now entityID n ((docID, doc) # docs) pending tx =
     bindR (ctxErr ctx (Suc n)) (\<lambda>_.
     bindR (putInTxEvents X (now n) entityID docID doc tx) (\<lambda>(ev, tx).
     batchLoop X ctx now entityID (Suc n) docs (pending @ [ev]) tx))"

definition BatchPut ::
  "('tx, 'v, 'bm) ext \<Rightarrow> ctx \<Rightarrow> (nat \<Rightarrow> i64) \<Rightarrow> string \<Rightarrow> (string \<times> bytes) list \<Rightarrow> 'tx \<Rightarrow>
     unit result \<times> 'tx \<times> MutationEvent list" where
  "BatchPut X ctx now entityID docs db =
     (case bindR (validateEntityID entityID) (\<lambda>_.
           bindR (foldR (\<lambda>(docID, _) u. validateDocID docID) docs ()) (\<lambda>_. ctxErr ctx 0)) of
        Inl e \<Rightarrow> (Inl e, db, [])
      | Inr _ \<Rightarrow> finish (db_update X (batchLoop X ctx now entityID 0 docs []) db))"

text \<open>\<^verbatim>\<open>Scan\<close>: the callback \<open>fn\<close> works on a state of its own; returning false stops the scan without
  an error.\<close>

fun scanLoop ::
  "('tx, 'v, 'bm) ext \<Rightarrow> ctx \<Rightarrow> nat \<Rightarrow> (string \<Rightarrow> gobytes \<Rightarrow> 's \<Rightarrow> bool \<times> 's) \<Rightarrow> (bytes \<times> 'v) list \<Rightarrow>
     's \<Rightarrow> unit result \<times> 's" where
  "scanLoop X ctx n fn [] s = (Inr (), s)"
| "scanLoop X ctx n fn ((k, v) # rest) s =
     (case ctx (Suc n) of
        Some e \<Rightarrow> (Inl e, s)
      | None \<Rightarrow>
          (case snappy_decode X v of
             None \<Rightarrow> (Inl (NewErr ''bboltstore: snappy decode at''), s)
           | Some decoded \<Rightarrow>
               (case fn k decoded s of (go, s) \<Rightarrow>
                  if \<not> go then (Inr (), s) else scanLoop X ctx (Suc n) fn rest s)))"

definition Scan ::
  "('tx, 'v, 'bm) ext \<Rightarrow> ctx \<Rightarrow> string \<Rightarrow> (string \<Rightarrow> gobytes \<Rightarrow> 's \<Rightarrow> bool \<times> 's) \<Rightarrow> 'tx \<Rightarrow> 's \<Rightarrow>
     unit result \<times> 's" where
  "Scan X ctx entityID fn db s =
     (case bindR (validateEntityID entityID) (\<lambda>_. ctxErr ctx 0) of
        Inl e \<Rightarrow> (Inl e, s)
      | Inr _ \<Rightarrow>
          (case begin_err X db of
             Some e \<Rightarrow> (Inl (BoltErr e), s)
           | None \<Rightarrow>
               if \<not> has_bucket X db (docsBucket entityID) then (Inr (), s)
               else scanLoop X ctx 0 fn (bucket_items X db (docsBucket entityID)) s))"

section \<open>The documents a database shows\<close>

definition stored :: "('tx, 'v, 'bm) ext \<Rightarrow> 'tx \<Rightarrow> string \<Rightarrow> string \<Rightarrow> bytes option" where
  "stored X tx e d =
     (case bucket_get X tx (docsBucket e) d of
        None \<Rightarrow> None
      | Some raw \<Rightarrow> map_option contents (snappy_decode X raw))"

definition doc_contents :: "('tx, 'v, 'bm) ext \<Rightarrow> 'tx \<Rightarrow> string \<Rightarrow> string \<Rightarrow> bytes" where
  "doc_contents X tx e d = contents (stored X tx e d)"

definition meta_of :: "('tx, 'v, 'bm) ext \<Rightarrow> 'tx \<Rightarrow> string \<Rightarrow> string \<Rightarrow> docMeta option" where
  "meta_of X tx e d =
     (case bucket_get X tx (metaBucket e) d of None \<Rightarrow> None | Some raw \<Rightarrow> dec_meta X raw)"

text \<open>The buckets of an entity, and the invariant of what they hold: stored documents and
  metadata decode, they exist for the same ids, and every index agrees with the documents.\<close>

definition entity_names :: "string \<Rightarrow> string set" where
  "entity_names e = {docsBucket e, metaBucket e} \<union> index_names e"

definition docs_ok :: "('tx, 'v, 'bm) ext \<Rightarrow> 'tx \<Rightarrow> string \<Rightarrow> bool" where
  "docs_ok X tx e \<longleftrightarrow>
     (\<forall>d raw. bucket_get X tx (docsBucket e) d = Some raw \<longrightarrow> snappy_decode X raw \<noteq> None) \<and>
     (\<forall>d raw. bucket_get X tx (metaBucket e) d = Some raw \<longrightarrow> dec_meta X raw \<noteq> None) \<and>
     (\<forall>d. bucket_get X tx (docsBucket e) d = None \<longleftrightarrow> bucket_get X tx (metaBucket e) d = None)"

definition store_ok :: "('tx, 'v, 'bm) ext \<Rightarrow> 'tx \<Rightarrow> string \<Rightarrow> bool" where
  "store_ok X tx e \<longleftrightarrow> docs_ok X tx e \<and> index_ok X tx e (doc_contents X tx e)"

section \<open>Bucket names\<close>

lemma store_names [simp]:
  "docsBucket e \<in> entity_names e" "metaBucket e \<in> entity_names e" "index_names e \<subseteq> entity_names e"
  by (auto simp: entity_names_def)

lemma store_names_neq [simp]:
  "docsBucket e \<noteq> metaBucket e'" "metaBucket e \<noteq> docsBucket e'"
  by (simp_all add: docsBucket_def metaBucket_def)

lemma store_names_index [simp]:
  "docsBucket e \<notin> index_names e'" "metaBucket e \<notin> index_names e'"
  unfolding index_names_def bucket_name_defs docsBucket_def metaBucket_def by auto

lemma entity_of_entity_names:
  assumes "no_colon e" "n \<in> entity_names e"
  shows "entity_of n = e"
proof -
  have "entity_of (docsBucket e) = e" "entity_of (metaBucket e) = e"
    by (simp_all add: entity_of_def docsBucket_def metaBucket_def takeWhile_no_colon [OF assms(1)])
  with assms entity_of_index_names [OF assms(1)] show ?thesis by (auto simp: entity_names_def)
qed

text \<open>No bucket belongs to two entities.\<close>

lemma entity_names_disjoint:
  "no_colon e \<Longrightarrow> no_colon e' \<Longrightarrow> e \<noteq> e' \<Longrightarrow> entity_names e \<inter> entity_names e' = {}"
  using entity_of_entity_names by blast

lemma validateIDs_ok:
  "validateIDs e d = Inr u \<longleftrightarrow> e \<noteq> [] \<and> no_colon e \<and> d \<noteq> []"
  by (auto simp: validateIDs_def validateEntityID_def validateDocID_def no_colon_def result_simps split: if_splits)

lemma validateEntityID_ok: "validateEntityID e = Inr u \<longleftrightarrow> e \<noteq> [] \<and> no_colon e"
  by (auto simp: validateEntityID_def no_colon_def split: if_splits)

lemma validateEntityID_error: "validateEntityID e = Inl er \<Longrightarrow> errors_Is er ErrInvalidEntityID"
  by (auto simp: validateEntityID_def split: if_splits)

lemma ctxErr_ok: "ctxErr ctx n = Inr u \<longleftrightarrow> ctx n = None"
  by (auto simp: ctxErr_def split: option.splits)

section \<open>Correctness of the transactions\<close>

lemma frame_store_views:
  assumes "frame X N tx tx'" "entity_names e \<inter> N = {}"
  shows "stored X tx' e = stored X tx e" "meta_of X tx' e = meta_of X tx e"
    "docs_ok X tx' e = docs_ok X tx e"
proof -
  have "docsBucket e \<notin> N" "metaBucket e \<notin> N" using assms(2) store_names(1,2) [of e] by blast+
  then have "bucket_get X tx' (docsBucket e) = bucket_get X tx (docsBucket e)"
    "bucket_get X tx' (metaBucket e) = bucket_get X tx (metaBucket e)"
    by (simp_all add: frame_get [OF assms(1)])
  then show "stored X tx' e = stored X tx e" "meta_of X tx' e = meta_of X tx e"
    "docs_ok X tx' e = docs_ok X tx e"
    by (simp_all add: stored_def meta_of_def docs_ok_def fun_eq_iff)
qed

context ext_laws
begin

lemma frame_store_ok:
  assumes "frame X N tx tx'" "entity_names e \<inter> N = {}"
  shows "store_ok X tx' e = store_ok X tx e"
proof -
  have "index_names e \<inter> N = {}" using assms(2) store_names(3) [of e] by blast
  moreover have "doc_contents X tx' e = doc_contents X tx e"
    by (simp add: doc_contents_def frame_store_views(1) [OF assms] fun_eq_iff)
  ultimately show ?thesis
    using index_inv_frame(3) [OF assms(1)] frame_store_views(3) [OF assms] by (simp add: store_ok_def)
qed

lemma priorDoc_result:
  assumes "docs_ok X tx e"
  shows "\<exists>old. priorDoc X e d tx = Inr old \<and> contents old = doc_contents X tx e d \<and>
    (stored X tx e d = None \<longrightarrow> old = None)"
proof (cases "bucket_get X tx (docsBucket e) d")
  case None
  then show ?thesis by (simp add: priorDoc_def doc_contents_def stored_def)
next
  case (Some raw)
  with assms obtain s where "snappy_decode X raw = Some s" unfolding docs_ok_def by blast
  with Some show ?thesis by (simp add: priorDoc_def doc_contents_def stored_def)
qed

lemma putInTxEvents_parts:
  assumes "putInTxEvents X now e d doc tx = Inr (ev, tx')"
  shows "\<exists>old m t. priorDoc X e d tx = Inr old \<and>
    nextMeta X now (bucket_get X tx (metaBucket e) d) = Inr m \<and>
    frame X {docsBucket e, metaBucket e} tx t \<and>
    (\<forall>x. bucket_get X t (docsBucket e) x = (if x = d then Some (snappy_encode X doc) else bucket_get X tx (docsBucket e) x)) \<and>
    (\<forall>x. bucket_get X t (metaBucket e) x = (if x = d then Some (enc_meta X m) else bucket_get X tx (metaBucket e) x)) \<and>
    indexDocOnPut X e d (contents old) doc t = Inr tx' \<and>
    ev = \<lparr>Kind = (if old \<noteq> None then EventChange else EventAssert), EntityID = e, DocID = d,
       OldDoc = old, NewDoc = (if doc = [] then None else Some doc), AtUnixNanos = now\<rparr>"
proof -
  from assms obtain t1 t2 t3 t4 old m where c1: "create_bucket X (docsBucket e) tx = Inr t1"
    and c2: "create_bucket X (metaBucket e) t1 = Inr t2" and old: "priorDoc X e d t2 = Inr old"
    and m: "nextMeta X now (bucket_get X t2 (metaBucket e) d) = Inr m"
    and p1: "bucket_put X (metaBucket e) d (enc_meta X m) t2 = Inr t3"
    and p2: "bucket_put X (docsBucket e) d (snappy_encode X doc) t3 = Inr t4"
    and ix: "indexDocOnPut X e d (contents old) doc t4 = Inr tx'"
    and ev: "ev = \<lparr>Kind = (if old \<noteq> None then EventChange else EventAssert), EntityID = e, DocID = d,
       OldDoc = old, NewDoc = (if doc = [] then None else Some doc), AtUnixNanos = now\<rparr>"
    by (auto simp: putInTxEvents_def result_simps)
  have g2: "bucket_get X t2 n k = bucket_get X tx n k" for n k
    by (simp add: create_get [OF c2] create_get [OF c1])
  have g4: "bucket_get X t4 n k = (if n = docsBucket e \<and> k = d then Some (snappy_encode X doc)
      else if n = metaBucket e \<and> k = d then Some (enc_meta X m) else bucket_get X tx n k)" for n k
    by (simp add: put_get [OF p2] put_get [OF p1] g2)
  have f: "frame X {docsBucket e, metaBucket e} tx t4"
    using frame_create [OF c1] frame_create [OF c2] frame_put [OF p1] frame_put [OF p2]
    by (meson frame_trans insertI1 insertI2 singletonI)
  have "priorDoc X e d tx = Inr old" using old by (simp add: priorDoc_def g2)
  moreover have "nextMeta X now (bucket_get X tx (metaBucket e) d) = Inr m" using m by (simp add: g2)
  ultimately show ?thesis using f ix ev by (intro exI [of _ old] exI [of _ m] exI [of _ t4]) (simp add: g4)
qed

lemma putInTxEvents_frame:
  assumes "putInTxEvents X now e d doc tx = Inr (ev, tx')"
  shows "frame X (entity_names e) tx tx'"
proof -
  obtain old t where "frame X {docsBucket e, metaBucket e} tx t"
    "indexDocOnPut X e d (contents old) doc t = Inr tx'"
    using putInTxEvents_parts [OF assms(1)] by blast
  then show ?thesis
    using frame_mono [OF _, of X "{docsBucket e, metaBucket e}" tx t "entity_names e"]
      frame_mono [OF indexDocOnPut_frame store_names(3)] by (auto intro: frame_trans)
qed

lemma putInTxEvents_stored:
  assumes "putInTxEvents X now e d doc tx = Inr (ev, tx')"
  shows "stored X tx' e x = (if x = d then Some doc else stored X tx e x)"
proof -
  obtain old t where g: "\<forall>x. bucket_get X t (docsBucket e) x =
      (if x = d then Some (snappy_encode X doc) else bucket_get X tx (docsBucket e) x)"
    and ix: "indexDocOnPut X e d (contents old) doc t = Inr tx'"
    using putInTxEvents_parts [OF assms(1)] by blast
  have "bucket_get X tx' (docsBucket e) = bucket_get X t (docsBucket e)"
    by (rule frame_get [OF indexDocOnPut_frame [OF ix]]) simp
  with snappy_roundtrip [of doc] show ?thesis by (auto simp: stored_def g)
qed

lemma putInTxEvents_meta:
  assumes "putInTxEvents X now e d doc tx = Inr (ev, tx')"
  shows "meta_of X tx' e x = (if x = d then
      Some (case meta_of X tx e d of
              None \<Rightarrow> \<lparr>CreatedAt = now, UpdatedAt = now, Version = 1\<rparr>
            | Some m \<Rightarrow> m\<lparr>UpdatedAt := now, Version := Version m + 1\<rparr>)
      else meta_of X tx e x)"
proof -
  obtain old m t where nm: "nextMeta X now (bucket_get X tx (metaBucket e) d) = Inr m"
    and g: "\<forall>x. bucket_get X t (metaBucket e) x =
      (if x = d then Some (enc_meta X m) else bucket_get X tx (metaBucket e) x)"
    and ix: "indexDocOnPut X e d (contents old) doc t = Inr tx'"
    using putInTxEvents_parts [OF assms(1)] by blast
  have "bucket_get X tx' (metaBucket e) = bucket_get X t (metaBucket e)"
    by (rule frame_get [OF indexDocOnPut_frame [OF ix]]) simp
  with nm show ?thesis
    by (auto simp: meta_of_def g meta_roundtrip nextMeta_def split: option.splits)
qed

lemma putInTxEvents_ok:
  assumes run: "putInTxEvents X now e d doc tx = Inr (ev, tx')" and ok: "store_ok X tx e" and u: "utf8_ok d"
  shows "store_ok X tx' e"
    "\<exists>old. contents old = doc_contents X tx e d \<and> (stored X tx e d = None \<longrightarrow> old = None) \<and>
      ev = \<lparr>Kind = (if old \<noteq> None then EventChange else EventAssert), EntityID = e, DocID = d,
        OldDoc = old, NewDoc = (if doc = [] then None else Some doc), AtUnixNanos = now\<rparr>"
proof -
  obtain old m t where p: "priorDoc X e d tx = Inr old"
    and f: "frame X {docsBucket e, metaBucket e} tx t"
    and gd: "\<forall>x. bucket_get X t (docsBucket e) x =
      (if x = d then Some (snappy_encode X doc) else bucket_get X tx (docsBucket e) x)"
    and gm: "\<forall>x. bucket_get X t (metaBucket e) x =
      (if x = d then Some (enc_meta X m) else bucket_get X tx (metaBucket e) x)"
    and ix: "indexDocOnPut X e d (contents old) doc t = Inr tx'"
    and ev: "ev = \<lparr>Kind = (if old \<noteq> None then EventChange else EventAssert), EntityID = e, DocID = d,
        OldDoc = old, NewDoc = (if doc = [] then None else Some doc), AtUnixNanos = now\<rparr>"
    using putInTxEvents_parts [OF assms(1)] by blast
  have dk: "docs_ok X tx e" and ik: "index_ok X tx e (doc_contents X tx e)"
    using ok by (simp_all add: store_ok_def)
  have old: "contents old = doc_contents X tx e d" "stored X tx e d = None \<longrightarrow> old = None"
    using priorDoc_result [OF dk, of d] p by auto
  show "\<exists>old. contents old = doc_contents X tx e d \<and> (stored X tx e d = None \<longrightarrow> old = None) \<and>
      ev = \<lparr>Kind = (if old \<noteq> None then EventChange else EventAssert), EntityID = e, DocID = d,
        OldDoc = old, NewDoc = (if doc = [] then None else Some doc), AtUnixNanos = now\<rparr>"
    by (intro exI [of _ old] conjI) (rule old ev)+
  have "index_ok X t e (doc_contents X tx e)"
    using ik index_inv_frame(3) [OF f, of e] by simp
  then have "index_ok X tx' e ((doc_contents X tx e)(d := doc))"
    using ix u unfolding old(1) by (intro indexDocOnPut_ok [where d = d])
  moreover have "doc_contents X tx' e = (doc_contents X tx e)(d := doc)"
    by (auto simp: doc_contents_def putInTxEvents_stored [OF run] fun_eq_iff)
  moreover have "bucket_get X tx' (docsBucket e) = bucket_get X t (docsBucket e)"
    "bucket_get X tx' (metaBucket e) = bucket_get X t (metaBucket e)"
    by (rule frame_get [OF indexDocOnPut_frame [OF ix]], simp)+
  then have "docs_ok X tx' e"
    using dk snappy_roundtrip [of doc] by (auto simp: docs_ok_def gd gm meta_roundtrip)
  ultimately show "store_ok X tx' e" by (simp add: store_ok_def)
qed

lemma deleteKey_get:
  assumes "deleteKey X n k tx = Inr tx'"
  shows "bucket_get X tx' m j = (if m = n \<and> j = k then None else bucket_get X tx m j)"
    "n \<in> N \<Longrightarrow> frame X N tx tx'"
proof -
  have "(\<forall>m j. bucket_get X tx' m j = (if m = n \<and> j = k then None else bucket_get X tx m j)) \<and>
    (n \<in> N \<longrightarrow> frame X N tx tx')"
  proof (cases "has_bucket X tx n")
    case True
    with assms have d: "bucket_delete X n k tx = Inr tx'" by (simp add: deleteKey_def result_simps)
    from del_get [OF d] frame_del [OF d] show ?thesis by blast
  next
    case False
    with assms no_bucket_get [OF False] show ?thesis by (auto simp: deleteKey_def)
  qed
  then show "bucket_get X tx' m j = (if m = n \<and> j = k then None else bucket_get X tx m j)"
    "n \<in> N \<Longrightarrow> frame X N tx tx'" by blast+
qed

lemma deleteInTx_parts:
  assumes run: "deleteInTx X now e d tx = Inr (evs, tx')" and ok: "docs_ok X tx e"
  shows "\<exists>old t. contents old = doc_contents X tx e d \<and> (stored X tx e d = None \<longrightarrow> old = None) \<and>
    frame X {docsBucket e, metaBucket e} tx t \<and>
    (\<forall>x. bucket_get X t (docsBucket e) x = (if x = d then None else bucket_get X tx (docsBucket e) x)) \<and>
    (\<forall>x. bucket_get X t (metaBucket e) x = (if x = d then None else bucket_get X tx (metaBucket e) x)) \<and>
    (case old of None \<Rightarrow> evs = [] \<and> tx' = t
     | Some b \<Rightarrow> indexDocOnDelete X e d b t = Inr tx' \<and>
         evs = [\<lparr>Kind = EventRetract, EntityID = e, DocID = d, OldDoc = old, NewDoc = None, AtUnixNanos = now\<rparr>])"
proof -
  obtain old where p: "priorDoc X e d tx = Inr old" "contents old = doc_contents X tx e d"
    "stored X tx e d = None \<longrightarrow> old = None" using priorDoc_result [OF ok] by blast
  have "\<not> has_bucket X tx (docsBucket e) \<Longrightarrow> old = None"
    using p(1) no_bucket_get by (simp add: priorDoc_def)
  then have old: "(if has_bucket X tx (docsBucket e) then priorDoc X e d tx else Inr None) = Inr old"
    using p(1) by auto
  from run old obtain t1 t2 where d1: "deleteKey X (docsBucket e) d tx = Inr t1"
    and d2: "deleteKey X (metaBucket e) d t1 = Inr t2"
    and rest: "(case old of None \<Rightarrow> evs = [] \<and> tx' = t2
     | Some b \<Rightarrow> indexDocOnDelete X e d b t2 = Inr tx' \<and>
         evs = [\<lparr>Kind = EventRetract, EntityID = e, DocID = d, OldDoc = old, NewDoc = None, AtUnixNanos = now\<rparr>])"
    by (cases old) (auto simp: deleteInTx_def result_simps)
  have "frame X {docsBucket e, metaBucket e} tx t2"
    using deleteKey_get(2) [OF d1] deleteKey_get(2) [OF d2] by (meson frame_trans insertI1 insertI2)
  with p(2,3) rest show ?thesis
    by (intro exI [of _ old] exI [of _ t2]) (simp add: deleteKey_get(1) [OF d2] deleteKey_get(1) [OF d1])
qed

lemma deleteInTx_ok:
  assumes run: "deleteInTx X now e d tx = Inr (evs, tx')" and ok: "store_ok X tx e" and u: "utf8_ok d"
  shows "store_ok X tx' e" "frame X (entity_names e) tx tx'"
    "stored X tx' e x = (if x = d then None else stored X tx e x)"
    "stored X tx e d = None \<Longrightarrow> evs = []"
proof -
  have dk: "docs_ok X tx e" and ik: "index_ok X tx e (doc_contents X tx e)"
    using ok by (simp_all add: store_ok_def)
  obtain old t where old: "contents old = doc_contents X tx e d" "stored X tx e d = None \<longrightarrow> old = None"
    and f: "frame X {docsBucket e, metaBucket e} tx t"
    and gd: "\<forall>x. bucket_get X t (docsBucket e) x = (if x = d then None else bucket_get X tx (docsBucket e) x)"
    and gm: "\<forall>x. bucket_get X t (metaBucket e) x = (if x = d then None else bucket_get X tx (metaBucket e) x)"
    and rest: "case old of None \<Rightarrow> evs = [] \<and> tx' = t
     | Some b \<Rightarrow> indexDocOnDelete X e d b t = Inr tx' \<and>
         evs = [\<lparr>Kind = EventRetract, EntityID = e, DocID = d, OldDoc = old, NewDoc = None, AtUnixNanos = now\<rparr>]"
    using deleteInTx_parts [OF run dk] by - (elim exE conjE, rule that)
  let ?D = "doc_contents X tx e"
  have it: "index_ok X t e ?D" using ik index_inv_frame(3) [OF f, of e] by simp
  have "index_ok X tx' e (?D(d := [])) \<and> frame X (index_names e) t tx'"
  proof (cases old)
    case None
    with rest old(1) it have "tx' = t" "?D(d := []) = ?D" by (auto simp: fun_eq_iff)
    with it show ?thesis by simp
  next
    case (Some b)
    with rest old(1) have del: "indexDocOnDelete X e d (?D d) t = Inr tx'" by simp
    have "idmap_ok X t e" using it by (simp add: index_ok_def index_inv_def)
    with indexDocOnDelete_ok [where D = ?D and d = d, OF del it u] indexDocOnDelete_frame [OF del] show ?thesis
      by simp
  qed
  then have ix: "index_ok X tx' e (?D(d := []))" and f': "frame X (index_names e) t tx'" by auto
  have same: "bucket_get X tx' (docsBucket e) = bucket_get X t (docsBucket e)"
    "bucket_get X tx' (metaBucket e) = bucket_get X t (metaBucket e)"
    by (rule frame_get [OF f'], simp)+
  show st: "stored X tx' e x = (if x = d then None else stored X tx e x)" for x
    by (simp add: stored_def same gd)
  have "doc_contents X tx' e = ?D(d := [])" by (auto simp: doc_contents_def st fun_eq_iff)
  moreover have "docs_ok X tx' e" using dk by (auto simp: docs_ok_def same gd gm)
  ultimately show "store_ok X tx' e" using ix by (simp add: store_ok_def)
  show "frame X (entity_names e) tx tx'"
    by (rule frame_trans [OF frame_mono [OF f] frame_mono [OF f' store_names(3)]]) simp
  show "stored X tx e d = None \<Longrightarrow> evs = []" using old(2) rest by simp
qed

text \<open>A batch is the sequence of its writes.\<close>

lemma batchLoop_ok:
  assumes "batchLoop X ctx now e n docs pending tx = Inr (evs, tx')" "store_ok X tx e"
    "\<forall>(d, doc) \<in> set docs. utf8_ok d" "distinct (map fst docs)"
  shows "store_ok X tx' e \<and> frame X (entity_names e) tx tx' \<and>
    (\<forall>x. stored X tx' e x = (case map_of docs x of Some doc \<Rightarrow> Some doc | None \<Rightarrow> stored X tx e x)) \<and>
    (\<exists>new. evs = pending @ new \<and> map DocID new = map fst docs)"
  using assms
proof (induction docs arbitrary: n pending tx)
  case Nil
  then show ?case by simp
next
  case (Cons dd docs)
  obtain d doc where dd: "dd = (d, doc)" by (cases dd)
  from Cons.prems(1) obtain ev t where p: "putInTxEvents X (now n) e d doc tx = Inr (ev, t)"
    and rest: "batchLoop X ctx now e (Suc n) docs (pending @ [ev]) t = Inr (evs, tx')"
    by (auto simp: dd result_simps)
  have u: "utf8_ok d" using Cons.prems(3) dd by simp
  note one = putInTxEvents_ok [OF p Cons.prems(2) u]
  have ev: "DocID ev = d" using one(2) by auto
  have ih: "store_ok X tx' e \<and> frame X (entity_names e) t tx' \<and>
    (\<forall>x. stored X tx' e x = (case map_of docs x of Some doc \<Rightarrow> Some doc | None \<Rightarrow> stored X t e x)) \<and>
    (\<exists>new. evs = (pending @ [ev]) @ new \<and> map DocID new = map fst docs)"
    using Cons.prems(3,4) by (intro Cons.IH [OF rest one(1)]) auto
  have nd: "map_of docs d = None" using Cons.prems(4) dd by (simp add: map_of_eq_None_iff)
  have "stored X tx' e x = (case map_of (dd # docs) x of Some doc \<Rightarrow> Some doc | None \<Rightarrow> stored X tx e x)" for x
    using ih nd by (auto simp: dd putInTxEvents_stored [OF p] split: option.splits)
  moreover have "frame X (entity_names e) tx tx'"
    using frame_trans [OF putInTxEvents_frame [OF p]] ih by blast
  moreover obtain new where "evs = (pending @ [ev]) @ new" "map DocID new = map fst docs" using ih by blast
  then have "\<exists>new. evs = pending @ new \<and> map DocID new = map fst (dd # docs)"
    using ev dd by (intro exI [of _ "ev # new"]) simp
  ultimately show ?case using ih by blast
qed

end

section \<open>The operations\<close>

text \<open>A write either fails, leaving the database and emitting nothing, or runs its transaction.\<close>

lemma Put_cases:
  assumes "Put X ctx now e d doc db = (r, db', evs)"
  obtains (failed) er where "r = Inl er" "db' = db" "evs = []"
  | (success) ev where "r = Inr ()" "e \<noteq> []" "no_colon e" "d \<noteq> []" "ctx 0 = None"
      "putInTxEvents X now e d doc db = Inr (ev, db')" "evs = [ev]"
proof (cases "bindR (validateIDs e d) (\<lambda>_. ctxErr ctx 0)")
  case (Inl er)
  with assms show thesis by (intro failed [of er]) (simp_all add: Put_def)
next
  case (Inr u)
  then have v: "e \<noteq> []" "no_colon e" "d \<noteq> []" "ctx 0 = None"
    by (auto simp: result_simps validateIDs_ok ctxErr_ok)
  obtain r' t where t: "db_update X (\<lambda>tx. bindR (putInTxEvents X now e d doc tx) (\<lambda>(ev, tx). Inr ([ev], tx))) db = (r', t)"
    by fastforce
  show thesis
  proof (cases r')
    case Inl': (Inl er)
    from db_update_error [OF t [unfolded Inl']] Inl' t Inr assms show thesis
      by (intro failed [of er]) (simp_all add: Put_def finish_def)
  next
    case Inr': (Inr es)
    from db_update_ok [OF t [unfolded Inr']] obtain ev where
      "putInTxEvents X now e d doc db = Inr (ev, t)" "es = [ev]" by (auto simp: result_simps)
    with Inr' t Inr v assms success show thesis by (simp add: Put_def finish_def)
  qed
qed

lemma Delete_cases:
  assumes "Delete X ctx now e d db = (r, db', evs)"
  obtains (failed) er where "r = Inl er" "db' = db" "evs = []"
  | (success) "r = Inr ()" "e \<noteq> []" "no_colon e" "d \<noteq> []" "ctx 0 = None"
      "deleteInTx X now e d db = Inr (evs, db')"
proof (cases "bindR (validateIDs e d) (\<lambda>_. ctxErr ctx 0)")
  case (Inl er)
  with assms show thesis by (intro failed [of er]) (simp_all add: Delete_def)
next
  case (Inr u)
  then have v: "e \<noteq> []" "no_colon e" "d \<noteq> []" "ctx 0 = None"
    by (auto simp: result_simps validateIDs_ok ctxErr_ok)
  obtain r' t where t: "db_update X (deleteInTx X now e d) db = (r', t)" by fastforce
  show thesis
  proof (cases r')
    case Inl': (Inl er)
    from db_update_error [OF t [unfolded Inl']] Inl' t Inr assms show thesis
      by (intro failed [of er]) (simp_all add: Delete_def finish_def)
  next
    case Inr': (Inr es)
    with db_update_ok [OF t [unfolded Inr']] t Inr v assms success show thesis
      by (simp add: Delete_def finish_def)
  qed
qed

lemma BatchPut_cases:
  assumes "BatchPut X ctx now e docs db = (r, db', evs)"
  obtains (failed) er where "r = Inl er" "db' = db" "evs = []"
  | (success) "r = Inr ()" "e \<noteq> []" "no_colon e" "batchLoop X ctx now e 0 docs [] db = Inr (evs, db')"
proof (cases "bindR (validateEntityID e) (\<lambda>_.
    bindR (foldR (\<lambda>(docID, _) u. validateDocID docID) docs ()) (\<lambda>_. ctxErr ctx 0))")
  case (Inl er)
  with assms show thesis by (intro failed [of er]) (simp_all add: BatchPut_def)
next
  case (Inr u)
  then have v: "e \<noteq> []" "no_colon e" by (auto simp: result_simps validateEntityID_ok)
  obtain r' t where t: "db_update X (batchLoop X ctx now e 0 docs []) db = (r', t)" by fastforce
  show thesis
  proof (cases r')
    case Inl': (Inl er)
    from db_update_error [OF t [unfolded Inl']] Inl' t Inr assms show thesis
      by (intro failed [of er]) (simp_all add: BatchPut_def finish_def)
  next
    case Inr': (Inr es)
    with db_update_ok [OF t [unfolded Inr']] t Inr v assms success show thesis
      by (simp add: BatchPut_def finish_def)
  qed
qed

text \<open>One write of a history, and what it means for the documents.\<close>

datatype store_write =
    WPut ctx i64 string string bytes
  | WDelete ctx i64 string string
  | WBatch ctx "nat \<Rightarrow> i64" string "(string \<times> bytes) list"

fun exec_write :: "('tx, 'v, 'bm) ext \<Rightarrow> store_write \<Rightarrow> 'tx \<Rightarrow> unit result \<times> 'tx \<times> MutationEvent list" where
  "exec_write X (WPut ctx now e d doc) db = Put X ctx now e d doc db"
| "exec_write X (WDelete ctx now e d) db = Delete X ctx now e d db"
| "exec_write X (WBatch ctx now e docs) db = BatchPut X ctx now e docs db"

fun write_entity :: "store_write \<Rightarrow> string" where
  "write_entity (WPut ctx now e d doc) = e"
| "write_entity (WDelete ctx now e d) = e"
| "write_entity (WBatch ctx now e docs) = e"

text \<open>The document ids survive JSON, and the keys of a batch are those of a map.\<close>

fun write_ok :: "store_write \<Rightarrow> bool" where
  "write_ok (WPut ctx now e d doc) = utf8_ok d"
| "write_ok (WDelete ctx now e d) = utf8_ok d"
| "write_ok (WBatch ctx now e docs) = ((\<forall>(d, doc) \<in> set docs. utf8_ok d) \<and> distinct (map fst docs))"

fun write_effect :: "store_write \<Rightarrow> (string \<Rightarrow> bytes option) \<Rightarrow> string \<Rightarrow> bytes option" where
  "write_effect (WPut ctx now e d doc) m = m(d \<mapsto> doc)"
| "write_effect (WDelete ctx now e d) m = m(d := None)"
| "write_effect (WBatch ctx now e docs) m = m ++ map_of docs"

context ext_laws
begin

lemma exec_write_failed: "exec_write X w db = (Inl er, db', evs) \<Longrightarrow> db' = db \<and> evs = []"
  by (cases w) (auto elim!: Put_cases Delete_cases BatchPut_cases)

lemma exec_write_ok:
  assumes run: "exec_write X w db = (Inr (), db', evs)" and ok: "store_ok X db (write_entity w)"
    and w: "write_ok w"
  shows "store_ok X db' (write_entity w)" "no_colon (write_entity w)"
    "frame X (entity_names (write_entity w)) db db'"
    "stored X db' (write_entity w) = write_effect w (stored X db (write_entity w))"
proof -
  have "store_ok X db' (write_entity w) \<and> no_colon (write_entity w) \<and>
    frame X (entity_names (write_entity w)) db db' \<and>
    stored X db' (write_entity w) = write_effect w (stored X db (write_entity w))"
  proof (cases w)
    case (WPut ctx now e d doc)
    from run WPut have "Put X ctx now e d doc db = (Inr (), db', evs)" by simp
    then show ?thesis
    proof (cases rule: Put_cases)
      case (success ev)
      note p = success(6)
      have "stored X db' e = (stored X db e)(d \<mapsto> doc)"
        by (rule ext) (simp add: putInTxEvents_stored [OF p])
      with WPut success ok w putInTxEvents_ok(1) [OF p] putInTxEvents_frame [OF p] show ?thesis by simp
    qed simp
  next
    case (WDelete ctx now e d)
    from run WDelete have "Delete X ctx now e d db = (Inr (), db', evs)" by simp
    then show ?thesis
    proof (cases rule: Delete_cases)
      case success
      have u: "utf8_ok d" and k: "store_ok X db e" using w ok WDelete by simp_all
      note p = deleteInTx_ok [OF success(6) k u]
      have "stored X db' e = (stored X db e)(d := None)" by (rule ext) (simp add: p(3))
      with WDelete success p show ?thesis by simp
    qed simp
  next
    case (WBatch ctx now e docs)
    from run WBatch have "BatchPut X ctx now e docs db = (Inr (), db', evs)" by simp
    then show ?thesis
    proof (cases rule: BatchPut_cases)
      case success
      have k: "store_ok X db e" "\<forall>(d, doc) \<in> set docs. utf8_ok d" "distinct (map fst docs)"
        using w ok WBatch by simp_all
      note b = batchLoop_ok [OF success(4) k]
      have "stored X db' e = stored X db e ++ map_of docs"
        by (rule ext) (use b in \<open>simp add: map_add_def\<close>)
      with WBatch success b show ?thesis by simp
    qed simp
  qed
  then show "store_ok X db' (write_entity w)" "no_colon (write_entity w)"
    "frame X (entity_names (write_entity w)) db db'"
    "stored X db' (write_entity w) = write_effect w (stored X db (write_entity w))" by auto
qed

text \<open>Another entity sees nothing of a write.\<close>

lemma exec_write_other:
  assumes run: "exec_write X w db = (r, db', evs)" and ok: "store_ok X db (write_entity w)"
    and w: "write_ok w" and e: "no_colon e" "e \<noteq> write_entity w"
  shows "frame X (- entity_names e) db db'"
proof (cases r)
  case (Inl er)
  with exec_write_failed [of w db er] run show ?thesis by auto
next
  case (Inr u)
  with run have run: "exec_write X w db = (Inr (), db', evs)" by simp
  have "entity_names e \<inter> entity_names (write_entity w) = {}"
    using entity_names_disjoint [OF e(1) exec_write_ok(2) [OF run ok w] e(2)] .
  then show ?thesis using frame_mono [OF exec_write_ok(3) [OF run ok w]] by blast
qed

end

section \<open>Histories of writes\<close>

text \<open>What a client relies on: a write that reports an error has changed nothing, one that
  reports success has applied its effect to its own entity and nothing to another one. Then
  the documents after a history are what the successful writes make of them, in order.\<close>

primrec history :: "('w \<Rightarrow> 's \<Rightarrow> bool \<times> 's) \<Rightarrow> 'w list \<Rightarrow> 's \<Rightarrow> bool list \<times> 's" where
  "history exec [] s = ([], s)"
| "history exec (w # ws) s =
     (case exec w s of (b, s1) \<Rightarrow> (case history exec ws s1 of (bs, s2) \<Rightarrow> (b # bs, s2)))"

primrec spec_history ::
  "('w \<Rightarrow> 'e) \<Rightarrow> ('w \<Rightarrow> 'm \<Rightarrow> 'm) \<Rightarrow> ('w \<times> bool) list \<Rightarrow> ('e \<Rightarrow> 'm) \<Rightarrow> 'e \<Rightarrow> 'm" where
  "spec_history target effect [] m = m"
| "spec_history target effect (wb # ws) m =
     spec_history target effect ws
       (if snd wb then m(target (fst wb) := effect (fst wb) (m (target (fst wb)))) else m)"

locale write_contract =
  fixes exec :: "'w \<Rightarrow> 's \<Rightarrow> bool \<times> 's"
    and inv :: "'s \<Rightarrow> bool"
    and admissible :: "'w \<Rightarrow> bool"
    and view :: "'s \<Rightarrow> 'e \<Rightarrow> 'm"
    and target :: "'w \<Rightarrow> 'e"
    and effect :: "'w \<Rightarrow> 'm \<Rightarrow> 'm"
  assumes failed: "exec w s = (False, s') \<Longrightarrow> s' = s"
    and keeps: "exec w s = (True, s') \<Longrightarrow> inv s \<Longrightarrow> admissible w \<Longrightarrow> inv s'"
    and applies: "exec w s = (True, s') \<Longrightarrow> inv s \<Longrightarrow> admissible w \<Longrightarrow>
      view s' = (view s)(target w := effect w (view s (target w)))"
begin

lemma history_refines:
  assumes "history exec ws s = (bs, s')" "inv s" "\<forall>w \<in> set ws. admissible w"
  shows "inv s' \<and> length bs = length ws \<and> view s' = spec_history target effect (zip ws bs) (view s)"
  using assms
proof (induction ws arbitrary: s bs)
  case (Cons w ws)
  obtain b s1 where one: "exec w s = (b, s1)" by fastforce
  obtain bs1 where rest: "history exec ws s1 = (bs1, s')" "bs = b # bs1"
    using Cons.prems(1) one by (auto split: prod.splits)
  have step: "inv s1 \<and> view s1 = (if b then (view s)(target w := effect w (view s (target w))) else view s)"
  proof (cases b)
    case True
    with one keeps [of w s s1] applies [of w s s1] Cons.prems(2,3) show ?thesis by simp
  next
    case False
    with one failed [of w s s1] Cons.prems(2) show ?thesis by simp
  qed
  from Cons.IH [OF rest(1)] step Cons.prems(3) rest(2) show ?case by auto
qed simp

end

definition exec_ok :: "('tx, 'v, 'bm) ext \<Rightarrow> store_write \<Rightarrow> 'tx \<Rightarrow> bool \<times> 'tx" where
  "exec_ok X w db = (case exec_write X w db of (r, db', evs) \<Rightarrow> (r = Inr (), db'))"

text \<open>The documents of every valid entity.\<close>

definition documents :: "('tx, 'v, 'bm) ext \<Rightarrow> 'tx \<Rightarrow> string \<Rightarrow> string \<Rightarrow> bytes option" where
  "documents X db e = (if no_colon e then stored X db e else Map.empty)"

definition all_ok :: "('tx, 'v, 'bm) ext \<Rightarrow> 'tx \<Rightarrow> bool" where
  "all_ok X db \<longleftrightarrow> (\<forall>e. no_colon e \<longrightarrow> store_ok X db e)"

lemma exec_write_valid: "exec_write X w db = (Inr (), db', evs) \<Longrightarrow> no_colon (write_entity w)"
  by (cases w) (auto elim!: Put_cases Delete_cases BatchPut_cases)

context ext_laws
begin

lemma exec_write_all:
  assumes run: "exec_write X w db = (Inr (), db', evs)" and ok: "all_ok X db" and w: "write_ok w"
  shows "all_ok X db'"
    "documents X db' = (documents X db)(write_entity w := write_effect w (documents X db (write_entity w)))"
proof -
  have n: "no_colon (write_entity w)" by (rule exec_write_valid [OF run])
  with ok have k: "store_ok X db (write_entity w)" by (simp add: all_ok_def)
  note eff = exec_write_ok [OF run k w]
  have other: "store_ok X db' e = store_ok X db e \<and> stored X db' e = stored X db e"
    if "no_colon e" "e \<noteq> write_entity w" for e
    using frame_store_ok [OF exec_write_other [OF run k w that]] frame_store_views(1) [OF exec_write_other [OF run k w that]]
    by blast
  show "all_ok X db'"
    unfolding all_ok_def using other eff(1) ok by (metis all_ok_def)
  show "documents X db' = (documents X db)(write_entity w := write_effect w (documents X db (write_entity w)))"
    using other eff(4) n by (auto simp: documents_def fun_eq_iff)
qed

end

sublocale ext_laws \<subseteq> writes: write_contract "exec_ok X" "all_ok X" write_ok "documents X" write_entity write_effect
proof
  fix w db db'
  assume "exec_ok X w db = (False, db')"
  then obtain r evs where "exec_write X w db = (r, db', evs)" "r \<noteq> Inr ()"
    by (auto simp: exec_ok_def split: prod.splits)
  then show "db' = db" using exec_write_failed by (cases r) auto
next
  fix w db db'
  assume "exec_ok X w db = (True, db')" "all_ok X db" "write_ok w"
  moreover from this obtain evs where "exec_write X w db = (Inr (), db', evs)"
    by (auto simp: exec_ok_def split: prod.splits)
  ultimately show "all_ok X db'"
    "documents X db' = (documents X db)(write_entity w := write_effect w (documents X db (write_entity w)))"
    using exec_write_all by blast+
qed

section \<open>Readers\<close>

text \<open>The documents of an entity in the order of their ids.\<close>

definition doc_list :: "('tx, 'v, 'bm) ext \<Rightarrow> 'tx \<Rightarrow> string \<Rightarrow> (string \<times> bytes) list" where
  "doc_list X db e = map (\<lambda>(k, v). (k, contents (the (snappy_decode X v)))) (bucket_items X db (docsBucket e))"

context ext_laws
begin

lemma store_history:
  assumes "history (exec_ok X) ws db = (bs, db')" "all_ok X db" "\<forall>w \<in> set ws. write_ok w"
  shows "all_ok X db' \<and> length bs = length ws \<and>
    documents X db' = spec_history write_entity write_effect (zip ws bs) (documents X db)"
  using assms by (rule writes.history_refines)

lemma Get_result:
  assumes "docs_ok X db e" "validateIDs e d = Inr ()" "ctx 0 = None" "begin_err X db = None"
  shows "case stored X db e d of
      None \<Rightarrow> Get X ctx e d db = Inl (Sentinel ErrNotFound)
    | Some doc \<Rightarrow> (\<exists>b. Get X ctx e d db = Inr b \<and> contents b = doc)"
proof (cases "bucket_get X db (docsBucket e) d")
  case None
  with assms show ?thesis by (simp add: Get_def stored_def ctxErr_def db_view_def)
next
  case (Some raw)
  with assms(1) obtain s where "snappy_decode X raw = Some s" unfolding docs_ok_def by blast
  with Some get_has [OF Some] assms(2-4) show ?thesis
    by (simp add: Get_def stored_def ctxErr_def db_view_def)
qed

text \<open>\<^verbatim>\<open>Scan\<close> with a callback that never stops visits every document once, in the order of the
  document ids.\<close>

lemma scanLoop_all:
  assumes "\<forall>n. ctx n = None" "\<forall>(k, v) \<in> set items. snappy_decode X v \<noteq> None" "\<And>k b s. fst (fn k b s) = True"
  shows "scanLoop X ctx n fn items s =
    (Inr (), foldl (\<lambda>s (k, v). snd (fn k (the (snappy_decode X v)) s)) s items)"
  using assms(2)
proof (induction items arbitrary: n s)
  case (Cons kv items)
  obtain k v where kv: "kv = (k, v)" by (cases kv)
  with Cons.prems obtain b where b: "snappy_decode X v = Some b" by auto
  obtain s' where "fn k b s = (True, s')" using assms(3) [of k b s] by (cases "fn k b s") auto
  with Cons kv b assms(1) show ?case by simp
qed simp

lemma doc_list_spec:
  assumes "docs_ok X db e"
  shows "sorted_wrt (<) (map fst (doc_list X db e))" "map_of (doc_list X db e) = stored X db e"
proof -
  have fst: "map fst (doc_list X db e) = map fst (bucket_items X db (docsBucket e))"
    by (simp add: doc_list_def case_prod_unfold)
  then show "sorted_wrt (<) (map fst (doc_list X db e))" using items_sorted by simp
  show "map_of (doc_list X db e) = stored X db e"
  proof
    fix d
    have m: "map_of (doc_list X db e) d =
        map_option (\<lambda>v. contents (the (snappy_decode X v))) (bucket_get X db (docsBucket e) d)"
      unfolding doc_list_def by (simp add: map_of_map items_map)
    show "map_of (doc_list X db e) d = stored X db e d"
    proof (cases "bucket_get X db (docsBucket e) d")
      case None
      with m show ?thesis by (simp add: stored_def)
    next
      case (Some raw)
      with assms obtain s where "snappy_decode X raw = Some s" unfolding docs_ok_def by blast
      with m Some show ?thesis by (simp add: stored_def)
    qed
  qed
qed

lemma Scan_collects:
  assumes ok: "docs_ok X db e" and "validateEntityID e = Inr ()" "\<forall>n. ctx n = None" "begin_err X db = None"
  shows "Scan X ctx e (\<lambda>k b acc. (True, acc @ [(k, contents b)])) db [] = (Inr (), doc_list X db e)"
proof -
  let ?fn = "\<lambda>k b acc. (True, acc @ [(k, contents b)])" and ?items = "bucket_items X db (docsBucket e)"
  have dec: "\<forall>(k, v) \<in> set ?items. snappy_decode X v \<noteq> None"
    using ok unfolding docs_ok_def by (auto simp: in_items_iff)
  have fold: "foldl (\<lambda>s (k, v). s @ [(k, contents (the (snappy_decode X v)))]) acc items =
      acc @ map (\<lambda>(k, v). (k, contents (the (snappy_decode X v)))) items" for acc items
    by (induction items arbitrary: acc) auto
  have "doc_list X db e = []" if "\<not> has_bucket X db (docsBucket e)"
  proof -
    have "kv \<notin> set ?items" for kv using no_bucket_get [OF that] by (cases kv) (simp add: in_items_iff)
    then have "?items = []" by (metis list.set_intros(1) list.exhaust)
    then show ?thesis by (simp add: doc_list_def)
  qed
  moreover have "scanLoop X ctx 0 ?fn ?items [] = (Inr (), doc_list X db e)"
    by (subst scanLoop_all [OF assms(3) dec]) (simp_all add: fold doc_list_def)
  ultimately show ?thesis using assms(2-4) by (simp add: Scan_def ctxErr_def)
qed

text \<open>An empty database satisfies the invariant.\<close>

lemma all_ok_empty:
  assumes "\<And>n. \<not> has_bucket X db n"
  shows "all_ok X db"
proof -
  have g: "bucket_get X db n k = None" for n k by (rule no_bucket_get [OF assms])
  have idm: "idmap_ok X db e" for e by (rule idmap_ok_empty) (rule g)
  have doc: "doc_contents X db e = (\<lambda>_. [])" for e by (simp add: doc_contents_def stored_def g fun_eq_iff)
  have num: "num_members X db e k = {}" for e k by (simp add: num_members_def num_entries_def g)
  have av: "attr_value X a [] = None" for a by (simp add: attr_value_def doc_numerics_def byPath_def)
  have hv: "having X a (\<lambda>_. []) = {}" for a by (simp add: having_def av)
  have "counts_all X a (\<lambda>_. []) zeroStats" for a
    unfolding counts_all_def by (intro exI [of _ "[]"]) (simp add: hv)
  then have st: "stats_exact X db e (\<lambda>_. [])" for e
    by (simp add: stats_exact_def hv stats_of_def g stats_or_zero_def)
  have "index_inv X db e (\<lambda>_. []) (\<lambda>_. []) (\<lambda>_. []) (\<lambda>_. []) (\<lambda>_. []) (\<lambda>_. [])" for e
    unfolding index_inv_def
    by (simp add: idm st exact_index_def bm_at_def bm_wf_def g doc_terms_def num num_wf_def num_keys_def
        doc_numerics_def temporal_ok_def log_of_def log_exact_def temporalFields_def group_ok_def group_members_def
        group_keys_def groupByFields_def closure_ok_def closure_exact_def chain_of_def closureParent_def
        stats_ok_def absence_ok_def)
  then show ?thesis by (simp add: all_ok_def store_ok_def docs_ok_def g doc index_ok_def)
qed

end

section \<open>Reachable databases\<close>

text \<open>The databases that arise from an empty one by writes and by reading aggregates, which may
  store a recomputed one.\<close>

inductive reachable :: "('tx, 'v, 'bm) ext \<Rightarrow> 'tx \<Rightarrow> bool" for X where
  start: "(\<And>n. \<not> has_bucket X db n) \<Longrightarrow> reachable X db"
| step: "reachable X db \<Longrightarrow> write_ok w \<Longrightarrow> exec_write X w db = (r, db', evs) \<Longrightarrow> reachable X db'"
| statsread: "reachable X db \<Longrightarrow> validateEntityID e = Inr () \<Longrightarrow> statsRead X e a db = (r, db') \<Longrightarrow> reachable X db'"

context ext_laws
begin

lemma statsRead_all:
  assumes run: "statsRead X e a db = (r, db')" and ok: "all_ok X db" and e: "no_colon e"
  shows "all_ok X db'"
  unfolding all_ok_def
proof (intro allI impI)
  fix f assume f: "no_colon f"
  with ok have sf: "store_ok X db f" by (simp add: all_ok_def)
  have se: "index_ok X db e (doc_contents X db e)" using ok e by (simp add: all_ok_def store_ok_def)
  note eff = statsRead_ok [OF run se]
  show "store_ok X db' f"
  proof (cases "f = e")
    case True
    have st: "docsBucket e \<noteq> statsBucketName e" "metaBucket e \<noteq> statsBucketName e"
      by (simp_all add: docsBucket_def metaBucket_def statsBucketName_def)
    have g: "bucket_get X db' (docsBucket e) = bucket_get X db (docsBucket e)"
      "bucket_get X db' (metaBucket e) = bucket_get X db (metaBucket e)"
      using st by (simp_all add: frame_get [OF eff(2)])
    have "docs_ok X db' e = docs_ok X db e" "doc_contents X db' e = doc_contents X db e"
      by (simp_all add: docs_ok_def doc_contents_def stored_def g fun_eq_iff)
    with True sf eff(1) show ?thesis by (simp add: store_ok_def)
  next
    case False
    have "statsBucketName e \<in> entity_names e" by (simp add: entity_names_def index_names_def)
    with entity_names_disjoint [OF f e False] have "entity_names f \<inter> {statsBucketName e} = {}" by blast
    from frame_store_ok [OF eff(2) this] sf show ?thesis by simp
  qed
qed

lemma reachable_ok: "reachable X db \<Longrightarrow> all_ok X db"
proof (induction rule: reachable.induct)
  case (start db)
  then show ?case by (rule all_ok_empty)
next
  case (step db w r db' evs)
  show ?case
  proof (cases r)
    case (Inl er)
    with step exec_write_failed [of w db er] show ?thesis by auto
  next
    case (Inr u)
    with step exec_write_all(1) [of w db db' evs] show ?thesis by simp
  qed
next
  case (statsread db e a r db')
  then show ?case using statsRead_all validateEntityID_ok by blast
qed

end

end
