(* ===== verification/Lookup.thy ===== *)
theory Lookup
  imports Store
begin

text \<open>
  \<^verbatim>\<open>bboltstore/lookup.go\<close> and the result types of \<^verbatim>\<open>indexed.go\<close>: the query methods over the
  indexes. A query that returns documents reads the bitmap in one view transaction and
  resolves the ids in a second one, which may already see a later database; such a query takes
  both databases. Times are nanoseconds since the epoch.
\<close>

section \<open>Result types\<close>

datatype DocIDSet = emptyDocIDSet | stringDocIDSet "string list"

definition EmptyDocIDSet :: DocIDSet where
  "EmptyDocIDSet = emptyDocIDSet"

primrec Len :: "DocIDSet \<Rightarrow> nat" where
  "Len emptyDocIDSet = 0"
| "Len (stringDocIDSet ids) = length ids"

fun containsLoop :: "string \<Rightarrow> string list \<Rightarrow> bool" where
  "containsLoop docID [] = False"
| "containsLoop docID (x # ids) = (if x = docID then True else containsLoop docID ids)"

primrec Contains :: "DocIDSet \<Rightarrow> string \<Rightarrow> bool" where
  "Contains emptyDocIDSet docID = False"
| "Contains (stringDocIDSet ids) docID = containsLoop docID ids"

fun forEachLoop :: "(string \<Rightarrow> 's \<Rightarrow> bool \<times> 's) \<Rightarrow> string list \<Rightarrow> 's \<Rightarrow> 's" where
  "forEachLoop fn [] s = s"
| "forEachLoop fn (x # ids) s = (case fn x s of (go, s) \<Rightarrow> if \<not> go then s else forEachLoop fn ids s)"

primrec ForEach :: "DocIDSet \<Rightarrow> (string \<Rightarrow> 's \<Rightarrow> bool \<times> 's) \<Rightarrow> 's \<Rightarrow> 's" where
  "ForEach emptyDocIDSet fn s = s"
| "ForEach (stringDocIDSet ids) fn s = forEachLoop fn ids s"

record RangeOpts =
  MinExclusive :: bool
  MaxExclusive :: bool

record TemporalEvent =
  TDocID :: string
  TType :: string
  TAt :: i64

text \<open>A zero \<^verbatim>\<open>time.Time\<close> is \<^const>\<open>None\<close>.\<close>

record GroupBucket =
  Count :: i64
  First :: "i64 option"
  Last :: "i64 option"
  DocIDs :: "DocIDSet option"

record RunningStats =
  RCount :: i64
  RMean :: f64
  RM2 :: f64
  RMin :: f64
  RMax :: f64

section \<open>Queries\<close>

fun reverseLoop ::
  "('tx, 'v, 'bm) ext \<Rightarrow> string \<Rightarrow> u32 list \<Rightarrow> string list \<Rightarrow> 'tx \<Rightarrow> (string list) result" where
  "reverseLoop X entityID [] ids tx = Inr ids"
| "reverseLoop X entityID (internalID # rest) ids tx =
     bindR (idmapReverse X entityID internalID tx) (\<lambda>found.
     case found of
       None \<Rightarrow> Inl (NewErr ''bboltstore: orphan internalID in bitmap'')
     | Some docID \<Rightarrow> reverseLoop X entityID rest (ids @ [docID]) tx)"

definition materializeDocIDSet ::
  "('tx, 'v, 'bm) ext \<Rightarrow> string \<Rightarrow> 'bm \<Rightarrow> 'tx \<Rightarrow> DocIDSet result" where
  "materializeDocIDSet X entityID bm db =
     (if bm_is_empty X bm then Inr EmptyDocIDSet
      else bindR (db_view X (reverseLoop X entityID (bm_iter X bm) []) db) (\<lambda>ids.
           Inr (stringDocIDSet ids)))"

definition entityChecks :: "ctx \<Rightarrow> string \<Rightarrow> unit result" where
  "entityChecks ctx entityID = bindR (validateEntityID entityID) (\<lambda>_. ctxErr ctx 0)"

definition Lookup ::
  "('tx, 'v, 'bm) ext \<Rightarrow> ctx \<Rightarrow> string \<Rightarrow> string \<Rightarrow> 'tx \<Rightarrow> 'tx \<Rightarrow> DocIDSet result" where
  "Lookup X ctx entityID term db db2 =
     bindR (entityChecks ctx entityID) (\<lambda>_.
     bindR (db_view X (invIndexLookup X entityID term) db) (\<lambda>bm.
     materializeDocIDSet X entityID bm db2))"

definition LookupPrefix ::
  "('tx, 'v, 'bm) ext \<Rightarrow> ctx \<Rightarrow> string \<Rightarrow> string \<Rightarrow> 'tx \<Rightarrow> 'tx \<Rightarrow> DocIDSet result" where
  "LookupPrefix X ctx entityID pfx db db2 =
     bindR (entityChecks ctx entityID) (\<lambda>_.
     bindR (db_view X (invIndexLookupPrefix X entityID pfx) db) (\<lambda>bm.
     materializeDocIDSet X entityID bm db2))"

definition LookupNumericRange ::
  "('tx, 'v, 'bm) ext \<Rightarrow> ctx \<Rightarrow> string \<Rightarrow> string \<Rightarrow> f64 \<Rightarrow> f64 \<Rightarrow> RangeOpts \<Rightarrow> 'tx \<Rightarrow> 'tx \<Rightarrow> DocIDSet result"
where
  "LookupNumericRange X ctx entityID attr mn mx opts db db2 =
     bindR (entityChecks ctx entityID) (\<lambda>_.
     bindR (db_view X (numIndexRange X entityID attr mn mx (MinExclusive opts) (MaxExclusive opts)) db) (\<lambda>bm.
     materializeDocIDSet X entityID bm db2))"

definition Descendants ::
  "('tx, 'v, 'bm) ext \<Rightarrow> ctx \<Rightarrow> string \<Rightarrow> string \<Rightarrow> 'tx \<Rightarrow> 'tx \<Rightarrow> DocIDSet result" where
  "Descendants X ctx entityID rootID db db2 =
     bindR (entityChecks ctx entityID) (\<lambda>_.
     bindR (db_view X (closureReadDescendants X entityID rootID) db) (\<lambda>bm.
     materializeDocIDSet X entityID bm db2))"

definition Ancestors ::
  "('tx, 'v, 'bm) ext \<Rightarrow> ctx \<Rightarrow> string \<Rightarrow> string \<Rightarrow> 'tx \<Rightarrow> (string list) result" where
  "Ancestors X ctx entityID categoryID db =
     bindR (entityChecks ctx entityID) (\<lambda>_.
     db_view X (closureReadAncestors X entityID categoryID) db)"

definition LastSeen ::
  "('tx, 'v, 'bm) ext \<Rightarrow> ctx \<Rightarrow> string \<Rightarrow> string \<Rightarrow> string \<Rightarrow> 'tx \<Rightarrow> (i64 option) result" where
  "LastSeen X ctx entityID itemID recordType db =
     bindR (entityChecks ctx entityID) (\<lambda>_.
     bindR (db_view X (absenceLookup X entityID itemID recordType) db) (\<lambda>(at, found).
     Inr (if \<not> found then None else Some at)))"

text \<open>\<^verbatim>\<open>Store.Stats\<close> may write a recomputed aggregate, so it returns the database too.\<close>

definition StatsFor ::
  "('tx, 'v, 'bm) ext \<Rightarrow> ctx \<Rightarrow> string \<Rightarrow> string \<Rightarrow> 'tx \<Rightarrow> RunningStats result \<times> 'tx" where
  "StatsFor X ctx entityID attr db =
     (case entityChecks ctx entityID of
        Inl e \<Rightarrow> (Inl e, db)
      | Inr _ \<Rightarrow>
          (case statsRead X entityID attr db of
             (Inl e, db) \<Rightarrow> (Inl e, db)
           | (Inr v, db) \<Rightarrow>
               (Inr \<lparr>RCount = SCount v, RMean = Mean v, RM2 = M2 v, RMin = SMin v, RMax = SMax v\<rparr>, db)))"

definition GroupCount ::
  "('tx, 'v, 'bm) ext \<Rightarrow> ctx \<Rightarrow> string \<Rightarrow> string \<Rightarrow> string \<Rightarrow> string \<Rightarrow> 'tx \<Rightarrow> 'tx \<Rightarrow> GroupBucket result" where
  "GroupCount X ctx entityID itemID attr vl db db2 =
     bindR (entityChecks ctx entityID) (\<lambda>_.
     bindR (db_view X (groupByRead X entityID itemID attr vl) db) (\<lambda>(v, bm).
     if GCount v = 0 then Inr \<lparr>Count = 0, First = None, Last = None, DocIDs = None\<rparr>
     else bindR (materializeDocIDSet X entityID bm db2) (\<lambda>docIDs.
          Inr \<lparr>Count = GCount v, First = Some (FirstSeen v), Last = Some (GLastSeen v), DocIDs = Some docIDs\<rparr>)))"

definition toEvent :: "temporalEntry \<Rightarrow> TemporalEvent" where
  "toEvent e = \<lparr>TDocID = EDocID e, TType = EType e, TAt = At e\<rparr>"

definition WindowQuery ::
  "('tx, 'v, 'bm) ext \<Rightarrow> ctx \<Rightarrow> string \<Rightarrow> string \<Rightarrow> string list \<Rightarrow> i64 \<Rightarrow> 'tx \<Rightarrow> (TemporalEvent list) result" where
  "WindowQuery X ctx entityID itemID types window db =
     bindR (entityChecks ctx entityID) (\<lambda>_.
     bindR (db_view X (temporalRead X entityID itemID types) db) (\<lambda>entries.
     Inr (map toEvent entries)))"

section \<open>The interface of document sets\<close>

text \<open>What callers of \<^verbatim>\<open>DocIDSet\<close> rely on, whatever implements it: the members in the order of
  \<^verbatim>\<open>ForEach\<close>, their number, and membership.\<close>

locale docid_set =
  fixes len :: "'set \<Rightarrow> nat"
    and contains :: "'set \<Rightarrow> string \<Rightarrow> bool"
    and members :: "'set \<Rightarrow> string list"
    and for_each :: "'set \<Rightarrow> (string \<Rightarrow> string list \<Rightarrow> bool \<times> string list) \<Rightarrow> string list \<Rightarrow> string list"
  assumes len_members: "len s = length (members s)"
    and contains_members: "contains s d \<longleftrightarrow> d \<in> set (members s)"
    and for_each_collect: "for_each s (\<lambda>d acc. (True, acc @ [d])) acc = acc @ members s"
begin

text \<open>Collecting with \<^verbatim>\<open>ForEach\<close>, as \<^verbatim>\<open>docIDSetToSorted\<close> and the server do.\<close>

lemma collected_contains: "d \<in> set (for_each s (\<lambda>d acc. (True, acc @ [d])) []) \<longleftrightarrow> contains s d"
  by (simp add: for_each_collect contains_members)

lemma collected_len: "length (for_each s (\<lambda>d acc. (True, acc @ [d])) []) = len s"
  by (simp add: for_each_collect len_members)

end

primrec docids :: "DocIDSet \<Rightarrow> string list" where
  "docids emptyDocIDSet = []"
| "docids (stringDocIDSet ids) = ids"

lemma containsLoop_iff: "containsLoop d ids \<longleftrightarrow> d \<in> set ids"
  by (induction ids) auto

lemma forEachLoop_collect: "forEachLoop (\<lambda>d acc. (True, acc @ [d])) ids acc = acc @ ids"
  by (induction ids arbitrary: acc) auto

interpretation dset: docid_set Len Contains docids ForEach
proof
  fix s d acc
  show "Len s = length (docids s)" by (cases s) simp_all
  show "Contains s d \<longleftrightarrow> d \<in> set (docids s)" by (cases s) (simp_all add: containsLoop_iff)
  show "ForEach s (\<lambda>d acc. (True, acc @ [d])) acc = acc @ docids s"
    by (cases s) (simp_all add: forEachLoop_collect)
qed

lemma toEvent_inject [simp]: "toEvent a = toEvent b \<longleftrightarrow> a = b"
  by (cases a, cases b) (auto simp: toEvent_def)

section \<open>Correctness\<close>

text \<open>An id handed out once stays with its document: the second view resolves what the first one
  has read.\<close>

definition ids_kept :: "('tx, 'v, 'bm) ext \<Rightarrow> string \<Rightarrow> 'tx \<Rightarrow> 'tx \<Rightarrow> bool" where
  "ids_kept X e db db2 \<longleftrightarrow>
     idmap_ok X db2 e \<and> (\<forall>d i. id_of X db e d = Some i \<longrightarrow> id_of X db2 e d = Some i)"

lemma ids_kept_refl: "idmap_ok X db e \<Longrightarrow> ids_kept X e db db"
  by (simp add: ids_kept_def)

lemma entityChecks_ok: "entityChecks ctx e = Inr u \<longleftrightarrow> e \<noteq> [] \<and> no_colon e \<and> ctx 0 = None"
  by (auto simp: entityChecks_def result_simps validateEntityID_ok ctxErr_ok)

text \<open>The query is admitted: a valid entity, a live context, and both views begin.\<close>

definition admitted :: "('tx, 'v, 'bm) ext \<Rightarrow> ctx \<Rightarrow> string \<Rightarrow> 'tx \<Rightarrow> 'tx \<Rightarrow> bool" where
  "admitted X ctx e db db2 \<longleftrightarrow>
     e \<noteq> [] \<and> no_colon e \<and> ctx 0 = None \<and> begin_err X db = None \<and> begin_err X db2 = None"

lemma admitted_checks: "e \<noteq> [] \<Longrightarrow> no_colon e \<Longrightarrow> ctx 0 = None \<Longrightarrow> entityChecks ctx e = Inr ()"
  by (simp add: entityChecks_ok)

context ext_laws
begin

lemma reverseLoop_ok:
  assumes "\<And>i. i \<in> set is \<Longrightarrow> doc_of X db e i \<noteq> None"
  shows "reverseLoop X e is ids db = Inr (ids @ map (\<lambda>i. the (doc_of X db e i)) is)"
  using assms
proof (induction "is" arbitrary: ids)
  case (Cons i "is")
  then obtain d where "doc_of X db e i = Some d" by fastforce
  with Cons show ?case by (simp add: idmapReverse_ok)
qed simp

text \<open>Resolving a bitmap whose ids belong to documents gives those documents, each once.\<close>

lemma materializeDocIDSet_ok:
  assumes kept: "ids_kept X e db db2" and b: "begin_err X db2 = None"
    and all: "\<And>i. i \<in> set (bm_iter X bm) \<Longrightarrow> \<exists>d. id_of X db e d = Some i"
  shows "\<exists>s. materializeDocIDSet X e bm db2 = Inr s \<and> distinct (docids s) \<and>
    set (docids s) = {d. \<exists>i \<in> set (bm_iter X bm). id_of X db e d = Some i}"
proof -
  have ok2: "idmap_ok X db2 e" using kept by (simp add: ids_kept_def)
  have rev: "\<exists>d. id_of X db e d = Some i \<and> doc_of X db2 e i = Some d" if "i \<in> set (bm_iter X bm)" for i
    using all [OF that] kept idmap_okD(3) [OF ok2] by (auto simp: ids_kept_def)
  let ?ids = "map (\<lambda>i. the (doc_of X db2 e i)) (bm_iter X bm)"
  have loop: "reverseLoop X e (bm_iter X bm) [] db2 = Inr ?ids"
    using rev by (subst reverseLoop_ok) auto
  have "inj_on (\<lambda>i. the (doc_of X db2 e i)) (set (bm_iter X bm))"
  proof (rule inj_onI)
    fix i j assume ij: "i \<in> set (bm_iter X bm)" "j \<in> set (bm_iter X bm)"
      "the (doc_of X db2 e i) = the (doc_of X db2 e j)"
    then obtain d where "doc_of X db2 e i = Some d" "doc_of X db2 e j = Some d"
      using rev [OF ij(1)] rev [OF ij(2)] by auto
    then show "i = j" using idmap_okD(3) [OF ok2] by (metis option.inject)
  qed
  then have dist: "distinct ?ids"
    using iter_sorted [of bm] by (simp add: distinct_map strict_sorted_iff)
  have set: "set ?ids = {d. \<exists>i \<in> set (bm_iter X bm). id_of X db e d = Some i}"
  proof (intro set_eqI iffI)
    fix d assume "d \<in> set ?ids"
    then obtain i where i: "i \<in> set (bm_iter X bm)" "d = the (doc_of X db2 e i)" by auto
    with rev [OF i(1)] show "d \<in> {d. \<exists>i \<in> set (bm_iter X bm). id_of X db e d = Some i}" by auto
  next
    fix d assume "d \<in> {d. \<exists>i \<in> set (bm_iter X bm). id_of X db e d = Some i}"
    then obtain i where i: "i \<in> set (bm_iter X bm)" "id_of X db e d = Some i" by blast
    then have "doc_of X db2 e i = Some d" using kept idmap_okD(3) [OF ok2] by (auto simp: ids_kept_def)
    with i(1) show "d \<in> set ?ids" by force
  qed
  show ?thesis
  proof (cases "bm_is_empty X bm")
    case True
    then have "bm_iter X bm = []" by (simp add: is_empty)
    with True show ?thesis by (simp add: materializeDocIDSet_def EmptyDocIDSet_def)
  next
    case False
    with loop b have "materializeDocIDSet X e bm db2 = Inr (stringDocIDSet ?ids)"
      by (simp add: materializeDocIDSet_def db_view_def)
    with dist set show ?thesis by (intro exI [of _ "stringDocIDSet ?ids"]) simp
  qed
qed

text \<open>The documents behind an exact index.\<close>

lemma exact_documents:
  assumes "exact_index M K (id_of X db e) D" "\<forall>d. D d \<noteq> [] \<longrightarrow> id_of X db e d \<noteq> None" "K [] = {}"
    and inj: "inj_ids (id_of X db e)"
  shows "{d. \<exists>i \<in> (\<Union>k \<in> S. M k). id_of X db e d = Some i} = {d. \<exists>k \<in> S. k \<in> K (D d)}"
proof (intro set_eqI iffI; clarify)
  fix d i k assume "k \<in> S" "i \<in> M k" "id_of X db e d = Some i"
  with exact_index_self [OF assms(1) inj] show "\<exists>k \<in> S. k \<in> K (D d)" by blast
next
  fix d k assume k: "k \<in> S" "k \<in> K (D d)"
  then have "D d \<noteq> []" using assms(3) by force
  with assms(2) obtain i where "id_of X db e d = Some i" by blast
  with k exact_index_self [OF assms(1) inj] show "\<exists>i \<in> (\<Union>k \<in> S. M k). id_of X db e d = Some i" by blast
qed

lemma exact_has_doc:
  "exact_index M K (id_of X db e) D \<Longrightarrow> i \<in> (\<Union>k \<in> S. M k) \<Longrightarrow> \<exists>d. id_of X db e d = Some i"
  unfolding exact_index_def by blast

lemma store_okD:
  assumes "store_ok X db e"
  shows "index_inv X db e (doc_contents X db e) (doc_contents X db e) (doc_contents X db e) (doc_contents X db e)
      (doc_contents X db e) (doc_contents X db e)"
    "\<forall>d. doc_contents X db e d \<noteq> [] \<longrightarrow> id_of X db e d \<noteq> None" "inj_ids (id_of X db e)"
  using assms inj_of by (auto simp: store_ok_def index_ok_def)

text \<open>The shape shared by the queries over exact indexes.\<close>

lemma query_documents:
  assumes ok: "store_ok X db e" and kept: "ids_kept X e db db2" "begin_err X db2 = None"
    and ex: "exact_index M K (id_of X db e) (doc_contents X db e)" and no: "K [] = {}"
    and bm: "set (bm_iter X bm) = (\<Union>k \<in> S. M k)"
  shows "\<exists>s. materializeDocIDSet X e bm db2 = Inr s \<and> distinct (docids s) \<and>
    set (docids s) = {d. \<exists>k \<in> S. k \<in> K (doc_contents X db e d)}"
proof -
  have has: "\<exists>d. id_of X db e d = Some i" if "i \<in> set (bm_iter X bm)" for i
    using exact_has_doc [OF ex] that unfolding bm by blast
  obtain s where s: "materializeDocIDSet X e bm db2 = Inr s" "distinct (docids s)"
    "set (docids s) = {d. \<exists>i \<in> set (bm_iter X bm). id_of X db e d = Some i}"
    using materializeDocIDSet_ok [OF kept has] by blast
  then show ?thesis
    unfolding bm exact_documents [OF ex store_okD(2) [OF ok] no store_okD(3) [OF ok]] by blast
qed

lemma Lookup_documents:
  assumes ok: "store_ok X db e" and kept: "ids_kept X e db db2" and ad: "admitted X ctx e db db2"
  shows "\<exists>s. Lookup X ctx e t db db2 = Inr s \<and> distinct (docids s) \<and>
    set (docids s) = {d. t \<in> doc_terms X (doc_contents X db e d)}"
proof -
  have inv: "bm_wf X db (invIndexBucketName e)"
    "exact_index (postings X db e) (doc_terms X) (id_of X db e) (doc_contents X db e)"
    using store_okD(1) [OF ok] by (simp_all add: index_inv_def)
  obtain bm where bm: "invIndexLookup X e t db = Inr bm" using invIndexLookup_succeeds [OF inv(1)] by blast
  have "set (bm_iter X bm) = (\<Union>k \<in> {t}. postings X db e k)" by (simp add: invIndexLookup_set [OF bm])
  from query_documents [OF ok kept _ inv(2) inverted.no_keys this] ad bm show ?thesis
    by (simp add: Lookup_def admitted_def db_view_def admitted_checks)
qed

lemma LookupPrefix_documents:
  assumes ok: "store_ok X db e" and kept: "ids_kept X e db db2" and ad: "admitted X ctx e db db2"
  shows "\<exists>s. LookupPrefix X ctx e p db db2 = Inr s \<and> distinct (docids s) \<and>
    set (docids s) = {d. \<exists>t. prefix p t \<and> t \<in> doc_terms X (doc_contents X db e d)}"
proof -
  have inv: "bm_wf X db (invIndexBucketName e)"
    "exact_index (postings X db e) (doc_terms X) (id_of X db e) (doc_contents X db e)"
    using store_okD(1) [OF ok] by (simp_all add: index_inv_def)
  obtain bm where run: "invIndexLookupPrefix X e p db = Inr bm"
    using invIndexLookupPrefix_succeeds [OF inv(1)] by blast
  have "set (bm_iter X bm) = (\<Union>k \<in> {t. prefix p t}. postings X db e k)"
    by (simp add: invIndexLookupPrefix_set [OF run])
  from query_documents [OF ok kept _ inv(2) inverted.no_keys this] ad run show ?thesis
    by (simp add: LookupPrefix_def admitted_def db_view_def admitted_checks)
qed

lemma LookupNumericRange_documents:
  assumes ok: "store_ok X db e" and kept: "ids_kept X e db db2" and ad: "admitted X ctx e db db2"
    and fin: "f64_finite mn" "f64_finite mx"
  shows "\<exists>s. LookupNumericRange X ctx e a mn mx opts db db2 = Inr s \<and> distinct (docids s) \<and>
    set (docids s) = {d. \<exists>v. (a, v) \<in> num_keys X (doc_contents X db e d) \<and>
      in_range mn mx (MinExclusive opts) (MaxExclusive opts) v}"
proof -
  let ?S = "{(a', v). a' = a \<and> in_range mn mx (MinExclusive opts) (MaxExclusive opts) v}"
  have inv: "num_wf X db e" "exact_index (num_members X db e) (num_keys X) (id_of X db e) (doc_contents X db e)"
    using store_okD(1) [OF ok] by (simp_all add: index_inv_def)
  obtain bm where run: "numIndexRange X e a mn mx (MinExclusive opts) (MaxExclusive opts) db = Inr bm"
    using numIndexRange_error_iff [OF inv(1)] fin by (metis sumE)
  have "set (bm_iter X bm) = (\<Union>k \<in> ?S. num_members X db e k)"
    by (auto simp: numIndexRange_set [OF inv(1) run] num_members_def)
  from query_documents [OF ok kept _ inv(2) numeric.no_keys this] ad run show ?thesis
    by (simp add: LookupNumericRange_def admitted_def db_view_def admitted_checks conj_commute)
qed

lemma LookupNumericRange_invalid:
  assumes ok: "store_ok X db e" and ad: "admitted X ctx e db db2" and "\<not> (f64_finite mn \<and> f64_finite mx)"
  shows "LookupNumericRange X ctx e a mn mx opts db db2 = Inl (NewErr ''numidx: invalid bound (NaN/Inf)'')"
  using assms(2,3)
  by (auto simp: LookupNumericRange_def admitted_def db_view_def admitted_checks numIndexRange_def f64_finite_iff)

lemma Descendants_documents:
  assumes ok: "store_ok X db e" and kept: "ids_kept X e db db2" and ad: "admitted X ctx e db db2"
  shows "\<exists>s. Descendants X ctx e r db db2 = Inr s \<and> distinct (docids s) \<and>
    set (docids s) = {d. \<exists>c. chain_of X db e d = Some c \<and> r \<in> set c}"
proof -
  have inv: "closure_ok X db e" "closure_exact X db e (id_of X db e)"
    and par: "\<And>d. map_option hd (chain_of X db e d) = closureParent X (doc_contents X db e d)"
    using store_okD(1) [OF ok] by (simp_all add: index_inv_def)
  obtain bm where run: "closureReadDescendants X e r db = Inr bm" "set (bm_iter X bm) = below X db e r"
    using closureReadDescendants_ok [OF inv(1)] by blast
  have has: "\<exists>d. id_of X db e d = Some i" if "i \<in> set (bm_iter X bm)" for i
    using that inv(2) unfolding run(2) closure_exact_def by blast
  have b2: "begin_err X db2 = None" using ad by (simp add: admitted_def)
  have id: "\<exists>i. id_of X db e d = Some i" if "chain_of X db e d = Some c" for d c
  proof -
    have "closureParent X (doc_contents X db e d) \<noteq> None" using par [of d] that by (metis option.distinct(1) option.map(2))
    then have "doc_contents X db e d \<noteq> []" by (rule closureParent_nonempty)
    with store_okD(2) [OF ok] show ?thesis by blast
  qed
  have "{d. \<exists>i \<in> below X db e r. id_of X db e d = Some i} = {d. \<exists>c. chain_of X db e d = Some c \<and> r \<in> set c}"
  proof (intro set_eqI iffI; clarify)
    fix d i assume "i \<in> below X db e r" "id_of X db e d = Some i"
    with inv(2) inj_idsD [OF store_okD(3) [OF ok]] show "\<exists>c. chain_of X db e d = Some c \<and> r \<in> set c"
      unfolding closure_exact_def by metis
  next
    fix d c assume c: "chain_of X db e d = Some c" "r \<in> set c"
    obtain i where "id_of X db e d = Some i" using id [OF c(1)] by blast
    with c inv(2) show "\<exists>i \<in> below X db e r. id_of X db e d = Some i"
      unfolding closure_exact_def by blast
  qed
  then have "\<exists>s. materializeDocIDSet X e bm db2 = Inr s \<and> distinct (docids s) \<and>
      set (docids s) = {d. \<exists>c. chain_of X db e d = Some c \<and> r \<in> set c}"
    using materializeDocIDSet_ok [where bm = bm, OF kept b2 has] unfolding run(2) by simp
  with ad run(1) show ?thesis
    by (simp add: Descendants_def admitted_def db_view_def admitted_checks)
qed

lemma Ancestors_result:
  assumes ok: "store_ok X db e" and ad: "admitted X ctx e db db2"
  shows "Ancestors X ctx e d db = Inr (case chain_of X db e d of None \<Rightarrow> [] | Some c \<Rightarrow> c)"
proof -
  have "closure_ok X db e" using store_okD(1) [OF ok] by (simp add: index_inv_def)
  from closureReadAncestors_result [OF this] ad show ?thesis
    by (simp add: Ancestors_def admitted_def db_view_def admitted_checks)
qed

lemma LastSeen_result:
  assumes ok: "store_ok X db e" and ad: "admitted X ctx e db db2"
  shows "LastSeen X ctx e item ty db = Inr (map_option AbsAt (cell_of X db e (absenceCellKey item ty)))"
proof -
  have "absence_ok X db e" using store_okD(1) [OF ok] by (simp add: index_inv_def)
  from absenceLookup_result [OF this] ad show ?thesis
    by (simp add: LastSeen_def admitted_def db_view_def admitted_checks split: option.splits)
qed

lemma WindowQuery_events:
  assumes ok: "store_ok X db e" and ad: "admitted X ctx e db db2"
  shows "\<exists>evs. WindowQuery X ctx e item types w db = Inr evs \<and>
    sorted_wrt (\<lambda>a b. sint (TAt a) \<le> sint (TAt b)) evs \<and> distinct (map TDocID evs) \<and>
    (\<forall>ev. ev \<in> set evs \<longleftrightarrow>
      temporalFields X (doc_contents X db e (TDocID ev)) = Some (item, TType ev, TAt ev) \<and>
      (types = [] \<or> TType ev \<in> set types))"
proof -
  have inv: "temporal_ok X db e" "log_exact X db e (doc_contents X db e)"
    using store_okD(1) [OF ok] by (simp_all add: index_inv_def)
  let ?es = "if types = [] then log_of X db e item else filter (\<lambda>en. EType en \<in> set types) (log_of X db e item)"
  have run: "WindowQuery X ctx e item types w db = Inr (map toEvent ?es)"
    using ad by (simp add: WindowQuery_def admitted_def db_view_def admitted_checks temporalRead_def
        loadTemporal_succeeds [OF inv(1)])
  have log: "sorted_log (log_of X db e item)" "distinct (map EDocID (log_of X db e item))"
    using inv(1) by (auto simp: temporal_ok_def)
  have "sorted_wrt (\<lambda>a b. sint (TAt a) \<le> sint (TAt b)) (map toEvent ?es)"
    using log(1) by (simp add: sorted_wrt_map toEvent_def sorted_wrt_filter)
  moreover have docid: "map TDocID (map toEvent es) = map EDocID es" for es by (simp add: toEvent_def)
  have "distinct (map TDocID (map toEvent ?es))"
    unfolding docid using log(2) distinct_map_filter [of EDocID "log_of X db e item"] by simp
  moreover have "ev \<in> set (map toEvent ?es) \<longleftrightarrow>
      temporalFields X (doc_contents X db e (TDocID ev)) = Some (item, TType ev, TAt ev) \<and>
      (types = [] \<or> TType ev \<in> set types)" for ev
  proof -
    obtain d t a where ev: "ev = toEvent \<lparr>At = a, EType = t, EDocID = d\<rparr>"
      by (cases ev) (auto simp: toEvent_def)
    have "ev \<in> set (map toEvent es) \<longleftrightarrow> \<lparr>At = a, EType = t, EDocID = d\<rparr> \<in> set es" for es
      unfolding ev by auto
    moreover have "\<lparr>At = a, EType = t, EDocID = d\<rparr> \<in> set (log_of X db e item) \<longleftrightarrow>
        temporalFields X (doc_contents X db e d) = Some (item, t, a)"
      using inv(2) unfolding log_exact_def by simp
    ultimately show ?thesis by (auto simp: ev toEvent_def)
  qed
  ultimately show ?thesis using run by blast
qed

lemma GroupCount_documents:
  assumes ok: "store_ok X db e" and kept: "ids_kept X e db db2" and ad: "admitted X ctx e db db2"
  shows "let members = {d. groupByKey item attr vl \<in> group_keys X (doc_contents X db e d)} in
    finite members \<and>
    (\<exists>g. GroupCount X ctx e item attr vl db db2 = Inr g \<and> Count g = word_of_nat (card members) \<and>
      (if members = {} then DocIDs g = None
       else \<exists>s. DocIDs g = Some s \<and> distinct (docids s) \<and> set (docids s) = members))"
proof -
  let ?k = "groupByKey item attr vl" and ?D = "doc_contents X db e"
  let ?m = "{d. ?k \<in> group_keys X (?D d)}"
  have inv: "group_ok X db e" "exact_index (group_members X db e) (group_keys X) (id_of X db e) ?D"
    using store_okD(1) [OF ok] by (simp_all add: index_inv_def)
  obtain g bm where run: "groupByRead X e item attr vl db = Inr (g, bm)"
    and bm: "set (bm_iter X bm) = group_members X db e ?k"
    and cnt: "GCount g = word_of_nat (card (group_members X db e ?k))"
    using groupByRead_ok [OF inv(1)] by blast
  have "set (bm_iter X bm) = (\<Union>k \<in> {?k}. group_members X db e k)" using bm by simp
  from query_documents [OF ok kept _ inv(2) groups.no_keys this] ad obtain s where
    s: "materializeDocIDSet X e bm db2 = Inr s" "distinct (docids s)" "set (docids s) = ?m"
    by (auto simp: admitted_def)
  have fin: "finite ?m" using s(3) by (metis List.finite_set)
  have "bij_betw (\<lambda>d. the (id_of X db e d)) ?m (group_members X db e ?k)"
  proof (rule bij_betwI')
    have id: "\<exists>i. id_of X db e d = Some i" if "d \<in> ?m" for d
    proof -
      have "?D d \<noteq> []" using that groups.no_keys by fastforce
      with store_okD(2) [OF ok] show ?thesis by blast
    qed
    show "the (id_of X db e x) = the (id_of X db e y) \<longleftrightarrow> x = y" if "x \<in> ?m" "y \<in> ?m" for x y
      using id [OF that(1)] id [OF that(2)] inj_idsD [OF store_okD(3) [OF ok]] by (metis option.sel)
    show "the (id_of X db e d) \<in> group_members X db e ?k" if "d \<in> ?m" for d
      using id [OF that] that inv(2) unfolding exact_index_def by auto
    show "\<exists>d \<in> ?m. i = the (id_of X db e d)" if "i \<in> group_members X db e ?k" for i
      using that inv(2) unfolding exact_index_def by fastforce
  qed
  then have card: "card (group_members X db e ?k) = card ?m" by (simp add: bij_betw_same_card)
  have "card (group_members X db e ?k) \<le> 2 ^ 32"
    using bm iter_length_le [of bm] by (metis iter_card)
  then have "word_of_nat (card ?m) = (0 :: i64) \<longleftrightarrow> card ?m = 0"
    unfolding card word_of_nat_eq_0_iff by (auto dest: dvd_imp_le)
  then have zero: "GCount g = 0 \<longleftrightarrow> ?m = {}" using fin by (simp add: cnt card)
  have "GroupCount X ctx e item attr vl db db2 =
    (if ?m = {} then Inr \<lparr>Count = 0, First = None, Last = None, DocIDs = None\<rparr>
     else Inr \<lparr>Count = GCount g, First = Some (FirstSeen g), Last = Some (GLastSeen g), DocIDs = Some s\<rparr>)"
    using ad run s(1) zero by (simp add: GroupCount_def admitted_def db_view_def admitted_checks)
  with fin s(2,3) cnt card show ?thesis by (auto simp: Let_def)
qed

lemma StatsFor_result:
  assumes run: "StatsFor X ctx e a db = (Inr rs, db')" and ok: "store_ok X db e"
    and sv: "single_valued X a (doc_contents X db e)"
  shows "\<exists>vs. mset vs = image_mset (\<lambda>d. the (attr_value X a (doc_contents X db e d)))
        (mset_set (having X a (doc_contents X db e))) \<and>
      rs = \<lparr>RCount = SCount (welford vs), RMean = Mean (welford vs), RM2 = M2 (welford vs),
        RMin = SMin (welford vs), RMax = SMax (welford vs)\<rparr>"
proof -
  from run obtain v where v: "statsRead X e a db = (Inr v, db')"
    "rs = \<lparr>RCount = SCount v, RMean = Mean v, RM2 = M2 v, RMin = SMin v, RMax = SMax v\<rparr>"
    by (auto simp: StatsFor_def split: sum.splits prod.splits)
  have "index_ok X db e (doc_contents X db e)" using ok by (simp add: store_ok_def)
  from statsRead_ok(3) [OF v(1) this _ sv] v(2) show ?thesis unfolding counts_all_def by blast
qed

text \<open>Writes and aggregate reads keep every id.\<close>

lemma putInTxEvents_ids:
  assumes run: "putInTxEvents X now e d doc tx = Inr (ev, tx')" and id: "id_of X tx e x = Some i"
    and ok: "idmap_ok X tx e"
  shows "id_of X tx' e x = Some i"
proof -
  obtain old t where f: "frame X {docsBucket e, metaBucket e} tx t"
    and ix: "indexDocOnPut X e d (contents old) doc t = Inr tx'"
    using putInTxEvents_parts [OF run] by blast
  have n: "idmap_names e \<inter> {docsBucket e, metaBucket e} = {}"
    using store_names_index [of e e] unfolding index_names_def by blast
  obtain j t2 where a: "idmapAssign X e d t = Inr (j, t2)"
    and s: "index_steps e d j (contents old) doc t2 = Inr tx'"
    using ix unfolding indexDocOnPut_steps by blast
  have idt: "id_of X t e = id_of X tx e" by (rule frame_idmap_views(1) [OF f n])
  have "id_of X t2 e x = Some i"
  proof (cases "x = d")
    case True
    with a id idt show ?thesis
      by (cases rule: idmapAssign_cases) (auto simp: idmapAssign_id_of [OF a])
  next
    case False
    with id idt show ?thesis by (simp add: idmapAssign_id_of [OF a])
  qed
  moreover have "id_of X tx' e = id_of X t2 e"
    using frame_idmap_views(1) [OF index_steps_frame [OF s]] by blast
  ultimately show ?thesis by simp
qed

lemma deleteInTx_ids:
  assumes run: "deleteInTx X now e d tx = Inr (evs, tx')" and ok: "docs_ok X tx e" "idmap_ok X tx e"
  shows "id_of X tx' e = id_of X tx e"
proof -
  obtain old t where f: "frame X {docsBucket e, metaBucket e} tx t"
    and rest: "case old of None \<Rightarrow> evs = [] \<and> tx' = t
     | Some b \<Rightarrow> indexDocOnDelete X e d b t = Inr tx' \<and>
         evs = [\<lparr>Kind = EventRetract, EntityID = e, DocID = d, OldDoc = old, NewDoc = None, AtUnixNanos = now\<rparr>]"
    using deleteInTx_parts [OF run ok(1)] by - (elim exE conjE, rule that)
  have n: "idmap_names e \<inter> {docsBucket e, metaBucket e} = {}"
    using store_names_index [of e e] unfolding index_names_def by blast
  note t = frame_idmap_views [OF f n]
  have "id_of X tx' e = id_of X t e"
  proof (cases old)
    case (Some b)
    with rest have del: "indexDocOnDelete X e d b t = Inr tx'" by simp
    show ?thesis
    proof (cases "id_of X t e d")
      case None
      with del show ?thesis using indexDocOnDelete_steps [of t e d b tx'] t(3) ok(2) by simp
    next
      case (Some i)
      with del have "index_steps e d i b [] t = Inr tx'"
        using indexDocOnDelete_steps [of t e d b tx'] t(3) ok(2) by simp
      from frame_idmap_views(1) [OF index_steps_frame [OF this]] show ?thesis by blast
    qed
  qed (use rest in simp)
  with t(1) show ?thesis by simp
qed

lemma batchLoop_ids:
  assumes "batchLoop X ctx now e n docs pending tx = Inr (evs, tx')" "store_ok X tx e"
    "\<forall>(d, doc) \<in> set docs. utf8_ok d" "id_of X tx e x = Some i"
  shows "id_of X tx' e x = Some i"
  using assms
proof (induction docs arbitrary: n pending tx)
  case (Cons dd docs)
  obtain d doc where dd: "dd = (d, doc)" by (cases dd)
  from Cons.prems(1) obtain ev t where p: "putInTxEvents X (now n) e d doc tx = Inr (ev, t)"
    and rest: "batchLoop X ctx now e (Suc n) docs (pending @ [ev]) t = Inr (evs, tx')"
    by (auto simp: dd result_simps)
  have u: "utf8_ok d" using Cons.prems(3) dd by simp
  have "idmap_ok X tx e" using Cons.prems(2) by (simp add: store_ok_def index_ok_def index_inv_def)
  then have "id_of X t e x = Some i" by (rule putInTxEvents_ids [OF p Cons.prems(4)])
  with Cons.IH [OF rest putInTxEvents_ok(1) [OF p Cons.prems(2) u]] Cons.prems(3) show ?case by auto
qed simp

lemma exec_write_ids:
  assumes run: "exec_write X w db = (r, db', evs)" and ok: "all_ok X db" and w: "write_ok w"
    and e: "no_colon e" and id: "id_of X db e x = Some i"
  shows "id_of X db' e x = Some i"
proof (cases r)
  case (Inl er)
  with run exec_write_failed [of w db er db' evs] id show ?thesis by simp
next
  case (Inr u)
  with run have run: "exec_write X w db = (Inr (), db', evs)" by simp
  have k: "store_ok X db (write_entity w)" using ok exec_write_valid [OF run] by (simp add: all_ok_def)
  then have dk: "docs_ok X db (write_entity w)" "idmap_ok X db (write_entity w)"
    by (simp_all add: store_ok_def index_ok_def index_inv_def)
  show ?thesis
  proof (cases "e = write_entity w")
    case False
    have "idmap_names e \<subseteq> entity_names e" by (auto simp: entity_names_def index_names_def)
    then have "idmap_names e \<inter> - entity_names e = {}" by blast
    from frame_idmap_views(1) [OF exec_write_other [OF run k w e False] this] id show ?thesis by simp
  next
    case True
    show ?thesis
    proof (cases w)
      case (WPut ctx now f d doc)
      with run True have "Put X ctx now e d doc db = (Inr (), db', evs)" by simp
      then show ?thesis
        by (cases rule: Put_cases) (use putInTxEvents_ids [OF _ id] dk True in auto)
    next
      case (WDelete ctx now f d)
      with run True have "Delete X ctx now e d db = (Inr (), db', evs)" by simp
      then show ?thesis
        by (cases rule: Delete_cases) (use deleteInTx_ids dk True id in auto)
    next
      case (WBatch ctx now f docs)
      with run True have "BatchPut X ctx now e docs db = (Inr (), db', evs)" by simp
      then show ?thesis
        by (cases rule: BatchPut_cases) (use batchLoop_ids k True WBatch w id in auto)
    qed
  qed
qed

end

section \<open>Two views of one store\<close>

text \<open>The database a second view may see: later writes and aggregate reads have run in between.\<close>

inductive evolves :: "('tx, 'v, 'bm) ext \<Rightarrow> 'tx \<Rightarrow> 'tx \<Rightarrow> bool" for X db where
  same: "evolves X db db"
| later_write: "evolves X db db1 \<Longrightarrow> write_ok w \<Longrightarrow> exec_write X w db1 = (r, db2, evs) \<Longrightarrow> evolves X db db2"
| statsread: "evolves X db db1 \<Longrightarrow> validateEntityID e = Inr () \<Longrightarrow> statsRead X e a db1 = (r, db2) \<Longrightarrow>
    evolves X db db2"

lemma evolves_reachable: "evolves X db db2 \<Longrightarrow> reachable X db \<Longrightarrow> reachable X db2"
proof (induction rule: evolves.induct)
  case (later_write db1 w r db2 evs)
  show ?case by (rule reachable.step [OF later_write.IH [OF later_write.prems] later_write.hyps(2,3)])
next
  case (statsread db1 e a r db2)
  show ?case by (rule reachable.statsread [OF statsread.IH [OF statsread.prems] statsread.hyps(2,3)])
qed

context ext_laws
begin

lemma evolves_ids_kept:
  assumes "evolves X db db2" "reachable X db" "no_colon e"
  shows "ids_kept X e db db2"
proof -
  have im: "idmap_ok X db' e" if "reachable X db'" for db'
    using reachable_ok [OF that] assms(3) by (simp add: all_ok_def store_ok_def index_ok_def index_inv_def)
  have "id_of X db2 e d = Some i" if "id_of X db e d = Some i" for d i
    using assms(1,2) that
  proof (induction rule: evolves.induct)
    case (later_write db1 w r db2 evs)
    have "all_ok X db1"
      by (rule reachable_ok [OF evolves_reachable [OF later_write.hyps(1) later_write.prems(1)]])
    from exec_write_ids [OF later_write.hyps(3) this later_write.hyps(2) assms(3) later_write.IH [OF later_write.prems]]
    show ?case .
  next
    case (statsread db1 f a r db2)
    have r1: "reachable X db1" by (rule evolves_reachable [OF statsread.hyps(1) statsread.prems(1)])
    have "no_colon f" using statsread.hyps(2) validateEntityID_ok by blast
    then have "index_ok X db1 f (doc_contents X db1 f)"
      using reachable_ok [OF r1] by (simp add: all_ok_def store_ok_def)
    from statsRead_ok(2) [OF statsread.hyps(3) this] have "frame X {statsBucketName f} db1 db2" .
    moreover have "idmap_names e \<inter> {statsBucketName f} = {}" unfolding bucket_name_defs by auto
    ultimately have "id_of X db2 e = id_of X db1 e" by (rule frame_idmap_views(1))
    with statsread show ?case by simp
  qed
  then show ?thesis
    unfolding ids_kept_def using im evolves_reachable [OF assms(1,2)] by blast
qed

end

text \<open>Differences of the times in a log do not overflow.\<close>

definition no_overflow :: "temporalEntry list \<Rightarrow> bool" where
  "no_overflow es \<longleftrightarrow> (\<forall>x \<in> set es. \<forall>y \<in> set es. sint (At x - At y) = sint (At x) - sint (At y))"

end
