(* ===== verification/Sequence.thy ===== *)
theory Sequence
  imports Lookup
begin

text \<open>
  \<^verbatim>\<open>bboltstore/sequence.go\<close>: items whose event log contains a sequence of steps in order within
  a window. The walk is greedy from every possible start; it finds a match whenever there is
  one, because from a fixed start the greedy choice ends earliest.
\<close>

section \<open>Definitions\<close>

text \<open>The inner loop: \<open>picked\<close> grows by the next event of the next step's type.\<close>

fun pickLoop :: "temporalEntry list \<Rightarrow> string list \<Rightarrow> temporalEntry list \<Rightarrow> temporalEntry list" where
  "pickLoop [] steps picked = picked"
| "pickLoop (e # events) steps picked =
     (if length picked < length steps then
        (if EType e \<noteq> steps ! length picked then pickLoop events steps picked
         else pickLoop events steps (picked @ [e]))
      else picked)"

text \<open>The outer loop over the start; \<open>span\<close> is an \<^verbatim>\<open>int64\<close> difference.\<close>

fun walkFrom :: "temporalEntry list \<Rightarrow> string list \<Rightarrow> i64 \<Rightarrow> (temporalEntry list) option" where
  "walkFrom [] steps windowNanos = None"
| "walkFrom (e # events) steps windowNanos =
     (if EType e \<noteq> hd steps then walkFrom events steps windowNanos
      else let picked = pickLoop events steps [e] in
        if length picked \<noteq> length steps then walkFrom events steps windowNanos
        else let span = At (last picked) - At (hd picked) in
          if sint windowNanos \<le> 0 \<or> sint span \<le> sint windowNanos then Some picked
          else walkFrom events steps windowNanos)"

definition sequenceWalk :: "temporalEntry list \<Rightarrow> string list \<Rightarrow> i64 \<Rightarrow> (temporalEntry list) option" where
  "sequenceWalk events steps windowNanos =
     (if length steps = 0 then None else walkFrom events steps windowNanos)"

record SequenceMatch =
  ItemID :: string
  Events :: "TemporalEvent list"

text \<open>The items to look at: the given ones, or every item with a temporal bucket.\<close>

definition temporalItems :: "('tx, 'v, 'bm) ext \<Rightarrow> string \<Rightarrow> 'tx \<Rightarrow> string list" where
  "temporalItems X entityID tx =
     (let pfx = ''temp:'' @ entityID @ '':'' in
      map (drop (length pfx)) (filter (prefix pfx) (bucket_names X tx)))"

fun joinLoop ::
  "('tx, 'v, 'bm) ext \<Rightarrow> ctx \<Rightarrow> nat \<Rightarrow> string \<Rightarrow> string list \<Rightarrow> string list \<Rightarrow> i64 \<Rightarrow>
     SequenceMatch list \<Rightarrow> 'tx \<Rightarrow> (SequenceMatch list) result" where
  "joinLoop X ctx n entityID [] steps windowNanos out db = Inr out"
| "joinLoop X ctx n entityID (item # items) steps windowNanos out db =
     bindR (ctxErr ctx (Suc n)) (\<lambda>_.
     bindR (db_view X (loadTemporal X entityID item) db) (\<lambda>entries.
     case sequenceWalk entries steps windowNanos of
       None \<Rightarrow> joinLoop X ctx (Suc n) entityID items steps windowNanos out db
     | Some matched \<Rightarrow>
         joinLoop X ctx (Suc n) entityID items steps windowNanos
           (out @ [\<lparr>ItemID = item, Events = map toEvent matched\<rparr>]) db))"

definition SequenceJoin ::
  "('tx, 'v, 'bm) ext \<Rightarrow> ctx \<Rightarrow> string \<Rightarrow> string list \<Rightarrow> string list \<Rightarrow> i64 \<Rightarrow> 'tx \<Rightarrow>
     (SequenceMatch list) result" where
  "SequenceJoin X ctx entityID itemIDs steps window db =
     bindR (entityChecks ctx entityID) (\<lambda>_.
     if length steps = 0 then Inr []
     else bindR (if 0 < length itemIDs then Inr itemIDs
                 else db_view X (\<lambda>tx. Inr (temporalItems X entityID tx)) db) (\<lambda>items.
          joinLoop X ctx 0 entityID items steps window [] db))"

section \<open>What a match is\<close>

text \<open>\<open>picked\<close> matches the steps in \<open>events\<close>: a subsequence with the types of the steps, whose span
  fits the window.\<close>

definition fits_window :: "i64 \<Rightarrow> temporalEntry list \<Rightarrow> bool" where
  "fits_window w picked \<longleftrightarrow> sint w \<le> 0 \<or> sint (At (last picked) - At (hd picked)) \<le> sint w"

definition matches :: "temporalEntry list \<Rightarrow> string list \<Rightarrow> i64 \<Rightarrow> temporalEntry list \<Rightarrow> bool" where
  "matches events steps w picked \<longleftrightarrow>
     subseq picked events \<and> map EType picked = steps \<and> fits_window w picked"

lemma pickLoop_sound:
  "map EType picked = take (length picked) steps \<Longrightarrow> length picked \<le> length steps \<Longrightarrow>
    \<exists>more. pickLoop events steps picked = picked @ more \<and> subseq more events \<and>
      map EType (picked @ more) = take (length (picked @ more)) steps \<and> length (picked @ more) \<le> length steps"
proof (induction events steps picked rule: pickLoop.induct)
  case (2 e events steps picked)
  show ?case
  proof (cases "length picked < length steps")
    case True
    show ?thesis
    proof (cases "EType e = steps ! length picked")
      case ok: True
      have "map EType (picked @ [e]) = take (length (picked @ [e])) steps"
        using "2.prems" True ok by (simp add: take_Suc_conv_app_nth)
      then obtain more where "pickLoop events steps (picked @ [e]) = (picked @ [e]) @ more" "subseq more events"
        "map EType ((picked @ [e]) @ more) = take (length ((picked @ [e]) @ more)) steps"
        "length ((picked @ [e]) @ more) \<le> length steps"
        using "2.IH"(2) True ok by force
      with True ok show ?thesis by (intro exI [of _ "e # more"]) simp
    next
      case False
      with True "2.IH"(1) "2.prems" obtain more where "pickLoop events steps picked = picked @ more" "subseq more events"
        "map EType (picked @ more) = take (length (picked @ more)) steps" "length (picked @ more) \<le> length steps" by blast
      with True False show ?thesis by (intro exI [of _ more]) auto
    qed
  next
    case False
    with "2.prems" show ?thesis by (intro exI [of _ "[]"]) simp
  qed
qed auto

text \<open>Greedy picking collects every step that any subsequence collects, and no later.\<close>

lemma pickLoop_complete:
  assumes "sorted_log events" "subseq alt events" "map EType alt = drop (length picked) steps"
    "length picked \<le> length steps"
  shows "length (pickLoop events steps picked) = length steps \<and>
    (alt \<noteq> [] \<longrightarrow> sint (At (last (pickLoop events steps picked))) \<le> sint (At (last alt)))"
  using assms
proof (induction events steps picked arbitrary: alt rule: pickLoop.induct)
  case (1 steps picked)
  then have "alt = []" using list_emb_Nil2 by blast
  with 1 show ?case by auto
next
  case (2 e events steps picked)
  show ?case
  proof (cases "length picked < length steps")
    case False
    with "2.prems" show ?thesis by simp
  next
    case True
    then obtain a as where alt: "alt = a # as" using "2.prems"(3) by (cases alt) auto
    have ty: "EType a = steps ! length picked" "map EType as = drop (Suc (length picked)) steps"
      using "2.prems"(3) True alt by (simp_all add: Cons_nth_drop_Suc [symmetric])
    have sorted: "sorted_log events" using "2.prems"(1) by simp
    show ?thesis
    proof (cases "EType e = steps ! length picked")
      case same: True
      have as: "subseq as events"
        using "2.prems"(2) alt by (auto simp: subseq_Cons2_iff dest: subseq_Cons' split: if_splits)
      have ih: "length (pickLoop events steps (picked @ [e])) = length steps \<and>
          (as \<noteq> [] \<longrightarrow> sint (At (last (pickLoop events steps (picked @ [e])))) \<le> sint (At (last as)))"
        using "2.IH"(2) [of as] True same sorted as ty(2) by simp
      have run: "pickLoop (e # events) steps picked = pickLoop events steps (picked @ [e])"
        using True same by simp
      show ?thesis
      proof (cases "as = []")
        case False
        with ih run alt show ?thesis by simp
      next
        case empty: True
        with ty(2) have len: "length steps = Suc (length picked)" using True by simp
        have stop: "pickLoop events steps (picked @ [e]) = picked @ [e]"
          using len by (cases events) simp_all
        have "a = e \<or> a \<in> set events"
          using list_emb_set [OF "2.prems"(2), of a] alt by auto
        then have "sint (At e) \<le> sint (At a)" using "2.prems"(1) by auto
        with run stop len alt empty show ?thesis by simp
      qed
    next
      case other: False
      then have "a \<noteq> e" using ty(1) by auto
      then have "subseq alt events" using "2.prems"(2) alt by (simp add: subseq_Cons2_iff)
      with "2.IH"(1) [of alt] True other sorted "2.prems"(3,4) show ?thesis by simp
    qed
  qed
qed

lemma walkFrom_sound:
  assumes "walkFrom events steps w = Some picked" "steps \<noteq> []"
  shows "matches events steps w picked"
  using assms
proof (induction events steps w rule: walkFrom.induct)
  case (2 e events steps w)
  let ?p = "pickLoop events steps [e]"
  show ?case
  proof (cases "EType e = hd steps \<and> length ?p = length steps \<and> fits_window w ?p")
    case True
    then have p: "picked = ?p" using "2.prems"(1) by (auto simp: fits_window_def Let_def)
    have "map EType [e] = take (length [e]) steps" using True "2.prems"(2) by (cases steps) auto
    then obtain more where m: "?p = [e] @ more" "subseq more events"
      "map EType ([e] @ more) = take (length ([e] @ more)) steps"
      using pickLoop_sound [of "[e]" steps events] "2.prems"(2) by (cases steps) fastforce+
    then have "map EType ?p = steps" using True by simp
    with True p m show ?thesis by (simp add: matches_def)
  next
    case False
    then have "walkFrom events steps w = Some picked"
      using "2.prems"(1) by (auto simp: fits_window_def Let_def split: if_splits)
    then have "matches events steps w picked"
      using False "2.IH" "2.prems"(2) by (auto simp: fits_window_def Let_def split: if_splits)
    then show ?thesis by (auto simp: matches_def)
  qed
qed simp

lemma fits_window_earlier:
  assumes "no_overflow es" "set (e # xs) \<subseteq> set es" "set (e # ys) \<subseteq> set es"
    "sint (At (last (e # xs))) \<le> sint (At (last (e # ys)))" "fits_window w (e # ys)"
  shows "fits_window w (e # xs)"
proof -
  have diff: "sint (At (last (e # zs)) - At e) = sint (At (last (e # zs))) - sint (At e)"
    if "set (e # zs) \<subseteq> set es" for zs
    using assms(1) that last_in_set [of "e # zs"] unfolding no_overflow_def
    by (metis list.distinct(1) list.set_intros(1) subset_iff)
  from assms(4,5) show ?thesis
    unfolding fits_window_def list.sel diff [OF assms(2)] diff [OF assms(3)] by auto
qed

lemma walkFrom_complete:
  assumes "sorted_log events" "no_overflow events" "matches events steps w alt" "steps \<noteq> []"
  shows "walkFrom events steps w \<noteq> None"
  using assms
proof (induction events steps w rule: walkFrom.induct)
  case (1 steps w)
  then show ?case by (auto simp: matches_def dest: list_emb_Nil2)
next
  case (2 e events steps w)
  let ?p = "pickLoop events steps [e]"
  have sub: "sorted_log events" "no_overflow events" using "2.prems"(1,2) by (auto simp: no_overflow_def)
  show ?case
  proof (cases "EType e = hd steps \<and> length ?p = length steps \<and> fits_window w ?p")
    case True
    then show ?thesis by (simp add: fits_window_def Let_def)
  next
    case False
    obtain a as where alt: "alt = a # as" using "2.prems"(3,4) by (cases alt) (auto simp: matches_def)
    have "\<not> (a = e \<and> subseq as events)"
    proof
      assume ae: "a = e \<and> subseq as events"
      have ty: "EType e = hd steps" "map EType as = drop (length [e]) steps"
        using "2.prems"(3) alt ae by (auto simp: matches_def)
      have c: "length ?p = length steps \<and> (as \<noteq> [] \<longrightarrow> sint (At (last ?p)) \<le> sint (At (last as)))"
        using "2.prems"(4) sub(1) ae ty by (intro pickLoop_complete) (cases steps; auto)+
      have "map EType [e] = take (length [e]) steps" using ty(1) "2.prems"(4) by (cases steps) auto
      then obtain more where m: "?p = e # more" "subseq more events"
        using pickLoop_sound [of "[e]" steps events] "2.prems"(4) by (cases steps) fastforce+
      have len: "length more = length as" using c m(1) ty(2) "2.prems"(4)
        by (metis One_nat_def length_Cons length_drop length_map list.size(3) diff_Suc_1)
      have le: "sint (At (last (e # more))) \<le> sint (At (last (e # as)))"
        using c m(1) len by (cases as) auto
      have in1: "set (e # more) \<subseteq> set (e # events)" and in2: "set (e # as) \<subseteq> set (e # events)"
        using m(2) ae by (auto dest: list_emb_set)
      have fit: "fits_window w (e # as)" using "2.prems"(3) alt ae by (simp add: matches_def)
      have "fits_window w ?p"
        unfolding m(1) by (rule fits_window_earlier [OF "2.prems"(2) in1 in2 le fit])
      with c ty(1) False show False by blast
    qed
    then have "subseq alt events"
      using "2.prems"(3) alt by (auto simp: matches_def subseq_Cons2_iff split: if_splits)
    then have m: "matches events steps w alt" using "2.prems"(3) by (simp add: matches_def)
    have "walkFrom events steps w \<noteq> None"
    proof (cases "EType e = hd steps")
      case ne: False
      then show ?thesis using "2.IH"(1) sub m "2.prems"(4) by blast
    next
      case eq: True
      show ?thesis
      proof (cases "length ?p = length steps")
        case ne: False
        then show ?thesis using "2.IH"(2) [OF _ refl] eq sub m "2.prems"(4) by blast
      next
        case len: True
        with eq False have "\<not> fits_window w ?p" by blast
        then show ?thesis
          using "2.IH"(3) [OF _ refl _ refl] eq len sub m "2.prems"(4) unfolding fits_window_def by blast
      qed
    qed
    then show ?thesis using False by (auto simp: fits_window_def Let_def)
  qed
qed

section \<open>The join\<close>

lemma sequenceWalk_iff:
  assumes "sorted_log events" "no_overflow events"
  shows "sequenceWalk events steps w \<noteq> None \<longleftrightarrow> steps \<noteq> [] \<and> (\<exists>picked. matches events steps w picked)"
  using walkFrom_sound [of events steps w] walkFrom_complete [OF assms, of steps w]
  by (cases "steps = []") (auto simp: sequenceWalk_def)

lemma set_names_items:
  assumes "bbolt_laws X"
  shows "set (temporalItems X e db) = {item. has_bucket X db (temporalBucketName e item)}"
proof -
  have names: "set (bucket_names X db) = {n. has_bucket X db n}" by (rule bbolt_laws.names_set [OF assms])
  let ?p = "''temp:'' @ e @ '':''"
  have name: "temporalBucketName e item = ?p @ item" for item by (simp add: temporalBucketName_def)
  have "item \<in> set (temporalItems X e db) \<longleftrightarrow> ?p @ item \<in> set (bucket_names X db)" for item
    unfolding temporalItems_def Let_def by (force simp: prefix_def image_iff)
  then show ?thesis unfolding name names by blast
qed

context ext_laws
begin

lemma joinLoop_result:
  assumes ok: "temporal_ok X db e" and b: "begin_err X db = None" and c: "\<forall>n. ctx n = None"
  shows "joinLoop X ctx n e items steps w out db = Inr (out @
    List.map_filter (\<lambda>item. map_option (\<lambda>m. \<lparr>ItemID = item, Events = map toEvent m\<rparr>)
      (sequenceWalk (log_of X db e item) steps w)) items)"
proof (induction items arbitrary: n out)
  case (Cons item items)
  then show ?case
    by (cases "sequenceWalk (log_of X db e item) steps w")
       (simp_all add: db_view_def b loadTemporal_succeeds [OF ok] ctxErr_def c List.map_filter_simps)
qed (simp add: List.map_filter_simps)

text \<open>Every returned match is one, and an item with a match is returned.\<close>

lemma SequenceJoin_spec:
  assumes ok: "store_ok X db e" and ad: "admitted X ctx e db db" and c: "\<forall>n. ctx n = None"
    and no: "\<And>item. no_overflow (log_of X db e item)" and steps: "steps \<noteq> []"
  shows "\<exists>ms. SequenceJoin X ctx e itemIDs steps w db = Inr ms \<and>
    (\<forall>m \<in> set ms. \<exists>picked. matches (log_of X db e (ItemID m)) steps w picked \<and> Events m = map toEvent picked) \<and>
    ItemID ` set ms = {item. (itemIDs = [] \<or> item \<in> set itemIDs) \<and>
      (\<exists>picked. matches (log_of X db e item) steps w picked)}"
proof -
  have t: "temporal_ok X db e" using store_okD(1) [OF ok] by (simp add: index_inv_def)
  have sorted: "sorted_log (log_of X db e item)" for item using t by (simp add: temporal_ok_def)
  have b: "begin_err X db = None" using ad by (simp add: admitted_def)
  define items where "items = (if itemIDs = [] then temporalItems X e db else itemIDs)"
  let ?f = "\<lambda>item. map_option (\<lambda>m. \<lparr>ItemID = item, Events = map toEvent m\<rparr>) (sequenceWalk (log_of X db e item) steps w)"
  let ?ms = "List.map_filter ?f items"
  have run: "SequenceJoin X ctx e itemIDs steps w db = Inr ?ms"
    using ad steps by (simp add: SequenceJoin_def admitted_def admitted_checks db_view_def joinLoop_result [OF t b c] items_def)
  have in_ms: "m \<in> set ?ms \<longleftrightarrow> (\<exists>item \<in> set items. \<exists>picked. sequenceWalk (log_of X db e item) steps w = Some picked \<and>
      m = \<lparr>ItemID = item, Events = map toEvent picked\<rparr>)" for m
    unfolding in_map_filter map_option_eq_Some by (rule bex_cong [OF refl]) blast
  have sound: "matches (log_of X db e item) steps w picked"
    if "sequenceWalk (log_of X db e item) steps w = Some picked" for item picked
    using that steps walkFrom_sound by (simp add: sequenceWalk_def)
  have empty: "log_of X db e item = []" if "\<not> has_bucket X db (temporalBucketName e item)" for item
    using no_bucket_get [OF that] by (simp add: log_of_def)
  have nomatch: "\<not> matches [] steps w picked" for picked
    using steps by (auto simp: matches_def dest: list_emb_Nil2)
  have "ItemID ` set ?ms = {item \<in> set items. sequenceWalk (log_of X db e item) steps w \<noteq> None}"
  proof (intro set_eqI iffI)
    fix item assume "item \<in> ItemID ` set ?ms"
    then obtain m where m: "m \<in> set ?ms" "item = ItemID m" by blast
    from m(1) obtain picked where "m = \<lparr>ItemID = ItemID m, Events = map toEvent picked\<rparr>" "ItemID m \<in> set items"
      "sequenceWalk (log_of X db e (ItemID m)) steps w = Some picked"
      unfolding in_ms by auto
    with m(2) show "item \<in> {item \<in> set items. sequenceWalk (log_of X db e item) steps w \<noteq> None}" by simp
  next
    fix item assume "item \<in> {item \<in> set items. sequenceWalk (log_of X db e item) steps w \<noteq> None}"
    then obtain picked where "item \<in> set items" "sequenceWalk (log_of X db e item) steps w = Some picked" by blast
    then have "\<lparr>ItemID = item, Events = map toEvent picked\<rparr> \<in> set ?ms" unfolding in_ms by blast
    then show "item \<in> ItemID ` set ?ms" by (rule rev_image_eqI) simp
  qed
  also have "\<dots> = {item \<in> set items. \<exists>picked. matches (log_of X db e item) steps w picked}"
    using sequenceWalk_iff [OF sorted no] steps by blast
  also have "\<dots> = {item. (itemIDs = [] \<or> item \<in> set itemIDs) \<and>
      (\<exists>picked. matches (log_of X db e item) steps w picked)}"
    using empty nomatch set_names_items [OF bbolt_laws_axioms] unfolding items_def by force
  finally have ids: "ItemID ` set ?ms = {item. (itemIDs = [] \<or> item \<in> set itemIDs) \<and>
      (\<exists>picked. matches (log_of X db e item) steps w picked)}" .
  have "\<forall>m \<in> set ?ms. \<exists>picked. matches (log_of X db e (ItemID m)) steps w picked \<and> Events m = map toEvent picked"
  proof
    fix m assume "m \<in> set ?ms"
    then obtain item picked where "sequenceWalk (log_of X db e item) steps w = Some picked"
      "m = \<lparr>ItemID = item, Events = map toEvent picked\<rparr>" unfolding in_ms by blast
    with sound show "\<exists>picked. matches (log_of X db e (ItemID m)) steps w picked \<and> Events m = map toEvent picked"
      by (intro exI [of _ picked]) simp
  qed
  with run ids show ?thesis by blast
qed

end

end
