(* ===== verification/Cluster.thy ===== *)
theory Cluster
  imports Lookup
begin

text \<open>
  \<^verbatim>\<open>bboltstore/cluster.go\<close>: groups of events that lie close together in time. The scan is
  greedy; its clusters are disjoint runs of the log, wide enough and within the window, and
  no wide enough run within the window escapes them.
\<close>

section \<open>Definitions\<close>

record TemporalCluster =
  CFirst :: i64
  CLast :: i64
  CEvents :: "TemporalEvent list"

text \<open>The events after the first one that the window still admits.\<close>

definition within :: "i64 \<Rightarrow> temporalEntry \<Rightarrow> temporalEntry \<Rightarrow> bool" where
  "within windowNanos e e' \<longleftrightarrow>
     \<not> (\<not> sint windowNanos \<le> 0 \<and> sint (At e' - At e) > sint windowNanos)"

function clusterLoop :: "temporalEntry list \<Rightarrow> i64 \<Rightarrow> int \<Rightarrow> (temporalEntry list) list" where
  "clusterLoop [] windowNanos minSize = []"
| "clusterLoop (e # entries) windowNanos minSize =
     (let run = e # takeWhile (within windowNanos e) entries in
      if int (length run) \<ge> minSize
      then run # clusterLoop (dropWhile (within windowNanos e) entries) windowNanos minSize
      else clusterLoop entries windowNanos minSize)"
  by pat_completeness auto

termination clusterLoop
  by (relation "measure (\<lambda>(es, _, _). length es)") (auto simp: length_dropWhile_le less_Suc_eq_le)

definition toCluster :: "temporalEntry list \<Rightarrow> TemporalCluster" where
  "toCluster run = \<lparr>CFirst = At (hd run), CLast = At (last run), CEvents = map toEvent run\<rparr>"

definition clusterScan :: "temporalEntry list \<Rightarrow> i64 \<Rightarrow> int \<Rightarrow> TemporalCluster list" where
  "clusterScan entries window minSize =
     (if length entries = 0 \<or> minSize > int (length entries) then []
      else map toCluster (clusterLoop entries window minSize))"

definition ClusterQuery ::
  "('tx, 'v, 'bm) ext \<Rightarrow> ctx \<Rightarrow> string \<Rightarrow> string \<Rightarrow> string list \<Rightarrow> i64 \<Rightarrow> int \<Rightarrow> 'tx \<Rightarrow>
     (TemporalCluster list) result" where
  "ClusterQuery X ctx entityID itemID types window minSize db =
     bindR (entityChecks ctx entityID) (\<lambda>_.
     let minSize = (if minSize < 1 then 1 else minSize) in
     bindR (db_view X (temporalRead X entityID itemID types) db) (\<lambda>entries.
     Inr (clusterScan entries window minSize)))"

section \<open>Soundness\<close>

text \<open>A run whose events all lie in the window that starts with its first one.\<close>

definition tight :: "i64 \<Rightarrow> temporalEntry list \<Rightarrow> bool" where
  "tight w run \<longleftrightarrow> run \<noteq> [] \<and> (\<forall>e \<in> set (tl run). within w (hd run) e)"

lemma clusterLoop_runs:
  "\<forall>run \<in> set (clusterLoop entries w n). tight w run \<and> int (length run) \<ge> n \<and> sublist run entries"
proof (induction entries w n rule: clusterLoop.induct)
  case (2 e entries w n)
  let ?run = "e # takeWhile (within w e) entries"
  have run: "tight w ?run" "sublist ?run (e # entries)"
    by (auto simp: tight_def dest: set_takeWhileD) (metis append_Cons sublist_appendI append_Nil takeWhile_dropWhile_id)
  have rest: "sublist r (e # entries)" if "sublist r (dropWhile (within w e) entries)" for r
    using that by (meson sublist_Cons_right sublist_dropWhile sublist_order.order_trans)
  from 2 run rest show ?case by (auto simp: Let_def sublist_Cons_right)
qed simp

text \<open>The runs do not overlap: put together they are a part of the log, in its order.\<close>

lemma clusterLoop_disjoint: "subseq (concat (clusterLoop entries w n)) entries"
proof (induction entries w n rule: clusterLoop.induct)
  case (2 e entries w n)
  let ?t = "takeWhile (within w e) entries" and ?d = "dropWhile (within w e) entries"
  show ?case
  proof (cases "int (length (e # ?t)) \<ge> n")
    case True
    have "subseq ((e # ?t) @ concat (clusterLoop ?d w n)) ((e # ?t) @ ?d)"
      using 2(1) True by (intro list_emb_append_mono) simp_all
    with True show ?thesis by simp
  next
    case False
    with 2(2) have "subseq (concat (clusterLoop entries w n)) (e # entries)"
      by (intro list_emb_Cons) simp
    with False show ?thesis by simp
  qed
qed simp

section \<open>Completeness\<close>

lemma tight_prefix:
  assumes "tight w run" "prefix run (e # entries)"
  shows "length run \<le> length (e # takeWhile (within w e) entries)"
proof -
  obtain r where r: "run = e # r" "prefix r entries" using assms by (cases run) (auto simp: tight_def)
  have "\<forall>y \<in> set r. within w e y" using assms(1) r(1) by (auto simp: tight_def)
  moreover obtain s where "entries = r @ s" using r(2) by (auto simp: prefix_def)
  ultimately have "takeWhile (within w e) entries = r @ takeWhile (within w e) s" by (simp add: takeWhile_append)
  then show ?thesis using r(1) by simp
qed

lemma sublist_append_meets:
  assumes "sublist run (c @ d)" "run \<noteq> []"
  shows "sublist run d \<or> set c \<inter> set run \<noteq> {}"
proof -
  consider "sublist run c" | "sublist run d" | xs ys where "run = xs @ ys" "suffix xs c" "prefix ys d"
    using assms(1) unfolding sublist_append by blast
  then show ?thesis
  proof cases
    case 1
    from set_mono_sublist [OF 1] assms(2) show ?thesis by (cases run) auto
  next
    case 3
    show ?thesis
    proof (cases xs)
      case Nil
      with 3 show ?thesis by simp
    next
      case (Cons x xs')
      with set_mono_suffix [OF 3(2)] 3(1) show ?thesis by auto
    qed
  qed blast
qed

text \<open>Every run of the log that is wide enough and tight meets a cluster.\<close>

lemma clusterLoop_covers:
  assumes "sublist run entries" "tight w run" "int (length run) \<ge> n"
  shows "\<exists>c \<in> set (clusterLoop entries w n). set c \<inter> set run \<noteq> {}"
  using assms
proof (induction entries w n rule: clusterLoop.induct)
  case (1 w n)
  then show ?case by (auto simp: tight_def)
next
  case (2 e entries w n)
  let ?c = "e # takeWhile (within w e) entries" and ?d = "dropWhile (within w e) entries"
  have ne: "run \<noteq> []" using "2.prems"(2) by (simp add: tight_def)
  show ?case
  proof (cases "int (length ?c) \<ge> n")
    case True
    have "sublist run (?c @ ?d)" using "2.prems"(1) by simp
    then consider "sublist run ?d" | "set ?c \<inter> set run \<noteq> {}"
      using sublist_append_meets [OF _ ne] by blast
    then show ?thesis
    proof cases
      case 1
      with "2.IH"(1) [OF refl True] "2.prems"(2,3) True show ?thesis by (auto simp: Let_def)
    next
      case 2
      with True show ?thesis by (auto simp: Let_def)
    qed
  next
    case False
    have "\<not> prefix run (e # entries)"
      using tight_prefix [OF "2.prems"(2)] "2.prems"(3) False by fastforce
    then have "sublist run entries" using "2.prems"(1) by (simp add: sublist_Cons_right)
    with "2.IH"(2) [OF refl False] "2.prems"(2,3) False show ?thesis by (simp add: Let_def)
  qed
qed

section \<open>The window\<close>

text \<open>The window as the interface states it, on the times as integers: the span of the run from its
  first to its last event is at most the window; a window that is not positive is no bound. In a
  log in time order, and without wrap-around of the differences, this is what the scan tests event
  by event.\<close>

definition spans_at_most :: "i64 \<Rightarrow> temporalEntry list \<Rightarrow> bool" where
  "spans_at_most w run \<longleftrightarrow>
     run \<noteq> [] \<and> (0 < sint w \<longrightarrow> sint (At (last run)) - sint (At (hd run)) \<le> sint w)"

lemma tight_spans:
  assumes "sorted_log run" "no_overflow run"
  shows "tight w run \<longleftrightarrow> spans_at_most w run"
proof (cases run)
  case (Cons e es)
  have diff: "sint (At x - At e) = sint (At x) - sint (At e)" if "x \<in> set run" for x
    using assms(2) that Cons unfolding no_overflow_def by (metis list.set_intros(1))
  have within: "within w e x \<longleftrightarrow> (0 < sint w \<longrightarrow> sint (At x) - sint (At e) \<le> sint w)" if "x \<in> set run" for x
    using diff [OF that] by (auto simp: within_def)
  have le: "sint (At x) \<le> sint (At (last run))" if "x \<in> set run" for x
  proof -
    have "run = butlast run @ [last run]" using Cons by simp
    then have "sorted_log (butlast run @ [last run])" "x \<in> set (butlast run @ [last run])" using assms(1) that by simp_all
    then show ?thesis by (auto simp: sorted_wrt_append simp del: append_butlast_last_id)
  qed
  have last: "last run \<in> set run" using Cons by simp
  have zero: "within w e e" by (auto simp: within_def)
  have "(\<forall>x \<in> set es. within w e x) \<longleftrightarrow> within w e (last run)"
    using within le last zero Cons by (auto split: if_splits) fastforce+
  with Cons within [OF last] show ?thesis by (auto simp: tight_def spans_at_most_def)
qed (simp add: tight_def spans_at_most_def)

lemma log_parts:
  assumes "sublist run es" "sorted_log es" "no_overflow es"
  shows "sorted_log run" "no_overflow run"
proof -
  obtain ps ss where "es = ps @ run @ ss" using assms(1) by (auto simp: sublist_def)
  with assms(2,3) show "sorted_log run" "no_overflow run" by (auto simp: sorted_wrt_append no_overflow_def)
qed

lemma clusterLoop_spec:
  assumes "sorted_log es" "no_overflow es"
  shows "\<forall>run \<in> set (clusterLoop es w n). spans_at_most w run \<and> int (length run) \<ge> n \<and> sublist run es"
    "\<lbrakk>sublist run es; spans_at_most w run; int (length run) \<ge> n\<rbrakk> \<Longrightarrow>
      \<exists>c \<in> set (clusterLoop es w n). set c \<inter> set run \<noteq> {}"
proof -
  have "tight w run \<longleftrightarrow> spans_at_most w run" if "sublist run es" for run
    using log_parts [OF that assms] by (rule tight_spans)
  then show "\<forall>run \<in> set (clusterLoop es w n). spans_at_most w run \<and> int (length run) \<ge> n \<and> sublist run es"
    "\<lbrakk>sublist run es; spans_at_most w run; int (length run) \<ge> n\<rbrakk> \<Longrightarrow>
      \<exists>c \<in> set (clusterLoop es w n). set c \<inter> set run \<noteq> {}"
    using clusterLoop_runs [of es w n] clusterLoop_covers [of run es w n] by auto
qed

section \<open>The query\<close>

context ext_laws
begin

text \<open>The log that the query scans: the item's events of the asked types.\<close>

lemma ClusterQuery_result:
  assumes ok: "store_ok X db e" and ad: "admitted X ctx e db db"
  shows "ClusterQuery X ctx e item types w n db = Inr (clusterScan
    (if types = [] then log_of X db e item else filter (\<lambda>en. EType en \<in> set types) (log_of X db e item))
    w (max 1 n))"
proof -
  have t: "temporal_ok X db e" using store_okD(1) [OF ok] by (simp add: index_inv_def)
  show ?thesis
    using ad by (simp add: ClusterQuery_def admitted_def admitted_checks db_view_def temporalRead_def
        loadTemporal_succeeds [OF t] max_def Let_def)
qed

end

end
