(* ===== verification/Query.thy ===== *)
theory Query
  imports Lookup
begin

text \<open>
  \<^verbatim>\<open>bboltstore/query.go\<close> and \<^verbatim>\<open>bboltstore/aggregate.go\<close>: structured queries. Patterns with a
  literal value narrow the documents through the inverted index; every clause is then evaluated on
  each remaining document. The result of the narrowed query is compared with the evaluation of
  the clauses on every document of the entity.

  Comparing two slices or two maps with \<^verbatim>\<open>==\<close> panics in Go: an evaluation that panics is
  \<^const>\<open>None\<close>. A \<^verbatim>\<open>map[string]any\<close> is an association list, a missing key reads as nil.
  All views of one query read the same database.
\<close>

section \<open>Types\<close>

record QueryTerm =
  Var :: string
  Literal :: any

definition IsLiteral :: "QueryTerm \<Rightarrow> bool" where
  "IsLiteral t \<longleftrightarrow> Literal t \<noteq> ANil"

definition IsVar :: "QueryTerm \<Rightarrow> bool" where
  "IsVar t \<longleftrightarrow> Var t \<noteq> []"

record QueryPattern =
  PEntity :: QueryTerm
  PAttribute :: string
  PValue :: QueryTerm

record QueryPredicate =
  Op :: string
  Left :: QueryTerm
  Right :: QueryTerm

record QueryFullText =
  FEntity :: QueryTerm
  FQuery :: string
  FAttribute :: string

text \<open>A clause has five pointers, of which one should be set.\<close>

datatype QueryClause =
  QueryClause
    (Pattern: "QueryPattern option")
    (Predicate: "QueryPredicate option")
    (QOr: "QueryClause list list option")
    (QNot: "QueryClause list option")
    (FullText: "QueryFullText option")

record QueryAggregate =
  Fn :: string
  Over :: QueryTerm
  As :: string

record QueryRequest =
  QEntityID :: string
  Find :: "string list"
  Where :: "QueryClause list"
  Aggregates :: "QueryAggregate list"
  GroupBy :: "string list"

type_synonym bindings = "(string \<times> any) list"
type_synonym QueryRow = "any list"

section \<open>Values\<close>

definition bound :: "bindings \<Rightarrow> string \<Rightarrow> any" where
  "bound b name = (case map_of b name of Some v \<Rightarrow> v | None \<Rightarrow> ANil)"

text \<open>Decimal numbers: \<^verbatim>\<open>strconv.Itoa\<close> and \<^verbatim>\<open>strconv.ParseInt(s, 10, 64)\<close>.\<close>

definition digit :: "nat \<Rightarrow> char" where
  "digit n = char_of (48 + n)"

fun show_nat :: "nat \<Rightarrow> string" where
  "show_nat n = (if n < 10 then [digit n] else show_nat (n div 10) @ [digit (n mod 10)])"

declare show_nat.simps [simp del]

definition show_int :: "int \<Rightarrow> string" where
  "show_int i = (if i < 0 then CHR ''-'' # show_nat (nat (- i)) else show_nat (nat i))"

definition is_digit :: "char \<Rightarrow> bool" where
  "is_digit c \<longleftrightarrow> 48 \<le> (of_char c :: nat) \<and> (of_char c :: nat) \<le> 57"

definition digits_val :: "string \<Rightarrow> nat" where
  "digits_val s = foldl (\<lambda>n c. n * 10 + (of_char c - 48)) 0 s"

definition ParseInt :: "string \<Rightarrow> int option" where
  "ParseInt s =
     (let (neg, ds) = (case s of [] \<Rightarrow> (False, s)
        | c # rest \<Rightarrow> if c = CHR ''-'' then (True, rest) else if c = CHR ''+'' then (False, rest) else (False, s))
      in if ds = [] \<or> \<not> list_all is_digit ds then None
         else let n = (if neg then - int (digits_val ds) else int (digits_val ds))
              in if - (2 ^ 63) \<le> n \<and> n < 2 ^ 63 then Some n else None)"

definition parseQueryRecordID :: "string \<Rightarrow> any" where
  "parseQueryRecordID docID =
     (case ParseInt docID of Some n \<Rightarrow> AFloat (f64_of_int n) | None \<Rightarrow> AStr docID)"

definition stringifyQueryValue :: "('tx, 'v, 'bm) ext \<Rightarrow> any \<Rightarrow> string" where
  "stringifyQueryValue X v =
     (case v of
        AStr x \<Rightarrow> x
      | ABool x \<Rightarrow> if x then ''true'' else ''false''
      | AFloat x \<Rightarrow> format_g X x
      | AInt x \<Rightarrow> show_int (sint x)
      | AInt64 x \<Rightarrow> show_int (sint x)
      | AFloat32 x \<Rightarrow> format_g X (float_of_f32 X x)
      | _ \<Rightarrow> sprint X v)"

definition composeQueryTerm :: "('tx, 'v, 'bm) ext \<Rightarrow> string \<Rightarrow> any \<Rightarrow> string" where
  "composeQueryTerm X attribute vl = attribute @ '':'' @ stringifyQueryValue X vl"

definition queryNumeric :: "('tx, 'v, 'bm) ext \<Rightarrow> any \<Rightarrow> f64 option" where
  "queryNumeric X v =
     (case v of
        AFloat x \<Rightarrow> if f64_isNaN x then None else Some x
      | AFloat32 x \<Rightarrow> Some (float_of_f32 X x)
      | AInt x \<Rightarrow> Some (f64_of_int (sint x))
      | AInt64 x \<Rightarrow> Some (f64_of_int (sint x))
      | AInt32 x \<Rightarrow> Some (f64_of_int (sint x))
      | _ \<Rightarrow> None)"

text \<open>Go's \<^verbatim>\<open>==\<close> on interface values: different dynamic types are different, slices and maps
  panic.\<close>

definition go_eq :: "('tx, 'v, 'bm) ext \<Rightarrow> any \<Rightarrow> any \<Rightarrow> bool option" where
  "go_eq X a b =
     (case a of
        ANil \<Rightarrow> Some (b = ANil)
      | ABool x \<Rightarrow> Some (b = ABool x)
      | AStr x \<Rightarrow> Some (b = AStr x)
      | AFloat x \<Rightarrow> (case b of AFloat y \<Rightarrow> Some (f64_eq x y) | _ \<Rightarrow> Some False)
      | ANumber x \<Rightarrow> Some (b = ANumber x)
      | AInt x \<Rightarrow> Some (b = AInt x)
      | AInt64 x \<Rightarrow> Some (b = AInt64 x)
      | AInt32 x \<Rightarrow> Some (b = AInt32 x)
      | AFloat32 x \<Rightarrow>
          (case b of AFloat32 y \<Rightarrow> Some (f64_eq (float_of_f32 X x) (float_of_f32 X y)) | _ \<Rightarrow> Some False)
      | AArr x \<Rightarrow> (case b of AArr y \<Rightarrow> None | _ \<Rightarrow> Some False)
      | AObj x \<Rightarrow> (case b of AObj y \<Rightarrow> None | _ \<Rightarrow> Some False))"

definition equalQueryValues :: "('tx, 'v, 'bm) ext \<Rightarrow> any \<Rightarrow> any \<Rightarrow> bool option" where
  "equalQueryValues X a b =
     (case go_eq X a b of
        None \<Rightarrow> None
      | Some True \<Rightarrow> Some True
      | Some False \<Rightarrow>
          (case (queryNumeric X a, queryNumeric X b) of
             (Some l, Some r) \<Rightarrow> Some (f64_eq l r)
           | _ \<Rightarrow> Some False))"

fun strings_Contains :: "string \<Rightarrow> string \<Rightarrow> bool" where
  "strings_Contains [] sub = (sub = [])"
| "strings_Contains (c # s) sub = (prefix sub (c # s) \<or> strings_Contains s sub)"

definition on_strings :: "(string \<Rightarrow> string \<Rightarrow> bool) \<Rightarrow> any \<Rightarrow> any \<Rightarrow> bool" where
  "on_strings f a b = (case (a, b) of (AStr l, AStr r) \<Rightarrow> f l r | _ \<Rightarrow> False)"

definition on_numbers :: "('tx, 'v, 'bm) ext \<Rightarrow> (f64 \<Rightarrow> f64 \<Rightarrow> bool) \<Rightarrow> any \<Rightarrow> any \<Rightarrow> bool" where
  "on_numbers X f a b = (case (queryNumeric X a, queryNumeric X b) of (Some l, Some r) \<Rightarrow> f l r | _ \<Rightarrow> False)"

definition evalQueryPredicate :: "('tx, 'v, 'bm) ext \<Rightarrow> string \<Rightarrow> any \<Rightarrow> any \<Rightarrow> bool option" where
  "evalQueryPredicate X op left right =
     (if op = ''=='' then equalQueryValues X left right
      else if op = ''!='' then map_option Not (equalQueryValues X left right)
      else if op = ''<'' then Some (on_numbers X f64_lt left right)
      else if op = ''<='' then Some (on_numbers X f64_le left right)
      else if op = ''>'' then Some (on_numbers X (\<lambda>l r. f64_lt r l) left right)
      else if op = ''>='' then Some (on_numbers X (\<lambda>l r. f64_le r l) left right)
      else if op = ''starts_with'' then Some (on_strings (\<lambda>l r. prefix r l) left right)
      else if op = ''ends_with'' then Some (on_strings (\<lambda>l r. suffix r l) left right)
      else if op = ''contains'' then Some (on_strings strings_Contains left right)
      else Some False)"

section \<open>Matching\<close>

definition resolveQueryTerm :: "QueryTerm \<Rightarrow> bindings \<Rightarrow> any" where
  "resolveQueryTerm t b = (if IsVar t then bound b (Var t) else Literal t)"

definition matchQueryPattern ::
  "('tx, 'v, 'bm) ext \<Rightarrow> QueryPattern \<Rightarrow> (string \<times> any) list \<Rightarrow> bindings \<Rightarrow> (bool \<times> bindings) option" where
  "matchQueryPattern X p attrs b =
     (if PAttribute p = [] then Some (False, b)
      else case map_of attrs (PAttribute p) of
        None \<Rightarrow> Some (False, b)
      | Some docVal \<Rightarrow>
          if IsLiteral (PValue p) then
            map_option (\<lambda>r. (r, b)) (equalQueryValues X docVal (Literal (PValue p)))
          else if IsVar (PValue p) then
            (case map_of b (Var (PValue p)) of
               Some existing \<Rightarrow> map_option (\<lambda>r. (r, b)) (equalQueryValues X existing docVal)
             | None \<Rightarrow> Some (True, AList.update (Var (PValue p)) docVal b))
          else Some (True, b))"

definition matchQueryPredicate :: "('tx, 'v, 'bm) ext \<Rightarrow> QueryPredicate \<Rightarrow> bindings \<Rightarrow> bool option" where
  "matchQueryPredicate X p b =
     evalQueryPredicate X (Op p) (resolveQueryTerm (Left p) b) (resolveQueryTerm (Right p) b)"

definition matchQueryFullText :: "('tx, 'v, 'bm) ext \<Rightarrow> QueryFullText \<Rightarrow> (string \<times> any) list \<Rightarrow> bool" where
  "matchQueryFullText X f attrs =
     (if FQuery f = [] then False
      else let needle = to_lower X (FQuery f);
               hit = (\<lambda>v. case v of AStr s \<Rightarrow> strings_Contains (to_lower X s) needle | _ \<Rightarrow> False)
           in if FAttribute f \<noteq> [] then
                (case map_of attrs (FAttribute f) of None \<Rightarrow> False | Some v \<Rightarrow> hit v)
              else list_ex (\<lambda>kv. hit (snd kv)) attrs)"

definition cloneQueryBindings :: "bindings \<Rightarrow> bindings" where
  "cloneQueryBindings b = b"

text \<open>What a successful branch of an Or hands back: bindings the parent does not have.\<close>

definition mergeQueryBindings :: "bindings \<Rightarrow> bindings \<Rightarrow> bindings" where
  "mergeQueryBindings scratch b =
     foldl (\<lambda>b kv. if map_of b (fst kv) = None then AList.update (fst kv) (snd kv) b else b) b scratch"

function matchAllQuery ::
    "('tx, 'v, 'bm) ext \<Rightarrow> QueryClause list \<Rightarrow> (string \<times> any) list \<Rightarrow> bindings \<Rightarrow> (bool \<times> bindings) option"
  and matchOneQuery ::
    "('tx, 'v, 'bm) ext \<Rightarrow> QueryClause \<Rightarrow> (string \<times> any) list \<Rightarrow> bindings \<Rightarrow> (bool \<times> bindings) option"
  and matchQueryOr ::
    "('tx, 'v, 'bm) ext \<Rightarrow> QueryClause list list \<Rightarrow> (string \<times> any) list \<Rightarrow> bindings \<Rightarrow> (bool \<times> bindings) option"
  and matchQueryNot ::
    "('tx, 'v, 'bm) ext \<Rightarrow> QueryClause list \<Rightarrow> (string \<times> any) list \<Rightarrow> bindings \<Rightarrow> (bool \<times> bindings) option"
where
  "matchAllQuery X [] attrs b = Some (True, b)"
| "matchAllQuery X (c # clauses) attrs b =
     (case matchOneQuery X c attrs b of
        None \<Rightarrow> None
      | Some (ok, b) \<Rightarrow> if \<not> ok then Some (False, b) else matchAllQuery X clauses attrs b)"
| "matchOneQuery X (QueryClause pat pred orc notc ft) attrs b =
     (case pat of
        Some p \<Rightarrow> matchQueryPattern X p attrs b
      | None \<Rightarrow> (case pred of
          Some p \<Rightarrow> map_option (\<lambda>r. (r, b)) (matchQueryPredicate X p b)
        | None \<Rightarrow> (case orc of
            Some branches \<Rightarrow> matchQueryOr X branches attrs b
          | None \<Rightarrow> (case notc of
              Some body \<Rightarrow> matchQueryNot X body attrs b
            | None \<Rightarrow> (case ft of
                Some f \<Rightarrow> Some (matchQueryFullText X f attrs, b)
              | None \<Rightarrow> Some (False, b))))))"
| "matchQueryOr X [] attrs b = Some (False, b)"
| "matchQueryOr X (branch # branches) attrs b =
     (case matchAllQuery X branch attrs (cloneQueryBindings b) of
        None \<Rightarrow> None
      | Some (ok, scratch) \<Rightarrow>
          if ok then Some (True, mergeQueryBindings scratch b) else matchQueryOr X branches attrs b)"
| "matchQueryNot X body attrs b =
     (case matchAllQuery X body attrs (cloneQueryBindings b) of
        None \<Rightarrow> None
      | Some (ok, _) \<Rightarrow> Some (\<not> ok, b))"

  by pat_completeness auto

termination
  by (relation "measure (\<lambda>s. case s of
      Inl (Inl (X, cs, _)) \<Rightarrow> size_list size cs
    | Inl (Inr (X, c, _)) \<Rightarrow> size c
    | Inr (Inl (X, brs, _)) \<Rightarrow> size_list (size_list size) brs
    | Inr (Inr (X, body, _)) \<Rightarrow> Suc (size_list size body))") auto

section \<open>Aggregates\<close>

definition aggQueryFloat :: "('tx, 'v, 'bm) ext \<Rightarrow> any \<Rightarrow> f64 option" where
  "aggQueryFloat X v =
     (case v of
        AFloat x \<Rightarrow> Some x
      | AFloat32 x \<Rightarrow> Some (float_of_f32 X x)
      | AInt x \<Rightarrow> Some (f64_of_int (sint x))
      | AInt32 x \<Rightarrow> Some (f64_of_int (sint x))
      | AInt64 x \<Rightarrow> Some (f64_of_int (sint x))
      | _ \<Rightarrow> None)"

definition aggQuerySumOver :: "('tx, 'v, 'bm) ext \<Rightarrow> QueryTerm \<Rightarrow> bindings list \<Rightarrow> f64 \<times> nat" where
  "aggQuerySumOver X t members =
     (if Var t = [] then (0, 0)
      else foldl (\<lambda>(sum, n) b.
             case aggQueryFloat X (bound b (Var t)) of
               Some f \<Rightarrow> (f64_add sum f, Suc n) | None \<Rightarrow> (sum, n)) (0, 0) members)"

text \<open>The loop of \<^verbatim>\<open>aggQueryMinOver\<close> and \<^verbatim>\<open>aggQueryMaxOver\<close>; \<open>better f best\<close> is the comparison.\<close>

fun bestLoop :: "(f64 \<Rightarrow> f64 \<Rightarrow> bool) \<Rightarrow> f64 option list \<Rightarrow> f64 option \<Rightarrow> f64 option" where
  "bestLoop better [] best = best"
| "bestLoop better (None # fs) best = bestLoop better fs best"
| "bestLoop better (Some f # fs) best =
     (case best of
        None \<Rightarrow> bestLoop better fs (Some f)
      | Some g \<Rightarrow> bestLoop better fs (if better f g then Some f else Some g))"

definition aggQueryMinOver :: "('tx, 'v, 'bm) ext \<Rightarrow> QueryTerm \<Rightarrow> bindings list \<Rightarrow> any" where
  "aggQueryMinOver X t members =
     (if Var t = [] then ANil
      else case bestLoop f64_lt (map (\<lambda>b. aggQueryFloat X (bound b (Var t))) members) None of
        None \<Rightarrow> ANil | Some best \<Rightarrow> AFloat best)"

definition aggQueryMaxOver :: "('tx, 'v, 'bm) ext \<Rightarrow> QueryTerm \<Rightarrow> bindings list \<Rightarrow> any" where
  "aggQueryMaxOver X t members =
     (if Var t = [] then ANil
      else case bestLoop (\<lambda>f g. f64_lt g f) (map (\<lambda>b. aggQueryFloat X (bound b (Var t))) members) None of
        None \<Rightarrow> ANil | Some best \<Rightarrow> AFloat best)"

definition computeQueryAggregate :: "('tx, 'v, 'bm) ext \<Rightarrow> QueryAggregate \<Rightarrow> bindings list \<Rightarrow> any" where
  "computeQueryAggregate X a members =
     (if Fn a = ''count'' then AFloat (f64_of_int (int (length members)))
      else if Fn a = ''sum'' \<or> Fn a = ''total'' then AFloat (fst (aggQuerySumOver X (Over a) members))
      else if Fn a = ''avg'' then
        (case aggQuerySumOver X (Over a) members of
           (s, n) \<Rightarrow> if n = 0 then AFloat 0 else AFloat (f64_div s (f64_of_int (int n))))
      else if Fn a = ''min'' then aggQueryMinOver X (Over a) members
      else if Fn a = ''max'' then aggQueryMaxOver X (Over a) members
      else ANil)"

definition aggGroupKeyString :: "('tx, 'v, 'bm) ext \<Rightarrow> any list \<Rightarrow> string" where
  "aggGroupKeyString X parts =
     concat (map (\<lambda>(i, p). if 0 < i then ''|'' @ sprint X p else sprint X p) (enumerate 0 parts))"

record bucket =
  bkey :: "any list"
  members :: "bindings list"

text \<open>The loop over the matches: a map of buckets and the keys in the order of their first
  appearance.\<close>

fun bucketLoop ::
  "('tx, 'v, 'bm) ext \<Rightarrow> string list \<Rightarrow> bindings list \<Rightarrow> (string \<times> bucket) list \<Rightarrow> string list \<Rightarrow>
     (string \<times> bucket) list \<times> string list" where
  "bucketLoop X groupBy [] buckets order = (buckets, order)"
| "bucketLoop X groupBy (b # ms) buckets order =
     (let key = map (bound b) groupBy; k = aggGroupKeyString X key in
      case map_of buckets k of
        None \<Rightarrow> bucketLoop X groupBy ms (AList.update k \<lparr>bkey = key, members = [b]\<rparr> buckets) (order @ [k])
      | Some bk \<Rightarrow>
          bucketLoop X groupBy ms (AList.update k (bk\<lparr>members := members bk @ [b]\<rparr>) buckets) order)"

definition runQueryAggregates ::
  "('tx, 'v, 'bm) ext \<Rightarrow> bindings list \<Rightarrow> string list \<Rightarrow> QueryAggregate list \<Rightarrow> QueryRow list" where
  "runQueryAggregates X ms groupBy aggs =
     (if groupBy = [] then [map (\<lambda>a. computeQueryAggregate X a ms) aggs]
      else case bucketLoop X groupBy ms [] [] of (buckets, order) \<Rightarrow>
        map (\<lambda>k. let bk = the (map_of buckets k)
                 in bkey bk @ map (\<lambda>a. computeQueryAggregate X a (members bk)) aggs) (sort order))"

section \<open>The query\<close>

definition collectQueryAnchors :: "QueryClause list \<Rightarrow> QueryPattern list" where
  "collectQueryAnchors clauses =
     List.map_filter (\<lambda>c. case Pattern c of
         None \<Rightarrow> None
       | Some p \<Rightarrow> if PAttribute p \<noteq> [] \<and> IsLiteral (PValue p) then Some p else None) clauses"

definition docIDSetToSorted :: "DocIDSet \<Rightarrow> string list" where
  "docIDSetToSorted s = sort (ForEach s (\<lambda>d acc. (True, acc @ [d])) [])"

fun intersectSortedQueryIDs :: "string list \<Rightarrow> string list \<Rightarrow> string list" where
  "intersectSortedQueryIDs [] b = []"
| "intersectSortedQueryIDs (x # a) [] = []"
| "intersectSortedQueryIDs (x # a) (y # b) =
     (if x < y then intersectSortedQueryIDs a (y # b)
      else if x > y then intersectSortedQueryIDs (x # a) b
      else x # intersectSortedQueryIDs a b)"

fun gatherLoop ::
  "('tx, 'v, 'bm) ext \<Rightarrow> ctx \<Rightarrow> string \<Rightarrow> nat \<Rightarrow> QueryPattern list \<Rightarrow> string list \<Rightarrow> 'tx \<Rightarrow> (string list) result"
where
  "gatherLoop X ctx entityID i [] candidates db = Inr candidates"
| "gatherLoop X ctx entityID i (p # anchors) candidates db =
     bindR (Lookup X (\<lambda>n. ctx (Suc i + n)) entityID
              (composeQueryTerm X (PAttribute p) (Literal (PValue p))) db db) (\<lambda>set.
     let got = docIDSetToSorted set;
         candidates = (if i = 0 then got else intersectSortedQueryIDs candidates got)
     in if candidates = [] then Inr [] else gatherLoop X ctx entityID (Suc i) anchors candidates db)"

definition gatherQueryCandidates ::
  "('tx, 'v, 'bm) ext \<Rightarrow> ctx \<Rightarrow> string \<Rightarrow> QueryPattern list \<Rightarrow> 'tx \<Rightarrow> (string list) result" where
  "gatherQueryCandidates X ctx entityID anchors db = gatherLoop X ctx entityID 0 anchors [] db"

text \<open>The attributes of a candidate: any error on the way reads as a document without fields.\<close>

definition queryDoc :: "('tx, 'v, 'bm) ext \<Rightarrow> string \<Rightarrow> string \<Rightarrow> 'tx \<Rightarrow> (string \<times> any) list" where
  "queryDoc X entityID docID db =
     (case db_view X (\<lambda>tx.
        if \<not> has_bucket X tx (docsBucket entityID) then Inr []
        else case bucket_get X tx (docsBucket entityID) docID of
          None \<Rightarrow> Inr []
        | Some raw \<Rightarrow>
            (case snappy_decode X raw of
               None \<Rightarrow> Inl (NewErr ''snappy: corrupt input'')
             | Some decoded \<Rightarrow>
                 (case unmarshal_map X (contents decoded) of
                    None \<Rightarrow> Inl (NewErr ''json'')
                  | Some m \<Rightarrow> Inr m))) db of
        Inl e \<Rightarrow> []
      | Inr doc \<Rightarrow> doc)"

definition bindingsToRow :: "bindings \<Rightarrow> QueryRow" where
  "bindingsToRow b = [AObj b]"

definition rowsToBindings :: "QueryRow list \<Rightarrow> bindings list" where
  "rowsToBindings rows = List.map_filter (\<lambda>r. case r of [AObj m] \<Rightarrow> Some m | _ \<Rightarrow> None) rows"

fun rowLoop ::
  "('tx, 'v, 'bm) ext \<Rightarrow> QueryRequest \<Rightarrow> string list \<Rightarrow> QueryRow list \<Rightarrow> 'tx \<Rightarrow> (QueryRow list) option" where
  "rowLoop X req [] rows db = Some rows"
| "rowLoop X req (docID # candidates) rows db =
     (case matchAllQuery X (Where req) (queryDoc X (QEntityID req) docID db) [(''?e'', parseQueryRecordID docID)] of
        None \<Rightarrow> None
      | Some (ok, b) \<Rightarrow>
          if \<not> ok then rowLoop X req candidates rows db
          else if 0 < length (Aggregates req) then rowLoop X req candidates (rows @ [bindingsToRow b]) db
          else rowLoop X req candidates (rows @ [map (bound b) (Find req)]) db)"

definition Query :: "('tx, 'v, 'bm) ext \<Rightarrow> ctx \<Rightarrow> QueryRequest \<Rightarrow> 'tx \<Rightarrow> (QueryRow list) result option" where
  "Query X ctx req db =
     (case bindR (validateEntityID (QEntityID req)) (\<lambda>_.
           bindR (ctxErr ctx 0) (\<lambda>_.
           let anchors = collectQueryAnchors (Where req) in
           if length anchors = 0 then Inl (NewErr ''bboltstore: query has no anchor pattern'')
           else gatherQueryCandidates X ctx (QEntityID req) anchors db)) of
        Inl e \<Rightarrow> Some (Inl e)
      | Inr candidates \<Rightarrow>
          if length candidates = 0 then
            (if 0 < length (Aggregates req)
             then Some (Inr (runQueryAggregates X [] (GroupBy req) (Aggregates req)))
             else Some (Inr []))
          else (case rowLoop X req candidates [] db of
            None \<Rightarrow> None
          | Some rows \<Rightarrow>
              if 0 < length (Aggregates req)
              then Some (Inr (runQueryAggregates X (rowsToBindings rows) (GroupBy req) (Aggregates req)))
              else Some (Inr rows)))"

section \<open>Anchors and candidates\<close>

lemma intersectSortedQueryIDs_spec:
  "sorted_wrt (<) a \<Longrightarrow> sorted_wrt (<) b \<Longrightarrow>
    sorted_wrt (<) (intersectSortedQueryIDs a b) \<and> set (intersectSortedQueryIDs a b) = set a \<inter> set b"
proof (induction a b rule: intersectSortedQueryIDs.induct)
  case (3 x a y b)
  consider "x < y" | "y < x" | "x = y" by fastforce
  then show ?case
  proof cases
    case 1
    with 3 have "x \<notin> set (y # b)" by force
    with 1 3 show ?thesis by auto
  next
    case 2
    with 3 have "y \<notin> set (x # a)" by force
    with 2 3 show ?thesis by auto
  next
    case 3
    with "3.IH"(3) "3.prems" show ?thesis by force
  qed
qed auto

lemma docIDSetToSorted_spec:
  "distinct (docids s) \<Longrightarrow> sorted_wrt (<) (docIDSetToSorted s) \<and> set (docIDSetToSorted s) = set (docids s)"
  by (simp add: docIDSetToSorted_def dset.for_each_collect strict_sorted_iff)

definition anchor_term :: "('tx, 'v, 'bm) ext \<Rightarrow> QueryPattern \<Rightarrow> string" where
  "anchor_term X p = composeQueryTerm X (PAttribute p) (Literal (PValue p))"

context ext_laws
begin

lemma gatherLoop_spec:
  assumes ok: "store_ok X db e" and e: "e \<noteq> []" "no_colon e" and c: "\<forall>n. ctx n = None" and b: "begin_err X db = None"
    and "sorted_wrt (<) cands" "i \<noteq> 0"
  shows "\<exists>cs. gatherLoop X ctx e i ps cands db = Inr cs \<and> sorted_wrt (<) cs \<and>
    set cs = {d \<in> set cands. \<forall>p \<in> set ps. anchor_term X p \<in> doc_terms X (doc_contents X db e d)}"
  using assms(6,7)
proof (induction ps arbitrary: i cands)
  case (Cons p ps)
  have kept: "ids_kept X e db db"
    using ok by (intro ids_kept_refl) (simp add: store_ok_def index_ok_def index_inv_def)
  have ad: "admitted X (\<lambda>n. ctx (Suc i + n)) e db db" using e c b by (simp add: admitted_def)
  obtain s where s: "Lookup X (\<lambda>n. ctx (Suc i + n)) e (anchor_term X p) db db = Inr s" "distinct (docids s)"
    "set (docids s) = {d. anchor_term X p \<in> doc_terms X (doc_contents X db e d)}"
    using Lookup_documents [OF ok kept ad] by blast
  let ?cs = "intersectSortedQueryIDs cands (docIDSetToSorted s)"
  have cs: "sorted_wrt (<) ?cs" "set ?cs = set cands \<inter> set (docids s)"
    using intersectSortedQueryIDs_spec [OF Cons.prems(1)] docIDSetToSorted_spec [OF s(2)] by simp_all
  have step: "gatherLoop X ctx e i (p # ps) cands db =
      (if ?cs = [] then Inr [] else gatherLoop X ctx e (Suc i) ps ?cs db)"
    using s(1) Cons.prems(2) by (simp add: anchor_term_def Let_def)
  show ?case
  proof (cases "?cs = []")
    case True
    then have "set cands \<inter> set (docids s) = {}" using cs(2) by simp
    with True step s(3) show ?thesis by auto
  next
    case False
    with step Cons.IH [OF cs(1), of "Suc i"] cs(2) s(3) show ?thesis by auto
  qed
qed auto

lemma gatherQueryCandidates_spec:
  assumes ok: "store_ok X db e" and e: "e \<noteq> []" "no_colon e" and c: "\<forall>n. ctx n = None" and b: "begin_err X db = None"
    and ps: "ps \<noteq> []"
  shows "\<exists>cs. gatherQueryCandidates X ctx e ps db = Inr cs \<and> sorted_wrt (<) cs \<and>
    set cs = {d. \<forall>p \<in> set ps. anchor_term X p \<in> doc_terms X (doc_contents X db e d)}"
proof -
  obtain p qs where p: "ps = p # qs" using ps by (cases ps) auto
  have kept: "ids_kept X e db db"
    using ok by (intro ids_kept_refl) (simp add: store_ok_def index_ok_def index_inv_def)
  have ad: "admitted X (\<lambda>n. ctx (Suc 0 + n)) e db db" using e c b by (simp add: admitted_def)
  obtain s where s: "Lookup X (\<lambda>n. ctx (Suc 0 + n)) e (anchor_term X p) db db = Inr s" "distinct (docids s)"
    "set (docids s) = {d. anchor_term X p \<in> doc_terms X (doc_contents X db e d)}"
    using Lookup_documents [OF ok kept ad] by blast
  let ?cs = "docIDSetToSorted s"
  have cs: "sorted_wrt (<) ?cs" "set ?cs = set (docids s)" using docIDSetToSorted_spec [OF s(2)] by simp_all
  have step: "gatherQueryCandidates X ctx e ps db = (if ?cs = [] then Inr [] else gatherLoop X ctx e 1 qs ?cs db)"
    using s(1) by (simp add: gatherQueryCandidates_def p anchor_term_def Let_def)
  show ?thesis
  proof (cases "?cs = []")
    case True
    then have "set (docids s) = {}" using cs(2) by simp
    with True step s(3) p show ?thesis by auto
  next
    case False
    with step gatherLoop_spec [OF ok e c b cs(1), of 1 qs] cs(2) s(3) p show ?thesis by auto
  qed
qed

end

section \<open>Matching clauses\<close>

text \<open>A conjunction that matches has matched its literal patterns.\<close>

lemma matchAllQuery_literal:
  assumes "matchAllQuery X cs attrs b = Some (True, b')" "c \<in> set cs" "Pattern c = Some p"
    "IsLiteral (PValue p)"
  shows "\<exists>v. map_of attrs (PAttribute p) = Some v \<and> equalQueryValues X v (Literal (PValue p)) = Some True"
  using assms(1,2)
proof (induction cs arbitrary: b)
  case (Cons d cs)
  from Cons.prems(1) obtain b1 where one: "matchOneQuery X d attrs b = Some (True, b1)"
    and rest: "matchAllQuery X cs attrs b1 = Some (True, b')"
    by (auto split: option.splits if_splits)
  show ?case
  proof (cases "d = c")
    case True
    with one assms(3,4) show ?thesis
      by (cases c) (auto simp: matchQueryPattern_def split: if_splits option.splits)
  next
    case False
    with Cons.IH [OF rest] Cons.prems(2) show ?thesis by simp
  qed
qed simp

text \<open>A literal for which the index term agrees with the comparison: a string, a truth value, or a
  number other than zero (the two zeros are equal but print differently).\<close>

definition plain :: "any \<Rightarrow> bool" where
  "plain v \<longleftrightarrow> (case v of AStr s \<Rightarrow> True | ABool b \<Rightarrow> True | AFloat x \<Rightarrow> f64_mag x \<noteq> 0 | _ \<Rightarrow> False)"

lemma f64_eq_nonzero: "f64_eq x y \<Longrightarrow> f64_mag y \<noteq> 0 \<Longrightarrow> x = y"
  by (auto simp: f64_eq_def f64_units_eq_iff intro!: f64_eqI)

lemma plain_equal:
  assumes "equalQueryValues X v lit = Some True" "plain lit" "any_wf v"
  shows "v = lit"
proof (cases lit)
  case (AFloat y)
  show ?thesis
  proof (cases v)
    case A: (AFloat x)
    have "f64_eq x y"
      using assms(1) AFloat A by (auto simp: equalQueryValues_def go_eq_def queryNumeric_def split: if_splits bool.splits)
    with f64_eq_nonzero assms(2) AFloat A show ?thesis by (simp add: plain_def)
  qed (use assms AFloat in \<open>auto simp: equalQueryValues_def go_eq_def queryNumeric_def split: if_splits\<close>)
qed (use assms in \<open>cases v; auto simp: plain_def equalQueryValues_def go_eq_def queryNumeric_def split: if_splits bool.splits\<close>)+

context ext_laws
begin

lemma plain_term:
  assumes doc: "json_unmarshal X doc = Some (AObj kvs)" and v: "map_of kvs a = Some v" and a: "a \<noteq> []"
    and eq: "equalQueryValues X v lit = Some True" and pl: "plain lit"
  shows "composeQueryTerm X a lit \<in> doc_terms X doc"
proof -
  have in_kvs: "(a, v) \<in> set kvs" using v by (rule map_of_SomeD)
  have "any_wf v" using unmarshal_wf [OF doc] in_kvs by fastforce
  with plain_equal [OF eq pl] have vl: "v = lit" by simp
  have "([a], stringifyQueryValue X lit) \<in> set (leaves X [a] lit)"
    using pl by (cases lit) (simp_all add: plain_def stringifyQueryValue_def)
  then have "([a], stringifyQueryValue X lit) \<in> set (leaves X [] (AObj kvs))"
    using in_kvs vl by force
  moreover have "composeQueryTerm X a lit \<in> leaf_terms ([a], stringifyQueryValue X lit)"
    using a by (simp add: composeQueryTerm_def leaf_terms_def)
  moreover have "doc \<noteq> []" using doc unmarshal_empty by auto
  ultimately show ?thesis using doc by (auto simp: doc_terms_def)
qed

lemma queryDoc_contents:
  assumes "docs_ok X db e" "begin_err X db = None"
  shows "queryDoc X e d db =
    (case json_unmarshal X (doc_contents X db e d) of Some (AObj kvs) \<Rightarrow> kvs | _ \<Rightarrow> [])"
proof (cases "bucket_get X db (docsBucket e) d")
  case None
  then show ?thesis using assms(2)
    by (simp add: queryDoc_def db_view_def doc_contents_def stored_def unmarshal_empty)
next
  case (Some raw)
  with assms(1) obtain s where "snappy_decode X raw = Some s" unfolding docs_ok_def by blast
  with Some get_has [OF Some] assms(2) show ?thesis
    by (simp add: queryDoc_def db_view_def doc_contents_def stored_def unmarshal_map_def split: option.splits any.splits)
qed

end

section \<open>The narrowed query is the full scan\<close>

definition query_match :: "('tx, 'v, 'bm) ext \<Rightarrow> QueryRequest \<Rightarrow> 'tx \<Rightarrow> string \<Rightarrow> (bool \<times> bindings) option" where
  "query_match X req db d =
     matchAllQuery X (Where req) (queryDoc X (QEntityID req) d db) [(''?e'', parseQueryRecordID d)]"

definition match_bindings :: "('tx, 'v, 'bm) ext \<Rightarrow> QueryRequest \<Rightarrow> 'tx \<Rightarrow> string \<Rightarrow> bindings option" where
  "match_bindings X req db d = (case query_match X req db d of Some (True, b) \<Rightarrow> Some b | _ \<Rightarrow> None)"

text \<open>The clauses evaluated on every document of the entity, in the order of the ids.\<close>

definition full_scan :: "('tx, 'v, 'bm) ext \<Rightarrow> QueryRequest \<Rightarrow> 'tx \<Rightarrow> bindings list" where
  "full_scan X req db = List.map_filter (match_bindings X req db) (map fst (doc_list X db (QEntityID req)))"

definition query_rows :: "('tx, 'v, 'bm) ext \<Rightarrow> QueryRequest \<Rightarrow> bindings list \<Rightarrow> QueryRow list" where
  "query_rows X req ms =
     (if Aggregates req = [] then map (\<lambda>b. map (bound b) (Find req)) ms
      else runQueryAggregates X ms (GroupBy req) (Aggregates req))"

lemma rowsToBindings_inverse: "rowsToBindings (map bindingsToRow bs) = bs"
  by (induction bs) (simp_all add: rowsToBindings_def bindingsToRow_def List.map_filter_simps)

lemma rowLoop_result:
  assumes "\<forall>d \<in> set cs. query_match X req db d \<noteq> None"
  shows "rowLoop X req cs rows db = Some (rows @
    map (if Aggregates req = [] then (\<lambda>b. map (bound b) (Find req)) else bindingsToRow)
      (List.map_filter (match_bindings X req db) cs))"
  using assms
proof (induction cs arbitrary: rows)
  case (Cons d cs)
  then obtain ok b where "query_match X req db d = Some (ok, b)" by fastforce
  with Cons show ?case
    by (cases ok) (simp_all add: query_match_def match_bindings_def List.map_filter_simps)
qed (simp add: List.map_filter_simps)

lemma map_filter_restrict:
  "(\<And>x. x \<in> set xs \<Longrightarrow> \<not> P x \<Longrightarrow> f x = None) \<Longrightarrow> List.map_filter f (filter P xs) = List.map_filter f xs"
  by (induction xs) (auto simp: List.map_filter_simps split: option.splits)

context ext_laws
begin

lemma Query_full_scan:
  assumes ok: "store_ok X db (QEntityID req)" and v: "validateEntityID (QEntityID req) = Inr ()"
    and c: "\<forall>n. ctx n = None" and b: "begin_err X db = None"
    and an: "collectQueryAnchors (Where req) \<noteq> []"
    and pl: "\<forall>p \<in> set (collectQueryAnchors (Where req)). plain (Literal (PValue p))"
    and np: "\<forall>d. query_match X req db d \<noteq> None"
  shows "Query X ctx req db = Some (Inr (query_rows X req (full_scan X req db)))"
proof -
  let ?e = "QEntityID req" and ?ps = "collectQueryAnchors (Where req)"
  have e: "?e \<noteq> []" "no_colon ?e" using v validateEntityID_ok by blast+
  have dk: "docs_ok X db ?e" using ok by (simp add: store_ok_def)
  obtain cs where cs: "gatherQueryCandidates X ctx ?e ?ps db = Inr cs" "sorted_wrt (<) cs"
    "set cs = {d. \<forall>p \<in> set ?ps. anchor_term X p \<in> doc_terms X (doc_contents X db ?e d)}"
    using gatherQueryCandidates_spec [OF ok e c b an] by blast
  note docs = doc_list_spec [OF dk]
  have keys: "set (map fst (doc_list X db ?e)) = {d. stored X db ?e d \<noteq> None}"
    using docs(2) by (metis dom_def dom_map_of_conv_image_fst image_set)
  obtain p0 where p0: "p0 \<in> set ?ps" using an by (cases ?ps) auto
  have sub: "d \<in> set (map fst (doc_list X db ?e))" if "d \<in> set cs" for d
  proof (rule ccontr)
    assume "d \<notin> set (map fst (doc_list X db ?e))"
    then have "doc_contents X db ?e d = []" unfolding keys by (simp add: doc_contents_def)
    then show False using that p0 unfolding cs(3) by (auto simp: doc_terms_def)
  qed
  have match_in: "d \<in> set cs" if m: "match_bindings X req db d \<noteq> None" for d
    unfolding cs(3) mem_Collect_eq
  proof
    fix p assume "p \<in> set ?ps"
    then obtain cl where cl: "cl \<in> set (Where req)" "Pattern cl = Some p" "PAttribute p \<noteq> []" "IsLiteral (PValue p)"
      and pp: "plain (Literal (PValue p))"
      using pl by (auto simp: collectQueryAnchors_def in_map_filter split: option.splits if_splits)
    from m obtain b' where "matchAllQuery X (Where req) (queryDoc X ?e d db) [(''?e'', parseQueryRecordID d)] = Some (True, b')"
      by (auto simp: match_bindings_def query_match_def split: option.splits bool.splits)
    from matchAllQuery_literal [OF this cl(1,2,4)] obtain v where
      v: "map_of (queryDoc X ?e d db) (PAttribute p) = Some v" "equalQueryValues X v (Literal (PValue p)) = Some True"
      by blast
    from v(1) obtain kvs where "json_unmarshal X (doc_contents X db ?e d) = Some (AObj kvs)" "map_of kvs (PAttribute p) = Some v"
      unfolding queryDoc_contents [OF dk b] by (auto split: option.splits any.splits)
    from plain_term [OF this cl(3) v(2) pp] show "anchor_term X p \<in> doc_terms X (doc_contents X db ?e d)"
      by (simp add: anchor_term_def)
  qed
  have "cs = filter (\<lambda>d. d \<in> set cs) (map fst (doc_list X db ?e))"
    using docs(1) sub by (intro strict_sorted_set_eqI [OF cs(2)]) (auto simp: sorted_wrt_filter simp del: set_map)
  then have scan: "List.map_filter (match_bindings X req db) cs = full_scan X req db"
    using map_filter_restrict [of "map fst (doc_list X db ?e)" "\<lambda>d. d \<in> set cs" "match_bindings X req db"] match_in
    unfolding full_scan_def by metis
  have loop: "rowLoop X req cs [] db = Some (map (if Aggregates req = [] then (\<lambda>b. map (bound b) (Find req)) else bindingsToRow)
      (full_scan X req db))"
    using rowLoop_result [of cs X req db "[]"] np scan by simp
  show ?thesis
  proof (cases "cs = []")
    case True
    then have "full_scan X req db = []" using scan by (simp add: List.map_filter_simps)
    with True cs(1) v c an show ?thesis
      by (simp add: Query_def ctxErr_def Let_def query_rows_def)
  next
    case False
    with loop cs(1) v c an show ?thesis
      by (simp add: Query_def ctxErr_def Let_def query_rows_def rowsToBindings_inverse)
  qed
qed

end

section \<open>Bindings\<close>

text \<open>Matching only adds bindings: a variable that has a value keeps it.\<close>

lemma map_of_update_le: "map_of b k = None \<Longrightarrow> map_of b \<subseteq>\<^sub>m map_of (AList.update k v b)"
  by (auto simp: update_conv' map_le_def)

lemma mergeQueryBindings_le: "map_of b \<subseteq>\<^sub>m map_of (mergeQueryBindings scratch b)"
  unfolding mergeQueryBindings_def
proof (induction scratch arbitrary: b)
  case (Cons kv scratch)
  have "map_of b \<subseteq>\<^sub>m map_of (if map_of b (fst kv) = None then AList.update (fst kv) (snd kv) b else b)"
    by (simp add: map_of_update_le)
  from map_le_trans [OF this Cons.IH] show ?case by simp
qed simp

lemma match_extends:
  "matchAllQuery X cs attrs b = Some (r, b') \<Longrightarrow> map_of b \<subseteq>\<^sub>m map_of b'"
  "matchOneQuery X c attrs b = Some (r, b') \<Longrightarrow> map_of b \<subseteq>\<^sub>m map_of b'"
  "matchQueryOr X brs attrs b = Some (r, b') \<Longrightarrow> map_of b \<subseteq>\<^sub>m map_of b'"
  "matchQueryNot X body attrs b = Some (r, b') \<Longrightarrow> b' = b"
proof (induction X cs attrs b and X c attrs b and X brs attrs b and X body attrs b
    arbitrary: r b' and r b' and r b' and r b' rule: matchAllQuery_matchOneQuery_matchQueryOr_matchQueryNot.induct)
  case (2 X c clauses attrs b)
  then show ?case by (auto split: option.splits if_splits intro: map_le_trans)
next
  case (3 X pat pred orc notc ft attrs b)
  have "map_of b \<subseteq>\<^sub>m map_of b'" if "matchQueryPattern X p attrs b = Some (r, b')" for p
    using that by (auto simp: matchQueryPattern_def split: if_splits option.splits intro: map_of_update_le)
  with 3 show ?case by (auto split: option.splits)
next
  case (5 X branch branches attrs b)
  then show ?case by (auto split: option.splits if_splits simp: mergeQueryBindings_le)
qed (auto split: option.splits)

section \<open>Grouping\<close>

definition group_of :: "('tx, 'v, 'bm) ext \<Rightarrow> string list \<Rightarrow> bindings \<Rightarrow> string" where
  "group_of X groupBy b = aggGroupKeyString X (map (bound b) groupBy)"

text \<open>The reference: one row per different key, in the order of the keys, over all matches with that
  key in their order.\<close>

definition grouped_rows ::
  "('tx, 'v, 'bm) ext \<Rightarrow> bindings list \<Rightarrow> string list \<Rightarrow> QueryAggregate list \<Rightarrow> QueryRow list" where
  "grouped_rows X ms groupBy aggs =
     map (\<lambda>k. let g = filter (\<lambda>b. group_of X groupBy b = k) ms
              in map (bound (hd g)) groupBy @ map (\<lambda>a. computeQueryAggregate X a g) aggs)
       (sort (remdups (map (group_of X groupBy) ms)))"

definition buckets_of :: "('tx, 'v, 'bm) ext \<Rightarrow> string list \<Rightarrow> bindings list \<Rightarrow> (string \<times> bucket) list \<Rightarrow> string list \<Rightarrow> bool" where
  "buckets_of X groupBy done buckets order \<longleftrightarrow>
     distinct order \<and> set order = group_of X groupBy ` set done \<and>
     (\<forall>k. map_of buckets k =
        (let g = filter (\<lambda>b. group_of X groupBy b = k) done
         in if g = [] then None else Some \<lparr>bkey = map (bound (hd g)) groupBy, members = g\<rparr>))"

lemma bucketLoop_buckets:
  "buckets_of X groupBy done buckets order \<Longrightarrow> bucketLoop X groupBy ms buckets order = (B, O') \<Longrightarrow>
    buckets_of X groupBy (done @ ms) B O'"
proof (induction ms arbitrary: "done" buckets order)
  case (Cons b ms)
  let ?k = "group_of X groupBy b" and ?key = "map (bound b) groupBy"
  let ?g = "\<lambda>k. filter (\<lambda>b. group_of X groupBy b = k) done"
  have inv: "distinct order" "set order = group_of X groupBy ` set done"
    "\<And>k. map_of buckets k = (if ?g k = [] then None else Some \<lparr>bkey = map (bound (hd (?g k))) groupBy, members = ?g k\<rparr>)"
    using Cons.prems(1) by (simp_all add: buckets_of_def Let_def)
  have new: "?g ?k = [] \<longleftrightarrow> ?k \<notin> set order" by (simp add: inv(2) filter_empty_conv image_iff) metis
  show ?case
  proof (cases "?g ?k = []")
    case True
    let ?B = "AList.update ?k \<lparr>bkey = ?key, members = [b]\<rparr> buckets"
    have "buckets_of X groupBy (done @ [b]) ?B (order @ [?k])"
      unfolding buckets_of_def using inv new True by (auto simp: Let_def update_conv')
    moreover have "bucketLoop X groupBy (b # ms) buckets order = bucketLoop X groupBy ms ?B (order @ [?k])"
      using True inv(3) [of ?k] by (simp add: Let_def group_of_def)
    ultimately show ?thesis using Cons.IH [of "done @ [b]" ?B "order @ [?k]"] Cons.prems(2) by simp
  next
    case False
    let ?bk = "\<lparr>bkey = map (bound (hd (?g ?k))) groupBy, members = ?g ?k @ [b]\<rparr>"
    let ?B = "AList.update ?k ?bk buckets"
    have "buckets_of X groupBy (done @ [b]) ?B order"
      unfolding buckets_of_def using inv new False by (auto simp: Let_def update_conv')
    moreover have "bucketLoop X groupBy (b # ms) buckets order = bucketLoop X groupBy ms ?B order"
      using False inv(3) [of ?k] by (simp add: Let_def group_of_def)
    ultimately show ?thesis using Cons.IH [of "done @ [b]" ?B order] Cons.prems(2) by simp
  qed
qed simp

lemma runQueryAggregates_grouped:
  assumes "groupBy \<noteq> []"
  shows "runQueryAggregates X ms groupBy aggs = grouped_rows X ms groupBy aggs"
proof -
  obtain B O' where run: "bucketLoop X groupBy ms [] [] = (B, O')" by fastforce
  have "buckets_of X groupBy [] [] []" by (simp add: buckets_of_def)
  from bucketLoop_buckets [OF this run] have inv: "buckets_of X groupBy ms B O'" by simp
  then have "sort O' = sort (remdups (map (group_of X groupBy) ms))"
    by (intro strict_sorted_set_eqI) (simp_all add: buckets_of_def strict_sorted_iff)
  moreover have "(let bk = the (map_of B k) in bkey bk @ map (\<lambda>a. computeQueryAggregate X a (members bk)) aggs) =
      (let g = filter (\<lambda>b. group_of X groupBy b = k) ms
       in map (bound (hd g)) groupBy @ map (\<lambda>a. computeQueryAggregate X a g) aggs)"
    if "k \<in> set (sort O')" for k
  proof -
    have "k \<in> group_of X groupBy ` set ms" using that inv by (simp add: buckets_of_def)
    then have "filter (\<lambda>b. group_of X groupBy b = k) ms \<noteq> []" by (auto simp: filter_empty_conv)
    with inv show ?thesis by (simp add: buckets_of_def Let_def)
  qed
  ultimately show ?thesis
    using assms run by (simp add: runQueryAggregates_def grouped_rows_def cong: map_cong)
qed

text \<open>The grouping that is meant: matches belong together when their values of all variables print the
  same. When no printed value contains the separator, the joined texts tell the groups apart.\<close>

fun joined :: "string list \<Rightarrow> string" where
  "joined [] = []"
| "joined [t] = t"
| "joined (t # ts) = t @ ''|'' @ joined ts"

definition shown :: "('tx, 'v, 'bm) ext \<Rightarrow> string list \<Rightarrow> bindings \<Rightarrow> string list" where
  "shown X groupBy b = map (\<lambda>v. sprint X (bound b v)) groupBy"

definition rows_by_text ::
  "('tx, 'v, 'bm) ext \<Rightarrow> bindings list \<Rightarrow> string list \<Rightarrow> QueryAggregate list \<Rightarrow> QueryRow list" where
  "rows_by_text X ms groupBy aggs =
     map (\<lambda>ts. let g = filter (\<lambda>b. shown X groupBy b = ts) ms
               in map (bound (hd g)) groupBy @ map (\<lambda>a. computeQueryAggregate X a g) aggs)
       (sort_key joined (remdups (map (shown X groupBy) ms)))"

lemma aggGroupKeyString_joined: "aggGroupKeyString X parts = joined (map (sprint X) parts)"
proof -
  have later: "concat (map (\<lambda>(i, p). if 0 < i then ''|'' @ sprint X p else sprint X p) (enumerate (Suc n) ps)) =
      concat (map (\<lambda>p. ''|'' @ sprint X p) ps)" for n ps
    by (induction ps arbitrary: n) simp_all
  have "joined (t # ts) = t @ concat (map (\<lambda>s. ''|'' @ s) ts)" for t ts
    by (induction ts arbitrary: t) simp_all
  then show ?thesis by (cases parts) (simp_all add: aggGroupKeyString_def later comp_def)
qed

lemma joined_inject:
  assumes "length ts = length us" "\<forall>t \<in> set ts. CHR ''|'' \<notin> set t" "\<forall>t \<in> set us. CHR ''|'' \<notin> set t"
  shows "joined ts = joined us \<longleftrightarrow> ts = us"
  using assms
proof (induction ts arbitrary: us rule: joined.induct)
  case (2 t)
  then show ?case by (cases us) auto
next
  case (3 t t' ts)
  then obtain u u' us' where us: "us = u # u' # us'" by (metis length_Suc_conv)
  have "t @ CHR ''|'' # joined (t' # ts) = u @ CHR ''|'' # joined (u' # us') \<longleftrightarrow>
      t = u \<and> joined (t' # ts) = joined (u' # us')"
    using 3 us by (intro sep_append_eq) auto
  with 3 us show ?case by simp
qed simp

lemma sort_key_map_inj:
  assumes "inj_on f (set xs)" "distinct xs"
  shows "map f (sort_key f xs) = sort (map f xs)"
  using assms by (intro strict_sorted_set_eqI) (auto simp: strict_sorted_iff distinct_map)

lemma remdups_map_inj: "inj_on f (set xs) \<Longrightarrow> remdups (map f xs) = map f (remdups xs)"
  by (induction xs) (auto simp: inj_on_def image_iff)

lemma grouped_rows_by_text:
  assumes plain: "\<forall>b \<in> set ms. \<forall>t \<in> set (shown X groupBy b). CHR ''|'' \<notin> set t"
  shows "grouped_rows X ms groupBy aggs = rows_by_text X ms groupBy aggs"
proof -
  let ?T = "map (shown X groupBy) ms"
  have key: "group_of X groupBy b = joined (shown X groupBy b)" for b
    by (simp add: group_of_def shown_def aggGroupKeyString_joined comp_def)
  have inj: "inj_on joined (set ?T)"
    using plain by (auto intro!: inj_onI simp: joined_inject shown_def)
  have keys: "sort (remdups (map (group_of X groupBy) ms)) = map joined (sort_key joined (remdups ?T))"
  proof -
    have "map (group_of X groupBy) ms = map joined ?T" by (simp add: key)
    then show ?thesis
      using remdups_map_inj [OF inj] sort_key_map_inj [of joined "remdups ?T"] inj by (simp del: map_map)
  qed
  have "filter (\<lambda>b. group_of X groupBy b = joined ts) ms = filter (\<lambda>b. shown X groupBy b = ts) ms"
    if "ts \<in> set ?T" for ts
    using that inj by (intro filter_cong) (auto simp: key inj_on_def)
  then show ?thesis
    unfolding grouped_rows_def rows_by_text_def keys by (simp add: Let_def)
qed

text \<open>The extreme of a list of numbers is one of them and bounds the others.\<close>

lemma bestLoop_spec:
  assumes total: "\<And>f g. f \<in> N \<Longrightarrow> g \<in> N \<Longrightarrow> \<not> better f g \<Longrightarrow> le g f"
    and imp: "\<And>f g. better f g \<Longrightarrow> le f g" and refl: "\<And>f. f \<in> N \<Longrightarrow> le f f"
    and trans: "\<And>f g h. le f g \<Longrightarrow> le g h \<Longrightarrow> le f h"
    and "\<forall>f. Some f \<in> set fs \<longrightarrow> f \<in> N" "\<forall>f. best = Some f \<longrightarrow> f \<in> N"
  shows "case bestLoop better fs best of
      None \<Rightarrow> best = None \<and> set fs \<subseteq> {None}
    | Some m \<Rightarrow> (best = Some m \<or> Some m \<in> set fs) \<and> (\<forall>f. best = Some f \<or> Some f \<in> set fs \<longrightarrow> le m f)"
  using assms(5,6)
proof (induction fs arbitrary: best)
  case Nil
  then show ?case by (auto simp: refl split: option.splits)
next
  case (Cons fo fs)
  show ?case
  proof (cases fo)
    case None
    with Cons.IH [of best] Cons.prems show ?thesis by (auto split: option.splits)
  next
    case f: (Some f)
    show ?thesis
    proof (cases best)
      case None
      with Cons.IH [of "Some f"] Cons.prems f show ?thesis by (auto split: option.splits)
    next
      case (Some g)
      have n: "f \<in> N" "g \<in> N" using Cons.prems Some f by auto
      define b where "b = (if better f g then f else g)"
      have b: "b = f \<or> b = g" "le b f" "le b g"
        using n total imp refl by (auto simp: b_def)
      have "bestLoop better (fo # fs) best = bestLoop better fs (Some b)" using Some f by (simp add: b_def)
      with Cons.IH [of "Some b"] Cons.prems n b Some f show ?thesis
        by (auto split: option.splits) (blast intro: trans)+
    qed
  qed
qed

text \<open>What the aggregates are meant to be, on the numbers that the members have for the variable; the
  extremes bound the others when all numbers are finite.\<close>

definition numbers_of :: "('tx, 'v, 'bm) ext \<Rightarrow> QueryTerm \<Rightarrow> bindings list \<Rightarrow> f64 list" where
  "numbers_of X t ms = (if Var t = [] then [] else List.map_filter (\<lambda>b. aggQueryFloat X (bound b (Var t))) ms)"

definition extreme :: "(f64 \<Rightarrow> f64 \<Rightarrow> bool) \<Rightarrow> f64 list \<Rightarrow> any \<Rightarrow> bool" where
  "extreme le ns v \<longleftrightarrow>
     (if ns = [] then v = ANil
      else \<exists>m \<in> set ns. v = AFloat m \<and> ((\<forall>f \<in> set ns. f64_finite f) \<longrightarrow> (\<forall>f \<in> set ns. le m f)))"

definition aggregate_meant :: "('tx, 'v, 'bm) ext \<Rightarrow> QueryAggregate \<Rightarrow> bindings list \<Rightarrow> any \<Rightarrow> bool" where
  "aggregate_meant X a ms v \<longleftrightarrow>
     (let ns = numbers_of X (Over a) ms; tot = foldl f64_add 0 ns in
      if Fn a = ''count'' then v = AFloat (f64_of_int (int (length ms)))
      else if Fn a \<in> {''sum'', ''total''} then v = AFloat tot
      else if Fn a = ''avg'' then v = AFloat (if ns = [] then 0 else f64_div tot (f64_of_int (int (length ns))))
      else if Fn a = ''min'' then extreme f64_le ns v
      else if Fn a = ''max'' then extreme (\<lambda>m f. f64_le f m) ns v
      else v = ANil)"

lemma aggQuerySumOver_numbers:
  "aggQuerySumOver X t ms = (foldl f64_add 0 (numbers_of X t ms), length (numbers_of X t ms))"
proof -
  have "foldl (\<lambda>(sum, n) b. case aggQueryFloat X (bound b (Var t)) of
      Some f \<Rightarrow> (f64_add sum f, Suc n) | None \<Rightarrow> (sum, n)) (s, n) ms =
    (foldl f64_add s (List.map_filter (\<lambda>b. aggQueryFloat X (bound b (Var t))) ms),
     n + length (List.map_filter (\<lambda>b. aggQueryFloat X (bound b (Var t))) ms))" for s n
    by (induction ms arbitrary: s n) (auto simp: List.map_filter_simps split: option.splits)
  from this [of 0 0] show ?thesis by (simp add: aggQuerySumOver_def numbers_of_def)
qed

lemma bestLoop_member:
  "bestLoop better fs best = None \<longleftrightarrow> best = None \<and> set fs \<subseteq> {None}"
  "bestLoop better fs best = Some m \<Longrightarrow> best = Some m \<or> Some m \<in> set fs"
  by (induction better fs best rule: bestLoop.induct) (auto split: option.splits if_splits)

lemma extreme_bestLoop:
  assumes "\<And>f g. f64_finite f \<Longrightarrow> f64_finite g \<Longrightarrow> \<not> better f g \<Longrightarrow> le g f"
    "\<And>f g. better f g \<Longrightarrow> le f g" "\<And>f. f64_finite f \<Longrightarrow> le f f"
    "\<And>f g h. le f g \<Longrightarrow> le g h \<Longrightarrow> le f h"
    and ns: "set ns = {f. Some f \<in> set fs}"
  shows "extreme le ns (case bestLoop better fs None of None \<Rightarrow> ANil | Some best \<Rightarrow> AFloat best)"
proof (cases "bestLoop better fs None")
  case None
  then have "ns = []" using bestLoop_member(1) [of better fs None] ns by (cases ns) auto
  with None show ?thesis by (simp add: extreme_def)
next
  case (Some m)
  then have m: "m \<in> set ns" using bestLoop_member(2) ns by fastforce
  have "le m f" if "\<forall>f \<in> set ns. f64_finite f" "f \<in> set ns" for f
    using bestLoop_spec [where N = "{f. f64_finite f}" and better = better and le = le and fs = fs and best = None] assms(1-4) that ns Some by auto
  with m Some show ?thesis by (auto simp: extreme_def)
qed

lemma computeQueryAggregate_meant: "aggregate_meant X a ms (computeQueryAggregate X a ms)"
proof -
  let ?t = "Over a" and ?fs = "map (\<lambda>b. aggQueryFloat X (bound b (Var (Over a)))) ms"
  have ns: "set (numbers_of X ?t ms) = {f. Some f \<in> set ?fs}" if "Var ?t \<noteq> []"
    using that by (auto simp: numbers_of_def in_map_filter image_iff) metis
  have mn: "extreme f64_le (numbers_of X ?t ms) (aggQueryMinOver X ?t ms)"
  proof (cases "Var ?t = []")
    case False
    then show ?thesis
      unfolding aggQueryMinOver_def if_not_P [OF False]
      by (intro extreme_bestLoop ns) (auto simp: f64_lt_def f64_le_def f64_finite_iff)
  qed (simp add: aggQueryMinOver_def numbers_of_def extreme_def)
  have mx: "extreme (\<lambda>m f. f64_le f m) (numbers_of X ?t ms) (aggQueryMaxOver X ?t ms)"
  proof (cases "Var ?t = []")
    case False
    then show ?thesis
      unfolding aggQueryMaxOver_def if_not_P [OF False]
      by (intro extreme_bestLoop ns) (auto simp: f64_lt_def f64_le_def f64_finite_iff)
  qed (simp add: aggQueryMaxOver_def numbers_of_def extreme_def)
  show ?thesis
    using mn mx by (auto simp: aggregate_meant_def computeQueryAggregate_def aggQuerySumOver_numbers Let_def)
qed

end
