(* ===== verification/Vectorindex.thy ===== *)
theory Vectorindex
  imports Externals
begin

text \<open>
  \<^verbatim>\<open>vectorindex/index.go\<close>: the in-memory index of vectors, one HNSW graph per entity and scope with
  a locked dimension, and tombstones for deleted ids. The graph is \<^verbatim>\<open>coder/hnsw\<close>, a record of the
  calls the code makes, with the laws it relies on; nothing is assumed about which neighbours a
  search finds.
\<close>

section \<open>The graph library\<close>

type_synonym f32 = "32 word"
type_synonym distance = "f32 list \<Rightarrow> f32 list \<Rightarrow> f32"

record 'g hnsw =
  newGraph :: 'g
  setDistance :: "distance \<Rightarrow> 'g \<Rightarrow> 'g"
  setM :: "int \<Rightarrow> 'g \<Rightarrow> 'g"
  setMl :: "f64 \<Rightarrow> 'g \<Rightarrow> 'g"
  setEfSearch :: "int \<Rightarrow> 'g \<Rightarrow> 'g"
  graphLookup :: "'g \<Rightarrow> string \<Rightarrow> f32 list option"
  graphLen :: "'g \<Rightarrow> nat"
  graphDelete :: "string \<Rightarrow> 'g \<Rightarrow> 'g"
  graphAdd :: "string \<Rightarrow> f32 list \<Rightarrow> 'g \<Rightarrow> 'g"
  graphSearch :: "'g \<Rightarrow> f32 list \<Rightarrow> nat \<Rightarrow> (string \<times> f32 list) list"
  CosineDistance :: distance
  EuclideanDistance :: distance

text \<open>The library's limits, as the comments of the code record them: adding a key that the graph
  has, or a vector of another length, panics; deleting the only node leaves a graph that nothing
  can be added to; after a deletion the graph cannot be searched until a node is added. So the
  laws hold of the graphs that are \<open>addable\<close> and \<open>searchable\<close>.\<close>

locale hnsw_laws =
  fixes H :: "'g hnsw" and addable searchable :: "'g \<Rightarrow> bool"
  assumes new_ready: "addable (newGraph H)" "searchable (newGraph H)"
    and lookup_new: "graphLookup H (newGraph H) key = None"
    and settings_ready: "addable g \<Longrightarrow> addable (setDistance H f g)" "addable g \<Longrightarrow> addable (setM H n g)"
      "addable g \<Longrightarrow> addable (setMl H x g)" "addable g \<Longrightarrow> addable (setEfSearch H n g)"
    and lookup_settings: "graphLookup H (setDistance H f g) = graphLookup H g"
      "graphLookup H (setM H n g) = graphLookup H g" "graphLookup H (setMl H x g) = graphLookup H g"
      "graphLookup H (setEfSearch H n g) = graphLookup H g"
    and add_ready: "\<lbrakk>addable g; graphLookup H g key = None;
        \<And>j w. graphLookup H g j = Some w \<Longrightarrow> length w = length v\<rbrakk> \<Longrightarrow>
        addable (graphAdd H key v g) \<and> searchable (graphAdd H key v g)"
    and lookup_add: "\<lbrakk>addable g; graphLookup H g key = None;
        \<And>j w. graphLookup H g j = Some w \<Longrightarrow> length w = length v\<rbrakk> \<Longrightarrow>
        graphLookup H (graphAdd H key v g) = (graphLookup H g)(key \<mapsto> v)"
    and delete_ready: "addable g \<Longrightarrow> graphLen H g \<noteq> 1 \<Longrightarrow> addable (graphDelete H key g)"
    and lookup_delete: "graphLookup H (graphDelete H key g) = (graphLookup H g)(key := None)"
    and finite_lookup: "finite (dom (graphLookup H g))"
    and len_lookup: "graphLen H g = card (dom (graphLookup H g))"
    and search_members: "searchable g \<Longrightarrow> (key, v) \<in> set (graphSearch H g q c) \<Longrightarrow> graphLookup H g key = Some v"
    and search_distinct: "searchable g \<Longrightarrow> distinct (map fst (graphSearch H g q c))"
    and search_length: "searchable g \<Longrightarrow> length (graphSearch H g q c) \<le> c"

section \<open>Definitions\<close>

definition Cosine :: Metric where
  "Cosine = 0"

definition Euclidean :: Metric where
  "Euclidean = 1"

definition distanceFunc :: "'g hnsw \<Rightarrow> Metric \<Rightarrow> distance" where
  "distanceFunc H m = (if m = Euclidean then EuclideanDistance H else CosineDistance H)"

record VectorResult =
  RID :: string
  Distance :: f32

record Options =
  OptM :: int
  OptMl :: f64
  OptEfSearch :: int

text \<open>A nil map of tombstones behaves as an empty one.\<close>

record 'g scopeState =
  graph :: 'g
  dim :: nat
  metric :: Metric
  tombstones :: "string list"

type_synonym scopeKey = "string \<times> string"

record 'g Index =
  scopes :: "(scopeKey \<times> 'g scopeState) list"
  opts :: Options

definition NewWithOptions :: "Options \<Rightarrow> 'g Index" where
  "NewWithOptions o' = \<lparr>scopes = [], opts = o'\<rparr>"

definition NewIndex :: "'g Index" where
  "NewIndex = NewWithOptions \<lparr>OptM = 0, OptMl = 0, OptEfSearch = 0\<rparr>"

definition validateID :: "string \<Rightarrow> string \<Rightarrow> string \<Rightarrow> unit result" where
  "validateID entity scope vid =
     (if entity = [] then Inl (NewErr ''vectorindex: empty entity'')
      else if scope = [] then Inl (NewErr ''vectorindex: empty scope'')
      else if vid = [] then Inl (NewErr ''vectorindex: empty id'')
      else Inr ())"

definition newScopeGraph :: "'g hnsw \<Rightarrow> Options \<Rightarrow> Metric \<Rightarrow> 'g" where
  "newScopeGraph H opt m =
     (let g = setDistance H (distanceFunc H m) (newGraph H);
          g = (if OptM opt > 0 then setM H (OptM opt) g else g);
          g = (if f64_lt 0 (OptMl opt) then setMl H (OptMl opt) g else g)
      in if OptEfSearch opt > 0 then setEfSearch H (OptEfSearch opt) g else g)"

text \<open>The scope an Insert works on: the existing one, or a fresh one with the dimension locked.\<close>

definition openScope ::
  "'g hnsw \<Rightarrow> string \<Rightarrow> string \<Rightarrow> f32 list \<Rightarrow> Metric \<Rightarrow> 'g Index \<Rightarrow> bool \<times> 'g scopeState" where
  "openScope H entity scope vec m i =
     (case map_of (scopes i) (entity, scope) of
        Some st \<Rightarrow> (True, st)
      | None \<Rightarrow> (False, \<lparr>graph = newScopeGraph H (opts i) m, dim = length vec, metric = m, tombstones = []\<rparr>))"

definition setScope :: "string \<Rightarrow> string \<Rightarrow> 'g scopeState \<Rightarrow> 'g Index \<Rightarrow> 'g Index" where
  "setScope entity scope st i = i\<lparr>scopes := AList.update (entity, scope) st (scopes i)\<rparr>"

definition replaceNode :: "'g hnsw \<Rightarrow> Options \<Rightarrow> string \<Rightarrow> f32 list \<Rightarrow> 'g scopeState \<Rightarrow> 'g scopeState" where
  "replaceNode H opt vid vec st =
     (let g = (if graphLookup H (graph st) vid \<noteq> None then
                 (if graphLen H (graph st) = 1 then newScopeGraph H opt (metric st)
                  else graphDelete H vid (graph st))
               else graph st)
      in st\<lparr>graph := graphAdd H vid vec g\<rparr>)"

definition Insert ::
  "'g hnsw \<Rightarrow> string \<Rightarrow> string \<Rightarrow> string \<Rightarrow> f32 list \<Rightarrow> Metric \<Rightarrow> 'g Index \<Rightarrow> unit result \<times> 'g Index" where
  "Insert H entity scope vid vec m i =
     (case validateID entity scope vid of
        Inl e \<Rightarrow> (Inl e, i)
      | Inr _ \<Rightarrow>
          if length vec = 0 then (Inl (Sentinel ErrEmptyVector), i)
          else (case openScope H entity scope vec m i of (found, st) \<Rightarrow>
            let st = st\<lparr>tombstones := removeAll vid (tombstones st)\<rparr> in
            if found \<and> length vec \<noteq> dim st
            then (Inl (Wrapf '': scope expects dim'' (Sentinel ErrDimensionMismatch)), setScope entity scope st i)
            else (Inr (), setScope entity scope (replaceNode H (opts i) vid vec st) i)))"

fun searchLoop ::
  "'g hnsw \<Rightarrow> 'g scopeState \<Rightarrow> f32 list \<Rightarrow> int \<Rightarrow> (string \<times> f32 list) list \<Rightarrow> VectorResult list \<Rightarrow> VectorResult list"
where
  "searchLoop H st query k [] out = out"
| "searchLoop H st query k ((key, vl) # hits) out =
     (if key \<in> set (tombstones st) then searchLoop H st query k hits out
      else let out = out @ [\<lparr>RID = key, Distance = distanceFunc H (metric st) query vl\<rparr>] in
           if int (length out) = k then out else searchLoop H st query k hits out)"

definition Search ::
  "'g hnsw \<Rightarrow> string \<Rightarrow> string \<Rightarrow> f32 list \<Rightarrow> int \<Rightarrow> 'g Index \<Rightarrow> (VectorResult list) result" where
  "Search H entity scope query k i =
     (if length query = 0 then Inl (Sentinel ErrEmptyVector)
      else if k \<le> 0 then Inr []
      else case map_of (scopes i) (entity, scope) of
        None \<Rightarrow> Inl (Sentinel ErrScopeNotFound)
      | Some st \<Rightarrow>
          if length query \<noteq> dim st
          then Inl (Wrapf '': scope expects dim'' (Sentinel ErrDimensionMismatch))
          else let fetchK = k + int (length (tombstones st));
                   hits = graphSearch H (graph st) query (nat fetchK)
               in Inr (searchLoop H st query k hits []))"

definition DeleteVec :: "'g hnsw \<Rightarrow> string \<Rightarrow> string \<Rightarrow> string \<Rightarrow> 'g Index \<Rightarrow> bool \<times> 'g Index" where
  "DeleteVec H entity scope vid i =
     (if entity = [] \<or> scope = [] \<or> vid = [] then (False, i)
      else case map_of (scopes i) (entity, scope) of
        None \<Rightarrow> (False, i)
      | Some st \<Rightarrow>
          if graphLookup H (graph st) vid = None then (False, i)
          else if vid \<in> set (tombstones st) then (False, i)
          else (True, setScope entity scope (st\<lparr>tombstones := tombstones st @ [vid]\<rparr>) i))"

definition DropScope :: "string \<Rightarrow> string \<Rightarrow> 'g Index \<Rightarrow> bool \<times> 'g Index" where
  "DropScope entity scope i =
     (if entity = [] \<or> scope = [] then (False, i)
      else case map_of (scopes i) (entity, scope) of
        None \<Rightarrow> (False, i)
      | Some _ \<Rightarrow> (True, i\<lparr>scopes := AList.delete (entity, scope) (scopes i)\<rparr>))"

record ScopeInfo =
  Scope :: string
  SDim :: nat
  SCnt :: int
  SMetric :: Metric

text \<open>\<^verbatim>\<open>sortScopeInfo\<close>: insertion sort by swapping neighbours.\<close>

fun sortInner :: "ScopeInfo list \<Rightarrow> nat \<Rightarrow> ScopeInfo list" where
  "sortInner s 0 = s"
| "sortInner s (Suc j) =
     (if Scope (s ! j) > Scope (s ! Suc j)
      then sortInner (s[j := s ! Suc j, Suc j := s ! j]) j else s)"

function sortOuter :: "ScopeInfo list \<Rightarrow> nat \<Rightarrow> ScopeInfo list" where
  "sortOuter s i = (if i < length s then sortOuter (sortInner s i) (Suc i) else s)"
  by pat_completeness auto

lemma length_sortInner [simp]: "length (sortInner s j) = length s"
  by (induction s j rule: sortInner.induct) auto

termination sortOuter
  by (relation "measure (\<lambda>(s, i). length s - i)") auto

declare sortOuter.simps [simp del]

definition sortScopeInfo :: "ScopeInfo list \<Rightarrow> ScopeInfo list" where
  "sortScopeInfo s = sortOuter s 1"

definition scopeCount :: "'g hnsw \<Rightarrow> 'g scopeState \<Rightarrow> int" where
  "scopeCount H st = int (graphLen H (graph st)) - int (length (tombstones st))"

definition ListScopes :: "'g hnsw \<Rightarrow> string \<Rightarrow> 'g Index \<Rightarrow> ScopeInfo list" where
  "ListScopes H entity i =
     sortScopeInfo (List.map_filter (\<lambda>(k, st).
       if fst k \<noteq> entity then None
       else Some \<lparr>Scope = snd k, SDim = dim st, SCnt = scopeCount H st, SMetric = metric st\<rparr>) (scopes i))"

definition Dim :: "string \<Rightarrow> string \<Rightarrow> 'g Index \<Rightarrow> nat \<times> bool" where
  "Dim entity scope i =
     (case map_of (scopes i) (entity, scope) of None \<Rightarrow> (0, False) | Some st \<Rightarrow> (dim st, True))"

definition IndexLen :: "'g hnsw \<Rightarrow> string \<Rightarrow> string \<Rightarrow> 'g Index \<Rightarrow> int" where
  "IndexLen H entity scope i =
     (case map_of (scopes i) (entity, scope) of None \<Rightarrow> 0 | Some st \<Rightarrow> scopeCount H st)"

section \<open>The vectors an index shows\<close>

definition live_vecs :: "'g hnsw \<Rightarrow> 'g scopeState \<Rightarrow> string \<Rightarrow> f32 list option" where
  "live_vecs H st = graphLookup H (graph st) |` (- set (tombstones st))"

text \<open>A scope as its clients see it: the locked dimension and metric, and the live vectors.\<close>

type_synonym scopeView = "nat \<times> Metric \<times> (string \<rightharpoonup> f32 list)"

definition scope_view :: "'g hnsw \<Rightarrow> 'g scopeState \<Rightarrow> scopeView" where
  "scope_view H st = (dim st, metric st, live_vecs H st)"

definition index_view :: "'g hnsw \<Rightarrow> 'g Index \<Rightarrow> scopeKey \<Rightarrow> scopeView option" where
  "index_view H i k = map_option (scope_view H) (map_of (scopes i) k)"

definition scope_ok :: "'g hnsw \<Rightarrow> ('g \<Rightarrow> bool) \<Rightarrow> ('g \<Rightarrow> bool) \<Rightarrow> 'g scopeState \<Rightarrow> bool" where
  "scope_ok H addable searchable st \<longleftrightarrow>
     0 < dim st \<and> addable (graph st) \<and> searchable (graph st) \<and>
     (\<forall>j w. graphLookup H (graph st) j = Some w \<longrightarrow> length w = dim st) \<and>
     distinct (tombstones st) \<and> set (tombstones st) \<subseteq> dom (graphLookup H (graph st))"

definition vindex_ok :: "'g hnsw \<Rightarrow> ('g \<Rightarrow> bool) \<Rightarrow> ('g \<Rightarrow> bool) \<Rightarrow> 'g Index \<Rightarrow> bool" where
  "vindex_ok H addable searchable i \<longleftrightarrow>
     distinct (map fst (scopes i)) \<and>
     (\<forall>k st. map_of (scopes i) k = Some st \<longrightarrow> scope_ok H addable searchable st)"

text \<open>What inserting a vector does to a scope's view.\<close>

definition view_insert :: "string \<Rightarrow> f32 list \<Rightarrow> Metric \<Rightarrow> scopeView option \<Rightarrow> scopeView" where
  "view_insert key vec m v =
     (case v of None \<Rightarrow> (length vec, m, [key \<mapsto> vec]) | Some (d, m', vs) \<Rightarrow> (d, m', vs(key \<mapsto> vec)))"

definition fits :: "f32 list \<Rightarrow> scopeView option \<Rightarrow> bool" where
  "fits vec v \<longleftrightarrow> (case v of None \<Rightarrow> True | Some (d, m, vs) \<Rightarrow> length vec = d)"

lemma scopes_setScope [simp]:
  "map_of (scopes (setScope e s st i)) = (map_of (scopes i))((e, s) \<mapsto> st)"
  "opts (setScope e s st i) = opts i"
  by (simp_all add: setScope_def update_conv')

lemma index_view_setScope: "index_view H (setScope e s st i) = (index_view H i)((e, s) \<mapsto> scope_view H st)"
  by (simp add: index_view_def fun_eq_iff)

lemma vindex_ok_setScope:
  "vindex_ok H A S i \<Longrightarrow> scope_ok H A S st \<Longrightarrow> vindex_ok H A S (setScope e s st i)"
  by (auto simp: vindex_ok_def setScope_def update_conv' distinct_update split: if_splits)

lemma vindex_ok_scope: "map_of (scopes i) k = Some st \<Longrightarrow> vindex_ok H A S i \<Longrightarrow> scope_ok H A S st"
  unfolding vindex_ok_def by blast

lemma vindex_ok_new: "vindex_ok H A S NewIndex" "index_view H NewIndex k = None"
  by (simp_all add: vindex_ok_def index_view_def NewIndex_def NewWithOptions_def)

context hnsw_laws
begin

abbreviation ok :: "'g Index \<Rightarrow> bool" where
  "ok \<equiv> vindex_ok H addable searchable"

abbreviation sok :: "'g scopeState \<Rightarrow> bool" where
  "sok \<equiv> scope_ok H addable searchable"

lemma newScopeGraph_lookup: "graphLookup H (newScopeGraph H opt m) = Map.empty"
  by (auto simp: newScopeGraph_def Let_def lookup_settings lookup_new fun_eq_iff)

lemma newScopeGraph_addable: "addable (newScopeGraph H opt m)"
  by (simp add: newScopeGraph_def Let_def settings_ready new_ready(1))

text \<open>The graph that the new node is added to: the old one without its node, or a fresh one when
  that node was its only one.\<close>

lemma sole_node:
  assumes "graphLen H g = 1" "graphLookup H g key \<noteq> None"
  shows "dom (graphLookup H g) = {key}"
proof -
  from assms(1) obtain x where x: "dom (graphLookup H g) = {x}"
    unfolding len_lookup by (rule card_1_singletonE)
  with assms(2) show ?thesis by (metis domIff singletonD)
qed

lemma replaceNode_graph:
  assumes "addable (graph st)" "\<And>j w. graphLookup H (graph st) j = Some w \<Longrightarrow> length w = length vec"
  shows "graphLookup H (graph (replaceNode H opt key vec st)) = (graphLookup H (graph st))(key \<mapsto> vec)"
    "addable (graph (replaceNode H opt key vec st))" "searchable (graph (replaceNode H opt key vec st))"
proof -
  define g where "g = (if graphLookup H (graph st) key \<noteq> None then
       (if graphLen H (graph st) = 1 then newScopeGraph H opt (metric st) else graphDelete H key (graph st))
     else graph st)"
  have r: "graph (replaceNode H opt key vec st) = graphAdd H key vec g"
    by (simp add: replaceNode_def g_def)
  have l: "graphLookup H g = (graphLookup H (graph st))(key := None)"
  proof (cases "graphLen H (graph st) = 1 \<and> graphLookup H (graph st) key \<noteq> None")
    case True
    then have "dom (graphLookup H (graph st)) = {key}" using sole_node by blast
    then have "(graphLookup H (graph st))(key := None) = Map.empty" by (auto simp: fun_eq_iff dom_def)
    with True show ?thesis by (simp add: g_def newScopeGraph_lookup)
  next
    case False
    then show ?thesis by (auto simp: g_def lookup_delete)
  qed
  have a: "addable g" using assms(1) by (simp add: g_def newScopeGraph_addable delete_ready)
  have n: "graphLookup H g key = None" "\<And>j w. graphLookup H g j = Some w \<Longrightarrow> length w = length vec"
    using assms(2) by (auto simp: l split: if_splits)
  show "graphLookup H (graph (replaceNode H opt key vec st)) = (graphLookup H (graph st))(key \<mapsto> vec)"
    using lookup_add [OF a n] by (simp add: r l)
  show "addable (graph (replaceNode H opt key vec st))" "searchable (graph (replaceNode H opt key vec st))"
    using add_ready [OF a n] by (simp_all add: r)
qed

lemma replaceNode_fields [simp]:
  "dim (replaceNode H opt key vec st) = dim st" "metric (replaceNode H opt key vec st) = metric st"
  "tombstones (replaceNode H opt key vec st) = tombstones st"
  by (simp_all add: replaceNode_def)

text \<open>Opening a scope gives one that a vector of its dimension can be added to.\<close>

lemma openScope_view:
  assumes "ok i" "fits vec (index_view H i (e, s))" "vec \<noteq> []" "openScope H e s vec m i = (found, st)"
  shows "length vec = dim st" "addable (graph st)" "distinct (tombstones st)"
    "\<And>j w. graphLookup H (graph st) j = Some w \<Longrightarrow> length w = length vec"
    "set (tombstones st) \<subseteq> dom (graphLookup H (graph st))"
    "view_insert key vec m (index_view H i (e, s)) = (dim st, metric st, (live_vecs H st)(key \<mapsto> vec))"
proof -
  have "length vec = dim st \<and> addable (graph st) \<and> distinct (tombstones st) \<and>
    (\<forall>j w. graphLookup H (graph st) j = Some w \<longrightarrow> length w = length vec) \<and>
    set (tombstones st) \<subseteq> dom (graphLookup H (graph st)) \<and>
    view_insert key vec m (index_view H i (e, s)) = (dim st, metric st, (live_vecs H st)(key \<mapsto> vec))"
  proof (cases "map_of (scopes i) (e, s)")
    case None
    then have "st = \<lparr>graph = newScopeGraph H (opts i) m, dim = length vec, metric = m, tombstones = []\<rparr>"
      using assms(4) by (simp add: openScope_def)
    with None show ?thesis
      by (auto simp: index_view_def view_insert_def live_vecs_def newScopeGraph_lookup newScopeGraph_addable)
  next
    case (Some t)
    then have "t = st" using assms(4) by (simp add: openScope_def)
    moreover have "sok t" using Some assms(1) by (rule vindex_ok_scope)
    ultimately show ?thesis
      using Some assms(2) by (simp add: index_view_def scope_view_def view_insert_def fits_def scope_ok_def)
  qed
  then show "length vec = dim st" "addable (graph st)" "distinct (tombstones st)"
    "\<And>j w. graphLookup H (graph st) j = Some w \<Longrightarrow> length w = length vec"
    "set (tombstones st) \<subseteq> dom (graphLookup H (graph st))"
    "view_insert key vec m (index_view H i (e, s)) = (dim st, metric st, (live_vecs H st)(key \<mapsto> vec))"
    by blast+
qed

theorem Insert_fits:
  assumes "ok i" "e \<noteq> []" "s \<noteq> []" "key \<noteq> []" "vec \<noteq> []" "fits vec (index_view H i (e, s))"
  shows "\<exists>i'. Insert H e s key vec m i = (Inr (), i') \<and> ok i' \<and>
    index_view H i' = (index_view H i)((e, s) \<mapsto> view_insert key vec m (index_view H i (e, s)))"
proof -
  obtain found st where o: "openScope H e s vec m i = (found, st)" by fastforce
  note v = openScope_view [OF assms(1,6,5) o]
  define st' where "st' = st\<lparr>tombstones := removeAll key (tombstones st)\<rparr>"
  define st2 where "st2 = replaceNode H (opts i) key vec st'"
  have g: "graphLookup H (graph st2) = (graphLookup H (graph st))(key \<mapsto> vec)" "addable (graph st2)" "searchable (graph st2)"
    using replaceNode_graph [of st' vec "opts i" key] v(2,4) by (simp_all add: st2_def st'_def)
  have f: "dim st2 = dim st" "metric st2 = metric st" "tombstones st2 = removeAll key (tombstones st)"
    by (simp_all add: st2_def st'_def)
  have pos: "dim st \<noteq> 0" using v(1) assms(5) by (metis length_0_conv)
  have "Insert H e s key vec m i = (Inr (), setScope e s st2 i)"
    using assms v(1) pos by (simp add: Insert_def validateID_def o st2_def st'_def Let_def)
  moreover have "sok st2"
    unfolding scope_ok_def f using g v(1,3,4,5) pos by (auto simp: distinct_removeAll split: if_splits)
  moreover have "scope_view H st2 = view_insert key vec m (index_view H i (e, s))"
    by (auto simp: v(6) scope_view_def f live_vecs_def g(1) restrict_map_def fun_eq_iff)
  ultimately show ?thesis
    using vindex_ok_setScope [OF assms(1)] by (auto simp: index_view_setScope)
qed

text \<open>An insert of another dimension reports so; but the tombstone of its id is gone by then.\<close>

lemma Insert_mismatch:
  assumes "ok i" "e \<noteq> []" "s \<noteq> []" "key \<noteq> []" "vec \<noteq> []" "map_of (scopes i) (e, s) = Some st" "length vec \<noteq> dim st"
  shows "\<exists>er i'. Insert H e s key vec m i = (Inl er, i') \<and> errors_Is er ErrDimensionMismatch \<and> ok i' \<and>
    index_view H i' = (index_view H i)((e, s) \<mapsto> (dim st, metric st, (live_vecs H st)(key := graphLookup H (graph st) key)))"
proof -
  define st' where "st' = st\<lparr>tombstones := removeAll key (tombstones st)\<rparr>"
  have "Insert H e s key vec m i =
    (Inl (Wrapf '': scope expects dim'' (Sentinel ErrDimensionMismatch)), setScope e s st' i)"
    using assms by (simp add: Insert_def validateID_def openScope_def st'_def Let_def)
  moreover have "sok st'"
    using vindex_ok_scope [OF assms(6,1)] by (auto simp: scope_ok_def st'_def distinct_removeAll)
  moreover have "live_vecs H st' = (live_vecs H st)(key := graphLookup H (graph st) key)"
    by (auto simp: live_vecs_def st'_def restrict_map_def fun_eq_iff)
  ultimately show ?thesis
    using vindex_ok_setScope [OF assms(1)] by (auto simp: index_view_setScope scope_view_def st'_def)
qed

lemma Insert_rejects:
  assumes "e = [] \<or> s = [] \<or> key = [] \<or> vec = []"
  shows "\<exists>er. Insert H e s key vec m i = (Inl er, i)"
  using assms by (auto simp: Insert_def validateID_def)

lemma live_vecs_None_iff:
  "live_vecs H st key = None \<longleftrightarrow> graphLookup H (graph st) key = None \<or> key \<in> set (tombstones st)"
  by (simp add: live_vecs_def restrict_map_def)

theorem DeleteVec_spec:
  assumes "ok i" "e \<noteq> []" "s \<noteq> []" "key \<noteq> []"
  shows "\<exists>i'. DeleteVec H e s key i = (\<exists>d m vs. index_view H i (e, s) = Some (d, m, vs) \<and> vs key \<noteq> None, i') \<and> ok i' \<and>
    index_view H i' = (index_view H i)((e, s) := map_option (\<lambda>(d, m, vs). (d, m, vs(key := None))) (index_view H i (e, s)))"
proof (cases "map_of (scopes i) (e, s)")
  case None
  then show ?thesis using assms by (auto simp: DeleteVec_def index_view_def)
next
  case (Some st)
  then have v: "index_view H i (e, s) = Some (dim st, metric st, live_vecs H st)"
    by (simp add: index_view_def scope_view_def)
  show ?thesis
  proof (cases "live_vecs H st key = None")
    case True
    then have "(live_vecs H st)(key := None) = live_vecs H st" by (rule fun_upd_idem)
    then have "(index_view H i)((e, s) := map_option (\<lambda>(d, m, vs). (d, m, vs(key := None))) (index_view H i (e, s))) = index_view H i"
      by (intro fun_upd_idem) (simp add: v)
    moreover have "DeleteVec H e s key i = (False, i)"
      using True Some assms by (auto simp: DeleteVec_def live_vecs_None_iff)
    ultimately show ?thesis using True v assms(1) by simp
  next
    case False
    define st' where "st' = st\<lparr>tombstones := tombstones st @ [key]\<rparr>"
    have "DeleteVec H e s key i = (True, setScope e s st' i)"
      using Some assms False by (simp add: DeleteVec_def live_vecs_None_iff st'_def)
    moreover have "sok st'"
      using vindex_ok_scope [OF Some assms(1)] False by (auto simp: scope_ok_def st'_def live_vecs_None_iff)
    moreover have "live_vecs H st' = (live_vecs H st)(key := None)"
      by (auto simp: live_vecs_def st'_def restrict_map_def fun_eq_iff)
    ultimately show ?thesis
      using vindex_ok_setScope [OF assms(1)] v False
      by (auto simp: index_view_setScope scope_view_def st'_def)
  qed
qed

text \<open>So a failed insert brings a deleted vector back.\<close>

lemma failed_Insert_revives:
  assumes "ok i" "DeleteVec H e s key i = (True, i1)" "vec \<noteq> []" "index_view H i (e, s) = Some (d, m0, vs)" "length vec \<noteq> d"
  shows "\<exists>er i2. Insert H e s key vec m i1 = (Inl er, i2) \<and> errors_Is er ErrDimensionMismatch \<and>
    index_view H i1 \<noteq> index_view H i \<and> index_view H i2 = index_view H i"
proof -
  from assms(2,4) obtain st where ne: "e \<noteq> []" "s \<noteq> []" "key \<noteq> []" and st: "map_of (scopes i) (e, s) = Some st"
    "graphLookup H (graph st) key \<noteq> None" "key \<notin> set (tombstones st)"
    and i1: "i1 = setScope e s (st\<lparr>tombstones := tombstones st @ [key]\<rparr>) i"
    by (auto simp: DeleteVec_def split: if_splits option.splits)
  have v: "index_view H i (e, s) = Some (dim st, metric st, live_vecs H st)" "dim st = d"
    using st(1) assms(4) by (auto simp: index_view_def scope_view_def)
  have "ok i1" using DeleteVec_spec [OF assms(1) ne] assms(2) by auto
  moreover have m1: "map_of (scopes i1) (e, s) = Some (st\<lparr>tombstones := tombstones st @ [key]\<rparr>)" by (simp add: i1)
  ultimately obtain er i2 where i2: "Insert H e s key vec m i1 = (Inl er, i2)" "errors_Is er ErrDimensionMismatch"
    "index_view H i2 = (index_view H i1)((e, s) \<mapsto> (dim st, metric st,
       (live_vecs H (st\<lparr>tombstones := tombstones st @ [key]\<rparr>))(key := graphLookup H (graph st) key)))"
    using Insert_mismatch [OF _ ne assms(3) m1] assms(5) v(2) by fastforce
  have l: "(live_vecs H (st\<lparr>tombstones := tombstones st @ [key]\<rparr>))(key := graphLookup H (graph st) key) = live_vecs H st"
    "live_vecs H (st\<lparr>tombstones := tombstones st @ [key]\<rparr>) key = None" "live_vecs H st key \<noteq> None"
    using st(2,3) by (auto simp: live_vecs_def restrict_map_def fun_eq_iff)
  have iv1: "index_view H i1 = (index_view H i)((e, s) \<mapsto> (dim st, metric st, live_vecs H (st\<lparr>tombstones := tombstones st @ [key]\<rparr>)))"
    by (simp add: i1 index_view_setScope scope_view_def)
  have "index_view H i2 = index_view H i" unfolding i2(3) iv1 l(1) using v(1) by (auto simp: fun_eq_iff)
  moreover have "index_view H i1 \<noteq> index_view H i"
  proof
    assume "index_view H i1 = index_view H i"
    from fun_cong [OF this, of "(e, s)"] v(1) l(2,3) show False by (simp add: iv1)
  qed
  ultimately show ?thesis using i2(1,2) by blast
qed

lemma DropScope_spec:
  assumes "ok i" "e \<noteq> []" "s \<noteq> []"
  shows "\<exists>i'. DropScope e s i = (index_view H i (e, s) \<noteq> None, i') \<and> ok i' \<and>
    index_view H i' = (index_view H i)((e, s) := None)"
proof (cases "map_of (scopes i) (e, s)")
  case None
  then show ?thesis using assms by (auto simp: DropScope_def index_view_def)
next
  case (Some st)
  have "ok (i\<lparr>scopes := AList.delete (e, s) (scopes i)\<rparr>)"
    using assms(1) by (auto simp: vindex_ok_def delete_conv' distinct_delete split: if_splits)
  with Some assms show ?thesis
    by (auto simp: DropScope_def index_view_def delete_conv' fun_eq_iff)
qed

text \<open>Searching.\<close>

lemma searchLoop_take:
  "int (length out) < k \<Longrightarrow> searchLoop H st q k hits out =
     out @ map (\<lambda>(key, vl). \<lparr>RID = key, Distance = distanceFunc H (metric st) q vl\<rparr>)
       (take (nat k - length out) (filter (\<lambda>h. fst h \<notin> set (tombstones st)) hits))"
proof (induction hits arbitrary: out)
  case (Cons h hits)
  obtain key vl where h: "h = (key, vl)" by (cases h)
  have n: "nat k - length out = Suc (nat k - Suc (length out))" using Cons.prems by simp
  show ?case
  proof (cases "int (Suc (length out)) = k")
    case True
    then have "nat k - Suc (length out) = 0" by simp
    with True Cons show ?thesis by (simp add: h n)
  next
    case False
    with Cons show ?thesis by (simp add: h n)
  qed
qed simp

theorem Search_spec:
  assumes "ok i" "q \<noteq> []" "0 < k" "index_view H i (e, s) = Some (length q, m, vs)"
  shows "\<exists>out. Search H e s q k i = Inr out \<and> distinct (map RID out) \<and> int (length out) \<le> k \<and>
    (\<forall>r \<in> set out. \<exists>w. vs (RID r) = Some w \<and> Distance r = distanceFunc H m q w)"
proof -
  from assms(4) obtain st where st: "map_of (scopes i) (e, s) = Some st" and d: "dim st = length q" "metric st = m"
    and vs: "vs = live_vecs H st" by (auto simp: index_view_def scope_view_def)
  define hits where "hits = graphSearch H (graph st) q (nat (k + int (length (tombstones st))))"
  define sel where "sel = take (nat k) (filter (\<lambda>h. fst h \<notin> set (tombstones st)) hits)"
  have se: "searchable (graph st)" using vindex_ok_scope [OF st assms(1)] by (simp add: scope_ok_def)
  have "Search H e s q k i = Inr (map (\<lambda>(key, vl). \<lparr>RID = key, Distance = distanceFunc H m q vl\<rparr>) sel)"
    using assms(2,3) st d searchLoop_take [of "[]" k st q hits] by (simp add: Search_def sel_def hits_def Let_def)
  moreover have "distinct (map fst (filter (\<lambda>h. fst h \<notin> set (tombstones st)) hits))"
    unfolding hits_def by (rule distinct_map_filter) (rule search_distinct [OF se])
  then have "distinct (map fst sel)"
    unfolding sel_def by (simp add: take_map [symmetric])
  then have "distinct (map RID (map (\<lambda>(key, vl). \<lparr>RID = key, Distance = distanceFunc H m q vl\<rparr>) sel))"
    by (simp add: comp_def case_prod_beta)
  moreover have "int (length sel) \<le> k" using assms(3) by (simp add: sel_def)
  moreover have "vs key = Some w" if "(key, w) \<in> set sel" for key w
  proof -
    have "(key, w) \<in> set hits" "key \<notin> set (tombstones st)" using that by (auto simp: sel_def dest: in_set_takeD)
    then show ?thesis using search_members [OF se] by (simp add: vs live_vecs_def hits_def)
  qed
  ultimately show ?thesis by auto
qed

lemma dom_live_vecs: "dom (live_vecs H st) = dom (graphLookup H (graph st)) - set (tombstones st)"
  by (auto simp: live_vecs_def)

lemma scopeCount_live:
  assumes "sok st"
  shows "scopeCount H st = int (card (dom (live_vecs H st)))"
proof -
  have t: "set (tombstones st) \<subseteq> dom (graphLookup H (graph st))" "card (set (tombstones st)) = length (tombstones st)"
    using assms by (simp_all add: scope_ok_def distinct_card)
  moreover have "card (set (tombstones st)) \<le> card (dom (graphLookup H (graph st)))"
    by (rule card_mono [OF finite_lookup t(1)])
  ultimately show ?thesis
    by (simp add: scopeCount_def len_lookup dom_live_vecs card_Diff_subset)
qed

text \<open>The over-fetch is enough: when the graph returns as many nodes as asked for, or all of its
  nodes when it has fewer, then Search returns \<open>k\<close> results, or every live vector.\<close>

lemma filter_hits_card:
  assumes "distinct (map fst hits)"
  shows "length (filter (\<lambda>h. fst h \<notin> T) hits) = card (fst ` set hits - T)"
proof -
  have "length (filter (\<lambda>h. fst h \<notin> T) hits) = length (map fst (filter (\<lambda>h. fst h \<notin> T) hits))" by simp
  also have "\<dots> = card (set (map fst (filter (\<lambda>h. fst h \<notin> T) hits)))"
    by (rule distinct_card [symmetric]) (rule distinct_map_filter [OF assms])
  also have "set (map fst (filter (\<lambda>h. fst h \<notin> T) hits)) = fst ` set hits - T" by auto
  finally show ?thesis .
qed

theorem Search_fills:
  assumes "ok i" "q \<noteq> []" "0 < k" "map_of (scopes i) (e, s) = Some st" "dim st = length q"
    and full: "\<And>n. length (graphSearch H (graph st) q n) = min n (graphLen H (graph st))"
  shows "\<exists>out. Search H e s q k i = Inr out \<and> length out = min (nat k) (card (dom (live_vecs H st)))"
proof -
  define T where "T = set (tombstones st)"
  define n where "n = nat (k + int (length (tombstones st)))"
  define hits where "hits = graphSearch H (graph st) q n"
  define sel where "sel = filter (\<lambda>h. fst h \<notin> T) hits"
  have ok: "searchable (graph st)" "T \<subseteq> dom (graphLookup H (graph st))" "card T = length (tombstones st)"
    using vindex_ok_scope [OF assms(4,1)] by (simp_all add: scope_ok_def T_def distinct_card)
  have "Search H e s q k i = Inr (map (\<lambda>(key, vl). \<lparr>RID = key, Distance = distanceFunc H (metric st) q vl\<rparr>) (take (nat k) sel))"
    using assms(2-5) searchLoop_take [of "[]" k st q hits] by (simp add: Search_def sel_def hits_def n_def T_def Let_def)
  moreover have "min (nat k) (length sel) = min (nat k) (card (dom (live_vecs H st)))"
  proof -
    have d: "distinct (map fst hits)" using search_distinct [OF ok(1)] by (simp add: hits_def)
    have sub: "fst ` set hits \<subseteq> dom (graphLookup H (graph st))"
      using search_members [OF ok(1)] by (fastforce simp: hits_def)
    have ch: "card (fst ` set hits) = min n (graphLen H (graph st))"
      using distinct_card [OF d] full by (simp add: hits_def)
    have cs: "length sel = card (fst ` set hits - T)" unfolding sel_def by (rule filter_hits_card [OF d])
    have cl: "card (dom (live_vecs H st)) = graphLen H (graph st) - card T"
      using ok(2) by (simp add: dom_live_vecs T_def len_lookup card_Diff_subset)
    show ?thesis
    proof (cases "graphLen H (graph st) \<le> n")
      case True
      then have "card (fst ` set hits) = card (dom (graphLookup H (graph st)))" using ch by (simp add: len_lookup)
      then have "fst ` set hits = dom (graphLookup H (graph st))" using sub finite_lookup by (metis card_subset_eq)
      then show ?thesis by (simp add: cs dom_live_vecs T_def)
    next
      case False
      have "card (fst ` set hits) - card T \<le> card (fst ` set hits - T)" by (rule diff_card_le_card_Diff) (simp add: T_def)
      moreover have "card (fst ` set hits) = nat k + card T" using ch False assms(3) ok(3) by (simp add: n_def)
      ultimately show ?thesis using False cs cl assms(3) ok(3) by (simp add: n_def)
    qed
  qed
  ultimately show ?thesis by simp
qed

end

section \<open>Sorting the scopes\<close>

lemma sortInner_insort:
  assumes "sorted (map Scope xs)"
  shows "\<exists>as bs. xs = as @ bs \<and> sortInner (xs @ x # ys) (length xs) = as @ x # bs @ ys \<and>
    (\<forall>a \<in> set as. Scope a \<le> Scope x) \<and> (\<forall>b \<in> set bs. Scope x < Scope b)"
  using assms
proof (induction xs arbitrary: ys rule: rev_induct)
  case (snoc z zs)
  show ?case
  proof (cases "Scope z > Scope x")
    case True
    have "(zs @ z # x # ys)[length zs := x, Suc (length zs) := z] = zs @ x # z # ys"
      by (simp add: list_update_append)
    with True have "sortInner ((zs @ [z]) @ x # ys) (length (zs @ [z])) = sortInner (zs @ x # z # ys) (length zs)"
      by (simp add: nth_append)
    moreover obtain as bs where "zs = as @ bs" "sortInner (zs @ x # (z # ys)) (length zs) = as @ x # bs @ (z # ys)"
      "\<forall>a \<in> set as. Scope a \<le> Scope x" "\<forall>b \<in> set bs. Scope x < Scope b"
      using snoc.IH [of "z # ys"] snoc.prems by (auto simp: sorted_append)
    ultimately show ?thesis using True by (intro exI [of _ as] exI [of _ "bs @ [z]"]) auto
  next
    case False
    with snoc.prems show ?thesis
      by (intro exI [of _ "zs @ [z]"] exI [of _ "[]"]) (auto simp: nth_append sorted_append)
  qed
qed simp

lemma sortOuter_spec:
  assumes "sorted (map Scope (take j s))" "j \<le> length s"
  shows "sorted (map Scope (sortOuter s j)) \<and> mset (sortOuter s j) = mset s"
  using assms
proof (induction s j rule: sortOuter.induct)
  case (1 s j)
  show ?case
  proof (cases "j < length s")
    case True
    define xs where "xs = take j s"
    define x where "x = s ! j"
    define ys where "ys = drop (Suc j) s"
    have s: "s = xs @ x # ys" and lx: "length xs = j"
      using True by (simp_all add: xs_def x_def ys_def id_take_nth_drop)
    have srt: "sorted (map Scope xs)" using "1.prems"(1) by (simp only: xs_def)
    obtain as bs where i: "xs = as @ bs" "sortInner s j = as @ x # bs @ ys"
      "\<forall>a \<in> set as. Scope a \<le> Scope x" "\<forall>b \<in> set bs. Scope x < Scope b"
      using sortInner_insort [OF srt, of x ys, folded s] unfolding lx by blast
    have t: "take (Suc j) (sortInner s j) = as @ x # bs" using lx unfolding i(1,2) by (auto simp: Suc_diff_le)
    have "sorted (map Scope (take (Suc j) (sortInner s j)))"
      unfolding t using srt i(3,4) unfolding i(1) by (auto simp: sorted_append less_imp_le)
    moreover have "Suc j \<le> length (sortInner s j)" using True by simp
    ultimately have "sorted (map Scope (sortOuter (sortInner s j) (Suc j))) \<and>
        mset (sortOuter (sortInner s j) (Suc j)) = mset (sortInner s j)"
      using "1.IH" True by blast
    moreover have "mset (sortInner s j) = mset s" unfolding i(2) by (subst s) (simp add: i(1))
    ultimately show ?thesis using True by (subst (1 2) sortOuter.simps) simp
  next
    case False
    with "1.prems" show ?thesis by (subst (1 2) sortOuter.simps) simp
  qed
qed

lemma sortScopeInfo_spec:
  "sorted (map Scope (sortScopeInfo s))" "mset (sortScopeInfo s) = mset s"
proof -
  have "sorted (map Scope (sortScopeInfo s)) \<and> mset (sortScopeInfo s) = mset s"
  proof (cases s)
    case Nil
    then show ?thesis by (simp add: sortScopeInfo_def sortOuter.simps)
  next
    case (Cons a t)
    then show ?thesis unfolding sortScopeInfo_def by (intro sortOuter_spec) simp_all
  qed
  then show "sorted (map Scope (sortScopeInfo s))" "mset (sortScopeInfo s) = mset s" by blast+
qed

lemma map_Scope_of:
  "map Scope (List.map_filter (\<lambda>(k, st). if fst k \<noteq> e then None
     else Some \<lparr>Scope = snd k, SDim = dim st, SCnt = scopeCount H st, SMetric = metric st\<rparr>) xs) =
   map (snd \<circ> fst) (filter (\<lambda>p. fst (fst p) = e) xs)"
  by (induction xs) (auto simp: List.map_filter_simps)

lemma distinct_scope_names:
  assumes "distinct (map fst xs)"
  shows "distinct (map (snd \<circ> fst) (filter (\<lambda>p. fst (fst p) = e) xs))"
  using assms by (induction xs) force+

context hnsw_laws
begin

theorem ListScopes_spec:
  assumes "ok i"
  shows "sorted_wrt (<) (map Scope (ListScopes H e i))"
    "info \<in> set (ListScopes H e i) \<longleftrightarrow> (\<exists>vs. index_view H i (e, Scope info) = Some (SDim info, SMetric info, vs) \<and>
       SCnt info = int (card (dom vs)))"
proof -
  define xs where "xs = List.map_filter (\<lambda>(k, st). if fst k \<noteq> e then None
     else Some \<lparr>Scope = snd k, SDim = dim st, SCnt = scopeCount H st, SMetric = metric st\<rparr>) (scopes i)"
  have l: "ListScopes H e i = sortScopeInfo xs" by (simp add: ListScopes_def xs_def)
  have d: "distinct (map fst (scopes i))" using assms by (simp add: vindex_ok_def)
  have "distinct (map Scope xs)"
    unfolding xs_def map_Scope_of using d by (rule distinct_scope_names)
  then have "distinct (map Scope (sortScopeInfo xs))"
    by (metis sortScopeInfo_spec(2) mset_map mset_eq_imp_distinct_iff)
  then show "sorted_wrt (<) (map Scope (ListScopes H e i))"
    unfolding l by (simp add: strict_sorted_iff sortScopeInfo_spec(1))
  have "info \<in> set (ListScopes H e i) \<longleftrightarrow> info \<in> set xs"
    unfolding l by (metis sortScopeInfo_spec(2) mset_eq_setD)
  also have "\<dots> \<longleftrightarrow> (\<exists>st. map_of (scopes i) (e, Scope info) = Some st \<and> SDim info = dim st \<and>
      SMetric info = metric st \<and> SCnt info = scopeCount H st)"
    using d by (force simp: xs_def in_map_filter split: if_splits intro!: bexI)
  also have "\<dots> \<longleftrightarrow> (\<exists>vs. index_view H i (e, Scope info) = Some (SDim info, SMetric info, vs) \<and>
       SCnt info = int (card (dom vs)))"
    using vindex_ok_scope [OF _ assms] scopeCount_live by (fastforce simp: index_view_def scope_view_def)
  finally show "info \<in> set (ListScopes H e i) \<longleftrightarrow> (\<exists>vs. index_view H i (e, Scope info) = Some (SDim info, SMetric info, vs) \<and>
       SCnt info = int (card (dom vs)))" .
qed

end

section \<open>The index as a client sees it\<close>

text \<open>The contract that the persistent store relies on, and what replaying stored vectors through
  it gives.\<close>

type_synonym ventry = "scopeKey \<times> string \<times> f32 list \<times> Metric"

definition entries :: "scopeKey \<Rightarrow> ventry list \<Rightarrow> ventry list" where
  "entries k L = filter (\<lambda>x. fst x = k) L"

definition replay_view :: "ventry list \<Rightarrow> scopeKey \<Rightarrow> scopeView option" where
  "replay_view L k =
     (case entries k L of
        [] \<Rightarrow> None
      | (_, _, vec, m) # _ \<Rightarrow>
          Some (length vec, m, map_of (rev (map (\<lambda>(_, key, vec, _). (key, vec)) (entries k L)))))"

definition replayable :: "ventry list \<Rightarrow> bool" where
  "replayable L \<longleftrightarrow>
     (\<forall>e s key vec m. ((e, s), key, vec, m) \<in> set L \<longrightarrow> e \<noteq> [] \<and> s \<noteq> [] \<and> key \<noteq> [] \<and> vec \<noteq> []) \<and>
     (\<forall>k key vec m key' vec' m'. (k, key, vec, m) \<in> set L \<longrightarrow> (k, key', vec', m') \<in> set L \<longrightarrow>
        length vec = length vec' \<and> m = m')"

definition insR ::
  "(string \<Rightarrow> string \<Rightarrow> string \<Rightarrow> f32 list \<Rightarrow> Metric \<Rightarrow> 'i \<Rightarrow> unit result \<times> 'i) \<Rightarrow> ventry \<Rightarrow> 'i \<Rightarrow> 'i result" where
  "insR ins = (\<lambda>((e, s), key, vec, m) i. case ins e s key vec m i of (Inl er, _) \<Rightarrow> Inl er | (Inr _, i') \<Rightarrow> Inr i')"

locale vector_index =
  fixes ins :: "string \<Rightarrow> string \<Rightarrow> string \<Rightarrow> f32 list \<Rightarrow> Metric \<Rightarrow> 'i \<Rightarrow> unit result \<times> 'i"
    and del :: "string \<Rightarrow> string \<Rightarrow> string \<Rightarrow> 'i \<Rightarrow> bool \<times> 'i"
    and dropS :: "string \<Rightarrow> string \<Rightarrow> 'i \<Rightarrow> bool \<times> 'i"
    and valid :: "'i \<Rightarrow> bool" and view :: "'i \<Rightarrow> scopeKey \<Rightarrow> scopeView option" and start :: 'i
  assumes start_law: "valid start" "view start = Map.empty"
    and ins_law: "\<lbrakk>valid i; e \<noteq> []; s \<noteq> []; key \<noteq> []; vec \<noteq> []; fits vec (view i (e, s))\<rbrakk> \<Longrightarrow>
      \<exists>i'. ins e s key vec m i = (Inr (), i') \<and> valid i' \<and>
        view i' = (view i)((e, s) \<mapsto> view_insert key vec m (view i (e, s)))"
    and del_law: "\<lbrakk>valid i; e \<noteq> []; s \<noteq> []; key \<noteq> []\<rbrakk> \<Longrightarrow>
      \<exists>i'. del e s key i = (\<exists>d m vs. view i (e, s) = Some (d, m, vs) \<and> vs key \<noteq> None, i') \<and> valid i' \<and>
        view i' = (view i)((e, s) := map_option (\<lambda>(d, m, vs). (d, m, vs(key := None))) (view i (e, s)))"
    and drop_law: "\<lbrakk>valid i; e \<noteq> []; s \<noteq> []\<rbrakk> \<Longrightarrow>
      \<exists>i'. dropS e s i = (view i (e, s) \<noteq> None, i') \<and> valid i' \<and> view i' = (view i)((e, s) := None)"
begin

lemma replay:
  assumes "replayable L"
  shows "\<exists>i. foldR (insR ins) L start = Inr i \<and> valid i \<and> view i = replay_view L"
  using assms
proof (induction L rule: rev_induct)
  case Nil
  show ?case by (simp add: start_law replay_view_def entries_def fun_eq_iff)
next
  case (snoc x L)
  obtain e s key vec m where x: "x = ((e, s), key, vec, m)" by (metis prod.exhaust)
  have "replayable L" using snoc.prems unfolding replayable_def by (metis UnI1 set_append)
  with snoc.IH obtain i where i: "foldR (insR ins) L start = Inr i" "valid i" "view i = replay_view L" by blast
  have ne: "e \<noteq> []" "s \<noteq> []" "key \<noteq> []" "vec \<noteq> []" using snoc.prems unfolding replayable_def x by simp_all
  have "length vec = length vec'" if "((e, s), key', vec', m') \<in> set L" for key' vec' m'
    using snoc.prems that unfolding replayable_def x by (metis UnI1 UnI2 list.set_intros(1) set_append)
  then have "\<forall>x \<in> set (entries (e, s) L). length vec = length (fst (snd (snd x)))"
    by (auto simp: entries_def)
  then have "fits vec (replay_view L (e, s))"
    by (auto simp: fits_def replay_view_def split: list.splits)
  then obtain i' where i': "ins e s key vec m i = (Inr (), i')" "valid i'"
    "view i' = (view i)((e, s) \<mapsto> view_insert key vec m (view i (e, s)))"
    using ins_law [OF i(2) ne] i(3) by auto
  have "view i' = replay_view (L @ [x])"
    unfolding i'(3) i(3) fun_eq_iff replay_view_def entries_def view_insert_def x
    by (auto split: list.splits)
  with i i' show ?case by (auto simp: foldR_append insR_def x)
qed

end

lemma replay_view_some:
  assumes "replay_view L k = Some (d, m, vs)"
    and "\<forall>key vec m vec' m'. (k, key, vec, m) \<in> set L \<longrightarrow> (k, key, vec', m') \<in> set L \<longrightarrow> vec = vec'"
  shows "vs key = Some vec \<longleftrightarrow> (\<exists>m. (k, key, vec, m) \<in> set L)"
    "\<exists>key vec. (k, key, vec, m) \<in> set L \<and> length vec = d"
proof -
  define P where "P = rev (map (\<lambda>(_, key, vec, _). (key, vec)) (entries k L))"
  have P: "(key, vec) \<in> set P \<longleftrightarrow> (\<exists>m. (k, key, vec, m) \<in> set L)" for key vec
    by (force simp: P_def entries_def)
  have vs: "vs = map_of P" using assms(1) by (auto simp: replay_view_def P_def split: list.splits)
  show "vs key = Some vec \<longleftrightarrow> (\<exists>m. (k, key, vec, m) \<in> set L)"
    unfolding vs P [symmetric]
  proof
    assume "(key, vec) \<in> set P"
    then obtain w where w: "map_of P key = Some w" by (metis weak_map_of_SomeI)
    then have "w = vec" using \<open>(key, vec) \<in> set P\<close> assms(2) map_of_SomeD [OF w] by (auto simp: P)
    with w show "map_of P key = Some vec" by simp
  qed (rule map_of_SomeD)
  show "\<exists>key vec. (k, key, vec, m) \<in> set L \<and> length vec = d"
    using assms(1) by (force simp: replay_view_def entries_def filter_eq_Cons_iff split: list.splits)
qed

lemma replay_view_none: "replay_view L k = None \<longleftrightarrow> (\<forall>x \<in> set L. fst x \<noteq> k)"
  unfolding filter_empty_conv [symmetric] by (auto simp: replay_view_def entries_def split: list.splits)

sublocale hnsw_laws \<subseteq> ix: vector_index "Insert H" "DeleteVec H" DropScope "vindex_ok H addable searchable" "index_view H" NewIndex
proof (unfold_locales, goal_cases)
  case 1
  show ?case by (rule vindex_ok_new(1))
next
  case 2
  show ?case by (simp add: vindex_ok_new(2) fun_eq_iff)
next
  case (3 i e s key vec m)
  then show ?case by (rule Insert_fits)
next
  case (4 i e s key)
  then show ?case by (rule DeleteVec_spec)
next
  case (5 i e s)
  then show ?case by (rule DropScope_spec)
qed

section \<open>An instance of the graph\<close>

text \<open>A graph as the list of its nodes, searched exhaustively: the laws can hold together.\<close>

type_synonym lgraph = "(string \<times> f32 list) list"

definition list_hnsw :: "lgraph hnsw" where
  "list_hnsw = \<lparr>newGraph = [], setDistance = (\<lambda>_ g. g), setM = (\<lambda>_ g. g), setMl = (\<lambda>_ g. g), setEfSearch = (\<lambda>_ g. g),
     graphLookup = map_of, graphLen = (\<lambda>g. length (remdups (map fst g))), graphDelete = AList.delete,
     graphAdd = (\<lambda>key v g. (key, v) # g), graphSearch = (\<lambda>g q n. take n (AList.clearjunk g)),
     CosineDistance = (\<lambda>a b. if a = b then 0 else 1), EuclideanDistance = (\<lambda>a b. if a = b then 0 else 2)\<rparr>"

lemma list_hnsw_simps [simp]:
  "newGraph list_hnsw = []" "setDistance list_hnsw f g = g" "setM list_hnsw n g = g" "setMl list_hnsw y g = g"
  "setEfSearch list_hnsw n g = g" "graphLookup list_hnsw = map_of" "graphLen list_hnsw g = length (remdups (map fst g))"
  "graphDelete list_hnsw = AList.delete" "graphAdd list_hnsw key v g = (key, v) # g"
  "graphSearch list_hnsw g q c = take c (AList.clearjunk g)"
  by (simp_all add: list_hnsw_def)

lemma clearjunk_take: "(key, v) \<in> set (take c (AList.clearjunk g)) \<Longrightarrow> map_of g key = Some v"
  by (metis distinct_clearjunk in_set_takeD map_of_clearjunk map_of_is_SomeI)

interpretation list_index: hnsw_laws list_hnsw "\<lambda>_. True" "\<lambda>_. True"
  by unfold_locales
    (auto simp: delete_conv' finite_dom_map_of dom_map_of_conv_image_fst length_remdups_card_conv
      take_map [symmetric] distinct_clearjunk intro: clearjunk_take)

text \<open>The defect above at the top level, for every graph library that keeps the laws.\<close>

lemma insert_revives_deleted:
  assumes "hnsw_laws H A S" "vindex_ok H A S i" "DeleteVec H e s key i = (True, i1)" "vec \<noteq> []"
    "index_view H i (e, s) = Some (d, m0, vs)" "length vec \<noteq> d"
  shows "\<exists>er i2. Insert H e s key vec m i1 = (Inl er, i2) \<and> errors_Is er ErrDimensionMismatch \<and>
    index_view H i1 \<noteq> index_view H i \<and> index_view H i2 = index_view H i"
  by (rule hnsw_laws.failed_Insert_revives [OF assms])

end
