(* ===== verification/Vector.thy ===== *)
theory Vector
  imports Store Vectorindex
begin

text \<open>
  \<^verbatim>\<open>bboltstore/vector.go\<close>: vectors on disk, mirrored by the in-memory index. bbolt holds the
  truth; the index is built from it on the first use after a start, and kept in step by every
  committed write. The state that a vector operation works on is the committed database and
  the lazily loaded index.
\<close>

section \<open>Definitions\<close>

definition vecRegistryBucketPrefix :: string where
  "vecRegistryBucketPrefix = ''vec_registry:''"

definition vecDataBucketPrefix :: string where
  "vecDataBucketPrefix = ''vec_data:''"

definition vecRegistryBucket :: "string \<Rightarrow> string" where
  "vecRegistryBucket entity = vecRegistryBucketPrefix @ entity"

definition vecDataBucket :: "string \<Rightarrow> string \<Rightarrow> string" where
  "vecDataBucket entity scope = vecDataBucketPrefix @ entity @ '':'' @ scope"

definition encodeFloat32Slice :: "f32 list \<Rightarrow> bytes" where
  "encodeFloat32Slice v = concat (map LittleEndian_PutUint32 v)"

definition decodeFloat32Slice :: "bytes \<Rightarrow> int \<Rightarrow> (f32 list) result" where
  "decodeFloat32Slice raw want =
     (if length raw mod 4 \<noteq> 0 then Inl (NewErr ''bboltstore: vector blob length not multiple of 4'')
      else if want > 0 \<and> int (length raw div 4) \<noteq> want
      then Inl (NewErr ''bboltstore: vector blob length, want floats'')
      else Inr (map (\<lambda>j. LittleEndian_Uint32 (drop (4 * j) raw)) [0..<length raw div 4]))"

definition validateVecArgs :: "string \<Rightarrow> string \<Rightarrow> string \<Rightarrow> unit result" where
  "validateVecArgs entity scope vid =
     (if entity = [] then Inl (NewErr ''bboltstore: empty entity'')
      else if scope = [] then Inl (NewErr ''bboltstore: empty scope'')
      else if vid = [] then Inl (NewErr ''bboltstore: empty id'')
      else Inr ())"

text \<open>The three nested walks of the rebuild: the vectors of a scope, the scopes of an entity, the
  registries. An error discards the partial index: no code reads it once the error is recorded.\<close>

definition rebuildScope ::
  "('tx, 'v, 'bm) ext \<Rightarrow> 'g hnsw \<Rightarrow> 'tx \<Rightarrow> string \<Rightarrow> bytes \<times> 'v \<Rightarrow> 'g Index \<Rightarrow> 'g Index result" where
  "rebuildScope X H tx entity = (\<lambda>(scope, v) i.
     (case dec_scope X v of
        None \<Rightarrow> Inl (NewErr ''vectorindex rebuild: decode meta'')
      | Some meta \<Rightarrow>
          if \<not> has_bucket X tx (vecDataBucket entity scope) then Inr i
          else foldR (\<lambda>(vid, raw) i.
            bindR (wrapR ''vectorindex rebuild: decode vec'' (decodeFloat32Slice (to_bytes X raw) (MDim meta))) (\<lambda>vec.
            insR (Insert H) ((entity, scope), vid, vec, MMetric meta) i))
            (bucket_items X tx (vecDataBucket entity scope)) i))"

definition rebuildEntity ::
  "('tx, 'v, 'bm) ext \<Rightarrow> 'g hnsw \<Rightarrow> 'tx \<Rightarrow> string \<Rightarrow> 'g Index \<Rightarrow> 'g Index result" where
  "rebuildEntity X H tx n i =
     (if take (length vecRegistryBucketPrefix) n \<noteq> vecRegistryBucketPrefix then Inr i
      else foldR (rebuildScope X H tx (drop (length vecRegistryBucketPrefix) n)) (bucket_items X tx n) i)"

definition rebuildVectorIndex :: "('tx, 'v, 'bm) ext \<Rightarrow> 'g hnsw \<Rightarrow> 'tx \<Rightarrow> 'g Index result" where
  "rebuildVectorIndex X H db = db_view X (\<lambda>tx. foldR (rebuildEntity X H tx) (bucket_names X tx) NewIndex) db"

record 'g vecState =
  vecOnce :: bool
  vectors :: "'g Index"
  vecLoadErr :: "err option"

definition unloaded :: "'g vecState" where
  "unloaded = \<lparr>vecOnce = False, vectors = NewIndex, vecLoadErr = None\<rparr>"

definition vectorIndex ::
  "('tx, 'v, 'bm) ext \<Rightarrow> 'g hnsw \<Rightarrow> 'tx \<Rightarrow> 'g vecState \<Rightarrow> 'g Index result \<times> 'g vecState" where
  "vectorIndex X H db vs =
     (let vs = (if vecOnce vs then vs
                else case rebuildVectorIndex X H db of
                  Inl e \<Rightarrow> \<lparr>vecOnce = True, vectors = NewIndex, vecLoadErr = Some e\<rparr>
                | Inr i \<Rightarrow> \<lparr>vecOnce = True, vectors = i, vecLoadErr = None\<rparr>)
      in case vecLoadErr vs of Some e \<Rightarrow> (Inl e, vs) | None \<Rightarrow> (Inr (vectors vs), vs))"

text \<open>The transaction of an insert: lock the dimension, store the vector. Its result is the
  metric in force.\<close>

definition persistVector ::
  "('tx, 'v, 'bm) ext \<Rightarrow> string \<Rightarrow> string \<Rightarrow> string \<Rightarrow> f32 list \<Rightarrow> Metric \<Rightarrow> 'tx \<Rightarrow> (Metric \<times> 'tx) result" where
  "persistVector X entityID scope vid vec m tx =
     bindR (liftB (create_bucket X (vecRegistryBucket entityID) tx)) (\<lambda>tx.
     bindR (case bucket_get X tx (vecRegistryBucket entityID) scope of
              Some existing \<Rightarrow>
                (case dec_scope X existing of
                   None \<Rightarrow> Inl (NewErr ''decode existing meta'')
                 | Some meta \<Rightarrow>
                     if MDim meta \<noteq> int (length vec)
                     then Inl (Wrapf '': scope expects dim'' (Sentinel ErrDimensionMismatch))
                     else Inr (MMetric meta, tx))
            | None \<Rightarrow>
                bindR (liftB (bucket_put X (vecRegistryBucket entityID) scope
                  (enc_scope X \<lparr>MDim = int (length vec), MMetric = m\<rparr>) tx)) (\<lambda>tx. Inr (m, tx))) (\<lambda>(m, tx).
     bindR (liftB (create_bucket X (vecDataBucket entityID scope) tx)) (\<lambda>tx.
     bindR (liftB (bucket_put X (vecDataBucket entityID scope) vid (of_bytes X (encodeFloat32Slice vec)) tx)) (\<lambda>tx.
     Inr (m, tx)))))"

definition VectorInsert ::
  "('tx, 'v, 'bm) ext \<Rightarrow> 'g hnsw \<Rightarrow> ctx \<Rightarrow> string \<Rightarrow> string \<Rightarrow> string \<Rightarrow> f32 list \<Rightarrow> Metric \<Rightarrow>
     'tx \<times> 'g vecState \<Rightarrow> unit result \<times> 'tx \<times> 'g vecState" where
  "VectorInsert X H ctx entityID scope vid vec m = (\<lambda>(db, vs).
     case bindR (ctxErr ctx 0) (\<lambda>_. validateVecArgs entityID scope vid) of
       Inl e \<Rightarrow> (Inl e, db, vs)
     | Inr _ \<Rightarrow>
         if length vec = 0 then (Inl (Sentinel ErrEmptyVector), db, vs)
         else (case vectorIndex X H db vs of
           (Inl e, vs) \<Rightarrow> (Inl e, db, vs)
         | (Inr ix, vs) \<Rightarrow>
             (case db_update X (persistVector X entityID scope vid vec m) db of
                (Inl e, db) \<Rightarrow> (Inl e, db, vs)
              | (Inr m, db) \<Rightarrow>
                  (case Insert H entityID scope vid vec m ix of
                     (r, ix) \<Rightarrow> (r, db, vs\<lparr>vectors := ix\<rparr>)))))"

definition VectorSearch ::
  "('tx, 'v, 'bm) ext \<Rightarrow> 'g hnsw \<Rightarrow> ctx \<Rightarrow> string \<Rightarrow> string \<Rightarrow> f32 list \<Rightarrow> int \<Rightarrow>
     'tx \<times> 'g vecState \<Rightarrow> (VectorResult list) result \<times> 'g vecState" where
  "VectorSearch X H ctx entityID scope query k = (\<lambda>(db, vs).
     case ctxErr ctx 0 of
       Inl e \<Rightarrow> (Inl e, vs)
     | Inr _ \<Rightarrow>
         (case vectorIndex X H db vs of
            (Inl e, vs) \<Rightarrow> (Inl e, vs)
          | (Inr ix, vs) \<Rightarrow> (Search H entityID scope query k ix, vs)))"

definition removeVector ::
  "('tx, 'v, 'bm) ext \<Rightarrow> string \<Rightarrow> string \<Rightarrow> string \<Rightarrow> 'tx \<Rightarrow> (bool \<times> 'tx) result" where
  "removeVector X entityID scope vid tx =
     (if \<not> has_bucket X tx (vecDataBucket entityID scope) then Inr (False, tx)
      else if bucket_get X tx (vecDataBucket entityID scope) vid = None then Inr (False, tx)
      else bindR (liftB (bucket_delete X (vecDataBucket entityID scope) vid tx)) (\<lambda>tx. Inr (True, tx)))"

definition VectorDelete ::
  "('tx, 'v, 'bm) ext \<Rightarrow> 'g hnsw \<Rightarrow> ctx \<Rightarrow> string \<Rightarrow> string \<Rightarrow> string \<Rightarrow>
     'tx \<times> 'g vecState \<Rightarrow> unit result \<times> 'tx \<times> 'g vecState" where
  "VectorDelete X H ctx entityID scope vid = (\<lambda>(db, vs).
     case bindR (ctxErr ctx 0) (\<lambda>_. validateVecArgs entityID scope vid) of
       Inl e \<Rightarrow> (Inl e, db, vs)
     | Inr _ \<Rightarrow>
         (case vectorIndex X H db vs of
            (Inl e, vs) \<Rightarrow> (Inl e, db, vs)
          | (Inr ix, vs) \<Rightarrow>
              (case db_update X (removeVector X entityID scope vid) db of
                 (Inl e, db) \<Rightarrow> (Inl e, db, vs)
               | (Inr found, db) \<Rightarrow>
                   if \<not> found then (Inl (Sentinel ErrNotFound), db, vs)
                   else (Inr (), db, vs\<lparr>vectors := snd (DeleteVec H entityID scope vid ix)\<rparr>))))"

definition removeScope ::
  "('tx, 'v, 'bm) ext \<Rightarrow> string \<Rightarrow> string \<Rightarrow> 'tx \<Rightarrow> (bool \<times> 'tx) result" where
  "removeScope X entityID scope tx =
     (let reg = vecRegistryBucket entityID;
          found = (has_bucket X tx reg \<and> bucket_get X tx reg scope \<noteq> None)
      in bindR (if found then liftB (bucket_delete X reg scope tx) else Inr tx) (\<lambda>tx.
         if has_bucket X tx (vecDataBucket entityID scope)
         then bindR (liftB (delete_bucket X (vecDataBucket entityID scope) tx)) (\<lambda>tx. Inr (found, tx))
         else Inr (found, tx)))"

definition VectorDropScope ::
  "('tx, 'v, 'bm) ext \<Rightarrow> 'g hnsw \<Rightarrow> ctx \<Rightarrow> string \<Rightarrow> string \<Rightarrow>
     'tx \<times> 'g vecState \<Rightarrow> unit result \<times> 'tx \<times> 'g vecState" where
  "VectorDropScope X H ctx entityID scope = (\<lambda>(db, vs).
     case ctxErr ctx 0 of
       Inl e \<Rightarrow> (Inl e, db, vs)
     | Inr _ \<Rightarrow>
         if entityID = [] \<or> scope = []
         then (Inl (NewErr ''bboltstore: VectorDropScope requires non-empty entity + scope''), db, vs)
         else (case vectorIndex X H db vs of
            (Inl e, vs) \<Rightarrow> (Inl e, db, vs)
          | (Inr ix, vs) \<Rightarrow>
              (case db_update X (removeScope X entityID scope) db of
                 (Inl e, db) \<Rightarrow> (Inl e, db, vs)
               | (Inr found, db) \<Rightarrow>
                   if \<not> found then (Inl (Sentinel ErrNotFound), db, vs)
                   else (Inr (), db, vs\<lparr>vectors := snd (DropScope entityID scope ix)\<rparr>))))"

definition VectorListScopes ::
  "('tx, 'v, 'bm) ext \<Rightarrow> 'g hnsw \<Rightarrow> ctx \<Rightarrow> string \<Rightarrow>
     'tx \<times> 'g vecState \<Rightarrow> (ScopeInfo list) result \<times> 'g vecState" where
  "VectorListScopes X H ctx entityID = (\<lambda>(db, vs).
     case ctxErr ctx 0 of
       Inl e \<Rightarrow> (Inl e, vs)
     | Inr _ \<Rightarrow>
         (case vectorIndex X H db vs of
            (Inl e, vs) \<Rightarrow> (Inl e, vs)
          | (Inr ix, vs) \<Rightarrow> (Inr (ListScopes H entityID ix), vs)))"

section \<open>The encoding of a vector\<close>

lemma length_LittleEndian [simp]: "length (LittleEndian_PutUint32 w) = 4"
  by (simp add: LittleEndian_PutUint32_def)

lemma LittleEndian_roundtrip [simp]: "LittleEndian_Uint32 (LittleEndian_PutUint32 w @ r) = w"
  using unat_u32_bound [of w] by (simp add: LittleEndian_Uint32_def LittleEndian_PutUint32_def)

lemma length_encodeFloat32Slice [simp]: "length (encodeFloat32Slice v) = 4 * length v"
  by (induction v) (simp_all add: encodeFloat32Slice_def)

lemma encode_nth:
  "j < length v \<Longrightarrow> LittleEndian_Uint32 (drop (4 * j) (encodeFloat32Slice v)) = v ! j"
proof (induction v arbitrary: j)
  case (Cons a v)
  then show ?case by (cases j) (simp_all add: encodeFloat32Slice_def drop_drop [symmetric] del: drop_drop)
qed simp

lemma float32_roundtrip:
  "want \<le> 0 \<or> want = int (length v) \<Longrightarrow> decodeFloat32Slice (encodeFloat32Slice v) want = Inr v"
  by (auto simp: decodeFloat32Slice_def encode_nth intro!: nth_equalityI)

lemma decode_length:
  "decodeFloat32Slice raw want = Inr v \<Longrightarrow> 4 * length v = length raw \<and> (0 < want \<longrightarrow> int (length v) = want)"
  by (auto simp: decodeFloat32Slice_def split: if_splits)

section \<open>The vectors on disk\<close>

definition disk_vec :: "('tx, 'v, 'bm) ext \<Rightarrow> 'tx \<Rightarrow> string \<Rightarrow> string \<Rightarrow> int \<Rightarrow> string \<Rightarrow> f32 list option" where
  "disk_vec X tx e s d vid =
     (case bucket_get X tx (vecDataBucket e s) vid of
        None \<Rightarrow> None
      | Some raw \<Rightarrow> (case decodeFloat32Slice (to_bytes X raw) d of Inl _ \<Rightarrow> None | Inr vec \<Rightarrow> Some vec))"

definition disk_view :: "('tx, 'v, 'bm) ext \<Rightarrow> 'tx \<Rightarrow> scopeKey \<Rightarrow> scopeView option" where
  "disk_view X tx = (\<lambda>(e, s).
     case bucket_get X tx (vecRegistryBucket e) s of
       None \<Rightarrow> None
     | Some raw \<Rightarrow>
         (case dec_scope X raw of
            None \<Rightarrow> None
          | Some meta \<Rightarrow> Some (nat (MDim meta), MMetric meta, disk_vec X tx e s (MDim meta))))"

text \<open>The invariant of the buckets: registry entries decode to a positive dimension, every stored
  vector has it, there is no vector without a registry entry, and no entity has a colon, on which
  the names of the data buckets rely.\<close>

definition vec_db_ok :: "('tx, 'v, 'bm) ext \<Rightarrow> 'tx \<Rightarrow> bool" where
  "vec_db_ok X tx \<longleftrightarrow>
     (\<forall>e. has_bucket X tx (vecRegistryBucket e) \<longrightarrow> e \<noteq> [] \<and> no_colon e) \<and>
     (\<forall>e s raw. bucket_get X tx (vecRegistryBucket e) s = Some raw \<longrightarrow>
        s \<noteq> [] \<and> (\<exists>meta. dec_scope X raw = Some meta \<and> 0 < MDim meta \<and>
          (\<forall>vid r. bucket_get X tx (vecDataBucket e s) vid = Some r \<longrightarrow>
             vid \<noteq> [] \<and> (\<exists>vec. decodeFloat32Slice (to_bytes X r) (MDim meta) = Inr vec)))) \<and>
     (\<forall>e s. no_colon e \<longrightarrow> bucket_get X tx (vecRegistryBucket e) s = None \<longrightarrow>
        (\<forall>vid. bucket_get X tx (vecDataBucket e s) vid = None))"

text \<open>A scope whose vectors have all been deleted is still on disk, but no restart brings it back
  into the index.\<close>

definition drop_empty :: "scopeView option \<Rightarrow> scopeView option" where
  "drop_empty v =
     (case v of None \<Rightarrow> None | Some (d, m, vs) \<Rightarrow> if \<forall>vid. vs vid = None then None else Some (d, m, vs))"

definition mirrors :: "('tx, 'v, 'bm) ext \<Rightarrow> 'g hnsw \<Rightarrow> 'tx \<Rightarrow> 'g Index \<Rightarrow> bool" where
  "mirrors X H tx i \<longleftrightarrow>
     (\<forall>k. index_view H i k = disk_view X tx k \<or> index_view H i k = None \<and> drop_empty (disk_view X tx k) = None)"

lemma vec_names [name_simps]:
  "vecRegistryBucket e = vecRegistryBucket e' \<longleftrightarrow> e = e'" "vecRegistryBucket e \<noteq> vecDataBucket e' s"
  "vecDataBucket e' s \<noteq> vecRegistryBucket e"
  "no_colon e \<Longrightarrow> no_colon e' \<Longrightarrow> vecDataBucket e s = vecDataBucket e' s' \<longleftrightarrow> e = e' \<and> s = s'"
  by (simp_all add: vecRegistryBucket_def vecDataBucket_def vecRegistryBucketPrefix_def vecDataBucketPrefix_def
      no_colon_append_eq)

lemma registry_name:
  "take (length vecRegistryBucketPrefix) n = vecRegistryBucketPrefix \<longleftrightarrow> n = vecRegistryBucket (drop (length vecRegistryBucketPrefix) n)"
  unfolding vecRegistryBucket_def by (metis append_eq_conv_conj append_take_drop_id)

lemma drop_registry [simp]: "drop (length vecRegistryBucketPrefix) (vecRegistryBucket e) = e"
  "take (length vecRegistryBucketPrefix) (vecRegistryBucket e) = vecRegistryBucketPrefix"
  by (simp_all add: vecRegistryBucket_def)

lemma vec_db_ok_view:
  assumes "vec_db_ok X tx" "disk_view X tx (e, s) = Some (d, m, vs)"
  obtains raw meta where "bucket_get X tx (vecRegistryBucket e) s = Some raw" "dec_scope X raw = Some meta"
    "0 < MDim meta" "d = nat (MDim meta)" "m = MMetric meta" "vs = disk_vec X tx e s (MDim meta)" "s \<noteq> []"
proof -
  from assms(2) obtain raw meta where r: "bucket_get X tx (vecRegistryBucket e) s = Some raw"
    "dec_scope X raw = Some meta" "d = nat (MDim meta)" "m = MMetric meta" "vs = disk_vec X tx e s (MDim meta)"
    by (auto simp: disk_view_def split: option.splits)
  with assms(1) have "s \<noteq> []" "0 < MDim meta" unfolding vec_db_ok_def by fastforce+
  with r that show ?thesis by blast
qed

context ext_laws
begin

lemma disk_view_nonempty:
  assumes "vec_db_ok X tx" "disk_view X tx (e, s) = Some (d, m, vs)"
  shows "e \<noteq> []" "no_colon e" "s \<noteq> []" "0 < d"
    "vs vid = Some vec \<Longrightarrow> length vec = d \<and> vid \<noteq> []"
    "bucket_get X tx (vecDataBucket e s) vid = None \<longleftrightarrow> vs vid = None"
proof -
  obtain raw meta where r: "bucket_get X tx (vecRegistryBucket e) s = Some raw" "dec_scope X raw = Some meta"
    "0 < MDim meta" "d = nat (MDim meta)" "m = MMetric meta" "vs = disk_vec X tx e s (MDim meta)" "s \<noteq> []"
    by (rule vec_db_ok_view [OF assms])
  show "e \<noteq> []" "no_colon e" using assms(1) get_has [OF r(1)] by (simp_all add: vec_db_ok_def)
  show "s \<noteq> []" "0 < d" using r by simp_all
  have dec: "vid \<noteq> [] \<and> (\<exists>vec. decodeFloat32Slice (to_bytes X y) (MDim meta) = Inr vec)"
    if "bucket_get X tx (vecDataBucket e s) vid = Some y" for vid y
    using assms(1) r(1,2) that unfolding vec_db_ok_def by (metis option.inject)
  show "length vec = d \<and> vid \<noteq> []" if v: "vs vid = Some vec"
  proof -
    obtain y where y: "bucket_get X tx (vecDataBucket e s) vid = Some y"
      "decodeFloat32Slice (to_bytes X y) (MDim meta) = Inr vec"
      using v by (auto simp: r(6) disk_vec_def split: option.splits sum.splits)
    with decode_length [OF y(2)] dec r(3,4) show ?thesis by auto
  qed
  show "bucket_get X tx (vecDataBucket e s) vid = None \<longleftrightarrow> vs vid = None"
    using dec by (fastforce simp: r(6) disk_vec_def split: option.splits sum.splits)
qed

end

section \<open>Rebuilding the index\<close>

definition scope_entries :: "('tx, 'v, 'bm) ext \<Rightarrow> 'tx \<Rightarrow> string \<Rightarrow> bytes \<times> 'v \<Rightarrow> ventry list" where
  "scope_entries X tx e = (\<lambda>(s, v).
     case dec_scope X v of
       None \<Rightarrow> []
     | Some meta \<Rightarrow>
         map (\<lambda>(vid, raw). ((e, s), vid, projr (decodeFloat32Slice (to_bytes X raw) (MDim meta)), MMetric meta))
           (bucket_items X tx (vecDataBucket e s)))"

definition entity_entries :: "('tx, 'v, 'bm) ext \<Rightarrow> 'tx \<Rightarrow> string \<Rightarrow> ventry list" where
  "entity_entries X tx n =
     (if take (length vecRegistryBucketPrefix) n \<noteq> vecRegistryBucketPrefix then []
      else concat (map (scope_entries X tx (drop (length vecRegistryBucketPrefix) n)) (bucket_items X tx n)))"

definition disk_entries :: "('tx, 'v, 'bm) ext \<Rightarrow> 'tx \<Rightarrow> ventry list" where
  "disk_entries X tx = concat (map (entity_entries X tx) (bucket_names X tx))"

lemma foldR_concat:
  "(\<And>x s. x \<in> set xs \<Longrightarrow> f x s = foldR g (h x) s) \<Longrightarrow> foldR f xs s = foldR g (concat (map h xs)) s"
proof (induction xs arbitrary: s)
  case (Cons x xs)
  have "foldR f (x # xs) s = bindR (foldR g (h x) s) (foldR f xs)" using Cons.prems by simp
  also have "\<dots> = bindR (foldR g (h x) s) (foldR g (concat (map h xs)))"
    using Cons by (cases "foldR g (h x) s") simp_all
  finally show ?case by (simp add: foldR_append)
qed simp

lemma foldR_map: "(\<And>x s. x \<in> set xs \<Longrightarrow> f x s = g (h x) s) \<Longrightarrow> foldR f xs s = foldR g (map h xs) s"
proof (induction xs arbitrary: s)
  case (Cons x xs)
  then show ?case by (cases "g (h x) s") simp_all
qed simp

context ext_laws
begin

lemma rebuildScope_entries:
  assumes "vec_db_ok X tx" "bucket_get X tx (vecRegistryBucket e) s = Some v"
  shows "rebuildScope X H tx e (s, v) i = foldR (insR (Insert H)) (scope_entries X tx e (s, v)) i"
proof -
  from assms obtain meta where m: "dec_scope X v = Some meta"
    and dec: "\<And>vid r. bucket_get X tx (vecDataBucket e s) vid = Some r \<Longrightarrow>
      \<exists>vec. decodeFloat32Slice (to_bytes X r) (MDim meta) = Inr vec"
    unfolding vec_db_ok_def by meson
  have "bucket_items X tx (vecDataBucket e s) = []" if "\<not> has_bucket X tx (vecDataBucket e s)"
  proof -
    have "map_of (bucket_items X tx (vecDataBucket e s)) = Map.empty"
      by (simp add: items_map no_bucket_get [OF that] fun_eq_iff)
    then show ?thesis by simp
  qed
  moreover have "foldR (\<lambda>(vid, raw) i.
            bindR (wrapR ''vectorindex rebuild: decode vec'' (decodeFloat32Slice (to_bytes X raw) (MDim meta))) (\<lambda>vec.
            insR (Insert H) ((e, s), vid, vec, MMetric meta) i))
            (bucket_items X tx (vecDataBucket e s)) i =
    foldR (insR (Insert H)) (scope_entries X tx e (s, v)) i"
    using dec by (simp add: scope_entries_def m) (rule foldR_map, fastforce simp: in_items_iff)
  ultimately show ?thesis
    by (cases "has_bucket X tx (vecDataBucket e s)") (simp_all add: rebuildScope_def m scope_entries_def)
qed

lemma rebuildEntity_entries:
  assumes "vec_db_ok X tx"
  shows "rebuildEntity X H tx n i = foldR (insR (Insert H)) (entity_entries X tx n) i"
proof (cases "take (length vecRegistryBucketPrefix) n = vecRegistryBucketPrefix")
  case True
  define e where "e = drop (length vecRegistryBucketPrefix) n"
  have n: "n = vecRegistryBucket e" using True registry_name unfolding e_def by blast
  have "foldR (rebuildScope X H tx e) (bucket_items X tx n) i =
    foldR (insR (Insert H)) (concat (map (scope_entries X tx e) (bucket_items X tx n))) i"
    by (rule foldR_concat) (use rebuildScope_entries [OF assms] in \<open>auto simp: n in_items_iff\<close>)
  with True show ?thesis by (simp add: rebuildEntity_def entity_entries_def e_def)
qed (simp add: rebuildEntity_def entity_entries_def)

lemma in_disk_entries:
  assumes "vec_db_ok X tx"
  shows "((e, s), vid, vec, m) \<in> set (disk_entries X tx) \<longleftrightarrow>
    (\<exists>d vs. disk_view X tx (e, s) = Some (d, m, vs) \<and> vs vid = Some vec)"
proof -
  have ent: "((e, s), vid, vec, m) \<in> set (scope_entries X tx e' (s', v)) \<longleftrightarrow>
      e' = e \<and> s' = s \<and> (\<exists>d vs. disk_view X tx (e, s) = Some (d, m, vs) \<and> vs vid = Some vec)"
    if g: "bucket_get X tx (vecRegistryBucket e') s' = Some v" for e' s' v
  proof -
    from assms g obtain meta where meta: "dec_scope X v = Some meta"
      and dec: "\<And>vid r. bucket_get X tx (vecDataBucket e' s') vid = Some r \<Longrightarrow>
        \<exists>vec. decodeFloat32Slice (to_bytes X r) (MDim meta) = Inr vec"
      unfolding vec_db_ok_def by meson
    have "((e, s), vid, vec, m) \<in> set (scope_entries X tx e' (s', v)) \<longleftrightarrow> e' = e \<and> s' = s \<and> m = MMetric meta \<and>
        (\<exists>raw. bucket_get X tx (vecDataBucket e' s') vid = Some raw \<and>
          vec = projr (decodeFloat32Slice (to_bytes X raw) (MDim meta)))"
      apply (auto simp: scope_entries_def meta in_items_iff image_iff)
      subgoal for raw by (rule bexI [of _ "(vid, raw)"]) (simp_all add: in_items_iff)
      done
    also have "\<dots> \<longleftrightarrow> e' = e \<and> s' = s \<and> m = MMetric meta \<and> disk_vec X tx e' s' (MDim meta) vid = Some vec"
      using dec by (auto simp: disk_vec_def split: option.splits sum.splits) fastforce+
    also have "\<dots> \<longleftrightarrow> e' = e \<and> s' = s \<and> (\<exists>d vs. disk_view X tx (e, s) = Some (d, m, vs) \<and> vs vid = Some vec)"
      using g by (auto simp: disk_view_def meta)
    finally show ?thesis .
  qed
  have "((e, s), vid, vec, m) \<in> set (disk_entries X tx) \<longleftrightarrow>
    (\<exists>e' s' v. bucket_get X tx (vecRegistryBucket e') s' = Some v \<and> ((e, s), vid, vec, m) \<in> set (scope_entries X tx e' (s', v)))"
    (is "?l \<longleftrightarrow> ?r")
  proof
    assume ?l
    then obtain n where "((e, s), vid, vec, m) \<in> set (entity_entries X tx n)" by (auto simp: disk_entries_def)
    then obtain sv where p: "take (length vecRegistryBucketPrefix) n = vecRegistryBucketPrefix" "sv \<in> set (bucket_items X tx n)"
      "((e, s), vid, vec, m) \<in> set (scope_entries X tx (drop (length vecRegistryBucketPrefix) n) sv)"
      by (auto simp: entity_entries_def split: if_splits)
    with registry_name [of n] show ?r by (metis in_items_iff surj_pair)
  next
    assume ?r
    then obtain e' s' v where g: "bucket_get X tx (vecRegistryBucket e') s' = Some v"
      "((e, s), vid, vec, m) \<in> set (scope_entries X tx e' (s', v))" by blast
    have "((e, s), vid, vec, m) \<in> set (entity_entries X tx (vecRegistryBucket e'))"
      using g by (auto simp: entity_entries_def registry_name in_items_iff)
    moreover have "vecRegistryBucket e' \<in> set (bucket_names X tx)" using get_has [OF g(1)] by (simp add: names_set)
    ultimately show ?l by (auto simp: disk_entries_def)
  qed
  also have "\<dots> \<longleftrightarrow> (\<exists>d vs. disk_view X tx (e, s) = Some (d, m, vs) \<and> vs vid = Some vec)"
    using ent by (fastforce simp: disk_view_def split: option.splits)
  finally show ?thesis .
qed

lemma disk_entries_replayable:
  assumes "vec_db_ok X tx"
  shows "replayable (disk_entries X tx)"
  unfolding replayable_def
proof (intro conjI allI impI)
  fix e s vid vec m
  assume "((e, s), vid, vec, m) \<in> set (disk_entries X tx)"
  then obtain d vs where v: "disk_view X tx (e, s) = Some (d, m, vs)" "vs vid = Some vec"
    using in_disk_entries [OF assms] by blast
  note n = disk_view_nonempty [OF assms v(1)]
  from n(4) n(5) [OF v(2)] show "vec \<noteq> []" by auto
  show "e \<noteq> []" "s \<noteq> []" "vid \<noteq> []" using n(1,3) n(5) [OF v(2)] by simp_all
next
  fix k vid vec m vid' vec' m'
  assume a: "(k, vid, vec, m) \<in> set (disk_entries X tx)" "(k, vid', vec', m') \<in> set (disk_entries X tx)"
  obtain e s where k: "k = (e, s)" by (cases k)
  from a obtain d vs d' vs' where v: "disk_view X tx (e, s) = Some (d, m, vs)" "vs vid = Some vec"
    "disk_view X tx (e, s) = Some (d', m', vs')" "vs' vid' = Some vec'"
    unfolding k in_disk_entries [OF assms] by blast
  then show "length vec = length vec'" "m = m'"
    using disk_view_nonempty(5) [OF assms v(1)] disk_view_nonempty(5) [OF assms v(3)] by auto
qed

text \<open>What a restart brings back: every scope that has a vector.\<close>

lemma replay_disk:
  assumes "vec_db_ok X tx"
  shows "replay_view (disk_entries X tx) k = drop_empty (disk_view X tx k)"
proof -
  obtain e s where k: "k = (e, s)" by (cases k)
  note ent = in_disk_entries [OF assms, of e s, folded k]
  show ?thesis
  proof (cases "replay_view (disk_entries X tx) k")
    case None
    then have "(k, vid, vec, m) \<notin> set (disk_entries X tx)" for vid vec m
      unfolding replay_view_none by fastforce
    then have "vs vid = None" if "disk_view X tx k = Some (d, m, vs)" for d m vs vid
      using that ent by (metis not_Some_eq)
    with None show ?thesis by (auto simp: drop_empty_def split: option.splits)
  next
    case (Some v)
    obtain d m vs where v: "v = (d, m, vs)" by (metis prod.exhaust)
    have "\<forall>vid vec m vec' m'. (k, vid, vec, m) \<in> set (disk_entries X tx) \<longrightarrow>
        (k, vid, vec', m') \<in> set (disk_entries X tx) \<longrightarrow> vec = vec'"
      unfolding ent by auto
    note r = replay_view_some [OF Some [unfolded v] this]
    from r(2) obtain vid vec where e1: "(k, vid, vec, m) \<in> set (disk_entries X tx)" "length vec = d" by blast
    then obtain d' vs' where dv: "disk_view X tx k = Some (d', m, vs')" "vs' vid = Some vec" unfolding ent by blast
    have "d' = d" using disk_view_nonempty(5) [OF assms dv(1) [unfolded k] dv(2)] e1(2) by simp
    moreover have "vs = vs'"
    proof
      fix x
      have "vs x = Some w \<longleftrightarrow> vs' x = Some w" for w unfolding r(1) ent using dv(1) by auto
      then show "vs x = vs' x" by (metis not_Some_eq)
    qed
    ultimately show ?thesis using Some v dv by (auto simp: drop_empty_def)
  qed
qed

end

text \<open>The two components together: bbolt with the codecs, and the graph library.\<close>

locale vector_store = ext_laws X + hnsw_laws H addable searchable
  for X :: "('tx, 'v, 'bm) ext" and H :: "'g hnsw" and addable searchable
begin

lemma rebuild_view:
  assumes "vec_db_ok X db" "rebuildVectorIndex X H db = Inr i"
  shows "ok i" "index_view H i k = drop_empty (disk_view X db k)"
proof -
  have "foldR (rebuildEntity X H db) (bucket_names X db) NewIndex = Inr i"
    using assms(2) unfolding rebuildVectorIndex_def by (rule db_view_ok)
  then have f: "foldR (insR (Insert H)) (disk_entries X db) NewIndex = Inr i"
    unfolding disk_entries_def by (subst (asm) foldR_concat [OF rebuildEntity_entries [OF assms(1)]])
  with ix.replay [OF disk_entries_replayable [OF assms(1)]] show "ok i" by auto
  have "index_view H i = replay_view (disk_entries X db)"
    using f ix.replay [OF disk_entries_replayable [OF assms(1)]] by auto
  then show "index_view H i k = drop_empty (disk_view X db k)" by (simp add: replay_disk [OF assms(1)])
qed

lemma rebuild_succeeds:
  assumes "vec_db_ok X db" "begin_err X db = None"
  shows "\<exists>i. rebuildVectorIndex X H db = Inr i"
  using ix.replay [OF disk_entries_replayable [OF assms(1)]]
  unfolding rebuildVectorIndex_def db_view_def assms(2) disk_entries_def
  by (subst foldR_concat [OF rebuildEntity_entries [OF assms(1)]]) auto

end

section \<open>What the transactions do to the vectors on disk\<close>

definition scope_disk_ok :: "('tx, 'v, 'bm) ext \<Rightarrow> 'tx \<Rightarrow> string \<Rightarrow> string \<Rightarrow> bool" where
  "scope_disk_ok X tx e s \<longleftrightarrow>
     (case bucket_get X tx (vecRegistryBucket e) s of
        None \<Rightarrow> (\<forall>vid. bucket_get X tx (vecDataBucket e s) vid = None)
      | Some raw \<Rightarrow> s \<noteq> [] \<and> (\<exists>meta. dec_scope X raw = Some meta \<and> 0 < MDim meta \<and>
          (\<forall>vid r. bucket_get X tx (vecDataBucket e s) vid = Some r \<longrightarrow>
             vid \<noteq> [] \<and> (\<exists>vec. decodeFloat32Slice (to_bytes X r) (MDim meta) = Inr vec))))"

lemma scope_disk_ok_cong:
  "bucket_get X tx' (vecRegistryBucket e) s = bucket_get X tx (vecRegistryBucket e) s \<Longrightarrow>
   bucket_get X tx' (vecDataBucket e s) = bucket_get X tx (vecDataBucket e s) \<Longrightarrow>
   scope_disk_ok X tx' e s = scope_disk_ok X tx e s"
  unfolding scope_disk_ok_def by (simp only:)

context ext_laws
begin

lemma vec_db_ok_iff:
  "vec_db_ok X tx \<longleftrightarrow> (\<forall>e. has_bucket X tx (vecRegistryBucket e) \<longrightarrow> e \<noteq> [] \<and> no_colon e) \<and>
     (\<forall>e s. no_colon e \<longrightarrow> scope_disk_ok X tx e s)"
  (is "_ \<longleftrightarrow> ?h \<and> ?s")
proof
  assume ok: "vec_db_ok X tx"
  then have ?h by (simp add: vec_db_ok_def)
  moreover have "scope_disk_ok X tx e s" if "no_colon e" for e s
  proof (cases "bucket_get X tx (vecRegistryBucket e) s")
    case None
    with ok that show ?thesis unfolding vec_db_ok_def scope_disk_ok_def by simp
  next
    case (Some raw)
    from ok have "\<forall>e s raw. bucket_get X tx (vecRegistryBucket e) s = Some raw \<longrightarrow>
        s \<noteq> [] \<and> (\<exists>meta. dec_scope X raw = Some meta \<and> 0 < MDim meta \<and>
          (\<forall>vid r. bucket_get X tx (vecDataBucket e s) vid = Some r \<longrightarrow>
             vid \<noteq> [] \<and> (\<exists>vec. decodeFloat32Slice (to_bytes X r) (MDim meta) = Inr vec)))"
      unfolding vec_db_ok_def by (elim conjE)
    with Some show ?thesis unfolding scope_disk_ok_def by simp
  qed
  ultimately show "?h \<and> ?s" by blast
next
  assume a: "?h \<and> ?s"
  have "scope_disk_ok X tx e s" if "bucket_get X tx (vecRegistryBucket e) s = Some raw" for e s raw
    using a get_has [OF that] by blast
  note sd = this [unfolded scope_disk_ok_def]
  show "vec_db_ok X tx"
    unfolding vec_db_ok_def
  proof (intro conjI allI impI, goal_cases)
    case (1 e) then show ?case using a by blast
  next
    case (2 e) then show ?case using a by blast
  next
    case (3 e s raw) with sd [OF 3] show ?case by simp
  next
    case (4 e s raw) with sd [OF 4] show ?case by simp
  next
    case (5 e s vid)
    with a have "scope_disk_ok X tx e s" by blast
    with 5 show ?case by (simp add: scope_disk_ok_def)
  qed
qed

text \<open>A transaction on one scope: the others look the same, and it is enough to check this one.\<close>

lemma scope_update:
  assumes ok: "vec_db_ok X db" and e: "no_colon e" "e \<noteq> []"
    and f: "frame X {vecRegistryBucket e, vecDataBucket e s} db db'"
    and r: "\<And>s'. s' \<noteq> s \<Longrightarrow> bucket_get X db' (vecRegistryBucket e) s' = bucket_get X db (vecRegistryBucket e) s'"
  shows "k \<noteq> (e, s) \<Longrightarrow> disk_view X db' k = disk_view X db k"
    "scope_disk_ok X db' e s \<Longrightarrow> vec_db_ok X db'"
proof -
  have reg: "bucket_get X db' (vecRegistryBucket e') s' = bucket_get X db (vecRegistryBucket e') s'" if "(e', s') \<noteq> (e, s)" for e' s'
    using that r frame_get [OF f, of "vecRegistryBucket e'"] by (cases "e' = e") (auto simp: vec_names)
  have dat: "bucket_get X db' (vecDataBucket e' s') = bucket_get X db (vecDataBucket e' s')"
    if "(e', s') \<noteq> (e, s)" "no_colon e'" for e' s'
    using that e(1) by (intro frame_get [OF f]) (auto simp: vec_names)
  have nc: "no_colon e'" if "bucket_get X db (vecRegistryBucket e') s' = Some raw" for e' s' raw
    using ok get_has [OF that] by (simp add: vec_db_ok_def)
  show "disk_view X db' k = disk_view X db k" if "k \<noteq> (e, s)"
  proof (cases k)
    case (Pair e' s')
    with that have n: "(e', s') \<noteq> (e, s)" by simp
    show ?thesis
    proof (cases "bucket_get X db (vecRegistryBucket e') s'")
      case None
      then show ?thesis by (simp add: Pair disk_view_def reg [OF n])
    next
      case (Some raw)
      then have "disk_vec X db' e' s' = disk_vec X db e' s'"
        by (simp add: disk_vec_def fun_eq_iff dat [OF n nc])
      with Some show ?thesis by (simp add: Pair disk_view_def reg [OF n] split: option.splits)
    qed
  qed
  show "vec_db_ok X db'" if "scope_disk_ok X db' e s"
    unfolding vec_db_ok_iff
  proof (intro conjI allI impI)
    fix e' assume h: "has_bucket X db' (vecRegistryBucket e')"
    show "e' \<noteq> []" "no_colon e'"
      using h e ok frame_has [OF f, of "vecRegistryBucket e'"]
      by (cases "e' = e"; simp add: vec_names vec_db_ok_def)+
  next
    fix e' s' assume c: "no_colon e'"
    show "scope_disk_ok X db' e' s'"
    proof (cases "(e', s') = (e, s)")
      case False
      then have "scope_disk_ok X db' e' s' = scope_disk_ok X db e' s'"
        by (intro scope_disk_ok_cong reg dat c)
      with ok c show ?thesis by (simp add: vec_db_ok_iff)
    qed (use that in simp)
  qed
qed

lemma scope_disk_okD: "vec_db_ok X db \<Longrightarrow> no_colon e \<Longrightarrow> scope_disk_ok X db e s"
  by (simp add: vec_db_ok_iff)

lemma persistVector_gets:
  assumes "persistVector X e s vid vec m db = Inr (m', db')"
  shows "\<exists>raw. dec_scope X raw = Some \<lparr>MDim = int (length vec), MMetric = m'\<rparr> \<and>
    (\<forall>n k. bucket_get X db' n k =
      (if n = vecDataBucket e s \<and> k = vid then Some (of_bytes X (encodeFloat32Slice vec))
       else if n = vecRegistryBucket e \<and> k = s then Some raw else bucket_get X db n k)) \<and>
    (case bucket_get X db (vecRegistryBucket e) s of None \<Rightarrow> m' = m | Some old \<Rightarrow> old = raw) \<and>
    frame X {vecRegistryBucket e, vecDataBucket e s} db db'"
proof -
  let ?N = "{vecRegistryBucket e, vecDataBucket e s}"
  from assms obtain t1 t2 t3 where c1: "create_bucket X (vecRegistryBucket e) db = Inr t1"
    and mid: "(case bucket_get X t1 (vecRegistryBucket e) s of
              Some existing \<Rightarrow>
                (case dec_scope X existing of
                   None \<Rightarrow> Inl (NewErr ''decode existing meta'')
                 | Some meta \<Rightarrow>
                     if MDim meta \<noteq> int (length vec)
                     then Inl (Wrapf '': scope expects dim'' (Sentinel ErrDimensionMismatch))
                     else Inr (MMetric meta, t1))
            | None \<Rightarrow>
                bindR (liftB (bucket_put X (vecRegistryBucket e) s
                  (enc_scope X \<lparr>MDim = int (length vec), MMetric = m\<rparr>) t1)) (\<lambda>tx. Inr (m, tx))) = Inr (m', t2)"
    and c2: "create_bucket X (vecDataBucket e s) t2 = Inr t3"
    and p: "bucket_put X (vecDataBucket e s) vid (of_bytes X (encodeFloat32Slice vec)) t3 = Inr db'"
    by (auto simp: persistVector_def result_simps)
  have g1: "bucket_get X t1 n k = bucket_get X db n k" for n k by (simp add: create_get [OF c1])
  have "\<exists>raw. dec_scope X raw = Some \<lparr>MDim = int (length vec), MMetric = m'\<rparr> \<and>
    (\<forall>n k. bucket_get X t2 n k = (if n = vecRegistryBucket e \<and> k = s then Some raw else bucket_get X db n k)) \<and>
    (case bucket_get X db (vecRegistryBucket e) s of None \<Rightarrow> m' = m | Some old \<Rightarrow> old = raw) \<and> frame X ?N t1 t2"
  proof (cases "bucket_get X db (vecRegistryBucket e) s")
    case None
    with mid have q: "bucket_put X (vecRegistryBucket e) s (enc_scope X \<lparr>MDim = int (length vec), MMetric = m\<rparr>) t1 = Inr t2"
      and "m' = m" by (auto simp: g1 result_simps)
    with None show ?thesis
      using scope_roundtrip frame_put [OF q, of ?N]
      by (intro exI [of _ "enc_scope X \<lparr>MDim = int (length vec), MMetric = m\<rparr>"]) (simp add: put_get [OF q] g1)
  next
    case (Some raw)
    with mid have t: "t2 = t1" and d: "dec_scope X raw = Some \<lparr>MDim = int (length vec), MMetric = m'\<rparr>"
      by (auto simp: g1 split: option.splits if_splits)
    with Some show ?thesis by (intro exI [of _ raw]) (simp add: t g1)
  qed
  then obtain raw where raw: "dec_scope X raw = Some \<lparr>MDim = int (length vec), MMetric = m'\<rparr>"
    "\<And>n k. bucket_get X t2 n k = (if n = vecRegistryBucket e \<and> k = s then Some raw else bucket_get X db n k)"
    "case bucket_get X db (vecRegistryBucket e) s of None \<Rightarrow> m' = m | Some old \<Rightarrow> old = raw" "frame X ?N t1 t2" by blast
  have "frame X ?N db db'"
    using frame_create [OF c1, of ?N] raw(4) frame_create [OF c2, of ?N] frame_put [OF p, of ?N]
    by (meson frame_trans insertI1 insertI2)
  with raw show ?thesis
    by (intro exI [of _ raw]) (simp add: put_get [OF p] create_get [OF c2])
qed

lemma disk_view_None:
  "vec_db_ok X db \<Longrightarrow> disk_view X db (e, s) = None \<longleftrightarrow> bucket_get X db (vecRegistryBucket e) s = None"
  unfolding vec_db_ok_def disk_view_def by (auto split: option.splits) fastforce

lemma persistVector_spec:
  assumes ok: "vec_db_ok X db" and run: "persistVector X e s vid vec m db = Inr (m', db')"
    and e: "no_colon e" "e \<noteq> []" and ne: "s \<noteq> []" "vid \<noteq> []" "vec \<noteq> []"
  shows "vec_db_ok X db'" "frame X {vecRegistryBucket e, vecDataBucket e s} db db'"
    "fits vec (disk_view X db (e, s))" "case disk_view X db (e, s) of None \<Rightarrow> m' = m | Some (d, m0, vs) \<Rightarrow> m' = m0"
    "disk_view X db' = (disk_view X db)((e, s) \<mapsto> view_insert vid vec m (disk_view X db (e, s)))"
proof -
  obtain raw where raw: "dec_scope X raw = Some \<lparr>MDim = int (length vec), MMetric = m'\<rparr>"
    and g: "\<And>n k. bucket_get X db' n k =
      (if n = vecDataBucket e s \<and> k = vid then Some (of_bytes X (encodeFloat32Slice vec))
       else if n = vecRegistryBucket e \<and> k = s then Some raw else bucket_get X db n k)"
    and old: "case bucket_get X db (vecRegistryBucket e) s of None \<Rightarrow> m' = m | Some old \<Rightarrow> old = raw"
    and f: "frame X {vecRegistryBucket e, vecDataBucket e s} db db'"
    using persistVector_gets [OF run] by blast
  have len: "0 < int (length vec)" using ne(3) by simp
  have dec: "vid' \<noteq> [] \<and> (\<exists>v. decodeFloat32Slice (to_bytes X r) (int (length vec)) = Inr v)"
    if "bucket_get X db (vecDataBucket e s) vid' = Some r" for vid' r
    using scope_disk_okD [OF ok e(1), of s] that old raw
    by (cases "bucket_get X db (vecRegistryBucket e) s") (auto simp: scope_disk_ok_def)
  have reg: "bucket_get X db' (vecRegistryBucket e) s = Some raw" by (simp add: g vec_names)
  have dat: "bucket_get X db' (vecDataBucket e s) k =
      (if k = vid then Some (of_bytes X (encodeFloat32Slice vec)) else bucket_get X db (vecDataBucket e s) k)" for k
    by (simp add: g vec_names)
  have here: "scope_disk_ok X db' e s"
    using ne len dec float32_roundtrip [of "int (length vec)" vec]
    by (auto simp: scope_disk_ok_def reg raw dat raw_bytes split: if_splits)
  have r': "bucket_get X db' (vecRegistryBucket e) s' = bucket_get X db (vecRegistryBucket e) s'" if "s' \<noteq> s" for s'
    using that by (simp add: g vec_names)
  note upd = scope_update [OF ok e f r']
  show "vec_db_ok X db'" by (rule upd(2) [OF _ here])
  show "frame X {vecRegistryBucket e, vecDataBucket e s} db db'" by (rule f)
  have dv: "disk_vec X db' e s (int (length vec)) = (disk_vec X db e s (int (length vec)))(vid \<mapsto> vec)"
    by (auto simp: disk_vec_def dat raw_bytes float32_roundtrip fun_eq_iff)
  have new: "disk_view X db' (e, s) = Some (length vec, m', (disk_vec X db e s (int (length vec)))(vid \<mapsto> vec))"
    by (simp add: disk_view_def reg raw dv)
  have prior: "disk_view X db (e, s) = (case bucket_get X db (vecRegistryBucket e) s of None \<Rightarrow> None
      | Some _ \<Rightarrow> Some (length vec, m', disk_vec X db e s (int (length vec))))"
    using old raw by (auto simp: disk_view_def split: option.splits)
  have none: "disk_vec X db e s d = Map.empty" if "bucket_get X db (vecRegistryBucket e) s = None" for d
    using scope_disk_okD [OF ok e(1), of s] that by (simp add: scope_disk_ok_def disk_vec_def fun_eq_iff)
  show "fits vec (disk_view X db (e, s))" "case disk_view X db (e, s) of None \<Rightarrow> m' = m | Some (d, m0, vs) \<Rightarrow> m' = m0"
    using old unfolding prior by (auto simp: fits_def split: option.splits)
  have "disk_view X db' (e, s) = Some (view_insert vid vec m (disk_view X db (e, s)))"
    unfolding new prior using old none by (cases "bucket_get X db (vecRegistryBucket e) s") (auto simp: view_insert_def)
  then show "disk_view X db' = (disk_view X db)((e, s) \<mapsto> view_insert vid vec m (disk_view X db (e, s)))"
    using upd(1) by (auto simp: fun_eq_iff)
qed

lemma removeVector_spec:
  assumes ok: "vec_db_ok X db" and run: "removeVector X e s vid db = Inr (found, db')" and e: "no_colon e" "e \<noteq> []"
  shows "vec_db_ok X db'" "frame X {vecRegistryBucket e, vecDataBucket e s} db db'"
    "found \<longleftrightarrow> (\<exists>d m vs. disk_view X db (e, s) = Some (d, m, vs) \<and> vs vid \<noteq> None)" "\<not> found \<Longrightarrow> db' = db"
    "disk_view X db' = (disk_view X db)((e, s) := map_option (\<lambda>(d, m, vs). (d, m, vs(vid := None))) (disk_view X db (e, s)))"
proof -
  have fnd: "bucket_get X db (vecDataBucket e s) vid \<noteq> None \<longleftrightarrow>
      (\<exists>d m vs. disk_view X db (e, s) = Some (d, m, vs) \<and> vs vid \<noteq> None)"
  proof (cases "disk_view X db (e, s)")
    case None
    then have "bucket_get X db (vecDataBucket e s) vid = None"
      using scope_disk_okD [OF ok e(1), of s] disk_view_None [OF ok] by (simp add: scope_disk_ok_def)
    with None show ?thesis by simp
  next
    case (Some v)
    then show ?thesis using disk_view_nonempty(6) [OF ok, of e s] by (cases v) auto
  qed
  consider (no) "\<not> found" "db' = db" "bucket_get X db (vecDataBucket e s) vid = None"
    | (yes) "found" "bucket_delete X (vecDataBucket e s) vid db = Inr db'" "bucket_get X db (vecDataBucket e s) vid \<noteq> None"
    using run no_bucket_get by (auto simp: removeVector_def result_simps split: if_splits)
  then have "vec_db_ok X db' \<and> frame X {vecRegistryBucket e, vecDataBucket e s} db db' \<and>
    (found \<longleftrightarrow> (\<exists>d m vs. disk_view X db (e, s) = Some (d, m, vs) \<and> vs vid \<noteq> None)) \<and> (\<not> found \<longrightarrow> db' = db) \<and>
    disk_view X db' = (disk_view X db)((e, s) := map_option (\<lambda>(d, m, vs). (d, m, vs(vid := None))) (disk_view X db (e, s)))"
  proof cases
    case no
    then have "\<nexists>d m vs. disk_view X db (e, s) = Some (d, m, vs) \<and> vs vid \<noteq> None" using fnd by simp
    then have "map_option (\<lambda>(d, m, vs). (d, m, vs(vid := None))) (disk_view X db (e, s)) = disk_view X db (e, s)"
      by (auto simp: fun_upd_idem_iff split: prod.splits intro!: option.map_ident_strong)
    with no ok fnd show ?thesis by (simp add: fun_upd_idem)
  next
    case yes
    have f: "frame X {vecRegistryBucket e, vecDataBucket e s} db db'" by (rule frame_del [OF yes(2)]) simp
    note g = del_get [OF yes(2)]
    have r: "bucket_get X db' (vecRegistryBucket e) s' = bucket_get X db (vecRegistryBucket e) s'" for s'
      by (simp add: g vec_names)
    note upd = scope_update [OF ok e f r]
    have "scope_disk_ok X db' e s"
      using scope_disk_okD [OF ok e(1), of s] by (auto simp: scope_disk_ok_def r g vec_names split: option.splits)
    moreover have "disk_vec X db' e s d = (disk_vec X db e s d)(vid := None)" for d
      by (auto simp: disk_vec_def g fun_eq_iff)
    then have "disk_view X db' (e, s) = map_option (\<lambda>(d, m, vs). (d, m, vs(vid := None))) (disk_view X db (e, s))"
      by (auto simp: disk_view_def r split: option.splits)
    ultimately show ?thesis using upd f yes fnd by (auto simp: fun_eq_iff)
  qed
  then show "vec_db_ok X db'" "frame X {vecRegistryBucket e, vecDataBucket e s} db db'"
    "found \<longleftrightarrow> (\<exists>d m vs. disk_view X db (e, s) = Some (d, m, vs) \<and> vs vid \<noteq> None)" "\<not> found \<Longrightarrow> db' = db"
    "disk_view X db' = (disk_view X db)((e, s) := map_option (\<lambda>(d, m, vs). (d, m, vs(vid := None))) (disk_view X db (e, s)))"
    by blast+
qed

lemma removeScope_spec:
  assumes ok: "vec_db_ok X db" and run: "removeScope X e s db = Inr (found, db')" and e: "no_colon e" "e \<noteq> []"
  shows "vec_db_ok X db'" "frame X {vecRegistryBucket e, vecDataBucket e s} db db'"
    "found \<longleftrightarrow> disk_view X db (e, s) \<noteq> None" "disk_view X db' = (disk_view X db)((e, s) := None)"
proof -
  let ?N = "{vecRegistryBucket e, vecDataBucket e s}"
  define del where "del = (has_bucket X db (vecRegistryBucket e) \<and> bucket_get X db (vecRegistryBucket e) s \<noteq> None)"
  have d: "del \<longleftrightarrow> bucket_get X db (vecRegistryBucket e) s \<noteq> None" using get_has by (auto simp: del_def)
  from run obtain t where t: "(if del then liftB (bucket_delete X (vecRegistryBucket e) s db) else Inr db) = Inr t"
    and u: "(if has_bucket X t (vecDataBucket e s)
      then bindR (liftB (delete_bucket X (vecDataBucket e s) t)) (\<lambda>tx. Inr (del, tx)) else Inr (del, t)) = Inr (found, db')"
    by (auto simp: removeScope_def Let_def del_def result_simps split: if_splits)
  have gt: "bucket_get X t n k = (if n = vecRegistryBucket e \<and> k = s then None else bucket_get X db n k)" for n k
    using t d del_get by (auto simp: result_simps split: if_splits)
  have ft: "frame X ?N db t" using t frame_del [of _ _ _ _ ?N] by (auto simp: result_simps split: if_splits)
  have fu: "frame X ?N t db'" using u frame_delete_bucket [of _ _ _ ?N] by (auto simp: result_simps split: if_splits)
  have f: "frame X ?N db db'" by (rule frame_trans [OF ft fu])
  have gd: "bucket_get X db' (vecDataBucket e s) k = None" for k
    using u delete_get no_bucket_get by (auto simp: result_simps split: if_splits)
  have gr: "bucket_get X db' (vecRegistryBucket e) k = (if k = s then None else bucket_get X db (vecRegistryBucket e) k)" for k
  proof -
    have "bucket_get X db' (vecRegistryBucket e) k = bucket_get X t (vecRegistryBucket e) k"
      using u by (auto simp: delete_get vec_names result_simps split: if_splits)
    then show ?thesis by (simp add: gt)
  qed
  note upd = scope_update [OF ok e f]
  have "vec_db_ok X db'" by (rule upd(2)) (simp_all add: gr scope_disk_ok_def gd)
  moreover have "disk_view X db' = (disk_view X db)((e, s) := None)"
  proof
    fix k
    show "disk_view X db' k = ((disk_view X db)((e, s) := None)) k"
      using upd(1) [of k] by (cases "k = (e, s)") (auto simp: gr disk_view_def)
  qed
  moreover have "found = del" using u by (auto simp: result_simps split: if_splits)
  then have "found \<longleftrightarrow> disk_view X db (e, s) \<noteq> None" using d disk_view_None [OF ok] by simp
  ultimately show "vec_db_ok X db'" "frame X ?N db db'" "found \<longleftrightarrow> disk_view X db (e, s) \<noteq> None"
    "disk_view X db' = (disk_view X db)((e, s) := None)" using f by blast+
qed

end

section \<open>The operations\<close>

definition vstate_ok ::
  "('tx, 'v, 'bm) ext \<Rightarrow> 'g hnsw \<Rightarrow> ('g \<Rightarrow> bool) \<Rightarrow> ('g \<Rightarrow> bool) \<Rightarrow> 'tx \<Rightarrow> 'g vecState \<Rightarrow> bool" where
  "vstate_ok X H addable searchable db vs \<longleftrightarrow>
     vec_db_ok X db \<and>
     (vecOnce vs \<and> vecLoadErr vs = None \<longrightarrow> vindex_ok H addable searchable (vectors vs) \<and> mirrors X H db (vectors vs))"

lemma drop_empty_None:
  "drop_empty v = None \<longleftrightarrow> v = None \<or> (\<exists>d m vs. v = Some (d, m, vs) \<and> (\<forall>vid. vs vid = None))"
  by (auto simp: drop_empty_def split: option.splits if_splits)

lemma mirrorsD:
  assumes "mirrors X H db i"
  obtains "index_view H i k = disk_view X db k"
  | d m vs where "index_view H i k = None" "disk_view X db k = Some (d, m, vs)" "\<And>vid. vs vid = None"
proof -
  have "index_view H i k = disk_view X db k \<or> index_view H i k = None \<and> drop_empty (disk_view X db k) = None"
    using assms by (simp only: mirrors_def)
  then show thesis
  proof (elim disjE conjE)
    assume n: "index_view H i k = None" and d: "drop_empty (disk_view X db k) = None"
    from d show thesis
      unfolding drop_empty_None
    proof (elim disjE exE conjE)
      assume "disk_view X db k = None"
      with n that(1) show thesis by simp
    next
      fix d m vs
      assume "disk_view X db k = Some (d, m, vs)" "\<forall>vid. vs vid = None"
      with n that(2) show thesis by simp
    qed
  qed (rule that(1))
qed

context vector_store
begin

abbreviation vok :: "'tx \<Rightarrow> 'g vecState \<Rightarrow> bool" where
  "vok \<equiv> vstate_ok X H addable searchable"

lemma vectorIndex_ok:
  assumes "vok db vs" "vectorIndex X H db vs = (r, vs')"
  shows "vok db vs'" "r = Inr i \<Longrightarrow> ok i \<and> mirrors X H db i \<and> vs' = \<lparr>vecOnce = True, vectors = i, vecLoadErr = None\<rparr>"
proof -
  have re: "ok i \<and> mirrors X H db i" if "rebuildVectorIndex X H db = Inr i" for i
    using assms(1) rebuild_view [OF _ that] unfolding vstate_ok_def mirrors_def
    by (auto simp: drop_empty_def split: option.splits if_splits)
  show "vok db vs'"
    using assms re by (auto simp: vectorIndex_def vstate_ok_def Let_def split: if_splits option.splits sum.splits)
  show "ok i \<and> mirrors X H db i \<and> vs' = \<lparr>vecOnce = True, vectors = i, vecLoadErr = None\<rparr>" if "r = Inr i"
    using assms re that
    by (auto simp: vectorIndex_def vstate_ok_def Let_def split: if_splits option.splits sum.splits)
qed

lemma vok_loaded:
  "vec_db_ok X db \<Longrightarrow> ok i \<Longrightarrow> mirrors X H db i \<Longrightarrow> vok db \<lparr>vecOnce = True, vectors = i, vecLoadErr = None\<rparr>"
  by (simp add: vstate_ok_def)

text \<open>An insert that has been committed cannot fail in memory, and keeps the mirror.\<close>

lemma mirrors_insert:
  assumes i: "ok i" "mirrors X H db i" and ne: "e \<noteq> []" "s \<noteq> []" "vid \<noteq> []" "vec \<noteq> []"
    and fit: "fits vec (disk_view X db (e, s))"
    and m: "case disk_view X db (e, s) of None \<Rightarrow> m' = m | Some (d, m0, vs) \<Rightarrow> m' = m0"
    and d: "disk_view X db' = (disk_view X db)((e, s) \<mapsto> view_insert vid vec m (disk_view X db (e, s)))"
  shows "\<exists>i'. Insert H e s vid vec m' i = (Inr (), i') \<and> ok i' \<and> mirrors X H db' i'"
proof -
  have "fits vec (index_view H i (e, s)) \<and>
      view_insert vid vec m' (index_view H i (e, s)) = view_insert vid vec m (disk_view X db (e, s))"
  proof (rule mirrorsD [OF i(2), of "(e, s)"])
    assume "index_view H i (e, s) = disk_view X db (e, s)"
    with fit m show ?thesis by (auto simp: view_insert_def split: option.splits)
  next
    fix d m0 vs
    assume "index_view H i (e, s) = None" "disk_view X db (e, s) = Some (d, m0, vs)" "\<And>vid. vs vid = None"
    with fit m show ?thesis by (auto simp: view_insert_def fits_def fun_eq_iff)
  qed
  then obtain i' where "Insert H e s vid vec m' i = (Inr (), i')" "ok i'"
    "index_view H i' = (index_view H i)((e, s) \<mapsto> view_insert vid vec m (disk_view X db (e, s)))"
    using Insert_fits [OF i(1) ne, of m'] by auto
  moreover from this(3) i(2) have "mirrors X H db' i'" by (simp add: mirrors_def d)
  ultimately show ?thesis by blast
qed

theorem VectorInsert_ok:
  assumes ok: "vok db vs" and c: "no_colon e" and run: "VectorInsert X H ctx e s vid vec m (db, vs) = (r, db', vs')"
  shows "vok db' vs'" "frame X {vecRegistryBucket e, vecDataBucket e s} db db'" "r = Inl er \<Longrightarrow> db' = db"
    "r = Inr u \<Longrightarrow> disk_view X db' = (disk_view X db)((e, s) \<mapsto> view_insert vid vec m (disk_view X db (e, s)))"
    "r = Inr u \<Longrightarrow> fits vec (disk_view X db (e, s)) \<and> vecOnce vs' \<and> vecLoadErr vs' = None"
proof -
  have vdb: "vec_db_ok X db" using ok by (simp add: vstate_ok_def)
  have "vok db' vs' \<and> frame X {vecRegistryBucket e, vecDataBucket e s} db db' \<and> ((\<exists>er. r = Inl er) \<longrightarrow> db' = db) \<and>
    ((\<exists>u. r = Inr u) \<longrightarrow> disk_view X db' = (disk_view X db)((e, s) \<mapsto> view_insert vid vec m (disk_view X db (e, s))) \<and>
       fits vec (disk_view X db (e, s)) \<and> vecOnce vs' \<and> vecLoadErr vs' = None)"
  proof (cases "bindR (ctxErr ctx 0) (\<lambda>_. validateVecArgs e s vid)")
    case (Inl er)
    with run ok show ?thesis by (auto simp: VectorInsert_def)
  next
    case args: (Inr u)
    then have ne: "e \<noteq> []" "s \<noteq> []" "vid \<noteq> []" by (auto simp: result_simps validateVecArgs_def split: if_splits)
    show ?thesis
    proof (cases "vec = []")
      case True
      with run ok args show ?thesis by (auto simp: VectorInsert_def)
    next
      case vec: False
      obtain ri vs1 where vi: "vectorIndex X H db vs = (ri, vs1)" by fastforce
      note v1 = vectorIndex_ok [OF ok vi]
      show ?thesis
      proof (cases ri)
        case (Inl er)
        with run args vec vi v1(1) show ?thesis by (auto simp: VectorInsert_def)
      next
        case ri: (Inr i)
        note v2 = v1(2) [OF ri]
        obtain rp db1 where up: "db_update X (persistVector X e s vid vec m) db = (rp, db1)" by fastforce
        show ?thesis
        proof (cases rp)
          case (Inl er)
          then have "db1 = db" by (intro db_update_error [of X]) (use up in simp)
          with Inl run args vec vi ri up v1(1) show ?thesis by (auto simp: VectorInsert_def)
        next
          case rp: (Inr m')
          note p = persistVector_spec [OF vdb db_update_ok [OF up [unfolded rp]] c ne vec]
          obtain i' where i': "Insert H e s vid vec m' i = (Inr (), i')" "ok i'" "mirrors X H db1 i'"
            using mirrors_insert [OF _ _ ne vec p(3,4,5)] v2 by blast
          have res: "r = Inr ()" "db' = db1" "vs' = \<lparr>vecOnce = True, vectors = i', vecLoadErr = None\<rparr>"
            using run args vec vi ri up rp i'(1) v2 by (simp_all add: VectorInsert_def)
          with p(2,3,5) vok_loaded [OF p(1) i'(2,3)] show ?thesis by simp
        qed
      qed
    qed
  qed
  then show "vok db' vs'" "frame X {vecRegistryBucket e, vecDataBucket e s} db db'" "r = Inl er \<Longrightarrow> db' = db"
    "r = Inr u \<Longrightarrow> disk_view X db' = (disk_view X db)((e, s) \<mapsto> view_insert vid vec m (disk_view X db (e, s)))"
    "r = Inr u \<Longrightarrow> fits vec (disk_view X db (e, s)) \<and> vecOnce vs' \<and> vecLoadErr vs' = None"
    by blast+
qed

theorem VectorDelete_ok:
  assumes ok: "vok db vs" and c: "no_colon e" and run: "VectorDelete X H ctx e s vid (db, vs) = (r, db', vs')"
  shows "vok db' vs'" "frame X {vecRegistryBucket e, vecDataBucket e s} db db'" "r = Inl er \<Longrightarrow> db' = db"
    "r = Inr u \<Longrightarrow> \<exists>d m w. disk_view X db (e, s) = Some (d, m, w) \<and> w vid \<noteq> None \<and>
       disk_view X db' = (disk_view X db)((e, s) \<mapsto> (d, m, w(vid := None)))"
proof -
  have vdb: "vec_db_ok X db" using ok by (simp add: vstate_ok_def)
  have "vok db' vs' \<and> frame X {vecRegistryBucket e, vecDataBucket e s} db db' \<and> ((\<exists>er. r = Inl er) \<longrightarrow> db' = db) \<and>
    ((\<exists>u. r = Inr u) \<longrightarrow> (\<exists>d m w. disk_view X db (e, s) = Some (d, m, w) \<and> w vid \<noteq> None \<and>
       disk_view X db' = (disk_view X db)((e, s) \<mapsto> (d, m, w(vid := None)))))"
  proof (cases "bindR (ctxErr ctx 0) (\<lambda>_. validateVecArgs e s vid)")
    case (Inl er)
    with run ok show ?thesis by (auto simp: VectorDelete_def)
  next
    case args: (Inr u)
    then have ne: "e \<noteq> []" "s \<noteq> []" "vid \<noteq> []" by (auto simp: result_simps validateVecArgs_def split: if_splits)
    obtain ri vs1 where vi: "vectorIndex X H db vs = (ri, vs1)" by fastforce
    note v1 = vectorIndex_ok [OF ok vi]
    show ?thesis
    proof (cases ri)
      case (Inl er)
      with run args vi v1(1) show ?thesis by (auto simp: VectorDelete_def)
    next
      case ri: (Inr i)
      note v2 = v1(2) [OF ri]
      obtain rp db1 where up: "db_update X (removeVector X e s vid) db = (rp, db1)" by fastforce
      show ?thesis
      proof (cases rp)
        case (Inl er)
        then have "db1 = db" by (intro db_update_error [of X]) (use up in simp)
        with Inl run args vi ri up v1(1) show ?thesis by (auto simp: VectorDelete_def)
      next
        case rp: (Inr found)
        note p = removeVector_spec [OF vdb db_update_ok [OF up [unfolded rp]] c ne(1)]
        show ?thesis
        proof (cases found)
          case False
          with p(4) run args vi ri up rp v1(1) show ?thesis by (auto simp: VectorDelete_def)
        next
          case True
          with p(3) obtain d m w where w: "disk_view X db (e, s) = Some (d, m, w)" "w vid \<noteq> None" by blast
          have iv: "index_view H i (e, s) = disk_view X db (e, s)"
            by (rule mirrorsD [of X H db i "(e, s)"]) (use v2 w in auto)
          obtain i' where i': "snd (DeleteVec H e s vid i) = i'" "ok i'"
            "index_view H i' = (index_view H i)((e, s) \<mapsto> (d, m, w(vid := None)))"
            using DeleteVec_spec [OF _ ne, of i] v2 w(1) iv by fastforce
          have d1: "disk_view X db1 = (disk_view X db)((e, s) \<mapsto> (d, m, w(vid := None)))" using p(5) w(1) by simp
          have "mirrors X H db1 i'" using v2 by (simp add: mirrors_def d1 i'(3))
          moreover have "r = Inr ()" "db' = db1" "vs' = \<lparr>vecOnce = True, vectors = i', vecLoadErr = None\<rparr>"
            using run args vi ri up rp i'(1) v2 True by (simp_all add: VectorDelete_def)
          ultimately show ?thesis using p(2) vok_loaded [OF p(1) i'(2)] w d1 by simp
        qed
      qed
    qed
  qed
  then show "vok db' vs'" "frame X {vecRegistryBucket e, vecDataBucket e s} db db'" "r = Inl er \<Longrightarrow> db' = db"
    "r = Inr u \<Longrightarrow> \<exists>d m w. disk_view X db (e, s) = Some (d, m, w) \<and> w vid \<noteq> None \<and>
       disk_view X db' = (disk_view X db)((e, s) \<mapsto> (d, m, w(vid := None)))" by blast+
qed

theorem VectorDropScope_ok:
  assumes ok: "vok db vs" and c: "no_colon e" and run: "VectorDropScope X H ctx e s (db, vs) = (r, db', vs')"
  shows "vok db' vs'" "frame X {vecRegistryBucket e, vecDataBucket e s} db db'" "r = Inl er \<Longrightarrow> disk_view X db' = disk_view X db"
    "r = Inr u \<Longrightarrow> disk_view X db (e, s) \<noteq> None \<and> disk_view X db' = (disk_view X db)((e, s) := None)"
proof -
  have vdb: "vec_db_ok X db" using ok by (simp add: vstate_ok_def)
  have "vok db' vs' \<and> frame X {vecRegistryBucket e, vecDataBucket e s} db db' \<and>
    ((\<exists>er. r = Inl er) \<longrightarrow> disk_view X db' = disk_view X db) \<and>
    ((\<exists>u. r = Inr u) \<longrightarrow> disk_view X db (e, s) \<noteq> None \<and> disk_view X db' = (disk_view X db)((e, s) := None))"
  proof (cases "ctxErr ctx 0 = Inr () \<and> e \<noteq> [] \<and> s \<noteq> []")
    case False
    with run ok show ?thesis by (auto simp: VectorDropScope_def split: sum.splits if_splits)
  next
    case args: True
    obtain ri vs1 where vi: "vectorIndex X H db vs = (ri, vs1)" by fastforce
    note v1 = vectorIndex_ok [OF ok vi]
    show ?thesis
    proof (cases ri)
      case (Inl er)
      with run args vi v1(1) show ?thesis by (auto simp: VectorDropScope_def)
    next
      case ri: (Inr i)
      note v2 = v1(2) [OF ri]
      obtain rp db1 where up: "db_update X (removeScope X e s) db = (rp, db1)" by fastforce
      show ?thesis
      proof (cases rp)
        case (Inl er)
        then have "db1 = db" by (intro db_update_error [of X]) (use up in simp)
        with Inl run args vi ri up v1(1) show ?thesis by (auto simp: VectorDropScope_def)
      next
        case rp: (Inr found)
        have ne: "e \<noteq> []" "s \<noteq> []" using args by simp_all
        note p = removeScope_spec [OF vdb db_update_ok [OF up [unfolded rp]] c ne(1)]
        show ?thesis
        proof (cases found)
          case False
          then have d1: "disk_view X db1 = disk_view X db"
            using p(3) unfolding p(4) by (intro fun_upd_idem) blast
          then have "mirrors X H db1 i" using v2 by (simp add: mirrors_def)
          moreover have "r = Inl (Sentinel ErrNotFound)" "db' = db1" "vs' = vs1"
            using run args vi ri up rp False by (simp_all add: VectorDropScope_def)
          ultimately show ?thesis using p(2) vok_loaded [OF p(1)] v2 d1 by simp
        next
          case True
          obtain i' where i': "snd (DropScope e s i) = i'" "ok i'" "index_view H i' = (index_view H i)((e, s) := None)"
            using DropScope_spec [OF _ ne, of i] v2 by fastforce
          have "mirrors X H db1 i'" using v2 by (simp add: mirrors_def p(4) i'(3))
          moreover have "r = Inr ()" "db' = db1" "vs' = \<lparr>vecOnce = True, vectors = i', vecLoadErr = None\<rparr>"
            using run args vi ri up rp i'(1) v2 True by (simp_all add: VectorDropScope_def)
          ultimately show ?thesis using p(2,3,4) vok_loaded [OF p(1) i'(2)] True by simp
        qed
      qed
    qed
  qed
  then show "vok db' vs'" "frame X {vecRegistryBucket e, vecDataBucket e s} db db'"
    "r = Inl er \<Longrightarrow> disk_view X db' = disk_view X db"
    "r = Inr u \<Longrightarrow> disk_view X db (e, s) \<noteq> None \<and> disk_view X db' = (disk_view X db)((e, s) := None)" by blast+
qed

text \<open>The dimension of a scope is locked by its first vector.\<close>

lemma VectorInsert_mismatch:
  assumes ok: "vok db vs" and ne: "e \<noteq> []" "s \<noteq> []" "vid \<noteq> []" "vec \<noteq> []" and c: "ctx 0 = None"
    and ix: "vectorIndex X H db vs = (Inr i, vs')" and b: "begin_err X db = None"
    and d: "disk_view X db (e, s) = Some (d, m0, w)" "length vec \<noteq> d"
  shows "\<exists>er. VectorInsert X H ctx e s vid vec m (db, vs) = (Inl er, db, vs') \<and> errors_Is er ErrDimensionMismatch"
proof -
  have vdb: "vec_db_ok X db" using ok by (simp add: vstate_ok_def)
  obtain raw meta where r: "bucket_get X db (vecRegistryBucket e) s = Some raw" "dec_scope X raw = Some meta"
    "0 < MDim meta" "d = nat (MDim meta)"
    using vec_db_ok_view [OF vdb d(1)] by blast
  obtain t where t: "create_bucket X (vecRegistryBucket e) db = Inr t"
    using create_succeeds [of "vecRegistryBucket e" db] get_has [OF r(1)]
    by (auto simp: vecRegistryBucket_def vecRegistryBucketPrefix_def)
  have "MDim meta \<noteq> int (length vec)" using r(3,4) d(2) by auto
  then have "persistVector X e s vid vec m db = Inl (Wrapf '': scope expects dim'' (Sentinel ErrDimensionMismatch))"
    by (simp add: persistVector_def t create_get [OF t] r)
  with assms show ?thesis
    by (simp add: VectorInsert_def ctxErr_def validateVecArgs_def db_update_def)
qed

text \<open>A search that succeeds returns vectors that are stored, and enough of them.\<close>

theorem VectorSearch_ok:
  assumes ok: "vok db vs" and run: "VectorSearch X H ctx e s q k (db, vs) = (Inr out, vs')" and k: "0 < k"
  shows "\<exists>m w. disk_view X db (e, s) = Some (length q, m, w) \<and> distinct (map RID out) \<and> int (length out) \<le> k \<and>
    (\<forall>h \<in> set out. \<exists>v. w (RID h) = Some v \<and> Distance h = distanceFunc H m q v) \<and>
    ((\<forall>g n. length (graphSearch H g q n) = min n (graphLen H g)) \<longrightarrow> length out = min (nat k) (card (dom w)))"
proof -
  obtain i where i: "vectorIndex X H db vs = (Inr i, vs')" "Search H e s q k i = Inr out"
    using run by (auto simp: VectorSearch_def split: sum.splits prod.splits)
  have v: "ok i" "mirrors X H db i" using vectorIndex_ok(2) [OF ok i(1) refl] by simp_all
  obtain st where st: "q \<noteq> []" "map_of (scopes i) (e, s) = Some st" "dim st = length q"
    using i(2) k by (auto simp: Search_def split: if_splits option.splits)
  then have iv: "index_view H i (e, s) = Some (length q, metric st, live_vecs H st)"
    by (simp add: index_view_def scope_view_def)
  have dv: "disk_view X db (e, s) = Some (length q, metric st, live_vecs H st)"
    by (rule mirrorsD [OF v(2), of "(e, s)"]) (simp_all add: iv)
  have "length out = min (nat k) (card (dom (live_vecs H st)))"
    if "\<forall>g n. length (graphSearch H g q n) = min n (graphLen H g)"
    using Search_fills [OF v(1) st(1) k st(2,3)] that i(2) by auto
  with Search_spec [OF v(1) st(1) k iv] i(2) dv show ?thesis by auto
qed

text \<open>Reads load the index and leave the database alone.\<close>

lemma vector_reads_ok:
  assumes "vok db vs"
  shows "VectorSearch X H ctx e s q k (db, vs) = (r, vs') \<Longrightarrow> vok db vs'"
    "VectorListScopes X H ctx e (db, vs) = (r', vs') \<Longrightarrow> vok db vs'"
  using vectorIndex_ok(1) [OF assms] assms
  by (auto simp: VectorSearch_def VectorListScopes_def split: sum.splits prod.splits)

end

section \<open>Documents and vectors together\<close>

text \<open>The states that a store passes through: vector operations on entities without a colon,
  document writes, reads that load an index or store an aggregate, and restarts, which forget the
  index.\<close>

inductive vec_reachable :: "('tx, 'v, 'bm) ext \<Rightarrow> 'g hnsw \<Rightarrow> 'tx \<Rightarrow> 'g vecState \<Rightarrow> bool" for X H where
  vec_start: "(\<And>n. \<not> has_bucket X db n) \<Longrightarrow> vec_reachable X H db unloaded"
| vec_insert: "vec_reachable X H db vs \<Longrightarrow> no_colon e \<Longrightarrow>
    VectorInsert X H ctx e s vid vec m (db, vs) = (r, db', vs') \<Longrightarrow> vec_reachable X H db' vs'"
| vec_delete: "vec_reachable X H db vs \<Longrightarrow> no_colon e \<Longrightarrow>
    VectorDelete X H ctx e s vid (db, vs) = (r, db', vs') \<Longrightarrow> vec_reachable X H db' vs'"
| vec_drop: "vec_reachable X H db vs \<Longrightarrow> no_colon e \<Longrightarrow>
    VectorDropScope X H ctx e s (db, vs) = (r, db', vs') \<Longrightarrow> vec_reachable X H db' vs'"
| vec_search: "vec_reachable X H db vs \<Longrightarrow> VectorSearch X H ctx e s q k (db, vs) = (rs, vs') \<Longrightarrow> vec_reachable X H db vs'"
| vec_list: "vec_reachable X H db vs \<Longrightarrow> VectorListScopes X H ctx e (db, vs) = (rl, vs') \<Longrightarrow> vec_reachable X H db vs'"
| vec_restart: "vec_reachable X H db vs \<Longrightarrow> vec_reachable X H db unloaded"
| doc_write: "vec_reachable X H db vs \<Longrightarrow> write_ok w \<Longrightarrow> exec_write X w db = (r, db', evs) \<Longrightarrow> vec_reachable X H db' vs"
| doc_stats: "vec_reachable X H db vs \<Longrightarrow> validateEntityID e = Inr () \<Longrightarrow> statsRead X e a db = (rv, db') \<Longrightarrow>
    vec_reachable X H db' vs"

lemma vec_names_entity:
  "vecRegistryBucket e \<notin> entity_names f" "vecDataBucket e s \<notin> entity_names f"
  unfolding entity_names_def index_names_def bucket_name_defs docsBucket_def metaBucket_def vecRegistryBucket_def
    vecDataBucket_def vecRegistryBucketPrefix_def vecDataBucketPrefix_def by auto

context ext_laws
begin

text \<open>A transaction that leaves the vector buckets alone keeps the vectors, and the other way
  round.\<close>

lemma vec_frame:
  assumes "frame X N db db'" "\<And>e. vecRegistryBucket e \<notin> N" "\<And>e s. vecDataBucket e s \<notin> N"
  shows "disk_view X db' = disk_view X db" "vec_db_ok X db' = vec_db_ok X db"
proof -
  have g: "bucket_get X db' (vecRegistryBucket e) = bucket_get X db (vecRegistryBucket e)"
    "bucket_get X db' (vecDataBucket e s) = bucket_get X db (vecDataBucket e s)"
    "has_bucket X db' (vecRegistryBucket e) = has_bucket X db (vecRegistryBucket e)" for e s
    using assms(2,3) by (simp_all add: frame_get [OF assms(1)] frame_has [OF assms(1)])
  have "disk_vec X db' = disk_vec X db" by (simp add: disk_vec_def g fun_eq_iff)
  then show "disk_view X db' = disk_view X db"
    unfolding disk_view_def g by (simp only:)
  have "scope_disk_ok X db' e s = scope_disk_ok X db e s" for e s
    by (rule scope_disk_ok_cong) (simp_all add: g)
  then show "vec_db_ok X db' = vec_db_ok X db" by (simp add: vec_db_ok_iff g)
qed

lemma vec_frame_docs:
  assumes "frame X {vecRegistryBucket e, vecDataBucket e s} db db'" "all_ok X db"
  shows "all_ok X db'" "no_colon f \<Longrightarrow> stored X db' f = stored X db f"
proof -
  have d: "entity_names f \<inter> {vecRegistryBucket e, vecDataBucket e s} = {}" for f
    using vec_names_entity by auto
  show "all_ok X db'" using assms(2) frame_store_ok [OF assms(1) d] by (simp add: all_ok_def)
  show "stored X db' f = stored X db f" by (rule frame_store_views(1) [OF assms(1) d])
qed

end

context vector_store
begin

lemma vec_frame_vok:
  assumes "vok db vs" "frame X N db db'" "\<And>e. vecRegistryBucket e \<notin> N" "\<And>e s. vecDataBucket e s \<notin> N"
  shows "vok db' vs"
  using assms(1) vec_frame [OF assms(2,3,4)] by (simp add: vstate_ok_def mirrors_def)

lemma write_vok:
  assumes "vok db vs" "all_ok X db" "write_ok w" "exec_write X w db = (r, db', evs)"
  shows "vok db' vs"
proof (cases r)
  case (Inl er)
  with exec_write_failed [of w db er] assms show ?thesis by simp
next
  case (Inr u)
  then have run: "exec_write X w db = (Inr (), db', evs)" using assms(4) by simp
  have "store_ok X db (write_entity w)" using assms(2) exec_write_valid [OF run] by (simp add: all_ok_def)
  from exec_write_ok(3) [OF run this assms(3)] show ?thesis
    by (rule vec_frame_vok [OF assms(1)]) (simp_all add: vec_names_entity)
qed

lemma statsRead_vok:
  assumes "vok db vs" "all_ok X db" "no_colon e" "statsRead X e a db = (r, db')"
  shows "vok db' vs"
proof -
  have "index_ok X db e (doc_contents X db e)" using assms(2,3) by (simp add: all_ok_def store_ok_def)
  from statsRead_ok(2) [OF assms(4) this] show ?thesis
    by (rule vec_frame_vok [OF assms(1)])
      (simp_all add: vecRegistryBucket_def vecDataBucket_def vecRegistryBucketPrefix_def vecDataBucketPrefix_def statsBucketName_def)
qed

lemma vok_unloaded: "vec_db_ok X db \<Longrightarrow> vok db unloaded"
  by (simp add: vstate_ok_def unloaded_def)

theorem vec_reachable_ok: "vec_reachable X H db vs \<Longrightarrow> vok db vs \<and> all_ok X db"
proof (induction rule: vec_reachable.induct)
  case (vec_start db)
  have g: "bucket_get X db n k = None" for n k by (rule no_bucket_get) (rule vec_start)
  have "vec_db_ok X db" using vec_start by (simp add: vec_db_ok_def g)
  with vec_start show ?case by (simp add: vok_unloaded all_ok_empty)
next
  case (vec_insert db vs e ctx s vid vec m r db' vs')
  then have v: "vok db vs" "all_ok X db" by simp_all
  note step = VectorInsert_ok(1,2) [OF v(1) vec_insert.hyps(2,3)]
  show ?case using step(1) vec_frame_docs(1) [OF step(2) v(2)] ..
next
  case (vec_delete db vs e ctx s vid r db' vs')
  then have v: "vok db vs" "all_ok X db" by simp_all
  note step = VectorDelete_ok(1,2) [OF v(1) vec_delete.hyps(2,3)]
  show ?case using step(1) vec_frame_docs(1) [OF step(2) v(2)] ..
next
  case (vec_drop db vs e ctx s r db' vs')
  then have v: "vok db vs" "all_ok X db" by simp_all
  note step = VectorDropScope_ok(1,2) [OF v(1) vec_drop.hyps(2,3)]
  show ?case using step(1) vec_frame_docs(1) [OF step(2) v(2)] ..
next
  case (vec_search db vs ctx e s q k rs vs')
  then show ?case using vector_reads_ok(1) by blast
next
  case (vec_list db vs ctx e rl vs')
  then show ?case using vector_reads_ok(2) by blast
next
  case (vec_restart db vs)
  then show ?case by (simp add: vok_unloaded vstate_ok_def [of X H addable searchable db vs])
next
  case (doc_write db vs w r db' evs)
  then have "vok db' vs" using write_vok by blast
  moreover have "all_ok X db'"
  proof (cases r)
    case (Inl er)
    with doc_write exec_write_failed [of w db er] show ?thesis by auto
  next
    case (Inr u)
    with doc_write exec_write_all(1) [of w db db' evs] show ?thesis by simp
  qed
  ultimately show ?case ..
next
  case (doc_stats db vs e a rv db')
  then show ?case using statsRead_vok statsRead_all validateEntityID_ok by blast
qed

text \<open>Restarting the store changes no scope that has a vector.\<close>

theorem restart_same:
  assumes "vec_reachable X H db vs" "vecOnce vs" "vecLoadErr vs = None" "begin_err X db = None"
  shows "\<exists>i. rebuildVectorIndex X H db = Inr i \<and> ok i \<and>
    (\<forall>k. drop_empty (index_view H (vectors vs) k) = index_view H i k)"
proof -
  have v: "vok db vs" using vec_reachable_ok [OF assms(1)] by simp
  then have db: "vec_db_ok X db" and m: "mirrors X H db (vectors vs)" using assms(2,3) by (simp_all add: vstate_ok_def)
  from rebuild_succeeds [OF db assms(4)] obtain i where i: "rebuildVectorIndex X H db = Inr i" by blast
  have "drop_empty (index_view H (vectors vs) k) = index_view H i k" for k
    using m rebuild_view(2) [OF db i, of k] unfolding mirrors_def by (metis drop_empty_None)
  with i rebuild_view(1) [OF db i] show ?thesis by blast
qed

end

end
