(* ===== verification/Grpc.thy ===== *)
theory Grpc
  imports Query Sequence Cluster Vector
begin

text \<open>
  \<^verbatim>\<open>grpcserver/server.go\<close>, \<^verbatim>\<open>query.go\<close> and \<^verbatim>\<open>vector.go\<close>: the RPC methods, each of which calls the
  store, turns errors into status codes and repacks the result. The store is the one of
  \<^verbatim>\<open>bboltstore\<close>, the only one of the repository; a server over another store differs in the
  methods that ask for it, which is the flag \<open>bbolt\<close> of the server. Requests are the messages of
  \<^verbatim>\<open>proto/talondb.proto\<close>; a nil message reads as one with zero fields, which the generated getters do.
\<close>

section \<open>Errors\<close>

datatype codes = CInvalidArgument | CNotFound | CInternal | CUnimplemented | CResourceExhausted

text \<open>A status error keeps the error whose text it shows; errors of the stream itself are handed
  back as they are.\<close>

datatype rpc_err = Status codes err | Bare err

type_synonym 'a rpc = "rpc_err + 'a"

definition mapError :: "err \<Rightarrow> rpc_err" where
  "mapError er =
     (if errors_Is er ErrInvalidEntityID \<or> errors_Is er ErrInvalidValue then Status CInvalidArgument er
      else if errors_Is er ErrNotFound then Status CNotFound er
      else Status CInternal er)"

definition mapVectorError :: "err \<Rightarrow> rpc_err" where
  "mapVectorError er =
     (if errors_Is er ErrDimensionMismatch \<or> errors_Is er ErrEmptyVector then Status CInvalidArgument er
      else if errors_Is er ErrScopeNotFound \<or> errors_Is er ErrNotFound then Status CNotFound er
      else Status CInternal er)"

definition rpc_of :: "(err \<Rightarrow> rpc_err) \<Rightarrow> ('a \<Rightarrow> 'b) \<Rightarrow> 'a result \<Rightarrow> 'b rpc" where
  "rpc_of m f r = (case r of Inl e \<Rightarrow> Inl (m e) | Inr x \<Rightarrow> Inr (f x))"

record Server =
  bbolt :: bool
  version :: string

section \<open>Documents\<close>

record PutRequest =
  PutEntityId :: string
  PutDocId :: string
  PutDoc :: bytes

record GetRequest =
  GetEntityId :: string
  GetDocId :: string

record GetResponse =
  RespDoc :: gobytes
  RespFound :: bool

record BatchPutEntry =
  BDocId :: string
  BDoc :: bytes

record BatchPutRequest =
  BEntityId :: string
  BEntries :: "BatchPutEntry list"

definition Put_rpc ::
  "('tx, 'v, 'bm) ext \<Rightarrow> ctx \<Rightarrow> i64 \<Rightarrow> PutRequest \<Rightarrow> 'tx \<Rightarrow> unit rpc \<times> 'tx \<times> MutationEvent list" where
  "Put_rpc X ctx now req db =
     (case Put X ctx now (PutEntityId req) (PutDocId req) (PutDoc req) db of
        (r, db, evs) \<Rightarrow> (rpc_of mapError (\<lambda>_. ()) r, db, evs))"

definition Get_rpc :: "('tx, 'v, 'bm) ext \<Rightarrow> ctx \<Rightarrow> GetRequest \<Rightarrow> 'tx \<Rightarrow> GetResponse rpc" where
  "Get_rpc X ctx req db =
     (case Get X ctx (GetEntityId req) (GetDocId req) db of
        Inl e \<Rightarrow>
          if errors_Is e ErrNotFound then Inr \<lparr>RespDoc = None, RespFound = False\<rparr> else Inl (mapError e)
      | Inr doc \<Rightarrow> Inr \<lparr>RespDoc = doc, RespFound = True\<rparr>)"

definition Delete_rpc ::
  "('tx, 'v, 'bm) ext \<Rightarrow> ctx \<Rightarrow> i64 \<Rightarrow> GetRequest \<Rightarrow> 'tx \<Rightarrow> unit rpc \<times> 'tx \<times> MutationEvent list" where
  "Delete_rpc X ctx now req db =
     (case Delete X ctx now (GetEntityId req) (GetDocId req) db of
        (r, db, evs) \<Rightarrow> (rpc_of mapError (\<lambda>_. ()) r, db, evs))"

text \<open>The entries become a map, in which a later entry replaces an earlier one of the same id; the
  store visits it in an order of its own.\<close>

definition batchDocs :: "BatchPutEntry list \<Rightarrow> (string \<times> bytes) list" where
  "batchDocs es = foldl (\<lambda>docs e. AList.update (BDocId e) (BDoc e) docs) [] es"

definition BatchPut_rpc ::
  "('tx, 'v, 'bm) ext \<Rightarrow> ctx \<Rightarrow> (nat \<Rightarrow> i64) \<Rightarrow> BatchPutRequest \<Rightarrow> 'tx \<Rightarrow>
     unit rpc \<times> 'tx \<times> MutationEvent list" where
  "BatchPut_rpc X ctx now req db =
     (case BatchPut X ctx now (BEntityId req) (ranged X (batchDocs (BEntries req))) db of
        (r, db, evs) \<Rightarrow> (rpc_of mapError (\<lambda>_. ()) r, db, evs))"

section \<open>Queries\<close>

definition collectDocIDs :: "DocIDSet option \<Rightarrow> string list" where
  "collectDocIDs s = (case s of None \<Rightarrow> [] | Some s \<Rightarrow> ForEach s (\<lambda>d out. (True, out @ [d])) [])"

definition docIDListFromSet :: "DocIDSet \<Rightarrow> string list" where
  "docIDListFromSet s = collectDocIDs (Some s)"

text \<open>A query that resolves a bitmap reads the database twice.\<close>

definition Lookup_rpc :: "('tx, 'v, 'bm) ext \<Rightarrow> ctx \<Rightarrow> string \<Rightarrow> string \<Rightarrow> 'tx \<Rightarrow> 'tx \<Rightarrow> (string list) rpc" where
  "Lookup_rpc X ctx entityId term db db2 =
     rpc_of mapError docIDListFromSet (Lookup X ctx entityId term db db2)"

definition LookupPrefix_rpc ::
  "('tx, 'v, 'bm) ext \<Rightarrow> ctx \<Rightarrow> string \<Rightarrow> string \<Rightarrow> 'tx \<Rightarrow> 'tx \<Rightarrow> (string list) rpc" where
  "LookupPrefix_rpc X ctx entityId pfx db db2 =
     rpc_of mapError docIDListFromSet (LookupPrefix X ctx entityId pfx db db2)"

record NumericRangeRequest =
  NEntityId :: string
  NAttr :: string
  NMin :: f64
  NMax :: f64
  NMinExclusive :: bool
  NMaxExclusive :: bool

definition LookupNumericRange_rpc ::
  "('tx, 'v, 'bm) ext \<Rightarrow> ctx \<Rightarrow> NumericRangeRequest \<Rightarrow> 'tx \<Rightarrow> 'tx \<Rightarrow> (string list) rpc" where
  "LookupNumericRange_rpc X ctx req db db2 =
     (if f64_isNaN (NMin req) \<or> f64_isNaN (NMax req) \<or> f64_isInf (NMin req) \<or> f64_isInf (NMax req)
      then Inl (Status CInvalidArgument (NewErr ''talondb: NaN/Inf bound rejected''))
      else rpc_of mapError docIDListFromSet
        (LookupNumericRange X ctx (NEntityId req) (NAttr req) (NMin req) (NMax req)
           \<lparr>MinExclusive = NMinExclusive req, MaxExclusive = NMaxExclusive req\<rparr> db db2))"

record PbTemporalEvent =
  PbDocId :: string
  PbType :: string
  PbAtUnixNanos :: i64

definition pbEvent :: "TemporalEvent \<Rightarrow> PbTemporalEvent" where
  "pbEvent e = \<lparr>PbDocId = TDocID e, PbType = TType e, PbAtUnixNanos = TAt e\<rparr>"

definition WindowQuery_rpc ::
  "('tx, 'v, 'bm) ext \<Rightarrow> ctx \<Rightarrow> string \<Rightarrow> string \<Rightarrow> string list \<Rightarrow> i64 \<Rightarrow> 'tx \<Rightarrow> (PbTemporalEvent list) rpc" where
  "WindowQuery_rpc X ctx entityId itemId types windowNanos db =
     rpc_of mapError (map pbEvent) (WindowQuery X ctx entityId itemId types windowNanos db)"

record PbSequenceMatch =
  PbItemId :: string
  PbMatchEvents :: "PbTemporalEvent list"

definition SequenceJoin_rpc ::
  "('tx, 'v, 'bm) ext \<Rightarrow> ctx \<Rightarrow> string \<Rightarrow> string list \<Rightarrow> string list \<Rightarrow> i64 \<Rightarrow> 'tx \<Rightarrow> (PbSequenceMatch list) rpc" where
  "SequenceJoin_rpc X ctx entityId itemIds steps windowNanos db =
     rpc_of mapError (map (\<lambda>m. \<lparr>PbItemId = ItemID m, PbMatchEvents = map pbEvent (Events m)\<rparr>))
       (SequenceJoin X ctx entityId itemIds steps windowNanos db)"

record PbTemporalCluster =
  PbFirstUnixNanos :: i64
  PbLastUnixNanos :: i64
  PbClusterEvents :: "PbTemporalEvent list"

definition ClusterQuery_rpc ::
  "('tx, 'v, 'bm) ext \<Rightarrow> ctx \<Rightarrow> string \<Rightarrow> string \<Rightarrow> string list \<Rightarrow> i64 \<Rightarrow> 32 word \<Rightarrow> 'tx \<Rightarrow> (PbTemporalCluster list) rpc" where
  "ClusterQuery_rpc X ctx entityId itemId types windowNanos minSize db =
     rpc_of mapError (map (\<lambda>c. \<lparr>PbFirstUnixNanos = CFirst c, PbLastUnixNanos = CLast c,
         PbClusterEvents = map pbEvent (CEvents c)\<rparr>))
       (ClusterQuery X ctx entityId itemId types windowNanos (sint minSize) db)"

text \<open>\<^verbatim>\<open>UnixNano\<close> of a time: the zero time is the first of January of year 1, whose nanoseconds do not fit
  into 64 bits, so the product wraps.\<close>

definition UnixNano :: "i64 option \<Rightarrow> i64" where
  "UnixNano t = (case t of None \<Rightarrow> word_of_int (- 62135596800 * 10 ^ 9) | Some n \<Rightarrow> n)"

record GroupResponse =
  GRCount :: i64
  GRFirstUnixNanos :: i64
  GRLastUnixNanos :: i64
  GRDocIds :: "string list"

definition GroupCount_rpc ::
  "('tx, 'v, 'bm) ext \<Rightarrow> ctx \<Rightarrow> string \<Rightarrow> string \<Rightarrow> string \<Rightarrow> string \<Rightarrow> 'tx \<Rightarrow> 'tx \<Rightarrow> GroupResponse rpc" where
  "GroupCount_rpc X ctx entityId itemId attr vl db db2 =
     rpc_of mapError (\<lambda>g. \<lparr>GRCount = Count g, GRFirstUnixNanos = UnixNano (First g),
         GRLastUnixNanos = UnixNano (Last g), GRDocIds = collectDocIDs (DocIDs g)\<rparr>)
       (GroupCount X ctx entityId itemId attr vl db db2)"

definition Stats_rpc ::
  "('tx, 'v, 'bm) ext \<Rightarrow> ctx \<Rightarrow> string \<Rightarrow> string \<Rightarrow> 'tx \<Rightarrow> RunningStats rpc \<times> 'tx" where
  "Stats_rpc X ctx entityId attr db =
     (case StatsFor X ctx entityId attr db of
        (r, db) \<Rightarrow> (rpc_of mapError (\<lambda>st. \<lparr>RCount = RCount st, RMean = RMean st, RM2 = RM2 st,
          RMin = RMin st, RMax = RMax st\<rparr>) r, db))"

record LastSeenResponse =
  LSFound :: bool
  LSAtUnixNanos :: i64

definition LastSeen_rpc ::
  "('tx, 'v, 'bm) ext \<Rightarrow> ctx \<Rightarrow> string \<Rightarrow> string \<Rightarrow> string \<Rightarrow> 'tx \<Rightarrow> LastSeenResponse rpc" where
  "LastSeen_rpc X ctx entityId itemId recordType db =
     rpc_of mapError (\<lambda>t. case t of
         None \<Rightarrow> \<lparr>LSFound = False, LSAtUnixNanos = 0\<rparr>
       | Some n \<Rightarrow> \<lparr>LSFound = True, LSAtUnixNanos = n\<rparr>)
       (LastSeen X ctx entityId itemId recordType db)"

definition Ancestors_rpc :: "('tx, 'v, 'bm) ext \<Rightarrow> ctx \<Rightarrow> string \<Rightarrow> string \<Rightarrow> 'tx \<Rightarrow> (string list) rpc" where
  "Ancestors_rpc X ctx entityId categoryId db =
     rpc_of mapError (\<lambda>chain. chain) (Ancestors X ctx entityId categoryId db)"

definition Descendants_rpc ::
  "('tx, 'v, 'bm) ext \<Rightarrow> ctx \<Rightarrow> string \<Rightarrow> string \<Rightarrow> 'tx \<Rightarrow> 'tx \<Rightarrow> (string list) rpc" where
  "Descendants_rpc X ctx entityId rootId db db2 =
     rpc_of mapError docIDListFromSet (Descendants X ctx entityId rootId db db2)"

record HealthResponse =
  HStatus :: string
  HVersion :: string

definition Health_rpc :: "Server \<Rightarrow> HealthResponse rpc" where
  "Health_rpc s = Inr \<lparr>HStatus = ''ok'', HVersion = version s\<rparr>"

section \<open>The event stream\<close>

datatype MutationEventKind = MUTATION_EVENT_KIND_UNSPECIFIED | MUTATION_EVENT_KIND_ASSERT
  | MUTATION_EVENT_KIND_CHANGE | MUTATION_EVENT_KIND_RETRACT

definition mutationKindToProto :: "EventKind \<Rightarrow> MutationEventKind" where
  "mutationKindToProto k =
     (case k of
        EventAssert \<Rightarrow> MUTATION_EVENT_KIND_ASSERT
      | EventChange \<Rightarrow> MUTATION_EVENT_KIND_CHANGE
      | EventRetract \<Rightarrow> MUTATION_EVENT_KIND_RETRACT)"

record PbMutationEvent =
  PbKind :: MutationEventKind
  PbEntityId :: string
  PbMutDocId :: string
  PbOldDoc :: gobytes
  PbNewDoc :: gobytes
  PbMutAt :: i64

definition pbMutation :: "MutationEvent \<Rightarrow> PbMutationEvent" where
  "pbMutation ev =
     \<lparr>PbKind = mutationKindToProto (Kind ev), PbEntityId = EntityID ev, PbMutDocId = DocID ev,
      PbOldDoc = OldDoc ev, PbNewDoc = NewDoc ev, PbMutAt = AtUnixNanos ev\<rparr>"

definition subscribeQueueDepth :: nat where
  "subscribeQueueDepth = 1024"

record SubscribeRequest =
  SubEntityId :: string
  SubDocIdPrefix :: string

text \<open>A running stream: the buffered channel, the messages sent so far, the error the method has
  returned with, and whether its callback is still registered with the emitter. The callback runs inside
  the emitter of the writer, the loop in a goroutine of its own; the channel makes each access
  atomic, so an execution is a sequence of their steps. A call that an emission in progress makes
  from the slice it copied before the subscription ended counts as one before the end. No code closes
  the channel, so receiving from it never reports that it is closed.\<close>

record stream =
  chan :: "MutationEvent list"
  sent :: "PbMutationEvent list"
  returned :: "rpc_err option"
  subscribed :: bool

definition stream_start :: stream where
  "stream_start = \<lparr>chan = [], sent = [], returned = None, subscribed = True\<rparr>"

definition passes :: "SubscribeRequest \<Rightarrow> MutationEvent \<Rightarrow> bool" where
  "passes req ev \<longleftrightarrow>
     \<not> (SubEntityId req \<noteq> [] \<and> EntityID ev \<noteq> SubEntityId req) \<and>
     \<not> (SubDocIdPrefix req \<noteq> [] \<and> \<not> prefix (SubDocIdPrefix req) (DocID ev))"

definition onEvent :: "SubscribeRequest \<Rightarrow> MutationEvent \<Rightarrow> stream \<Rightarrow> stream" where
  "onEvent req ev st =
     (if \<not> passes req ev then st
      else if length (chan st) < subscribeQueueDepth then st\<lparr>chan := chan st @ [ev]\<rparr>
      else st)"

text \<open>One turn of the loop: the context is done, or an event is taken from the channel and sent.\<close>

definition loopDone :: "err \<Rightarrow> stream \<Rightarrow> stream" where
  "loopDone e st = (if returned st = None then st\<lparr>returned := Some (Bare e)\<rparr> else st)"

definition loopReceive :: "(PbMutationEvent \<Rightarrow> err option) \<Rightarrow> stream \<Rightarrow> stream" where
  "loopReceive send st =
     (if returned st \<noteq> None then st
      else case chan st of
        [] \<Rightarrow> st
      | ev # rest \<Rightarrow>
          (case send (pbMutation ev) of
             Some e \<Rightarrow> st\<lparr>chan := rest, returned := Some (Bare e)\<rparr>
           | None \<Rightarrow> st\<lparr>chan := rest, sent := sent st @ [pbMutation ev]\<rparr>))"

text \<open>\<^verbatim>\<open>defer unsubscribe()\<close>: it runs when the method has returned.\<close>

definition deferredUnsubscribe :: "stream \<Rightarrow> stream" where
  "deferredUnsubscribe st = (if returned st = None then st else st\<lparr>subscribed := False\<rparr>)"

datatype stream_step = SEmit MutationEvent | SReceive | SDone err | SUnsubscribe

fun stream_exec :: "SubscribeRequest \<Rightarrow> (PbMutationEvent \<Rightarrow> err option) \<Rightarrow> stream_step \<Rightarrow> stream \<Rightarrow> stream" where
  "stream_exec req send (SEmit ev) st = (if subscribed st then onEvent req ev st else st)"
| "stream_exec req send SReceive st = loopReceive send st"
| "stream_exec req send (SDone e) st = loopDone e st"
| "stream_exec req send SUnsubscribe st = deferredUnsubscribe st"

definition Subscribe_rpc ::
  "bool \<Rightarrow> SubscribeRequest \<Rightarrow> (PbMutationEvent \<Rightarrow> err option) \<Rightarrow> stream_step list \<Rightarrow> stream" where
  "Subscribe_rpc hasEmitter req send steps =
     (if \<not> hasEmitter
      then stream_start\<lparr>returned := Some (Status CUnimplemented
        (NewErr ''talondb: server constructed without an EventEmitter'')), subscribed := False\<rparr>
      else fold (stream_exec req send) steps stream_start)"

section \<open>Structured queries\<close>

datatype PbValue =
    NullValue
  | NumberValue f64
  | StringValue string
  | BoolValue bool
  | StructValue "(string \<times> PbValue) list"
  | ListValue "PbValue list"
  | NoKind

record PbTerm =
  PbVar :: string
  PbLiteral :: "PbValue option"

datatype PbClause =
    Clause_Pattern (pp_entity: "PbTerm option") (pp_attribute: string) (pp_value: "PbTerm option")
  | Clause_Predicate (pr_op: string) (pr_left: "PbTerm option") (pr_right: "PbTerm option")
  | Clause_Or "PbClause option list list"
  | Clause_Not "PbClause option list"
  | Clause_Fulltext (pf_entity: "PbTerm option") (pf_query: string) (pf_attribute: string)
  | Clause_None

record PbAggregate =
  PbFn :: string
  PbOver :: "PbTerm option"
  PbAs :: string

text \<open>The entries of a struct in the order in which \<^verbatim>\<open>range\<close> visits them.\<close>

fun decodeQueryValue :: "PbValue \<Rightarrow> any" where
  "decodeQueryValue NullValue = ANil"
| "decodeQueryValue (StringValue s) = AStr s"
| "decodeQueryValue (NumberValue x) = AFloat x"
| "decodeQueryValue (BoolValue b) = ABool b"
| "decodeQueryValue (ListValue vs) = AArr (map decodeQueryValue vs)"
| "decodeQueryValue (StructValue fs) = AObj (map (\<lambda>(k, v). (k, decodeQueryValue v)) fs)"
| "decodeQueryValue NoKind = ANil"

definition decodeTerm :: "PbTerm option \<Rightarrow> QueryTerm" where
  "decodeTerm t =
     (case t of
        None \<Rightarrow> \<lparr>Var = [], Literal = ANil\<rparr>
      | Some t \<Rightarrow> \<lparr>Var = PbVar t, Literal = (case PbLiteral t of None \<Rightarrow> ANil | Some v \<Rightarrow> decodeQueryValue v)\<rparr>)"

function decodeQueryClauses :: "PbClause option list \<Rightarrow> (QueryClause list) result"
  and decodeQueryClause :: "PbClause option \<Rightarrow> QueryClause result"
  and decodeBranches :: "PbClause option list list \<Rightarrow> (QueryClause list list) result"
where
  "decodeQueryClauses [] = Inr []"
| "decodeQueryClauses (c # cs) =
     bindR (decodeQueryClause c) (\<lambda>decoded. bindR (decodeQueryClauses cs) (\<lambda>out. Inr (decoded # out)))"
| "decodeQueryClause c =
     (case c of
        None \<Rightarrow> Inl (NewErr ''nil clause'')
      | Some x \<Rightarrow>
          (case x of
             Clause_Pattern e a v \<Rightarrow>
               Inr (QueryClause (Some \<lparr>PEntity = decodeTerm e, PAttribute = a, PValue = decodeTerm v\<rparr>) None None None None)
           | Clause_Predicate op l r \<Rightarrow>
               Inr (QueryClause None (Some \<lparr>Op = op, Left = decodeTerm l, Right = decodeTerm r\<rparr>) None None None)
           | Clause_Or bs \<Rightarrow> bindR (decodeBranches bs) (\<lambda>branches. Inr (QueryClause None None (Some branches) None None))
           | Clause_Not cs \<Rightarrow> bindR (decodeQueryClauses cs) (\<lambda>body. Inr (QueryClause None None None (Some body) None))
           | Clause_Fulltext e q a \<Rightarrow>
               Inr (QueryClause None None None None (Some \<lparr>FEntity = decodeTerm e, FQuery = q, FAttribute = a\<rparr>))
           | Clause_None \<Rightarrow> Inl (NewErr ''unknown clause variant'')))"
| "decodeBranches [] = Inr []"
| "decodeBranches (b # bs) =
     bindR (decodeQueryClauses b) (\<lambda>decoded. bindR (decodeBranches bs) (\<lambda>out. Inr (decoded # out)))"
  by pat_completeness auto

termination
  by (relation "measure (\<lambda>s. case s of
      Inl cs \<Rightarrow> size_list (size_option size) cs
    | Inr (Inl c) \<Rightarrow> size_option size c
    | Inr (Inr bs) \<Rightarrow> size_list (size_list (size_option size)) bs)") auto

definition decodeAggregates :: "PbAggregate list \<Rightarrow> (QueryAggregate list) result" where
  "decodeAggregates aggs =
     foldR (\<lambda>a out.
       if PbFn a \<in> {''count'', ''sum'', ''total'', ''avg'', ''min'', ''max''}
       then Inr (out @ [\<lparr>Fn = PbFn a, Over = decodeTerm (PbOver a), As = PbAs a\<rparr>])
       else Inl (NewErr ''unknown aggregate function'')) aggs []"

text \<open>\<^verbatim>\<open>structpb.NewValue\<close>, the fallback for slices and maps, is code of the protobuf library.\<close>

definition encodeQueryValue :: "('tx, 'v, 'bm) ext \<Rightarrow> (any \<Rightarrow> PbValue result) \<Rightarrow> any \<Rightarrow> PbValue result" where
  "encodeQueryValue X newValue v =
     (case v of
        ANil \<Rightarrow> Inr NullValue
      | ABool x \<Rightarrow> Inr (BoolValue x)
      | AStr x \<Rightarrow> Inr (StringValue x)
      | AFloat x \<Rightarrow> Inr (NumberValue x)
      | AFloat32 x \<Rightarrow> Inr (NumberValue (float_of_f32 X x))
      | AInt x \<Rightarrow> Inr (NumberValue (f64_of_int (sint x)))
      | AInt32 x \<Rightarrow> Inr (NumberValue (f64_of_int (sint x)))
      | AInt64 x \<Rightarrow> Inr (NumberValue (f64_of_int (sint x)))
      | _ \<Rightarrow> newValue v)"

definition encodeRow ::
  "('tx, 'v, 'bm) ext \<Rightarrow> (any \<Rightarrow> PbValue result) \<Rightarrow> QueryRow \<Rightarrow> (PbValue list) rpc" where
  "encodeRow X newValue row =
     foldR (\<lambda>v values.
       case encodeQueryValue X newValue v of
         Inl e \<Rightarrow> Inl (Status CInternal (Wrapf ''encode result value'' e))
       | Inr pv \<Rightarrow> Inr (values @ [pv])) row []"

record PbQueryRequest =
  PbQEntityId :: string
  PbFind :: "string list"
  PbWhere :: "PbClause option list"
  PbAggregates :: "PbAggregate list"
  PbGroupBy :: "string list"

text \<open>The outer option is the panic of an evaluation.\<close>

definition Query_rpc ::
  "Server \<Rightarrow> ('tx, 'v, 'bm) ext \<Rightarrow> (any \<Rightarrow> PbValue result) \<Rightarrow> ctx \<Rightarrow> PbQueryRequest \<Rightarrow> 'tx \<Rightarrow>
     (PbValue list list) rpc option" where
  "Query_rpc s X newValue ctx req db =
     (if \<not> bbolt s
      then Some (Inl (Status CUnimplemented (NewErr ''talondb: structured Query requires a bboltstore backend'')))
      else case decodeQueryClauses (PbWhere req) of
        Inl e \<Rightarrow> Some (Inl (Status CInvalidArgument e))
      | Inr clauses \<Rightarrow>
          (case decodeAggregates (PbAggregates req) of
             Inl e \<Rightarrow> Some (Inl (Status CInvalidArgument e))
           | Inr aggs \<Rightarrow>
               (case Query X ctx \<lparr>QEntityID = PbQEntityId req, Find = PbFind req, Where = clauses,
                       Aggregates = aggs, GroupBy = PbGroupBy req\<rparr> db of
                  None \<Rightarrow> None
                | Some (Inl e) \<Rightarrow> Some (Inl (mapError e))
                | Some (Inr rows) \<Rightarrow>
                    Some (foldR (\<lambda>row out. bindR (encodeRow X newValue row) (\<lambda>values. Inr (out @ [values]))) rows []))))"

section \<open>Vectors\<close>

datatype VectorMetric = VECTOR_METRIC_UNSPECIFIED | VECTOR_METRIC_COSINE | VECTOR_METRIC_EUCLIDEAN

definition metricFromProto :: "VectorMetric \<Rightarrow> Metric" where
  "metricFromProto m = (case m of VECTOR_METRIC_EUCLIDEAN \<Rightarrow> Euclidean | _ \<Rightarrow> Cosine)"

definition metricToProto :: "Metric \<Rightarrow> VectorMetric" where
  "metricToProto m = (if m = Euclidean then VECTOR_METRIC_EUCLIDEAN else VECTOR_METRIC_COSINE)"

definition vectorBackend :: "Server \<Rightarrow> unit rpc" where
  "vectorBackend s =
     (if bbolt s then Inr ()
      else Inl (Status CUnimplemented (NewErr ''vector RPCs require a vector-aware store'')))"

record VectorInsertRequest =
  VIEntityId :: string
  VIScope :: string
  VIId :: string
  VIVector :: "f32 list"
  VIMetric :: VectorMetric

definition VectorInsert_rpc ::
  "Server \<Rightarrow> ('tx, 'v, 'bm) ext \<Rightarrow> 'g hnsw \<Rightarrow> ctx \<Rightarrow> VectorInsertRequest \<Rightarrow> 'tx \<times> 'g vecState \<Rightarrow>
     unit rpc \<times> 'tx \<times> 'g vecState" where
  "VectorInsert_rpc s X H ctx req st =
     (case vectorBackend s of
        Inl e \<Rightarrow> (Inl e, st)
      | Inr _ \<Rightarrow>
          (case VectorInsert X H ctx (VIEntityId req) (VIScope req) (VIId req) (VIVector req)
                  (metricFromProto (VIMetric req)) st of
             (r, st) \<Rightarrow> (rpc_of mapVectorError (\<lambda>_. ()) r, st)))"

record VectorHit =
  HitId :: string
  HitDistance :: f32

definition VectorSearch_rpc ::
  "Server \<Rightarrow> ('tx, 'v, 'bm) ext \<Rightarrow> 'g hnsw \<Rightarrow> ctx \<Rightarrow> string \<Rightarrow> string \<Rightarrow> f32 list \<Rightarrow> 32 word \<Rightarrow> 'tx \<times> 'g vecState \<Rightarrow>
     (VectorHit list) rpc \<times> 'g vecState" where
  "VectorSearch_rpc s X H ctx entityId scope vec k st =
     (case vectorBackend s of
        Inl e \<Rightarrow> (Inl e, snd st)
      | Inr _ \<Rightarrow>
          (case VectorSearch X H ctx entityId scope vec (sint k) st of
             (r, vs) \<Rightarrow> (rpc_of mapVectorError (map (\<lambda>h. \<lparr>HitId = RID h, HitDistance = Distance h\<rparr>)) r, vs)))"

definition VectorDelete_rpc ::
  "Server \<Rightarrow> ('tx, 'v, 'bm) ext \<Rightarrow> 'g hnsw \<Rightarrow> ctx \<Rightarrow> string \<Rightarrow> string \<Rightarrow> string \<Rightarrow> 'tx \<times> 'g vecState \<Rightarrow>
     unit rpc \<times> 'tx \<times> 'g vecState" where
  "VectorDelete_rpc s X H ctx entityId scope vid st =
     (case vectorBackend s of
        Inl e \<Rightarrow> (Inl e, st)
      | Inr _ \<Rightarrow>
          (case VectorDelete X H ctx entityId scope vid st of
             (r, st) \<Rightarrow> (rpc_of mapVectorError (\<lambda>_. ()) r, st)))"

definition VectorDropScope_rpc ::
  "Server \<Rightarrow> ('tx, 'v, 'bm) ext \<Rightarrow> 'g hnsw \<Rightarrow> ctx \<Rightarrow> string \<Rightarrow> string \<Rightarrow> 'tx \<times> 'g vecState \<Rightarrow>
     unit rpc \<times> 'tx \<times> 'g vecState" where
  "VectorDropScope_rpc s X H ctx entityId scope st =
     (case vectorBackend s of
        Inl e \<Rightarrow> (Inl e, st)
      | Inr _ \<Rightarrow>
          (case VectorDropScope X H ctx entityId scope st of
             (r, st) \<Rightarrow> (rpc_of mapVectorError (\<lambda>_. ()) r, st)))"

text \<open>The dimension and the count are cut to 32 bits.\<close>

record VectorScope =
  VSScope :: string
  VSDim :: "32 word"
  VSCount :: "32 word"
  VSMetric :: VectorMetric

definition VectorListScopes_rpc ::
  "Server \<Rightarrow> ('tx, 'v, 'bm) ext \<Rightarrow> 'g hnsw \<Rightarrow> ctx \<Rightarrow> string \<Rightarrow> 'tx \<times> 'g vecState \<Rightarrow>
     (VectorScope list) rpc \<times> 'g vecState" where
  "VectorListScopes_rpc s X H ctx entityId st =
     (case vectorBackend s of
        Inl e \<Rightarrow> (Inl e, snd st)
      | Inr _ \<Rightarrow>
          (case VectorListScopes X H ctx entityId st of
             (r, vs) \<Rightarrow>
               (rpc_of mapVectorError (map (\<lambda>i. \<lparr>VSScope = Scope i, VSDim = word_of_nat (SDim i),
                  VSCount = word_of_int (SCnt i), VSMetric = metricToProto (SMetric i)\<rparr>)) r, vs)))"

section \<open>Correctness\<close>

lemma map_of_batchDocs:
  "map_of (batchDocs es) = map_of (rev (map (\<lambda>e. (BDocId e, BDoc e)) es))"
proof (induction es rule: rev_induct)
  case (snoc e es)
  then show ?case by (simp add: batchDocs_def update_conv')
qed (simp add: batchDocs_def)

lemma distinct_batchDocs: "distinct (map fst (batchDocs es))"
proof (induction es rule: rev_induct)
  case (snoc e es)
  then show ?case by (simp add: batchDocs_def distinct_update)
qed (simp add: batchDocs_def)

text \<open>The stream: what has been sent and what waits in the channel are the matching events in the
  order of their emission; none is missing as long as each finds room in the channel.\<close>

primrec emitted :: "stream_step list \<Rightarrow> MutationEvent list" where
  "emitted [] = []"
| "emitted (s # steps) = (case s of SEmit ev \<Rightarrow> ev # emitted steps | _ \<Rightarrow> emitted steps)"

lemma emitted_append [simp]: "emitted (xs @ ys) = emitted xs @ emitted ys"
  by (induction xs) (auto split: stream_step.splits)

definition wanted :: "SubscribeRequest \<Rightarrow> stream_step list \<Rightarrow> PbMutationEvent list" where
  "wanted req steps = map pbMutation (filter (passes req) (emitted steps))"

lemma stream_order:
  fixes req send steps
  defines "st \<equiv> fold (stream_exec req send) steps stream_start"
  shows "subseq (sent st @ map pbMutation (chan st)) (wanted req steps)" "length (chan st) \<le> subscribeQueueDepth"
    "returned st \<noteq> Some (Status c e)"
proof -
  have "subseq (sent st @ map pbMutation (chan st)) (wanted req steps) \<and> length (chan st) \<le> subscribeQueueDepth \<and>
    returned st \<noteq> Some (Status c e)"
    unfolding st_def
  proof (induction steps rule: rev_induct)
    case Nil
    show ?case by (simp add: stream_start_def wanted_def)
  next
    case (snoc s steps)
    let ?st = "fold (stream_exec req send) steps stream_start"
    have more: "subseq (sent ?st @ map pbMutation (chan ?st)) (wanted req steps @ xs)" for xs
      using snoc list_emb_append_mono [of "(=)" _ _ "[]" xs] by fastforce
    show ?case
    proof (cases s)
      case (SEmit ev)
      have "subseq ((sent ?st @ map pbMutation (chan ?st)) @ [pbMutation ev]) (wanted req steps @ [pbMutation ev])"
        using snoc by (intro list_emb_append_mono) simp_all
      with snoc more SEmit show ?thesis by (auto simp: wanted_def onEvent_def)
    next
      case SReceive
      have shrink: "subseq (sent ?st @ map pbMutation rest) (wanted req steps)" if "chan ?st = ev # rest" for ev rest
      proof -
        have "subseq (sent ?st @ map pbMutation rest) (sent ?st @ map pbMutation (chan ?st))"
          unfolding that by (intro list_emb_append_mono) auto
        with snoc show ?thesis using subseq_order.trans by blast
      qed
      with snoc SReceive show ?thesis
        by (auto simp: wanted_def loopReceive_def split: list.splits option.splits)
    next
      case (SDone e)
      with snoc show ?thesis by (auto simp: wanted_def loopDone_def)
    next
      case SUnsubscribe
      with snoc show ?thesis by (auto simp: wanted_def deferredUnsubscribe_def)
    qed
  qed
  then show "subseq (sent st @ map pbMutation (chan st)) (wanted req steps)" "length (chan st) \<le> subscribeQueueDepth"
    "returned st \<noteq> Some (Status c e)" by blast+
qed

lemma stream_no_loss:
  fixes req send
  defines "run \<equiv> \<lambda>steps. fold (stream_exec req send) steps stream_start"
  assumes "\<forall>m. send m = None"
    and "\<And>pre ev post. steps = pre @ SEmit ev # post \<Longrightarrow> passes req ev \<Longrightarrow>
      subscribed (run pre) \<and> length (chan (run pre)) < subscribeQueueDepth"
  shows "sent (run steps) @ map pbMutation (chan (run steps)) = wanted req steps"
  using assms(3)
proof (induction steps rule: rev_induct)
  case Nil
  show ?case by (simp add: run_def stream_start_def wanted_def)
next
  case (snoc s steps)
  have IH: "sent (run steps) @ map pbMutation (chan (run steps)) = wanted req steps"
    using snoc.prems by (intro snoc.IH) (metis append.assoc append_Cons)
  have step: "run (steps @ [x]) = stream_exec req send x (run steps)" for x by (simp add: run_def)
  show ?case
  proof (cases s)
    case (SEmit ev)
    with IH snoc.prems [of steps ev "[]"] show ?thesis by (auto simp: step wanted_def onEvent_def)
  next
    case SReceive
    with IH assms(2) show ?thesis by (auto simp: step wanted_def loopReceive_def split: list.splits)
  next
    case (SDone e)
    with IH show ?thesis by (auto simp: step wanted_def loopDone_def)
  next
    case SUnsubscribe
    with IH show ?thesis by (auto simp: step wanted_def deferredUnsubscribe_def)
  qed
qed

text \<open>A full channel and an ended subscription take no event, and a stream that has returned sends
  nothing.\<close>

lemma stream_stays:
  "\<not> subscribed st \<or> length (chan st) = subscribeQueueDepth \<Longrightarrow> stream_exec req send (SEmit ev) st = st"
  "returned st \<noteq> None \<Longrightarrow> sent (stream_exec req send s st) = sent st"
  by (auto simp: onEvent_def)
    (cases s; auto simp: onEvent_def loopReceive_def loopDone_def deferredUnsubscribe_def)

text \<open>An event that finds the channel full is dropped and the stream goes on: it never ends with a status,
  where the comments of \<^verbatim>\<open>server.go\<close> announce \<^verbatim>\<open>ResourceExhausted\<close>. The inner \<^verbatim>\<open>select\<close> of the
  callback does not close the channel.\<close>

lemma overflow_unreported:
  assumes "run = Subscribe_rpc True req send" "length (chan (run steps)) = subscribeQueueDepth"
  shows "run (steps @ [SEmit ev]) = run steps" "returned (run (steps @ [SEmit ev])) \<noteq> Some (Status c er)"
proof -
  have eq: "run = (\<lambda>steps. fold (stream_exec req send) steps stream_start)"
    by (simp add: assms(1) Subscribe_rpc_def fun_eq_iff)
  have "stream_exec req send (SEmit ev) (run steps) = run steps" using stream_stays(1) assms(2) by blast
  then show "run (steps @ [SEmit ev]) = run steps" by (simp add: eq)
  then show "returned (run (steps @ [SEmit ev])) \<noteq> Some (Status c er)" using stream_order(3) by (simp add: eq)
qed

text \<open>Values survive the way to the client and back.\<close>

lemma decode_encode:
  assumes "case v of ANil \<Rightarrow> True | ABool b \<Rightarrow> True | AStr t \<Rightarrow> True | AFloat x \<Rightarrow> True | _ \<Rightarrow> False"
  shows "\<exists>pv. encodeQueryValue X newValue v = Inr pv \<and> decodeQueryValue pv = v"
  using assms by (cases v) (simp_all add: encodeQueryValue_def)

lemma metric_roundtrip: "metricFromProto (metricToProto m) = m \<longleftrightarrow> m = Cosine \<or> m = Euclidean"
  by (auto simp: metricFromProto_def metricToProto_def Cosine_def Euclidean_def)

text \<open>The methods only fail with the codes of \<open>mapError\<close>.\<close>

lemma mapError_code:
  "mapError er = Status c er' \<Longrightarrow> er' = er \<and>
     (c = CInvalidArgument \<longleftrightarrow> errors_Is er ErrInvalidEntityID \<or> errors_Is er ErrInvalidValue)"
  by (auto simp: mapError_def split: if_splits)

context ext_laws
begin

theorem Get_rpc_spec:
  assumes "docs_ok X db (GetEntityId req)" "ctx 0 = None" "begin_err X db = None"
  shows "Get_rpc X ctx req db =
    (if GetEntityId req = [] \<or> \<not> no_colon (GetEntityId req)
     then Inl (Status CInvalidArgument (projl (validateEntityID (GetEntityId req))))
     else if GetDocId req = [] then Inl (Status CInternal (NewErr ''bboltstore: docID must not be empty''))
     else Inr (case Get X ctx (GetEntityId req) (GetDocId req) db of
         Inr b \<Rightarrow> \<lparr>RespDoc = b, RespFound = True\<rparr> | Inl e \<Rightarrow> \<lparr>RespDoc = None, RespFound = False\<rparr>))"
    "\<lbrakk>Get_rpc X ctx req db = Inr resp\<rbrakk> \<Longrightarrow>
       RespFound resp = (stored X db (GetEntityId req) (GetDocId req) \<noteq> None) \<and>
       contents (RespDoc resp) = doc_contents X db (GetEntityId req) (GetDocId req)"
proof -
  let ?e = "GetEntityId req" and ?d = "GetDocId req"
  consider (ent) er where "validateEntityID ?e = Inl er" "?e = [] \<or> \<not> no_colon ?e"
    | (doc) "validateEntityID ?e = Inr ()" "?e \<noteq> []" "no_colon ?e" "?d = []"
    | (ok) "validateIDs ?e ?d = Inr ()" "?e \<noteq> []" "no_colon ?e" "?d \<noteq> []"
    using validateEntityID_ok [of ?e] validateIDs_ok [of ?e ?d]
    by (cases "validateEntityID ?e") auto
  then have "Get_rpc X ctx req db =
    (if ?e = [] \<or> \<not> no_colon ?e then Inl (Status CInvalidArgument (projl (validateEntityID ?e)))
     else if ?d = [] then Inl (Status CInternal (NewErr ''bboltstore: docID must not be empty''))
     else Inr (case Get X ctx ?e ?d db of
         Inr b \<Rightarrow> \<lparr>RespDoc = b, RespFound = True\<rparr> | Inl e \<Rightarrow> \<lparr>RespDoc = None, RespFound = False\<rparr>)) \<and>
    (\<forall>resp. Get_rpc X ctx req db = Inr resp \<longrightarrow>
       RespFound resp = (stored X db ?e ?d \<noteq> None) \<and> contents (RespDoc resp) = doc_contents X db ?e ?d)"
  proof cases
    case ent
    have "errors_Is er ErrInvalidEntityID" by (rule validateEntityID_error [OF ent(1)])
    moreover from this have "\<not> errors_Is er ErrNotFound" using ent(1) by (auto simp: validateEntityID_def split: if_splits)
    ultimately show ?thesis using ent by (simp add: Get_rpc_def Get_def validateIDs_def mapError_def)
  next
    case doc
    then show ?thesis by (simp add: Get_rpc_def Get_def validateIDs_def validateDocID_def mapError_def)
  next
    case ok
    from Get_result [where ctx = ctx, OF assms(1) ok(1) assms(2,3)] ok show ?thesis
      by (cases "stored X db ?e ?d") (auto simp: Get_rpc_def doc_contents_def)
  qed
  then show "Get_rpc X ctx req db =
    (if ?e = [] \<or> \<not> no_colon ?e then Inl (Status CInvalidArgument (projl (validateEntityID ?e)))
     else if ?d = [] then Inl (Status CInternal (NewErr ''bboltstore: docID must not be empty''))
     else Inr (case Get X ctx ?e ?d db of
         Inr b \<Rightarrow> \<lparr>RespDoc = b, RespFound = True\<rparr> | Inl e \<Rightarrow> \<lparr>RespDoc = None, RespFound = False\<rparr>))"
    "\<lbrakk>Get_rpc X ctx req db = Inr resp\<rbrakk> \<Longrightarrow>
       RespFound resp = (stored X db ?e ?d \<noteq> None) \<and> contents (RespDoc resp) = doc_contents X db ?e ?d"
    by blast+
qed

end

end
