(* ===== verification/Httpd.thy ===== *)
theory Httpd
  imports Grpc
begin

text \<open>
  \<^verbatim>\<open>cmd/talondb-server/main.go\<close>: the HTTP/JSON front end of the server command. The functions that
  carry logic are reading a request body under a limit, the handler that \<^verbatim>\<open>register\<close> installs for a
  method, the table of the methods and writing a response. Starting and stopping the server is in
  \<^verbatim>\<open>Daemon\<close>. The codec
  \<^verbatim>\<open>protojson\<close> is a parameter; \<^verbatim>\<open>http.ServeMux\<close> is modelled at the patterns registered, for a
  path without redundant segments.
\<close>

section \<open>Definitions\<close>

text \<open>A request's body is the sequence of the results of its \<^verbatim>\<open>Read\<close> calls: the bytes read and whether
  an error came with them, the end of the body being one. A body whose reads never fail is never
  finished, so the last read of the list fails.\<close>

record request =
  Method :: string
  URLPath :: string
  ContentLength :: int
  Reads :: "(bytes \<times> bool) list"

definition max_body :: nat where
  "max_body = 16 * 2 ^ 20"

fun readLoop :: "(bytes \<times> bool) list \<Rightarrow> bytes \<Rightarrow> bytes result" where
  "readLoop [] buf = Inr buf"
| "readLoop ((tmp, failed) # reads) buf =
     (let buf = buf @ tmp in
      if length buf > max_body then Inl (NewErr ''request body too large'')
      else if failed then Inr buf else readLoop reads buf)"

definition readBody :: "request \<Rightarrow> bytes result" where
  "readBody r =
     (if ContentLength r > int max_body then Inl (NewErr ''request body too large'') else readLoop (Reads r) [])"

text \<open>A response: no body, the marshalled message, or the text of an error, which comes from reading
  or decoding the request or from the method.\<close>

datatype http_err = HErr err | HRpc rpc_err

record response =
  StatusCode :: nat
  ContentType :: string
  Body :: "(bytes, http_err) sum option"

definition httpError :: "nat \<Rightarrow> err \<Rightarrow> response" where
  "httpError code er = \<lparr>StatusCode = code, ContentType = ''text/plain; charset=utf-8'', Body = Some (Inr (HErr er))\<rparr>"

definition writeJSON :: "('m \<Rightarrow> bytes result) \<Rightarrow> http_err + 'm option \<Rightarrow> response" where
  "writeJSON marshal r =
     (case r of
        Inl er \<Rightarrow> \<lparr>StatusCode = 500, ContentType = ''application/json'', Body = Some (Inr er)\<rparr>
      | Inr None \<Rightarrow> \<lparr>StatusCode = 204, ContentType = [], Body = None\<rparr>
      | Inr (Some msg) \<Rightarrow>
          (case marshal msg of
             Inl er \<Rightarrow> \<lparr>StatusCode = 500, ContentType = ''application/json'', Body = Some (Inr (HErr er))\<rparr>
           | Inr out \<Rightarrow> \<lparr>StatusCode = 200, ContentType = ''application/json'', Body = Some (Inl out)\<rparr>))"

text \<open>The handler of a method: \<open>fn\<close> decodes the body, calls the method and may change the state.\<close>

definition register ::
  "('m \<Rightarrow> bytes result) \<Rightarrow> (bytes \<Rightarrow> 's \<Rightarrow> (http_err + 'm option) \<times> 's) \<Rightarrow> request \<Rightarrow> 's \<Rightarrow> response \<times> 's" where
  "register marshal fn r st =
     (case readBody r of
        Inl er \<Rightarrow> (httpError 400 er, st)
      | Inr body \<Rightarrow> (case fn body st of (resp, st) \<Rightarrow> (writeJSON marshal resp, st)))"

section \<open>The methods\<close>

text \<open>The requests that \<^verbatim>\<open>Grpc\<close> takes field by field.\<close>

record LookupRequest =
  LkEntityId :: string
  LkTerm :: string

record LookupPrefixRequest =
  LpEntityId :: string
  LpPrefix :: string

record WindowRequest =
  WEntityId :: string
  WItemId :: string
  WTypes :: "string list"
  WWindowNanos :: i64

record GroupRequest =
  GEntityId :: string
  GItemId :: string
  GAttr :: string
  GValue :: string

record StatsRequest =
  SEntityId :: string
  SAttr :: string

record LastSeenRequest =
  LsEntityId :: string
  LsItemId :: string
  LsRecordType :: string

record AncestorsRequest =
  AnEntityId :: string
  AnCategoryId :: string

record DescendantsRequest =
  DeEntityId :: string
  DeRootId :: string

text \<open>The messages of the responses, and \<^verbatim>\<open>protojson\<close> at the types of the requests.\<close>

datatype message =
    MEmpty
  | MGet GetResponse
  | MDocIDList "string list"
  | MEvents "PbTemporalEvent list"
  | MGroup GroupResponse
  | MStats RunningStats
  | MLastSeen LastSeenResponse
  | MAncestors "string list"
  | MHealth HealthResponse

record codec =
  unPut :: "bytes \<Rightarrow> PutRequest result"
  unGet :: "bytes \<Rightarrow> GetRequest result"
  unDelete :: "bytes \<Rightarrow> GetRequest result"
  unBatchPut :: "bytes \<Rightarrow> BatchPutRequest result"
  unLookup :: "bytes \<Rightarrow> LookupRequest result"
  unLookupPrefix :: "bytes \<Rightarrow> LookupPrefixRequest result"
  unNumericRange :: "bytes \<Rightarrow> NumericRangeRequest result"
  unWindow :: "bytes \<Rightarrow> WindowRequest result"
  unGroup :: "bytes \<Rightarrow> GroupRequest result"
  unStats :: "bytes \<Rightarrow> StatsRequest result"
  unLastSeen :: "bytes \<Rightarrow> LastSeenRequest result"
  unAncestors :: "bytes \<Rightarrow> AncestorsRequest result"
  unDescendants :: "bytes \<Rightarrow> DescendantsRequest result"
  marshalMsg :: "message \<Rightarrow> bytes result"

text \<open>The function that \<^verbatim>\<open>register\<close> gets for a method: decode the request, call the method. The state is
  the database with the events emitted so far.\<close>

type_synonym 'tx served = "'tx \<times> MutationEvent list"

definition decoded ::
  "(bytes \<Rightarrow> 'r result) \<Rightarrow> ('r \<Rightarrow> 's \<Rightarrow> message rpc \<times> 's) \<Rightarrow> bytes \<Rightarrow> 's \<Rightarrow> (http_err + message option) \<times> 's" where
  "decoded unmarshal call b st =
     (case unmarshal b of
        Inl er \<Rightarrow> (Inl (HErr er), st)
      | Inr req \<Rightarrow>
          (case call req st of
             (Inl er, st) \<Rightarrow> (Inl (HRpc er), st)
           | (Inr msg, st) \<Rightarrow> (Inr (Some msg), st)))"

definition wrote :: "unit rpc \<times> 'tx \<times> MutationEvent list \<Rightarrow> MutationEvent list \<Rightarrow> message rpc \<times> 'tx served" where
  "wrote r evs = (case r of (x, db, new) \<Rightarrow> (map_sum id (\<lambda>_. MEmpty) x, db, evs @ new))"

definition answers :: "('a \<Rightarrow> message) \<Rightarrow> 'a rpc \<Rightarrow> 's \<Rightarrow> message rpc \<times> 's" where
  "answers f r st = (map_sum id f r, st)"

definition httpRoutes ::
  "('tx, 'v, 'bm) ext \<Rightarrow> codec \<Rightarrow> ctx \<Rightarrow> (nat \<Rightarrow> i64) \<Rightarrow>
     (string \<times> (bytes \<Rightarrow> 'tx served \<Rightarrow> (http_err + message option) \<times> 'tx served)) list" where
  "httpRoutes X c ctx now =
     [(''Put'', decoded (unPut c) (\<lambda>req (db, evs). wrote (Put_rpc X ctx (now 0) req db) evs)),
      (''Get'', decoded (unGet c) (\<lambda>req (db, evs). answers MGet (Get_rpc X ctx req db) (db, evs))),
      (''Delete'', decoded (unDelete c) (\<lambda>req (db, evs). wrote (Delete_rpc X ctx (now 0) req db) evs)),
      (''BatchPut'', decoded (unBatchPut c) (\<lambda>req (db, evs). wrote (BatchPut_rpc X ctx now req db) evs)),
      (''Lookup'', decoded (unLookup c) (\<lambda>req (db, evs).
         answers MDocIDList (Lookup_rpc X ctx (LkEntityId req) (LkTerm req) db db) (db, evs))),
      (''LookupPrefix'', decoded (unLookupPrefix c) (\<lambda>req (db, evs).
         answers MDocIDList (LookupPrefix_rpc X ctx (LpEntityId req) (LpPrefix req) db db) (db, evs))),
      (''LookupNumericRange'', decoded (unNumericRange c) (\<lambda>req (db, evs).
         answers MDocIDList (LookupNumericRange_rpc X ctx req db db) (db, evs))),
      (''WindowQuery'', decoded (unWindow c) (\<lambda>req (db, evs).
         answers MEvents (WindowQuery_rpc X ctx (WEntityId req) (WItemId req) (WTypes req) (WWindowNanos req) db) (db, evs))),
      (''GroupCount'', decoded (unGroup c) (\<lambda>req (db, evs).
         answers MGroup (GroupCount_rpc X ctx (GEntityId req) (GItemId req) (GAttr req) (GValue req) db db) (db, evs))),
      (''Stats'', decoded (unStats c) (\<lambda>req (db, evs).
         case Stats_rpc X ctx (SEntityId req) (SAttr req) db of (r, db) \<Rightarrow> answers MStats r (db, evs))),
      (''LastSeen'', decoded (unLastSeen c) (\<lambda>req (db, evs).
         answers MLastSeen (LastSeen_rpc X ctx (LsEntityId req) (LsItemId req) (LsRecordType req) db) (db, evs))),
      (''Ancestors'', decoded (unAncestors c) (\<lambda>req (db, evs).
         answers MAncestors (Ancestors_rpc X ctx (AnEntityId req) (AnCategoryId req) db) (db, evs))),
      (''Descendants'', decoded (unDescendants c) (\<lambda>req (db, evs).
         answers MDocIDList (Descendants_rpc X ctx (DeEntityId req) (DeRootId req) db db) (db, evs)))]"

text \<open>The multiplexer: the method of a pattern has to match (a pattern for \<^verbatim>\<open>GET\<close> also takes \<^verbatim>\<open>HEAD\<close>); a
  path that is registered for other methods only is answered with 405, any other with 404.\<close>

definition serveHTTP ::
  "('tx, 'v, 'bm) ext \<Rightarrow> Server \<Rightarrow> codec \<Rightarrow> ctx \<Rightarrow> (nat \<Rightarrow> i64) \<Rightarrow> request \<Rightarrow> 'tx served \<Rightarrow> response \<times> 'tx served" where
  "serveHTTP X svc c ctx now r st =
     (case map_of (map (\<lambda>(name, fn). (''/v1/'' @ name, fn)) (httpRoutes X c ctx now)) (URLPath r) of
        Some fn \<Rightarrow>
          if Method r = ''POST'' then register (marshalMsg c) fn r st
          else (httpError 405 (NewErr ''Method Not Allowed''), st)
      | None \<Rightarrow>
          if URLPath r = ''/v1/health'' then
            if Method r = ''GET'' \<or> Method r = ''HEAD''
            then (writeJSON (marshalMsg c) (map_sum HRpc (\<lambda>h. Some (MHealth h)) (Health_rpc svc)), st)
            else (httpError 405 (NewErr ''Method Not Allowed''), st)
          else (httpError 404 (NewErr ''404 page not found''), st))"

section \<open>Correctness\<close>

lemma readLoop_bound: "readLoop reads buf = Inr b \<Longrightarrow> length buf \<le> max_body \<Longrightarrow> length b \<le> max_body"
  by (induction reads buf rule: readLoop.induct) (auto simp: Let_def split: if_splits)

lemma readBody_bound: "readBody r = Inr b \<Longrightarrow> length b \<le> max_body"
  by (auto simp: readBody_def split: if_splits intro: readLoop_bound)

text \<open>The body is what the reads up to the first error deliver.\<close>

lemma readLoop_takeWhile:
  "readLoop reads buf = Inr b \<Longrightarrow>
    b = buf @ concat (map fst (takeWhile (\<lambda>r. \<not> snd r) reads)) @ concat (map fst (take 1 (dropWhile (\<lambda>r. \<not> snd r) reads)))"
  by (induction reads buf rule: readLoop.induct) (auto simp: Let_def split: if_splits)

lemma readBody_complete:
  assumes "ContentLength r \<le> int max_body" "length (concat (map fst (Reads r))) \<le> max_body"
  shows "\<exists>b. readBody r = Inr b"
proof -
  have "\<exists>b. readLoop reads buf = Inr b" if "length buf + length (concat (map fst reads)) \<le> max_body" for reads buf
    using that by (induction reads buf rule: readLoop.induct) (auto simp: Let_def)
  from this [of "[]" "Reads r"] assms show ?thesis by (simp add: readBody_def)
qed

text \<open>A body that is too large reaches no method.\<close>

lemma register_rejects:
  "readBody r = Inl er \<Longrightarrow> snd (register marshal fn r st) = st \<and> StatusCode (fst (register marshal fn r st)) = 400"
  by (simp add: register_def httpError_def)

text \<open>Only a \<^verbatim>\<open>POST\<close> to a method of the table reaches the store, and a body that does not decode stops
  before it.\<close>

lemma serve_other_method: "Method r \<noteq> ''POST'' \<Longrightarrow> snd (serveHTTP X svc c ctx now r st) = st"
  by (auto simp: serveHTTP_def split: option.splits)

lemma serve_unknown:
  assumes "\<forall>name \<in> fst ` set (httpRoutes X c ctx now). URLPath r \<noteq> ''/v1/'' @ name" "URLPath r \<noteq> ''/v1/health''"
  shows "serveHTTP X svc c ctx now r st = (httpError 404 (NewErr ''404 page not found''), st)"
proof -
  have "map_of (map (\<lambda>(name, fn). (''/v1/'' @ name, fn)) (httpRoutes X c ctx now)) (URLPath r) = None"
    using assms(1) by (auto simp: map_of_eq_None_iff)
  with assms(2) show ?thesis by (simp add: serveHTTP_def)
qed

lemma httpRoutes_distinct: "distinct (map fst (httpRoutes X c ctx now))"
  by (simp add: httpRoutes_def)

lemma serve_route:
  assumes "(name, fn) \<in> set (httpRoutes X c ctx now)" "URLPath r = ''/v1/'' @ name" "Method r = ''POST''"
  shows "serveHTTP X svc c ctx now r st = register (marshalMsg c) fn r st"
proof -
  let ?m = "map (\<lambda>(name, fn). (''/v1/'' @ name, fn)) (httpRoutes X c ctx now)"
  have "distinct (map fst ?m)"
    using httpRoutes_distinct [of X c ctx now] by (simp add: distinct_map inj_on_def case_prod_unfold comp_def)
  moreover have "(''/v1/'' @ name, fn) \<in> set ?m" using assms(1) by force
  ultimately have "map_of ?m (''/v1/'' @ name) = Some fn" by (rule map_of_is_SomeI)
  with assms(2,3) show ?thesis by (simp add: serveHTTP_def)
qed

lemma decoded_error: "unmarshal b = Inl er \<Longrightarrow> decoded unmarshal call b st = (Inl (HErr er), st)"
  by (simp add: decoded_def)

text \<open>A \<^verbatim>\<open>Put\<close> over HTTP does to the store what the method does, and its events are emitted after
  those before.\<close>

lemma serve_put:
  assumes "URLPath r = ''/v1/Put''" "Method r = ''POST''" "readBody r = Inr b" "unPut c b = Inr req"
    "Put_rpc X ctx (now 0) req db = (res, db', new)"
  shows "snd (serveHTTP X svc c ctx now r (db, evs)) = (db', evs @ new)"
    "StatusCode (fst (serveHTTP X svc c ctx now r (db, evs))) =
      (case res of Inl _ \<Rightarrow> 500 | Inr _ \<Rightarrow> (case marshalMsg c MEmpty of Inl _ \<Rightarrow> 500 | Inr _ \<Rightarrow> 200))"
proof -
  let ?fn = "decoded (unPut c) (\<lambda>req (db, evs). wrote (Put_rpc X ctx (now 0) req db) evs)"
  have "serveHTTP X svc c ctx now r (db, evs) = register (marshalMsg c) ?fn r (db, evs)"
    by (rule serve_route [of "''Put''"]) (simp_all add: assms httpRoutes_def)
  then show "snd (serveHTTP X svc c ctx now r (db, evs)) = (db', evs @ new)"
    "StatusCode (fst (serveHTTP X svc c ctx now r (db, evs))) =
      (case res of Inl _ \<Rightarrow> 500 | Inr _ \<Rightarrow> (case marshalMsg c MEmpty of Inl _ \<Rightarrow> 500 | Inr _ \<Rightarrow> 200))"
    using assms(3-5) by (auto simp: register_def decoded_def wrote_def writeJSON_def split: sum.splits)
qed

end
