(* ===== verification/Daemon.thy ===== *)
theory Daemon
  imports Httpd
begin

text \<open>
  \<^verbatim>\<open>cmd/talondb-server/main.go\<close>: the life of the server process. \<open>startup\<close> is \<^verbatim>\<open>main\<close> up to the wait for a
  signal: a function of the flags and of the outcomes of the system calls that gives the trace of
  its effects and tells whether \<^verbatim>\<open>log.Fatalf\<close> ended it, which runs no deferred call. From there on the
  process is a transition system, \<open>daemon_step\<close>: calls come and go, a serving goroutine may fail, and a
  signal starts the shutdown. The lemmas say what has been announced and bound when startup is
  over, what holds when the process closes its database, and that the shutdown comes to its end.
\<close>

section \<open>File paths\<close>

text \<open>\<^verbatim>\<open>filepath.Clean\<close>, \<^verbatim>\<open>Dir\<close> and \<^verbatim>\<open>Join\<close> on Unix.\<close>

fun splitSlash :: "string \<Rightarrow> string list" where
  "splitSlash [] = [[]]"
| "splitSlash (c # cs) =
     (if c = CHR ''/'' then [] # splitSlash cs
      else case splitSlash cs of [] \<Rightarrow> [[c]] | s # ss \<Rightarrow> (c # s) # ss)"

fun joinSlash :: "string list \<Rightarrow> string" where
  "joinSlash [] = []"
| "joinSlash [s] = s"
| "joinSlash (s # ss) = s @ CHR ''/'' # joinSlash ss"

text \<open>One path element, with the elements kept so far in reverse.\<close>

definition cleanStep :: "bool \<Rightarrow> string list \<Rightarrow> string \<Rightarrow> string list" where
  "cleanStep rooted out seg =
     (if seg = [] \<or> seg = ''.'' then out
      else if seg = ''..'' then
        (case out of
           [] \<Rightarrow> if rooted then [] else [''..'']
         | prev # rest \<Rightarrow> if prev = ''..'' then ''..'' # out else rest)
      else seg # out)"

definition pathClean :: "string \<Rightarrow> string" where
  "pathClean path =
     (let rooted = (path \<noteq> [] \<and> hd path = CHR ''/'');
          segs = rev (foldl (cleanStep rooted) [] (splitSlash path));
          cleaned = (if rooted then ''/'' else []) @ joinSlash segs
      in if cleaned = [] then ''.'' else cleaned)"

definition pathDir :: "string \<Rightarrow> string" where
  "pathDir path = pathClean (rev (dropWhile (\<lambda>c. c \<noteq> CHR ''/'') (rev path)))"

definition pathJoin :: "string list \<Rightarrow> string" where
  "pathJoin elems =
     (case dropWhile (\<lambda>s. s = []) elems of [] \<Rightarrow> [] | s # ss \<Rightarrow> pathClean (joinSlash (s # ss)))"

section \<open>Startup\<close>

text \<open>The flags; an empty address is not listened on.\<close>

record flags =
  dbPath :: string
  socketPath :: string
  tcpAddr :: string
  httpAddr :: string

definition defaultFlags :: flags where
  "defaultFlags = \<lparr>dbPath = ''talondb.bbolt'', socketPath = [], tcpAddr = [], httpAddr = []\<rparr>"

definition defaultSocket :: "flags \<Rightarrow> flags" where
  "defaultSocket f =
     (if socketPath f = [] \<and> tcpAddr f = [] \<and> httpAddr f = []
      then f\<lparr>socketPath := pathJoin [pathDir (dbPath f), ''talondb.sock'']\<rparr> else f)"

text \<open>The outcomes of the calls into bbolt and the operating system: an error, or success; a TCP listener
  tells the address it is bound to.\<close>

record machine =
  boltOpen :: "string \<Rightarrow> err option"
  mkdirAll :: "string \<Rightarrow> err option"
  netListenUnix :: "string \<Rightarrow> err option"
  chmod :: "string \<Rightarrow> err option"
  netListenTCP :: "string \<Rightarrow> string result"

text \<open>The effects. \<open>Remove\<close> is a call whose error is ignored; closing a Unix listener unlinks its file.\<close>

datatype service = UnixGRPC | TcpGRPC | HttpJSON

datatype action =
    Opened string
  | MadeDir string
  | Remove string
  | BoundUnix string
  | Chmodded string
  | ClosedUnix string
  | BoundTCP string
  | Stdout string
  | Go service
  | Log string
  | StopSignals
  | ClosedDB

type_synonym ('e, 'a) io = "action list \<times> ('e + 'a)"

definition bindIO :: "('e, 'a) io \<Rightarrow> ('a \<Rightarrow> ('e, 'b) io) \<Rightarrow> ('e, 'b) io" where
  "bindIO m f =
     (case m of
        (tr, Inl e) \<Rightarrow> (tr, Inl e)
      | (tr, Inr x) \<Rightarrow> (case f x of (tr', r) \<Rightarrow> (tr @ tr', r)))"

definition doIO :: "action \<Rightarrow> ('e, unit) io" where
  "doIO a = ([a], Inr ())"

definition tryIO :: "err option \<Rightarrow> action \<Rightarrow> (err, unit) io" where
  "tryIO r a = (case r of None \<Rightarrow> ([a], Inr ()) | Some e \<Rightarrow> ([], Inl e))"

definition failIO :: "('e \<Rightarrow> 'f) \<Rightarrow> ('e, 'a) io \<Rightarrow> ('f, 'a) io" where
  "failIO g m = (fst m, map_sum g id (snd m))"

definition Open :: "machine \<Rightarrow> string \<Rightarrow> (err, unit) io" where
  "Open W path = failIO (Wrapf ''bboltstore: open'') (tryIO (boltOpen W path) (Opened path))"

definition listenUnix :: "machine \<Rightarrow> string \<Rightarrow> (err, unit) io" where
  "listenUnix W path =
     bindIO (failIO (Wrapf ''mkdir socket dir'') (tryIO (mkdirAll W (pathDir path)) (MadeDir (pathDir path)))) (\<lambda>_.
     bindIO (doIO (Remove path)) (\<lambda>_.
     bindIO (failIO (Wrapf ''listen unix'') (tryIO (netListenUnix W path) (BoundUnix path))) (\<lambda>_.
     case chmod W path of
       None \<Rightarrow> doIO (Chmodded path)
     | Some e \<Rightarrow> ([ClosedUnix path], Inl (Wrapf ''chmod socket'' e)))))"

definition announce :: "string \<Rightarrow> ('e, unit) io" where
  "announce target = doIO (Stdout (''talondb-server ready '' @ target @ [CHR 0x0A]))"

definition startHTTPServer :: "string \<Rightarrow> ('e, unit) io" where
  "startHTTPServer addr = bindIO (announce (''http://'' @ addr)) (\<lambda>_. doIO (Go HttpJSON))"

text \<open>The three calls of \<^verbatim>\<open>log.Fatalf\<close>.\<close>

datatype fatal = FatalOpen err | FatalUnix err | FatalTCP err

definition startUnix :: "machine \<Rightarrow> string \<Rightarrow> (fatal, unit) io" where
  "startUnix W path =
     (if path = [] then ([], Inr ()) else
      bindIO (failIO FatalUnix (listenUnix W path)) (\<lambda>_.
      bindIO (announce (''unix://'' @ path)) (\<lambda>_. doIO (Go UnixGRPC))))"

definition startTCP :: "machine \<Rightarrow> string \<Rightarrow> (fatal, unit) io" where
  "startTCP W addr =
     (if addr = [] then ([], Inr ()) else
      bindIO (case netListenTCP W addr of
                Inl e \<Rightarrow> ([], Inl (FatalTCP e)) | Inr bnd \<Rightarrow> ([BoundTCP bnd], Inr bnd)) (\<lambda>bnd.
      bindIO (announce (''tcp://'' @ bnd)) (\<lambda>_. doIO (Go TcpGRPC))))"

definition startup :: "machine \<Rightarrow> flags \<Rightarrow> (fatal, flags) io" where
  "startup W f0 =
     (let f = defaultSocket f0 in
      bindIO (failIO FatalOpen (Open W (dbPath f))) (\<lambda>_.
      bindIO (startUnix W (socketPath f)) (\<lambda>_.
      bindIO (startTCP W (tcpAddr f)) (\<lambda>_.
      bindIO (if httpAddr f = [] then ([], Inr ()) else startHTTPServer (httpAddr f)) (\<lambda>_.
      ([], Inr f))))))"

section \<open>Serving and shutting down\<close>

text \<open>\<^verbatim>\<open>main\<close> waits for the signal, in \<^verbatim>\<open>GracefulStop\<close>, in \<^verbatim>\<open>Shutdown\<close>, or for the goroutines; then it has
  returned.\<close>

datatype phase = Serving | Draining | ClosingHTTP | Waiting | Exited

text \<open>The flags in force, the phase of \<^verbatim>\<open>main\<close>, the goroutines counted by the wait group, the calls in
  progress, and the effects so far.\<close>

record daemon =
  dFlags :: flags
  dPhase :: phase
  dServing :: "service list"
  grpcCalls :: nat
  httpCalls :: nat
  dTrace :: "action list"

definition services :: "flags \<Rightarrow> service list" where
  "services f =
     (if socketPath f = [] then [] else [UnixGRPC]) @ (if tcpAddr f = [] then [] else [TcpGRPC]) @
     (if httpAddr f = [] then [] else [HttpJSON])"

definition serve :: "action list \<Rightarrow> flags \<Rightarrow> daemon" where
  "serve tr f =
     \<lparr>dFlags = f, dPhase = Serving, dServing = services f, grpcCalls = 0, httpCalls = 0, dTrace = tr\<rparr>"

text \<open>What follows the signal: its log line, and \<^verbatim>\<open>GracefulStop\<close> closes the listeners.\<close>

definition onSignal :: "daemon \<Rightarrow> daemon" where
  "onSignal d =
     d\<lparr>dPhase := Draining,
       dTrace := dTrace d @ Log ''talondb-server: shutdown signal received'' #
         (if socketPath (dFlags d) = [] then [] else [ClosedUnix (socketPath (dFlags d))])\<rparr>"

definition onDrained :: "daemon \<Rightarrow> daemon" where
  "onDrained d = d\<lparr>dPhase := (if httpAddr (dFlags d) = [] then Waiting else ClosingHTTP)\<rparr>"

text \<open>The deferred calls of \<^verbatim>\<open>main\<close> in reverse order; cancelling the context of a finished \<^verbatim>\<open>Shutdown\<close> has no
  effect and is left out.\<close>

definition deferred :: "flags \<Rightarrow> action list" where
  "deferred f = (if socketPath f = [] then [] else [Remove (socketPath f)]) @ [StopSignals, ClosedDB]"

definition onReturn :: "daemon \<Rightarrow> daemon" where
  "onReturn d = d\<lparr>dPhase := Exited, dTrace := dTrace d @ deferred (dFlags d)\<rparr>"

text \<open>The serving functions return once their server is stopped, and log an error they return
  before that; \<^verbatim>\<open>main\<close> goes on in both cases.\<close>

definition stopped :: "phase \<Rightarrow> service \<Rightarrow> bool" where
  "stopped p s = (case s of HttpJSON \<Rightarrow> p = ClosingHTTP \<or> p = Waiting | _ \<Rightarrow> p \<noteq> Serving)"

definition serviceLog :: "service \<Rightarrow> string" where
  "serviceLog s =
     (case s of UnixGRPC \<Rightarrow> ''talondb-server: unix serve'' | TcpGRPC \<Rightarrow> ''talondb-server: tcp serve''
      | HttpJSON \<Rightarrow> ''talondb-server: http'')"

text \<open>\<^verbatim>\<open>Serve\<close> closes its listener when it returns, which unlinks the file of a Unix socket.\<close>

definition serveFailed :: "flags \<Rightarrow> service \<Rightarrow> action list" where
  "serveFailed f s = (if s = UnixGRPC then [ClosedUnix (socketPath f)] else []) @ [Log (serviceLog s)]"

text \<open>A graceful stop admits no new RPCs and waits for those in progress; the HTTP server takes requests
  until \<^verbatim>\<open>Shutdown\<close>, which returns when they are finished or its five seconds are over.\<close>

inductive daemon_step :: "daemon \<Rightarrow> daemon \<Rightarrow> bool" where
  grpc_begin: "dPhase d = Serving \<Longrightarrow> socketPath (dFlags d) \<noteq> [] \<or> tcpAddr (dFlags d) \<noteq> [] \<Longrightarrow>
    daemon_step d (d\<lparr>grpcCalls := Suc (grpcCalls d)\<rparr>)"
| grpc_end: "dPhase d \<noteq> Exited \<Longrightarrow> grpcCalls d = Suc n \<Longrightarrow> daemon_step d (d\<lparr>grpcCalls := n\<rparr>)"
| http_begin: "dPhase d = Serving \<or> dPhase d = Draining \<Longrightarrow> HttpJSON \<in> set (dServing d) \<Longrightarrow>
    daemon_step d (d\<lparr>httpCalls := Suc (httpCalls d)\<rparr>)"
| http_end: "dPhase d \<noteq> Exited \<Longrightarrow> httpCalls d = Suc n \<Longrightarrow> daemon_step d (d\<lparr>httpCalls := n\<rparr>)"
| serve_error: "dPhase d \<noteq> Exited \<Longrightarrow> s \<in> set (dServing d) \<Longrightarrow>
    daemon_step d (d\<lparr>dServing := remove1 s (dServing d), dTrace := dTrace d @ serveFailed (dFlags d) s\<rparr>)"
| serve_stopped: "dPhase d \<noteq> Exited \<Longrightarrow> s \<in> set (dServing d) \<Longrightarrow> stopped (dPhase d) s \<Longrightarrow>
    daemon_step d (d\<lparr>dServing := remove1 s (dServing d)\<rparr>)"
| signal: "dPhase d = Serving \<Longrightarrow> daemon_step d (onSignal d)"
| drained: "dPhase d = Draining \<Longrightarrow> grpcCalls d = 0 \<Longrightarrow> daemon_step d (onDrained d)"
| http_closed: "dPhase d = ClosingHTTP \<Longrightarrow> daemon_step d (d\<lparr>dPhase := Waiting\<rparr>)"
| all_done: "dPhase d = Waiting \<Longrightarrow> dServing d = [] \<Longrightarrow> daemon_step d (onReturn d)"

text \<open>Runs of a process that has started.\<close>

definition runs :: "machine \<Rightarrow> flags \<Rightarrow> daemon \<Rightarrow> bool" where
  "runs W f d \<longleftrightarrow> (\<exists>tr g. startup W f = (tr, Inr g) \<and> daemon_step\<^sup>*\<^sup>* (serve tr g) d)"

text \<open>The socket files that a trace leaves, and the lines it prints.\<close>

fun fileEffect :: "action \<Rightarrow> string set \<Rightarrow> string set" where
  "fileEffect (BoundUnix p) S = insert p S"
| "fileEffect (Remove p) S = S - {p}"
| "fileEffect (ClosedUnix p) S = S - {p}"
| "fileEffect _ S = S"

definition files :: "action list \<Rightarrow> string set" where
  "files tr = fold fileEffect tr {}"

definition printed :: "action list \<Rightarrow> string list" where
  "printed tr = concat (map (\<lambda>a. case a of Stdout s \<Rightarrow> [s] | _ \<Rightarrow> []) tr)"

section \<open>Paths\<close>

lemma splitSlash_ne [simp]: "splitSlash s \<noteq> []"
  by (cases s) (auto split: list.splits)

lemma splitSlash_parts: "x \<in> set (splitSlash s) \<Longrightarrow> CHR ''/'' \<notin> set x"
  by (induction s arbitrary: x) (auto split: if_splits list.splits)

lemma splitSlash_name: "CHR ''/'' \<notin> set s \<Longrightarrow> splitSlash s = [s]"
  by (induction s) auto

lemma splitSlash_append: "splitSlash (s @ CHR ''/'' # t) = splitSlash s @ splitSlash t"
  by (induction s) (auto simp: neq_Nil_conv split: list.splits)

lemma joinSlash_snoc: "ss \<noteq> [] \<Longrightarrow> joinSlash (ss @ [s]) = joinSlash ss @ CHR ''/'' # s"
  by (induction ss rule: joinSlash.induct) auto

lemma splitSlash_join:
  "ss \<noteq> [] \<Longrightarrow> \<forall>s \<in> set ss. CHR ''/'' \<notin> set s \<Longrightarrow> splitSlash (joinSlash ss) = ss"
  by (induction ss rule: joinSlash.induct) (auto simp: splitSlash_name splitSlash_append)

text \<open>The elements of a cleaned path, in reverse: names, with parent references only at the start of a
  relative path.\<close>

fun clean_stack :: "bool \<Rightarrow> string list \<Rightarrow> bool" where
  "clean_stack rooted [] = True"
| "clean_stack rooted (x # out) \<longleftrightarrow>
     clean_stack rooted out \<and> x \<noteq> [] \<and> x \<noteq> ''.'' \<and> CHR ''/'' \<notin> set x \<and>
     (x = ''..'' \<longrightarrow> \<not> rooted \<and> (out = [] \<or> hd out = ''..''))"

lemma cleanStep_stack: "clean_stack r out \<Longrightarrow> CHR ''/'' \<notin> set s \<Longrightarrow> clean_stack r (cleanStep r out s)"
  by (auto simp: cleanStep_def split: list.splits)

lemma cleanStep_push: "clean_stack r (x # out) \<Longrightarrow> cleanStep r out x = x # out"
  by (auto simp: cleanStep_def split: list.splits)

lemma clean_fold:
  "clean_stack r out \<Longrightarrow> \<forall>s \<in> set ss. CHR ''/'' \<notin> set s \<Longrightarrow> clean_stack r (foldl (cleanStep r) out ss)"
  by (induction ss arbitrary: out) (auto simp: cleanStep_stack)

lemma clean_refold: "clean_stack r out \<Longrightarrow> foldl (cleanStep r) [] (rev out) = out"
  by (induction out) (simp_all add: cleanStep_push del: clean_stack.simps(2), simp add: cleanStep_push)

lemma clean_no_slash: "clean_stack r out \<Longrightarrow> s \<in> set out \<Longrightarrow> CHR ''/'' \<notin> set s"
  by (induction out) auto

lemma clean_nonempty: "clean_stack r out \<Longrightarrow> s \<in> set out \<Longrightarrow> s \<noteq> []"
  by (induction out) auto

text \<open>Cleaning a path is printing its normal form.\<close>

definition rooted_path :: "string \<Rightarrow> bool" where
  "rooted_path p \<longleftrightarrow> p \<noteq> [] \<and> hd p = CHR ''/''"

definition path_stack :: "string \<Rightarrow> string list" where
  "path_stack p = foldl (cleanStep (rooted_path p)) [] (splitSlash p)"

definition print_path :: "bool \<Rightarrow> string list \<Rightarrow> string" where
  "print_path r out =
     (if \<not> r \<and> out = [] then ''.'' else (if r then ''/'' else []) @ joinSlash (rev out))"

lemma joinSlash_hd: "ss \<noteq> [] \<Longrightarrow> hd ss \<noteq> [] \<Longrightarrow> joinSlash ss \<noteq> [] \<and> hd (joinSlash ss) = hd (hd ss)"
  by (induction ss rule: joinSlash.induct) (auto simp: neq_Nil_conv)

lemma path_stack_clean: "clean_stack (rooted_path p) (path_stack p)"
  by (auto simp: path_stack_def splitSlash_parts intro: clean_fold)

lemma relative_print:
  assumes "clean_stack False out" "out \<noteq> []"
  shows "joinSlash (rev out) \<noteq> []" "\<not> rooted_path (joinSlash (rev out))"
proof -
  have "List.last out \<in> set out" using assms(2) by simp
  then have "List.last out \<noteq> []" "CHR ''/'' \<notin> set (List.last out)"
    using clean_nonempty [OF assms(1)] clean_no_slash [OF assms(1)] by blast+
  moreover have "hd (rev out) = List.last out" using assms(2) by (simp add: hd_rev)
  ultimately show "joinSlash (rev out) \<noteq> []" "\<not> rooted_path (joinSlash (rev out))"
    using joinSlash_hd [of "rev out"] assms(2) by (auto simp: rooted_path_def dest: hd_in_set)
qed

lemma pathClean_print: "pathClean p = print_path (rooted_path p) (path_stack p)"
proof -
  have "joinSlash (rev (path_stack p)) \<noteq> []" if "\<not> rooted_path p" "path_stack p \<noteq> []"
    using relative_print(1) path_stack_clean [of p] that by simp
  moreover have "pathClean p =
      (let q = (if rooted_path p then ''/'' else []) @ joinSlash (rev (path_stack p)) in if q = [] then ''.'' else q)"
    by (simp add: pathClean_def path_stack_def rooted_path_def Let_def)
  ultimately show ?thesis by (auto simp: print_path_def)
qed

lemma print_norm:
  assumes "clean_stack r out"
  shows "rooted_path (print_path r out) = r" "path_stack (print_path r out) = out"
proof -
  have split: "splitSlash (joinSlash (rev out)) = rev out" if "out \<noteq> []"
    using that clean_no_slash [OF assms] by (intro splitSlash_join) auto
  show root: "rooted_path (print_path r out) = r"
    using relative_print(2) [of out] assms by (cases r) (auto simp: print_path_def rooted_path_def)
  show "path_stack (print_path r out) = out"
    using clean_refold [OF assms] split
    by (cases "out = []") (auto simp: path_stack_def root, auto simp: print_path_def cleanStep_def)
qed

lemma pathClean_idem: "pathClean (pathClean p) = pathClean p"
  by (simp add: pathClean_print print_norm [OF path_stack_clean])

lemma pathClean_ne [simp]: "pathClean p \<noteq> []"
  by (simp add: pathClean_def Let_def)

text \<open>A path extended by a name, and its directory.\<close>

lemma path_extend:
  assumes "p \<noteq> []" "clean_stack r [n]" "n \<noteq> ''..''"
  shows "rooted_path (p @ CHR ''/'' # n) = rooted_path p" "path_stack (p @ CHR ''/'' # n) = n # path_stack p"
proof -
  show root: "rooted_path (p @ CHR ''/'' # n) = rooted_path p" using assms(1) by (simp add: rooted_path_def)
  show "path_stack (p @ CHR ''/'' # n) = n # path_stack p"
    using assms(2,3) by (simp add: path_stack_def root splitSlash_append splitSlash_name) (simp add: cleanStep_def)
qed

lemma pathDir_cut: "CHR ''/'' \<notin> set n \<Longrightarrow> pathDir (p @ CHR ''/'' # n) = pathClean (p @ ''/'')"
  "CHR ''/'' \<notin> set n \<Longrightarrow> pathDir n = ''.''"
proof -
  assume n: "CHR ''/'' \<notin> set n"
  then have *: "dropWhile (\<lambda>c. c \<noteq> CHR ''/'') (rev n @ zs) = dropWhile (\<lambda>c. c \<noteq> CHR ''/'') zs" for zs
    by (intro dropWhile_append2) auto
  show "pathDir (p @ CHR ''/'' # n) = pathClean (p @ ''/'')" by (simp add: pathDir_def *)
  have "pathDir n = pathClean []"
    using * [of "[]"] by (simp only: pathDir_def append_Nil2 dropWhile.simps rev.simps(1))
  then show "pathDir n = ''.''" by (simp add: pathClean_def cleanStep_def)
qed

lemma clean_trailing: "p \<noteq> [] \<Longrightarrow> pathClean (p @ ''/'') = pathClean p"
proof -
  assume "p \<noteq> []"
  then have "rooted_path (p @ ''/'') = rooted_path p" by (simp add: rooted_path_def)
  moreover from this have "path_stack (p @ ''/'') = path_stack p"
    using splitSlash_append [of p "[]"] by (simp add: path_stack_def) (simp add: cleanStep_def)
  ultimately show ?thesis by (simp add: pathClean_print)
qed

lemma pathDir_print:
  assumes "clean_stack r (n # st)" "n \<noteq> ''..''"
  shows "pathDir (print_path r (n # st)) = print_path r st"
proof (cases "st = []")
  case True
  then show ?thesis
    using assms pathDir_cut(1) [of n "[]"] pathDir_cut(2) [of n]
    by (cases r) (auto simp: print_path_def, auto simp: pathClean_def cleanStep_def)
next
  case False
  have clean: "clean_stack r st" using assms(1) by simp
  have ne: "print_path r st \<noteq> []" using relative_print(1) [of st] clean False by (auto simp: print_path_def)
  have "print_path r (n # st) = print_path r st @ CHR ''/'' # n"
    using False by (simp add: print_path_def joinSlash_snoc)
  then have "pathDir (print_path r (n # st)) = pathClean (print_path r st)"
    using assms(1) pathDir_cut(1) [of n "print_path r st"] clean_trailing [OF ne] by simp
  then show ?thesis by (simp add: pathClean_print print_norm [OF clean])
qed

lemma pathDir_join:
  assumes "clean_stack True [n]"
  shows "pathDir (pathJoin [pathDir p, n]) = pathDir p"
proof -
  let ?D = "pathDir p"
  have D: "?D = pathClean ?D" "?D \<noteq> []" by (simp_all add: pathDir_def pathClean_idem)
  have n: "clean_stack (rooted_path ?D) (n # path_stack ?D)" "n \<noteq> ''..''"
    using assms path_stack_clean [of ?D] by auto
  have "pathJoin [?D, n] = print_path (rooted_path ?D) (n # path_stack ?D)"
    using D(2) path_extend [OF D(2) assms n(2)] by (simp add: pathJoin_def pathClean_print)
  then have "pathDir (pathJoin [?D, n]) = pathClean ?D" by (simp add: pathDir_print [OF n] pathClean_print)
  with D(1) show ?thesis by simp
qed

text \<open>The default socket is in the directory of the data file, and there is always a listener.\<close>

lemma default_socket_dir:
  assumes "socketPath f = []" "tcpAddr f = []" "httpAddr f = []"
  shows "pathDir (socketPath (defaultSocket f)) = pathDir (dbPath f)"
  using assms pathDir_join [of "''talondb.sock''" "dbPath f"] by (simp add: defaultSocket_def)

lemma services_ne: "services (defaultSocket f) \<noteq> []"
  by (auto simp: services_def defaultSocket_def pathJoin_def pathDir_def)

section \<open>What startup has done\<close>

lemma bindIO_simps [simp]:
  "bindIO (tr, Inl e) g = (tr, Inl e)" "bindIO (tr, Inr x) g = (tr @ fst (g x), snd (g x))"
  by (simp_all add: bindIO_def case_prod_unfold)

lemma bindIO_Inr: "bindIO m g = (tr, Inr y) \<longleftrightarrow>
    (\<exists>tr1 tr2 x. m = (tr1, Inr x) \<and> g x = (tr2, Inr y) \<and> tr = tr1 @ tr2)"
  by (auto simp: bindIO_def split: prod.splits sum.splits)

lemma failIO_Inr: "failIO g m = (tr, Inr y) \<longleftrightarrow> m = (tr, Inr y)"
  by (cases m; cases "snd m") (auto simp: failIO_def)

lemma tryIO_Inr: "tryIO r a = (tr, Inr y) \<longleftrightarrow> r = None \<and> tr = [a]"
  by (auto simp: tryIO_def split: option.splits)

lemmas io_Inr = bindIO_Inr failIO_Inr tryIO_Inr

definition ready :: "string \<Rightarrow> string" where
  "ready target = ''talondb-server ready '' @ target @ [CHR 0x0A]"

text \<open>The trace of a startup that reaches the wait, listener by listener.\<close>

definition unix_trace :: "string \<Rightarrow> action list" where
  "unix_trace path =
     (if path = [] then [] else
      [MadeDir (pathDir path), Remove path, BoundUnix path, Chmodded path, Stdout (ready (''unix://'' @ path)), Go UnixGRPC])"

definition tcp_trace :: "string \<Rightarrow> string \<Rightarrow> action list" where
  "tcp_trace addr bnd =
     (if addr = [] then [] else [BoundTCP bnd, Stdout (ready (''tcp://'' @ bnd)), Go TcpGRPC])"

definition http_trace :: "string \<Rightarrow> action list" where
  "http_trace addr = (if addr = [] then [] else [Stdout (ready (''http://'' @ addr)), Go HttpJSON])"

lemmas trace_defs = unix_trace_def tcp_trace_def http_trace_def

lemma listenUnix_ok:
  assumes "listenUnix W path = (tr, Inr ())"
  shows "tr = [MadeDir (pathDir path), Remove path, BoundUnix path, Chmodded path]"
  using assms by (auto simp: listenUnix_def io_Inr doIO_def simp del: bindIO_simps split: option.splits)

lemma startUnix_ok: "startUnix W path = (tr, Inr ()) \<Longrightarrow> tr = unix_trace path"
  by (auto simp: startUnix_def io_Inr announce_def doIO_def unix_trace_def ready_def
    simp del: bindIO_simps dest!: listenUnix_ok split: if_splits)

lemma startTCP_ok:
  "startTCP W addr = (tr, Inr ()) \<Longrightarrow> \<exists>bnd. (addr \<noteq> [] \<longrightarrow> netListenTCP W addr = Inr bnd) \<and> tr = tcp_trace addr bnd"
  by (auto simp: startTCP_def io_Inr announce_def doIO_def tcp_trace_def ready_def
    simp del: bindIO_simps split: if_splits sum.splits)

lemma startup_trace:
  assumes "startup W f = (tr, Inr g)"
  shows "g = defaultSocket f"
    "\<exists>bnd. (tcpAddr g \<noteq> [] \<longrightarrow> netListenTCP W (tcpAddr g) = Inr bnd) \<and>
      tr = Opened (dbPath g) # unix_trace (socketPath g) @ tcp_trace (tcpAddr g) bnd @ http_trace (httpAddr g)"
proof -
  have http: "(if a = [] then ([], Inr ()) else startHTTPServer a) = (http_trace a, Inr ())" for a
    by (simp add: startHTTPServer_def announce_def doIO_def http_trace_def ready_def)
  show "g = defaultSocket f"
    "\<exists>bnd. (tcpAddr g \<noteq> [] \<longrightarrow> netListenTCP W (tcpAddr g) = Inr bnd) \<and>
      tr = Opened (dbPath g) # unix_trace (socketPath g) @ tcp_trace (tcpAddr g) bnd @ http_trace (httpAddr g)"
    using assms unfolding startup_def Let_def http
    by (auto simp: io_Inr Open_def simp del: bindIO_simps dest!: startUnix_ok startTCP_ok)
qed

text \<open>One line is printed for each listener, in the order of the code.\<close>

lemma printed_simps [simp]: "printed [] = []" "printed (a # tr) = (case a of Stdout s \<Rightarrow> [s] | _ \<Rightarrow> []) @ printed tr"
  "printed (tr @ tr') = printed tr @ printed tr'"
  by (simp_all add: printed_def)

lemma startup_announces:
  assumes "startup W f = (tr, Inr g)"
  shows "\<exists>bnd. printed tr = (if socketPath g = [] then [] else [ready (''unix://'' @ socketPath g)]) @
    (if tcpAddr g = [] then [] else [ready (''tcp://'' @ bnd)]) @
    (if httpAddr g = [] then [] else [ready (''http://'' @ httpAddr g)])"
  using startup_trace(2) [OF assms] by (auto simp: trace_defs intro: exI)

lemma startup_one_line_each: "startup W f = (tr, Inr g) \<Longrightarrow> length (printed tr) = length (services g)"
  by (drule startup_announces) (auto simp: services_def)

text \<open>A line for a gRPC listener is printed after it is bound; the line for HTTP is printed before the
  goroutine that binds it has started.\<close>

lemma announced_unix_bound:
  assumes "startup W f = (tr, Inr g)" "socketPath g \<noteq> []"
  shows "\<exists>pre post. tr = pre @ Stdout (ready (''unix://'' @ socketPath g)) # post \<and> files pre = {socketPath g}"
proof -
  obtain rest where "tr = [Opened (dbPath g), MadeDir (pathDir (socketPath g)), Remove (socketPath g),
      BoundUnix (socketPath g), Chmodded (socketPath g)] @ Stdout (ready (''unix://'' @ socketPath g)) # rest"
    using startup_trace(2) [OF assms(1)] assms(2) by (auto simp: unix_trace_def)
  then show ?thesis by (intro exI conjI, assumption) (simp add: files_def)
qed

lemma http_announced_before_listening:
  assumes "startup W f = (tr, Inr g)" "httpAddr g \<noteq> []"
  shows "\<exists>d'. daemon_step (serve tr g) d' \<and> HttpJSON \<notin> set (dServing d') \<and> dPhase d' = Serving \<and>
    ready (''http://'' @ httpAddr g) \<in> set (printed (dTrace d'))"
proof -
  let ?d = "serve tr g"
  let ?d' = "?d\<lparr>dServing := remove1 HttpJSON (dServing ?d), dTrace := dTrace ?d @ serveFailed (dFlags ?d) HttpJSON\<rparr>"
  have "daemon_step ?d ?d'"
    using assms(2) by (intro serve_error) (simp_all add: serve_def services_def)
  moreover have "ready (''http://'' @ httpAddr g) \<in> set (printed tr)"
    using startup_announces [OF assms(1)] assms(2) by auto
  ultimately show ?thesis by (intro exI [of _ ?d']) (simp add: serve_def services_def)
qed

text \<open>When the TCP listener cannot be bound, the process ends with its socket file in place and its
  database not closed: the deferred calls do not run.\<close>

lemma fatal_leaves_socket:
  assumes "boltOpen W (dbPath f) = None" "mkdirAll W (pathDir (socketPath f)) = None"
    "netListenUnix W (socketPath f) = None" "chmod W (socketPath f) = None"
    "socketPath f \<noteq> []" "tcpAddr f \<noteq> []" "netListenTCP W (tcpAddr f) = Inl e"
  shows "\<exists>tr. startup W f = (tr, Inl (FatalTCP e)) \<and> files tr = {socketPath f} \<and> ClosedDB \<notin> set tr"
  using assms by (simp add: startup_def defaultSocket_def Let_def Open_def startUnix_def startTCP_def listenUnix_def
    tryIO_def failIO_def doIO_def announce_def files_def)

text \<open>A socket whose mode cannot be set is removed again.\<close>

lemma chmod_failure_unlinks:
  assumes "mkdirAll W (pathDir p) = None" "netListenUnix W p = None" "chmod W p = Some e"
  shows "\<exists>tr. listenUnix W p = (tr, Inl (Wrapf ''chmod socket'' e)) \<and> files tr = {}"
  using assms by (simp add: listenUnix_def tryIO_def failIO_def doIO_def files_def)

section \<open>Safety of the shutdown\<close>

lemma files_append: "files (tr @ tr') = fold fileEffect tr' (files tr)"
  by (simp add: files_def)

text \<open>What holds while the process runs: RPCs are in progress only before \<^verbatim>\<open>GracefulStop\<close> has returned, the
  socket file exists until the signal or the failure of its server, and the database is open until the process has
  returned, which is when no goroutine serves any more.\<close>

definition daemon_inv :: "daemon \<Rightarrow> bool" where
  "daemon_inv d \<longleftrightarrow>
     (grpcCalls d > 0 \<longrightarrow> dPhase d = Serving \<or> dPhase d = Draining) \<and>
     (dPhase d = Exited \<longrightarrow> dServing d = []) \<and>
     distinct (dServing d) \<and> set (dServing d) \<subseteq> set (services (dFlags d)) \<and>
     (httpAddr (dFlags d) = [] \<longrightarrow> httpCalls d = 0 \<and> dPhase d \<noteq> ClosingHTTP) \<and>
     files (dTrace d) = (if dPhase d = Serving \<and> UnixGRPC \<in> set (dServing d) then {socketPath (dFlags d)} else {}) \<and>
     count_list (dTrace d) ClosedDB = (if dPhase d = Exited then 1 else 0)"

lemma serve_inv:
  assumes "startup W f = (tr, Inr g)"
  shows "daemon_inv (serve tr g)"
proof -
  obtain bnd where "tr = Opened (dbPath g) # unix_trace (socketPath g) @ tcp_trace (tcpAddr g) bnd @ http_trace (httpAddr g)"
    using startup_trace(2) [OF assms] by blast
  then have "files tr = (if socketPath g \<noteq> [] then {socketPath g} else {})" "count_list tr ClosedDB = 0"
    by (auto simp: files_def trace_defs)
  then show ?thesis by (simp add: daemon_inv_def serve_def services_def)
qed

lemma step_inv: "daemon_step d d' \<Longrightarrow> daemon_inv d \<Longrightarrow> daemon_inv d'"
proof (induction rule: daemon_step.induct)
  case (http_begin d)
  then show ?case by (auto simp: daemon_inv_def services_def split: if_splits)
next
  case (serve_error d s)
  then show ?case
    using set_remove1_subset [of s "dServing d"]
    by (auto simp: daemon_inv_def files_append serveFailed_def split: if_splits)
next
  case (serve_stopped d s)
  then show ?case
    using set_remove1_subset [of s "dServing d"] by (auto simp: daemon_inv_def stopped_def split: if_splits)
next
  case (signal d)
  then have "UnixGRPC \<in> set (dServing d) \<Longrightarrow> socketPath (dFlags d) \<noteq> []"
    by (auto simp: daemon_inv_def services_def split: if_splits)
  with signal show ?case by (auto simp: daemon_inv_def onSignal_def files_append split: if_splits)
next
  case (all_done d)
  then show ?case by (auto simp: daemon_inv_def onReturn_def deferred_def files_append split: if_splits)
qed (auto simp: daemon_inv_def onDrained_def split: if_splits)

lemma runs_inv: "runs W f d \<Longrightarrow> daemon_inv d"
proof -
  have "daemon_step\<^sup>*\<^sup>* a b \<Longrightarrow> daemon_inv a \<Longrightarrow> daemon_inv b" for a b
    by (induction rule: rtranclp_induct) (auto intro: step_inv)
  then show "runs W f d \<Longrightarrow> daemon_inv d" by (auto simp: runs_def dest: serve_inv)
qed

section \<open>The shutdown comes to its end\<close>

primrec phase_rank :: "phase \<Rightarrow> nat" where
  "phase_rank Serving = 4"
| "phase_rank Draining = 3"
| "phase_rank ClosingHTTP = 2"
| "phase_rank Waiting = 1"
| "phase_rank Exited = 0"

definition shutdown_rank :: "daemon \<Rightarrow> nat" where
  "shutdown_rank d = phase_rank (dPhase d) + length (dServing d) + grpcCalls d + httpCalls d"

text \<open>After the signal every step brings the process nearer to its end, but for a new HTTP request that
  arrives while RPCs are being drained.\<close>

lemma remove1_shorter: "x \<in> set xs \<Longrightarrow> length (remove1 x xs) < length xs"
  by (induction xs) (auto simp: length_remove1 dest: length_pos_if_in_set)

lemma shutdown_step:
  assumes "daemon_step d d'" "dPhase d \<noteq> Serving"
  shows "shutdown_rank d' < shutdown_rank d \<or> dPhase d = Draining \<and> d' = d\<lparr>httpCalls := Suc (httpCalls d)\<rparr>"
  using assms by (induction rule: daemon_step.induct)
    (auto simp: shutdown_rank_def onSignal_def onDrained_def onReturn_def remove1_shorter)

lemma draining_step:
  assumes "daemon_step d d'" "dPhase d = Draining" "grpcCalls d > 0"
  shows "dPhase d' = Draining"
  using assms by (induction rule: daemon_step.induct) auto

lemma phase_after:
  assumes "daemon_step d d'" "dPhase d \<noteq> Serving" "dPhase d \<noteq> Draining"
  shows "dPhase d' \<noteq> Serving \<and> dPhase d' \<noteq> Draining"
  using assms by (induction rule: daemon_step.induct) (auto simp: onReturn_def)

text \<open>Once the RPCs are drained, no interleaving takes more steps than the rank of the state.\<close>

lemma shutdown_bounded:
  "(daemon_step ^^ n) d d' \<Longrightarrow> dPhase d \<noteq> Serving \<Longrightarrow> dPhase d \<noteq> Draining \<Longrightarrow> n + shutdown_rank d' \<le> shutdown_rank d"
proof (induction n arbitrary: d)
  case (Suc n)
  then obtain e where e: "daemon_step d e" "(daemon_step ^^ n) e d'" by (blast dest: relpowp_Suc_D2)
  then have "n + shutdown_rank d' \<le> shutdown_rank e" using Suc phase_after by blast
  moreover have "shutdown_rank e < shutdown_rank d" using shutdown_step [OF e(1)] Suc.prems by blast
  ultimately show ?case by simp
qed simp

text \<open>No state but the last is stuck: there is always a step towards the end, if calls finish.\<close>

lemma shutdown_advances:
  assumes "dPhase d \<noteq> Exited"
  shows "\<exists>d'. daemon_step d d' \<and> shutdown_rank d' < shutdown_rank d"
proof (cases "dPhase d")
  case Serving
  then show ?thesis using signal [OF Serving] by (intro exI [of _ "onSignal d"]) (simp add: shutdown_rank_def onSignal_def)
next
  case Draining
  show ?thesis
  proof (cases "grpcCalls d")
    case 0
    with Draining show ?thesis
      using drained [of d] by (intro exI [of _ "onDrained d"]) (simp add: shutdown_rank_def onDrained_def)
  next
    case (Suc n)
    with grpc_end [OF assms Suc] show ?thesis
      by (intro exI [of _ "d\<lparr>grpcCalls := n\<rparr>"]) (simp add: shutdown_rank_def)
  qed
next
  case ClosingHTTP
  with http_closed [of d] show ?thesis
    by (intro exI [of _ "d\<lparr>dPhase := Waiting\<rparr>"]) (simp add: shutdown_rank_def)
next
  case Waiting
  show ?thesis
  proof (cases "dServing d")
    case Nil
    with Waiting all_done [of d] show ?thesis
      by (intro exI [of _ "onReturn d"]) (simp add: shutdown_rank_def onReturn_def)
  next
    case (Cons s ss)
    with Waiting have "daemon_step d (d\<lparr>dServing := remove1 s (dServing d)\<rparr>)"
      by (intro serve_stopped) (auto simp: stopped_def split: service.splits)
    with Cons show ?thesis
      by (intro exI [of _ "d\<lparr>dServing := remove1 s (dServing d)\<rparr>"]) (simp add: shutdown_rank_def)
  qed
qed (use assms in simp)

lemma exit_reachable: "\<exists>d'. daemon_step\<^sup>*\<^sup>* d d' \<and> dPhase d' = Exited"
proof (induction d rule: measure_induct_rule [of shutdown_rank])
  case (less d)
  show ?case
  proof (cases "dPhase d = Exited")
    case False
    then obtain e where "daemon_step d e" "shutdown_rank e < shutdown_rank d" using shutdown_advances by blast
    with less show ?thesis by (blast intro: converse_rtranclp_into_rtranclp)
  qed blast
qed

lemma exited_final: "daemon_step d d' \<Longrightarrow> dPhase d \<noteq> Exited"
  by (induction rule: daemon_step.induct) auto

text \<open>A machine on which every call succeeds, and a process on it from start to end.\<close>

definition ok_machine :: machine where
  "ok_machine = \<lparr>boltOpen = \<lambda>_. None, mkdirAll = \<lambda>_. None, netListenUnix = \<lambda>_. None, chmod = \<lambda>_. None,
     netListenTCP = \<lambda>addr. Inr addr\<rparr>"

definition ok_trace :: "action list" where
  "ok_trace = [Opened ''talondb.bbolt'', MadeDir ''.'', Remove ''talondb.sock'', BoundUnix ''talondb.sock'',
     Chmodded ''talondb.sock'', Stdout (''talondb-server ready unix://talondb.sock'' @ [CHR 0x0A]), Go UnixGRPC]"

definition ok_end :: daemon where
  "ok_end = onReturn ((onDrained (onSignal (serve ok_trace (defaultSocket defaultFlags))))\<lparr>dServing := []\<rparr>)"

lemma ok_startup: "startup ok_machine defaultFlags = (ok_trace, Inr (defaultSocket defaultFlags))"
  by code_simp

lemma ok_runs: "runs ok_machine defaultFlags ok_end"
proof -
  define d where "d = serve ok_trace (defaultSocket defaultFlags)"
  have fields: "dPhase d = Serving" "dServing d = [UnixGRPC]" "grpcCalls d = 0" "httpAddr (dFlags d) = []"
    unfolding d_def by code_simp+
  have "daemon_step d (onSignal d)" by (rule signal) (simp add: fields)
  moreover have "daemon_step (onSignal d) (onDrained (onSignal d))"
    by (rule drained) (simp_all add: onSignal_def fields)
  moreover have "daemon_step (onDrained (onSignal d)) ((onDrained (onSignal d))\<lparr>dServing := []\<rparr>)"
    using serve_stopped [of "onDrained (onSignal d)" UnixGRPC]
    by (simp add: onDrained_def onSignal_def fields stopped_def)
  moreover have "daemon_step ((onDrained (onSignal d))\<lparr>dServing := []\<rparr>) ok_end"
    unfolding ok_end_def d_def [symmetric] by (rule all_done) (simp_all add: onDrained_def onSignal_def fields)
  ultimately have "daemon_step\<^sup>*\<^sup>* d ok_end" by (meson converse_rtranclp_into_rtranclp rtranclp.rtrancl_refl)
  then show ?thesis by (auto simp: runs_def ok_startup d_def)
qed

end
