(* ===== verification/Liveness.thy ===== *)
theory Liveness
  imports Store
begin

text \<open>
  When writes succeed. On a database whose transactions begin and commit (\<open>steady\<close>), a deletion
  succeeds in every state that satisfies the invariant, and a put fails for one of the reasons
  listed in \<open>storable\<close> and \<open>short_names\<close> only: a key or a bucket name that bbolt does not
  take, a parent chain that is too deep or leads back to the document, an aggregate that
  overflows, or exhausted ids. Both may still meet bbolt's limit on the size of a value, and then
  report it: \<open>fine\<close> is success or that error, with a rule for each construct of the code.
\<close>

section \<open>Success up to the size of values\<close>

text \<open>The error is bbolt's refusal of a value, wrapped or not.\<close>

fun too_large :: "err \<Rightarrow> bool" where
  "too_large (BoltErr er) = (er = ErrValueTooLarge)"
| "too_large (Wrapf m er) = too_large er"
| "too_large _ = False"

definition fine :: "('tx, 'v, 'bm) ext \<Rightarrow> 'a result \<Rightarrow> bool" where
  "fine X r \<longleftrightarrow> (case r of Inr _ \<Rightarrow> True | Inl er \<Rightarrow> too_large er \<and> (\<exists>v. \<not> value_fits X v))"

lemma fine_Inr [simp]: "fine X (Inr x)"
  by (simp add: fine_def)

lemma fine_wrap [simp]: "fine X (wrapR m r) \<longleftrightarrow> fine X r"
  by (cases r) (simp_all add: fine_def)

lemma fine_bind:
  assumes "fine X m" "\<And>x. m = Inr x \<Longrightarrow> fine X (f x)"
  shows "fine X (bindR m f)"
  using assms by (cases m) (auto simp: fine_def)

lemma fine_bind_iff: "fine X (bindR m f) \<longleftrightarrow> fine X m \<and> (\<forall>x. m = Inr x \<longrightarrow> fine X (f x))"
  by (cases m) (auto simp: fine_def)

lemma fine_foldR:
  assumes "P s" "\<And>x s. x \<in> set xs \<Longrightarrow> P s \<Longrightarrow> fine X (f x s) \<and> (\<forall>s'. f x s = Inr s' \<longrightarrow> P s')"
  shows "fine X (foldR f xs s)"
  using assms
proof (induction xs arbitrary: s)
  case (Cons x xs)
  then have "fine X (f x s)" "\<And>s'. f x s = Inr s' \<Longrightarrow> P s'" by auto
  with Cons show ?case by (auto intro!: fine_bind)
qed simp

lemma fine_all_fit: "fine X r \<Longrightarrow> (\<And>v. value_fits X v) \<Longrightarrow> \<exists>x. r = Inr x"
  by (cases r) (auto simp: fine_def)

section \<open>Reasons for which an index refuses a document\<close>

text \<open>The parent that a document names may be recorded.\<close>

definition parent_ok :: "('tx, 'v, 'bm) ext \<Rightarrow> string \<Rightarrow> string \<Rightarrow> bytes \<Rightarrow> 'tx \<Rightarrow> bool" where
  "parent_ok X e d doc tx \<longleftrightarrow>
     (\<forall>p. closureParent X doc = Some p \<longrightarrow> length (chain_via X tx e p) \<le> closureMaxDepth \<and>
        d \<notin> set (chain_via X tx e p) \<and> (\<forall>a \<in> set (chain_via X tx e p). key_ok a))"

text \<open>The running aggregates that the numbers of a new document enter stay finite.\<close>

definition aggregates_ok :: "('tx, 'v, 'bm) ext \<Rightarrow> string \<Rightarrow> bytes \<Rightarrow> bytes \<Rightarrow> 'tx \<Rightarrow> bool" where
  "aggregates_ok X e old new tx \<longleftrightarrow>
     (\<forall>a x. attr_value X a new = Some x \<longrightarrow> key_ok a \<and>
        (let v = stats_or_zero (stats_of X tx e a) in
           attr_value X a old = None \<longrightarrow> \<not> Stale v \<longrightarrow> stats_finite (statsWelfordAdd x v)))"

text \<open>The keys under which a document enters the indexes are short enough.\<close>

definition doc_keys_ok :: "('tx, 'v, 'bm) ext \<Rightarrow> bytes \<Rightarrow> bool" where
  "doc_keys_ok X doc \<longleftrightarrow>
     (\<forall>t \<in> doc_terms X doc. length t \<le> max_key_size) \<and>
     (\<forall>item sc a v. groupByFields X doc = Some (item, sc) \<longrightarrow> (a, v) \<in> set sc \<longrightarrow>
        length (groupByKey item a v) \<le> max_key_size) \<and>
     (\<forall>item ty tm. temporalFields X doc = Some (item, ty, tm) \<longrightarrow> length (absenceCellKey item ty) \<le> max_key_size)"

definition storable :: "('tx, 'v, 'bm) ext \<Rightarrow> string \<Rightarrow> string \<Rightarrow> bytes \<Rightarrow> 'tx \<Rightarrow> bool" where
  "storable X e d doc tx \<longleftrightarrow>
     length d \<le> max_key_size \<and> doc_keys_ok X doc \<and> parent_ok X e d doc tx \<and>
     aggregates_ok X e (doc_contents X tx e d) doc tx \<and> (id_of X tx e d \<noteq> None \<or> next_id X tx e \<noteq> 0)"

text \<open>The buckets that a put creates have names short enough. The prefixes and suffixes of an entity's
  own buckets add at most eleven bytes.\<close>

definition short_names :: "('tx, 'v, 'bm) ext \<Rightarrow> string \<Rightarrow> bytes \<Rightarrow> bool" where
  "short_names X e doc \<longleftrightarrow>
     length e + 11 \<le> max_key_size \<and>
     (\<forall>f \<in> set (doc_numerics X doc). length (numIndexBucketName e (Path f)) \<le> max_key_size) \<and>
     (\<forall>item ty tm. temporalFields X doc = Some (item, ty, tm) \<longrightarrow> length (temporalBucketName e item) \<le> max_key_size)"

definition creatable :: "('tx, 'v, 'bm) ext \<Rightarrow> string \<Rightarrow> bool" where
  "creatable X n \<longleftrightarrow> (\<forall>tx. \<exists>tx'. create_bucket X n tx = Inr tx')"

definition base_names :: "string \<Rightarrow> string set" where
  "base_names e = {docsBucket e, metaBucket e} \<union> idmap_names e"

definition names_ok :: "('tx, 'v, 'bm) ext \<Rightarrow> string \<Rightarrow> bytes \<Rightarrow> bool" where
  "names_ok X e new \<longleftrightarrow>
     (new \<noteq> [] \<longrightarrow>
       (\<forall>n \<in> {invIndexBucketName e, groupByBucketName e, statsBucketName e, absenceBucketName e} \<union> closure_names e.
          creatable X n) \<and>
       (\<forall>f \<in> set (doc_numerics X new). creatable X (numIndexBucketName e (Path f))) \<and>
       (\<forall>item ty tm. temporalFields X new = Some (item, ty, tm) \<longrightarrow> creatable X (temporalBucketName e item)))"

lemma stats_name_apart:
  "statsBucketName e \<notin> num_names e" "statsBucketName e \<notin> temporal_names e" "statsBucketName e \<notin> closure_names e"
  "statsBucketName e \<noteq> invIndexBucketName e" "statsBucketName e \<noteq> groupByBucketName e"
  unfolding bucket_name_defs by auto

lemma index_invD:
  assumes "index_inv X tx e A B C F G H"
  shows "bm_wf X tx (invIndexBucketName e)" "temporal_ok X tx e" "group_ok X tx e" "closure_ok X tx e"
    "closure_exact X tx e (id_of X tx e)" "stats_ok X tx e" "stats_exact X tx e H" "absence_ok X tx e" "idmap_ok X tx e"
  using assms by (simp_all add: index_inv_def)

lemma doc_keys_okD:
  assumes "doc_keys_ok X doc"
  shows "\<forall>t \<in> doc_terms X doc. length t \<le> max_key_size"
    "groupByFields X doc = Some (item, sc) \<Longrightarrow> (a, v) \<in> set sc \<Longrightarrow> length (groupByKey item a v) \<le> max_key_size"
    "temporalFields X doc = Some (item, ty, tm) \<Longrightarrow> length (absenceCellKey item ty) \<le> max_key_size"
  using assms by (auto simp: doc_keys_ok_def)

lemma store_names_outside:
  "closure_names e \<inter> {docsBucket e, metaBucket e} = {}" "statsBucketName e \<notin> {docsBucket e, metaBucket e}"
  "idmap_names e \<inter> {docsBucket e, metaBucket e} = {}" "index_names e \<inter> {docsBucket e, metaBucket e} = {}"
  using store_names_index [of e e] unfolding index_names_def by auto

section \<open>One index at a time\<close>

locale steady = ext_laws X for X :: "('tx, 'v, 'bm) ext" +
  assumes begins: "begin_err X tx = None"
    and commits: "commit_err X tx = None"
begin

lemma fine_put: "has_bucket X tx n \<Longrightarrow> key_ok k \<Longrightarrow> fine X (liftB (bucket_put X n k v tx))"
  using put_succeeds [of tx n k v] put_value_too_large [of tx n k v]
  by (cases "value_fits X v") (auto simp: key_ok_def fine_def)

lemma fine_delete: "has_bucket X tx n \<Longrightarrow> fine X (liftB (bucket_delete X n k tx))"
  using del_succeeds [of tx n k] by auto

lemma fine_create: "creatable X n \<or> n \<noteq> [] \<and> has_bucket X tx n \<Longrightarrow> fine X (liftB (create_bucket X n tx))"
proof (elim disjE conjE)
  assume "creatable X n"
  then obtain tx' where "create_bucket X n tx = Inr tx'" unfolding creatable_def by blast
  then show ?thesis by simp
next
  assume "n \<noteq> []" "has_bucket X tx n"
  then obtain tx' where "create_bucket X n tx = Inr tx'" using create_succeeds [of n tx] by blast
  then show ?thesis by simp
qed

lemma short_creatable: "n \<noteq> [] \<Longrightarrow> length n \<le> max_key_size \<Longrightarrow> creatable X n"
  using create_succeeds by (simp add: creatable_def)

lemma fine_writeBitmap: "has_bucket X tx n \<Longrightarrow> key_ok k \<Longrightarrow> fine X (writeBitmap X n k bm tx)"
  unfolding writeBitmap_def by (rule fine_put)

lemma writeBitmap_has: "writeBitmap X n k bm tx = Inr tx' \<Longrightarrow> has_bucket X tx' m = has_bucket X tx m"
  by (simp add: writeBitmap_def result_simps put_has)

lemma fine_create_put:
  assumes "creatable X n \<or> n \<noteq> [] \<and> has_bucket X tx n" "key_ok k"
  shows "fine X (bindR (liftB (create_bucket X n tx)) (\<lambda>t. liftB (bucket_put X n k v t)))"
  using assms by (intro fine_bind fine_create fine_put) (auto simp: result_simps create_has)

lemma invIndexAdd_fine:
  assumes "bm_wf X tx (invIndexBucketName e)" "key_ok t" "creatable X (invIndexBucketName e)"
  shows "fine X (invIndexAdd X e t i tx)"
  unfolding invIndexAdd_def Let_def
proof (intro fine_bind)
  let ?b = "invIndexBucketName e"
  show "fine X (liftB (create_bucket X ?b tx))" using assms(3) fine_create by blast
  fix u
  assume "liftB (create_bucket X ?b tx) = Inr u"
  then have u: "create_bucket X ?b tx = Inr u" by (simp add: result_simps)
  show "fine X (case bucket_get X u ?b t of None \<Rightarrow> Inr (bm_new X) | Some raw \<Rightarrow> decodeInvBitmap X raw)"
    using decodeInvBitmap_ok [OF assms(1)] by (fastforce simp: create_get [OF u] split: option.splits)
  show "fine X (writeBitmap X ?b t (bm_add X i bm) u)" for bm
    using assms(2) by (intro fine_writeBitmap) (simp_all add: create_has [OF u])
qed

lemma invIndexRemove_fine:
  assumes "bm_wf X tx (invIndexBucketName e)"
  shows "fine X (invIndexRemove X e t i tx)"
proof (cases "bucket_get X tx (invIndexBucketName e) t")
  case (Some raw)
  obtain bm where "decodeInvBitmap X raw = Inr bm" using decodeInvBitmap_ok [OF assms Some] by blast
  with Some fine_writeBitmap [OF get_has [OF Some] stored_key [OF Some]] fine_delete [OF get_has [OF Some]] show ?thesis
    by (simp add: invIndexRemove_def Let_def)
qed (simp add: invIndexRemove_def Let_def)

lemma hookInverted_fine:
  assumes "bm_wf X tx (invIndexBucketName e)" "\<forall>t \<in> doc_terms X new. length t \<le> max_key_size" "names_ok X e new"
  shows "fine X (hookInverted X e i old new tx)"
proof -
  let ?P = "\<lambda>tx. bm_wf X tx (invIndexBucketName e)"
  obtain os ns where os: "extractTerms X old = Inr os" and ns: "extractTerms X new = Inr ns"
    using extractTerms_total by blast
  obtain rm ad where ra: "diffSortedTerms (Terms os) (Terms ns) = (rm, ad)" by (cases "diffSortedTerms (Terms os) (Terms ns)")
  then have ad: "set ad \<subseteq> doc_terms X new"
    using diffSortedTerms_set [OF extractTerms_ok(1) [OF os] extractTerms_ok(1) [OF ns]] extractTerms_ok(2) [OF ns] by auto
  have key: "key_ok t" "creatable X (invIndexBucketName e)" if "t \<in> set ad" for t
  proof -
    have t: "t \<in> doc_terms X new" using that ad by blast
    then have "t \<noteq> []" using doc_terms_nonempty [of X new] by blast
    with t show "key_ok t" using assms(2) by (simp add: key_ok_def)
    have "new \<noteq> []" using t by (auto simp: doc_terms_def)
    then show "creatable X (invIndexBucketName e)" using assms(3) by (simp add: names_ok_def)
  qed
  have "fine X (foldR (\<lambda>trm. invIndexRemove X e trm i) rm tx)"
    by (rule fine_foldR [where P = ?P, OF assms(1)]) (use invIndexRemove_fine invIndexRemove_effect(3) in blast)
  moreover have "fine X (foldR (\<lambda>trm. invIndexAdd X e trm i) ad t)"
    if "foldR (\<lambda>trm. invIndexRemove X e trm i) rm tx = Inr t" for t
  proof (rule fine_foldR [where P = ?P])
    show "?P t"
      using foldR_inv [OF that, where P = ?P] assms(1) invIndexRemove_effect(3) by blast
  qed (use invIndexAdd_fine key invIndexAdd_effect(3) in blast)
  ultimately show ?thesis
    by (simp add: hookInverted_def updateInvertedIndex_def os ns ra fine_bind)
qed

lemma numIndexAdd_fine: "creatable X (numIndexBucketName e a) \<Longrightarrow> fine X (numIndexAdd X e a v i tx)"
  using fine_create_put [of "numIndexBucketName e a" tx "numEncode v i"]
  by (simp add: numIndexAdd_def key_ok_def max_key_size_def)

lemma numIndexRemove_fine: "fine X (numIndexRemove X e a v i tx)"
  using fine_delete by (simp add: numIndexRemove_def)

lemma hookNumeric_fine:
  assumes "names_ok X e new"
  shows "fine X (hookNumeric X e i old new tx)"
proof -
  obtain os ns where os: "extractTerms X old = Inr os" and ns: "extractTerms X new = Inr ns"
    using extractTerms_total by blast
  have names: "creatable X (numIndexBucketName e (Path n))" if "n \<in> set (Numerics ns)" for n
  proof -
    have n: "n \<in> set (doc_numerics X new)" using that extractTerms_ok(3) [OF ns] by simp
    then have "new \<noteq> []" by (auto simp: doc_numerics_def)
    with n assms show ?thesis by (simp add: names_ok_def)
  qed
  have "fine X (foldR (\<lambda>n. numIndexRemove X e (Path n) (Value n) i) (Numerics os) tx)"
    by (rule fine_foldR [where P = "\<lambda>_. True"]) (simp_all add: numIndexRemove_fine)
  moreover have "fine X (foldR (\<lambda>n. numIndexAdd X e (Path n) (Value n) i) (Numerics ns) t)" for t
    by (rule fine_foldR [where P = "\<lambda>_. True"]) (simp_all add: numIndexAdd_fine names)
  ultimately show ?thesis
    by (simp add: hookNumeric_def updateNumericIndex_def os ns fine_bind)
qed

lemma storeTemporal_fine:
  "creatable X (temporalBucketName e item) \<or> has_bucket X tx (temporalBucketName e item) \<Longrightarrow> fine X (storeTemporal X e item es tx)"
  using fine_create_put [of "temporalBucketName e item" tx logKey]
  by (simp add: storeTemporal_def Let_def key_ok_def logKey_def max_key_size_def temporalBucketName_def)

lemma temporalRemove_fine:
  assumes "temporal_ok X tx e"
  shows "fine X (temporalRemove X e item d tx)"
proof -
  have "has_bucket X tx (temporalBucketName e item)" if "filterOutDocID d (log_of X tx e item) \<noteq> []"
    using that get_has by (fastforce simp: log_of_def filterOutDocID_def split: option.splits)
  with storeTemporal_fine delete_succeeds [of tx "temporalBucketName e item"] show ?thesis
    by (auto simp: temporalRemove_def loadTemporal_succeeds [OF assms] Let_def deleteTemporalKey_def)
qed

lemma temporalAdd_fine:
  "temporal_ok X tx e \<Longrightarrow> creatable X (temporalBucketName e item) \<Longrightarrow> fine X (temporalAdd X e item d ty tm tx)"
  using storeTemporal_fine by (simp add: temporalAdd_def loadTemporal_succeeds Let_def)

lemma updateTemporalIndex_fine:
  assumes "temporal_ok X tx e" "names_ok X e new"
  shows "fine X (updateTemporalIndex X e d old new tx)"
  unfolding updateTemporalIndex_def
proof (rule fine_bind)
  let ?m = "if length old > 0 then (case temporalFields X old of
      Some (oldItem, _, _) \<Rightarrow> temporalRemove X e oldItem d tx | None \<Rightarrow> Inr tx) else Inr tx"
  show "fine X ?m" using temporalRemove_fine [OF assms(1)] by (auto split: option.splits)
  fix t
  assume "?m = Inr t"
  then have "temporal_ok X t e"
    using temporalRemove_effect(2) [OF _ assms(1)] assms(1) by (auto split: if_splits option.splits)
  then show "fine X (if length new > 0 then (case temporalFields X new of
      Some (newItem, recType, at) \<Rightarrow> temporalAdd X e newItem d recType at t | None \<Rightarrow> Inr t) else Inr t)"
    using temporalAdd_fine assms(2) by (auto simp: names_ok_def split: option.splits)
qed

lemma groupByRemove_fine:
  assumes "group_ok X tx e"
  shows "fine X (groupByRemove X e item a v i tx)"
proof (cases "bucket_get X tx (groupByBucketName e) (groupByKey item a v)")
  case (Some raw)
  obtain g bm where "decodeGroup X raw = Inr g" "groupBitmap X g = Inr bm"
    using group_read [OF assms Some] by metis
  with Some get_has [OF Some] fine_put [OF get_has [OF Some] stored_key [OF Some]] fine_delete [OF get_has [OF Some]]
  show ?thesis by (simp add: groupByRemove_def Let_def checked_remove)
qed (simp add: groupByRemove_def Let_def)

lemma groupByAdd_fine:
  assumes "group_ok X tx e" "length (groupByKey item a v) \<le> max_key_size" "creatable X (groupByBucketName e)"
  shows "fine X (groupByAdd X e item a v i tm tx)"
  unfolding groupByAdd_def Let_def
proof (rule fine_bind)
  let ?b = "groupByBucketName e" and ?k = "groupByKey item a v"
  show "fine X (liftB (create_bucket X ?b tx))" using fine_create assms(3) by blast
  fix u
  assume "liftB (create_bucket X ?b tx) = Inr u"
  then have u: "create_bucket X ?b tx = Inr u" by (simp add: result_simps)
  have k: "key_ok ?k" using assms(2) by (simp add: key_ok_def groupByKey_def)
  obtain g bm where "(case bucket_get X u ?b ?k of None \<Rightarrow> Inr zeroGroup | Some raw \<Rightarrow> decodeGroup X raw) = Inr g"
    "groupBitmap X g = Inr bm"
  proof (cases "bucket_get X tx ?b ?k")
    case None
    then show thesis using that [of zeroGroup "bm_new X"] by (simp add: create_get [OF u] groupBitmap_def zeroGroup_def)
  next
    case (Some raw)
    with that show thesis using group_read [OF assms(1) Some] by (metis create_get [OF u] option.simps(5))
  qed
  then show "fine X (bindR (case bucket_get X u ?b ?k of None \<Rightarrow> Inr zeroGroup | Some raw \<Rightarrow> decodeGroup X raw) (\<lambda>v.
      bindR (groupBitmap X v) (\<lambda>bm. case bm_checked_add X i bm of (added, bm) \<Rightarrow>
        liftB (bucket_put X ?b ?k (enc_group X (bumpGroup added tm v\<lparr>Bitmap := bm_write X bm\<rparr>)) u))))"
    using fine_put [OF _ k, of u ?b] by (simp add: checked_add create_has [OF u])
qed

lemma updateGroupByIndex_fine:
  assumes "group_ok X tx e" "names_ok X e new"
    "\<And>item sc a v. groupByFields X new = Some (item, sc) \<Longrightarrow> (a, v) \<in> set sc \<Longrightarrow> length (groupByKey item a v) \<le> max_key_size"
  shows "fine X (updateGroupByIndex X e i old new tx)"
  unfolding updateGroupByIndex_def
proof (rule fine_bind)
  let ?P = "\<lambda>t. group_ok X t e"
  let ?rm = "\<lambda>item sc. foldR (\<lambda>(attr, vl). groupByRemove X e item attr vl i) sc tx"
  let ?m = "if length old > 0 then (case groupByFields X old of Some (oldItem, oldScalars) \<Rightarrow> ?rm oldItem oldScalars
      | None \<Rightarrow> Inr tx) else Inr tx"
  have rm: "fine X (?rm item sc)" for item sc
    by (rule fine_foldR [where P = ?P, OF assms(1)])
      (use groupByRemove_fine groupByRemove_effect(1) in \<open>auto simp: case_prod_unfold\<close>)
  then show "fine X ?m" by (auto split: option.splits)
  fix t
  assume "?m = Inr t"
  moreover have "?P t" if "?rm item sc = Inr t" for item sc
    using foldR_inv [OF that, where P = ?P] assms(1) groupByRemove_effect(1) by (auto simp: case_prod_unfold)
  ultimately have t: "?P t" using assms(1) by (auto split: if_splits option.splits)
  have "fine X (foldR (\<lambda>(attr, vl). groupByAdd X e item attr vl i tm) sc t)"
    if "groupByFields X new = Some (item, sc)" "new \<noteq> []" for item sc tm
  proof (rule fine_foldR [where P = ?P, OF t])
    fix av s
    assume av: "av \<in> set sc" "?P s"
    have "creatable X (groupByBucketName e)" using assms(2) that(2) by (simp add: names_ok_def)
    moreover obtain a v where "av = (a, v)" by (cases av)
    ultimately show "fine X ((case av of (attr, vl) \<Rightarrow> groupByAdd X e item attr vl i tm) s) \<and>
        (\<forall>s'. (case av of (attr, vl) \<Rightarrow> groupByAdd X e item attr vl i tm) s = Inr s' \<longrightarrow> ?P s')"
      using groupByAdd_fine [OF av(2) assms(3) [OF that(1)], of a v] av groupByAdd_effect(1) [of e item a v i tm s] by simp
  qed
  then show "fine X (if length new > 0 then (case groupByFields X new of Some (newItem, newScalars) \<Rightarrow>
      (let at = (case temporalFields X new of Some (_, _, at) \<Rightarrow> at | None \<Rightarrow> 0)
       in foldR (\<lambda>(attr, vl). groupByAdd X e newItem attr vl i at) newScalars t) | None \<Rightarrow> Inr t) else Inr t)"
    by (auto simp: Let_def split: option.splits)
qed

lemma closureRemove_fine:
  assumes "closure_ok X tx e"
  shows "fine X (closureRemove X e d i tx)"
proof (cases "bucket_get X tx (closureAscBucket e) d")
  case (Some raw)
  let ?D = "closureDescBucket e"
  let ?P = "\<lambda>s. bm_wf X s ?D \<and> has_bucket X s ?D"
  let ?f = "\<lambda>anc s. bindR (readBitmap X ?D anc s) (\<lambda>bm. let bm = bm_remove X i bm in
      if bm_is_empty X bm then liftB (bucket_delete X ?D anc s) else writeBitmap X ?D anc bm s)"
  obtain c where c: "dec_chain X raw = Some c" using assms Some unfolding closure_ok_def by blast
  obtain t where t: "bucket_delete X (closureAscBucket e) d tx = Inr t" using del_succeeds [OF get_has [OF Some]] by blast
  have wf: "bm_wf X t ?D" using assms by (simp add: closure_ok_def bm_wf_def del_get [OF t])
  have step: "fine X (?f anc s) \<and> (\<forall>s'. ?f anc s = Inr s' \<longrightarrow> ?P s')" if wf: "?P s" for anc s
  proof -
    obtain bm where bm: "readBitmap X ?D anc s = Inr bm" using readBitmap_ok wf by blast
    have key: "key_ok anc" if "\<not> bm_is_empty X (bm_remove X i bm)"
    proof -
      have "bm_at X s ?D anc \<noteq> {}" using that readBitmap_set [OF bm] iter_remove [of i bm] by (auto simp: is_empty)
      then obtain r where "bucket_get X s ?D anc = Some r" by (auto simp: bm_at_def split: option.splits)
      then show ?thesis by (rule stored_key)
    qed
    have "fine X (?f anc s)"
      using bm fine_delete [of s ?D anc] fine_writeBitmap [of s ?D anc] key wf by (simp add: Let_def)
    moreover have "has_bucket X s' ?D" if "?f anc s = Inr s'" for s'
    proof (cases "bm_is_empty X (bm_remove X i bm)")
      case True
      with that bm have "bucket_delete X ?D anc s = Inr s'" by (simp add: result_simps)
      with wf show ?thesis by (simp add: del_has)
    next
      case False
      with that bm have "writeBitmap X ?D anc (bm_remove X i bm) s = Inr s'" by simp
      with wf show ?thesis by (simp add: writeBitmap_has)
    qed
    ultimately show ?thesis using desc_remove_step(2) wf by blast
  qed
  have "fine X (foldR ?f c t)" if "has_bucket X t ?D"
    using fine_foldR [where P = ?P and f = ?f and xs = c and s = t] wf that step by blast
  with Some c t get_has [OF Some] show ?thesis by (simp add: closureRemove_def Let_def)
qed (simp add: closureRemove_def Let_def)

lemma closureAdd_fine:
  assumes ok: "closure_ok X tx e" and d: "key_ok d" "d \<notin> set (chain_via X tx e p)"
    and depth: "length (chain_via X tx e p) \<le> closureMaxDepth" and keys: "\<forall>a \<in> set (chain_via X tx e p). key_ok a"
    and names: "\<forall>n \<in> closure_names e. creatable X n"
  shows "fine X (closureAdd X e d p i tx)"
proof -
  let ?A = "closureAscBucket e" and ?D = "closureDescBucket e" and ?c = "chain_via X tx e p"
  let ?P = "\<lambda>s. bm_wf X s ?D \<and> has_bucket X s ?D"
  let ?f = "\<lambda>anc tx. bindR (readBitmap X ?D anc tx) (\<lambda>bm. writeBitmap X ?D anc (bm_add X i bm) tx)"
  have cr: "fine X (liftB (create_bucket X ?A s))" "fine X (liftB (create_bucket X ?D s))" for s
    using names fine_create by (auto simp: closure_names_def)
  have step: "fine X (?f anc s) \<and> (\<forall>s'. ?f anc s = Inr s' \<longrightarrow> ?P s')" if a: "anc \<in> set ?c" and wf: "?P s" for anc s
  proof -
    obtain bm where bm: "readBitmap X ?D anc s = Inr bm" using readBitmap_ok wf by blast
    have "bm_iter X (bm_add X i bm) \<noteq> []" using iter_add [of i bm] by auto
    then show ?thesis
      using bm wf keys a fine_writeBitmap [of s ?D anc] writeBitmap_wf writeBitmap_has by simp
  qed
  have "fine X (foldR ?f ?c t3)"
    if "create_bucket X ?A tx = Inr t1" "bucket_put X ?A d (enc_chain X ?c) t1 = Inr t2" "create_bucket X ?D t2 = Inr t3" for t1 t2 t3
  proof (rule fine_foldR [where P = ?P])
    show "?P t3"
      using ok by (simp add: closure_ok_def bm_wf_def create_has [OF that(3)] create_get [OF that(3)]
          put_get [OF that(2)] create_get [OF that(1)])
  qed (use step in blast)
  moreover have "fine X (liftB (bucket_put X ?A d (enc_chain X ?c) t1))" if "create_bucket X ?A tx = Inr t1" for t1
    using fine_put d(1) create_has [OF that] by blast
  ultimately have "fine X (bindR (liftB (create_bucket X ?A tx)) (\<lambda>tx. bindR (liftB (bucket_put X ?A d (enc_chain X ?c) tx)) (\<lambda>tx.
      bindR (liftB (create_bucket X ?D tx)) (foldR ?f ?c))))"
    using cr by (intro fine_bind) (auto simp: result_simps)
  with d(2) depth show ?thesis by (simp add: closureAdd_def closureBuildAncestors_result [OF ok])
qed

lemma updateClosureIndex_fine:
  assumes ok: "closure_ok X tx e" and ex: "closure_exact X tx e ids" and id: "ids d = Some i" and inj: "inj_ids ids"
    and d: "key_ok d" and par: "parent_ok X e d new tx" and names: "names_ok X e new"
  shows "fine X (updateClosureIndex X e d i old new tx)"
  unfolding updateClosureIndex_def
proof (rule fine_bind)
  let ?m = "if length old > 0 then (case closureParent X old of
        Some _ \<Rightarrow> closureRemove X e d i tx | None \<Rightarrow> Inr tx) else Inr tx"
  show "fine X ?m" using closureRemove_fine [OF ok] by (auto split: option.splits)
  have only: "a \<in> set c" if "chain_of X tx e d = Some c" "i \<in> below X tx e a" for c a
    using that ex id inj_idsD [OF inj] unfolding closure_exact_def by (metis option.inject)
  fix t
  assume t: "?m = Inr t"
  have t': "closure_ok X t e \<and> (\<forall>x. x \<noteq> d \<longrightarrow> chain_of X t e x = chain_of X tx e x)"
  proof (cases "closureRemove X e d i tx = Inr t")
    case True
    then show ?thesis using closureRemove_effect(1,2) [OF True ok only] by auto
  next
    case False
    with t ok show ?thesis by (auto split: if_splits option.splits)
  qed
  have "fine X (closureAdd X e d p i t)" if p: "closureParent X new = Some p" "new \<noteq> []" for p
  proof -
    from par p have "d \<noteq> p" by (auto simp: parent_ok_def chain_via_def)
    then have "chain_via X t e p = chain_via X tx e p" using t' by (simp add: chain_via_def)
    with par p t' names show ?thesis by (intro closureAdd_fine [OF _ d]) (simp_all add: parent_ok_def names_ok_def)
  qed
  then show "fine X (if length new > 0 then (case closureParent X new of
      Some parent \<Rightarrow> closureAdd X e d parent i t | None \<Rightarrow> Inr t) else Inr t)"
    by (auto split: option.splits)
qed

lemma stats_of_finite: "stats_finite (stats_or_zero (stats_of X tx e a))"
  by (auto simp: stats_or_zero_def stats_of_def stats_finite_def zeroStats_def f64_finite_def f64_mag_def
      split: option.splits dest: stats_decoded [unfolded stats_finite_def])

lemma statsStore_fine:
  assumes "key_ok a" "stats_finite v" "creatable X (statsBucketName e) \<or> has_bucket X tx (statsBucketName e)"
  shows "fine X (statsStore X e a v tx)"
proof -
  obtain raw where "enc_stats X v = Some raw" using stats_encodes assms(2) by blast
  with fine_create_put [of "statsBucketName e" tx a raw] assms(1,3) show ?thesis
    by (simp add: statsStore_def statsBucketName_def)
qed

lemma statsMarkStale_fine:
  assumes "stats_ok X tx e" "stats_of X tx e a \<noteq> None"
  shows "fine X (statsMarkStale X e a tx)"
proof -
  from assms(2) obtain raw v where "bucket_get X tx (statsBucketName e) a = Some raw" and v: "stats_of X tx e a = Some v"
    by (auto simp: stats_of_def split: option.splits)
  then have "key_ok a" "has_bucket X tx (statsBucketName e)" using stored_key get_has by blast+
  with statsStore_fine [of a "v\<lparr>Stale := True\<rparr>" e tx] stats_of_finite [of tx e a] v show ?thesis
    by (simp add: statsMarkStale_def statsLoad_result [OF assms(1)] stats_or_zero_def stats_finite_def)
qed

lemma statsAddFresh_fine:
  assumes "stats_ok X tx e" "key_ok a" "f64_finite x" "creatable X (statsBucketName e)"
    "\<not> Stale (stats_or_zero (stats_of X tx e a)) \<Longrightarrow> stats_finite (statsWelfordAdd x (stats_or_zero (stats_of X tx e a)))"
  shows "fine X (statsAddFresh X e a x tx)"
  using statsStore_fine [OF assms(2) stats_of_finite [of tx e a], of e tx] statsStore_fine [OF assms(2,5), of e tx] assms(3,4)
  by (cases "Stale (stats_or_zero (stats_of X tx e a))")
    (auto simp: statsAddFresh_def f64_finite_iff statsLoad_result [OF assms(1)])

lemma addFresh_fold_fine:
  assumes new: "aggregates_ok X e old new tx" and names: "creatable X (statsBucketName e)"
    and ps: "distinct ps" "set ps \<subseteq> dom (map_of (byPath (doc_numerics X new)))" and ok: "stats_ok X t e"
    and kept: "\<forall>a \<in> set ps. attr_value X a old = None \<longrightarrow> stats_of X t e a = stats_of X tx e a"
  shows "fine X (foldR (\<lambda>path tx. case map_of (byPath (doc_numerics X old)) path of Some _ \<Rightarrow> Inr tx | None \<Rightarrow>
      (case map_of (byPath (doc_numerics X new)) path of Some x \<Rightarrow> statsAddFresh X e path x tx | None \<Rightarrow> Inr tx)) ps t)"
  using ps ok kept
proof (induction ps arbitrary: t)
  case (Cons a ps)
  show ?case
  proof (cases "attr_value X a old")
    case (Some y)
    with Cons show ?thesis by (simp add: attr_value_def)
  next
    case None
    from Cons.prems(2) obtain x where x: "attr_value X a new = Some x" by (auto simp: attr_value_def)
    have fin: "f64_finite x" using attr_value_finite [OF x] .
    have "fine X (statsAddFresh X e a x t)"
      using new x None Cons.prems(4) by (intro statsAddFresh_fine [OF Cons.prems(3) _ fin names]) (auto simp: aggregates_ok_def Let_def)
    moreover have "fine X (foldR (\<lambda>path tx. case map_of (byPath (doc_numerics X old)) path of Some _ \<Rightarrow> Inr tx | None \<Rightarrow>
      (case map_of (byPath (doc_numerics X new)) path of Some x \<Rightarrow> statsAddFresh X e path x tx | None \<Rightarrow> Inr tx)) ps t')"
      if "statsAddFresh X e a x t = Inr t'" for t'
      using Cons.prems statsAddFresh_effect [OF that Cons.prems(3) fin] by (intro Cons.IH) auto
    ultimately show ?thesis using x None by (simp add: attr_value_def fine_bind)
  qed
qed simp

lemma updateStatsIndex_fine:
  assumes ok: "stats_ok X tx e" and old: "\<forall>a. attr_value X a old \<noteq> None \<longrightarrow> stats_of X tx e a \<noteq> None"
    and new: "aggregates_ok X e old new tx" and names: "names_ok X e new"
  shows "fine X (updateStatsIndex X e (doc_numerics X old) (doc_numerics X new) tx)"
proof -
  let ?os = "byPath (doc_numerics X old)" and ?ns = "byPath (doc_numerics X new)"
  let ?P = "\<lambda>s. stats_ok X s e \<and> (\<forall>a. attr_value X a old \<noteq> None \<longrightarrow> stats_of X s e a \<noteq> None) \<and>
      (\<forall>a. attr_value X a old = None \<longrightarrow> stats_of X s e a = stats_of X tx e a)"
  let ?m = "foldR (statsMarkStale X e) (range_order X (map fst ?os)) tx"
  have keys: "set (range_order X (map fst m)) = dom (map_of m)" for m :: "(string \<times> f64) list"
    using mset_eq_setD [OF range_mset] by (metis dom_map_of_conv_image_fst list.set_map)
  have dist: "distinct (range_order X (map fst ?ns))"
    using distinct_byPath mset_eq_imp_distinct_iff [OF range_mset] by blast
  have step: "fine X (statsMarkStale X e a s) \<and> (\<forall>s'. statsMarkStale X e a s = Inr s' \<longrightarrow> ?P s')"
    if a: "a \<in> set (range_order X (map fst ?os))" and s: "?P s" for a s
  proof -
    from a have v: "attr_value X a old \<noteq> None" unfolding keys attr_value_def by blast
    with s statsMarkStale_fine have "fine X (statsMarkStale X e a s)" by blast
    moreover have "?P s'" if "statsMarkStale X e a s = Inr s'" for s'
      using statsMarkStale_effect [OF that s [THEN conjunct1]] s v by auto
    ultimately show ?thesis by blast
  qed
  have start: "?P tx" using ok old by simp
  have "fine X ?m" using start step by (rule fine_foldR [where P = ?P])
  moreover have "fine X (foldR (\<lambda>path tx. case map_of ?os path of Some _ \<Rightarrow> Inr tx | None \<Rightarrow>
      (case map_of ?ns path of Some x \<Rightarrow> statsAddFresh X e path x tx | None \<Rightarrow> Inr tx)) (range_order X (map fst ?ns)) t)"
    if t: "?m = Inr t" for t
  proof (cases "new = []")
    case True
    then have "range_order X (map fst ?ns) = []" using keys [of ?ns] by (simp add: doc_numerics_def byPath_def)
    then show ?thesis by simp
  next
    case False
    then have "creatable X (statsBucketName e)" using names by (simp add: names_ok_def)
    moreover have "?P t" using foldR_inv [OF t, where P = ?P] start step by blast
    ultimately show ?thesis using dist keys [of ?ns] by (intro addFresh_fold_fine [OF new]) auto
  qed
  ultimately show ?thesis by (simp add: updateStatsIndex_def Let_def option.case_eq_if fine_bind)
qed

lemma absenceRecord_fine:
  assumes "absence_ok X tx e" "length (absenceCellKey item ty) \<le> max_key_size" "creatable X (absenceBucketName e)"
  shows "fine X (absenceRecord X e item ty d tm tx)"
  unfolding absenceRecord_def Let_def
proof (rule fine_bind)
  let ?b = "absenceBucketName e" and ?k = "absenceCellKey item ty"
  show "fine X (liftB (create_bucket X ?b tx))" using fine_create assms(3) by blast
  fix u
  assume "liftB (create_bucket X ?b tx) = Inr u"
  then have u: "create_bucket X ?b tx = Inr u" by (simp add: result_simps)
  have "key_ok ?k" using assms(2) by (simp add: key_ok_def absenceCellKey_def)
  then have p: "fine X (liftB (bucket_put X ?b ?k v u))" for v using fine_put create_has [OF u] by blast
  have "\<exists>cur. dec_abs X raw = Some cur" if "bucket_get X tx ?b ?k = Some raw" for raw
    using assms(1) that by (auto simp: absence_ok_def)
  then show "fine X (case bucket_get X u ?b ?k of
      Some raw \<Rightarrow> (case dec_abs X raw of None \<Rightarrow> Inl (NewErr ''absence: decode'')
        | Some cur \<Rightarrow> if sint tm \<le> sint (AbsAt cur) \<and> AbsDocID cur \<noteq> d then Inr u
            else liftB (bucket_put X ?b ?k (enc_abs X \<lparr>AbsAt = tm, AbsDocID = d\<rparr>) u))
    | None \<Rightarrow> liftB (bucket_put X ?b ?k (enc_abs X \<lparr>AbsAt = tm, AbsDocID = d\<rparr>) u))"
    using p by (cases "bucket_get X tx ?b ?k") (fastforce simp: create_get [OF u])+
qed

lemma absenceRetract_fine:
  assumes "absence_ok X tx e" "temporal_ok X tx e"
  shows "fine X (absenceRetract X e item ty d tx)"
proof (cases "bucket_get X tx (absenceBucketName e) (absenceCellKey item ty)")
  case (Some raw)
  with assms(1) obtain cur where "dec_abs X raw = Some cur" by (auto simp: absence_ok_def)
  with Some get_has [OF Some] fine_put [OF get_has [OF Some] stored_key [OF Some]] fine_delete [OF get_has [OF Some]]
  show ?thesis
    by (simp add: absenceRetract_def Let_def temporalRead_def loadTemporal_succeeds [OF assms(2)])
qed (simp add: absenceRetract_def Let_def)

lemma updateAbsenceIndex_fine:
  assumes ok: "absence_ok X tx e" "temporal_ok X tx e" and names: "names_ok X e new"
    and new: "\<And>item ty tm. temporalFields X new = Some (item, ty, tm) \<Longrightarrow> length (absenceCellKey item ty) \<le> max_key_size"
  shows "fine X (updateAbsenceIndex X e d old new tx)"
  unfolding updateAbsenceIndex_def
proof (rule fine_bind)
  let ?m = "if length old > 0 then (case temporalFields X old of
        Some (oldItem, oldType, _) \<Rightarrow>
          if length new = 0 then absenceRetract X e oldItem oldType d tx else Inr tx
      | None \<Rightarrow> Inr tx) else Inr tx"
  show "fine X ?m" using absenceRetract_fine [OF ok] by (auto split: option.splits)
  fix t
  assume "?m = Inr t"
  then have t: "absence_ok X t e"
    using absenceRetract_effect(1) [OF _ ok] ok(1) by (auto split: if_splits option.splits)
  have "fine X (absenceRecord X e item ty d tm t)" if "temporalFields X new = Some (item, ty, tm)" "new \<noteq> []" for item ty tm
    using absenceRecord_fine [OF t new [OF that(1)]] names that(2) by (simp add: names_ok_def)
  then show "fine X (if length new > 0 then (case temporalFields X new of
      Some (newItem, newType, at) \<Rightarrow> absenceRecord X e newItem newType d at t | None \<Rightarrow> Inr t) else Inr t)"
    by (auto split: option.splits)
qed

lemma idmapWrite_fine:
  assumes "\<forall>n \<in> idmap_names e. has_bucket X tx n" "key_ok d"
  shows "fine X (idmapWrite X e d i tx)"
proof -
  have "key_ok (BigEndian_PutUint32 j)" "key_ok idmapMetaNext" for j
    by (simp_all add: key_ok_def max_key_size_def idmapMetaNext_def)
  with assms fine_put put_has show ?thesis
    by (auto simp: idmapWrite_def fine_bind_iff result_simps idmap_names_def)
qed

lemma idmapAssign_fine:
  assumes ok: "idmap_ok X tx e" and d: "key_ok d" and room: "id_of X tx e d \<noteq> None \<or> next_id X tx e \<noteq> 0"
    and names: "\<forall>n \<in> idmap_names e. creatable X n"
  shows "fine X (idmapAssign X e d tx)"
proof -
  have cr: "\<exists>t. create_bucket X n s = Inr t" if "n \<in> idmap_names e" for n s using that names by (simp add: creatable_def)
  then obtain t1 where c1: "create_bucket X (idmapFwdName e) tx = Inr t1" by (force simp: idmap_names_def)
  from cr obtain t2 where c2: "create_bucket X (idmapRevName e) t1 = Inr t2" by (force simp: idmap_names_def)
  from cr obtain t3 where c3: "create_bucket X (idmapMetaName e) t2 = Inr t3" by (force simp: idmap_names_def)
  have g3: "bucket_get X t3 n k = bucket_get X tx n k" for n k
    by (simp add: create_get [OF c3] create_get [OF c2] create_get [OF c1])
  have nx: "idmapReadNext X e t3 = Inr (next_id X tx e)"
    using idmap_okD(2) [OF ok] by (auto simp: idmapReadNext_def next_id_def g3 split: option.splits)
  have h3: "\<forall>n \<in> idmap_names e. has_bucket X t3 n"
    by (simp add: idmap_names_def create_has [OF c3] create_has [OF c2] create_has [OF c1])
  show ?thesis
  proof (cases "bucket_get X tx (idmapFwdName e) d")
    case (Some raw)
    with c1 idmap_okD(1) [OF ok Some] show ?thesis by (simp add: idmapAssign_def create_get [OF c1])
  next
    case None
    then have "next_id X tx e \<noteq> 0" using room by (simp add: id_of_def)
    with None c1 c2 c3 nx idmapWrite_fine [OF h3 d] show ?thesis by (simp add: idmapAssign_def create_get [OF c1])
  qed
qed

section \<open>The hooks and the operations\<close>

lemma index_steps_fine:
  assumes inv: "index_inv X tx e D D D D D D" and id: "id_of X tx e d = Some i" and u: "utf8_ok d"
    and d: "key_ok d" and keys: "doc_keys_ok X new" and par: "parent_ok X e d new tx"
    and agg: "aggregates_ok X e (D d) new tx" and names: "names_ok X e new"
  shows "fine X (index_steps e d i (D d) new tx)"
  unfolding index_steps_def
proof (intro fine_bind)
  show "fine X (hookInverted X e i (D d) new tx)"
    by (rule hookInverted_fine [OF index_invD(1) [OF inv] doc_keys_okD(1) [OF keys] names])
  fix t1 assume r1: "hookInverted X e i (D d) new tx = Inr t1"
  note s1 = step_inverted [where A = D and d = d, OF r1 inv id]
  show "fine X (hookNumeric X e i (D d) new t1)" by (rule hookNumeric_fine [OF names])
  fix t2 assume r2: "hookNumeric X e i (D d) new t1 = Inr t2"
  note s2 = step_numeric [where B = D and d = d, OF r2 s1]
  show "fine X (updateTemporalIndex X e d (D d) new t2)"
    by (rule updateTemporalIndex_fine [OF index_invD(2) [OF s2(1)] names])
  fix t3 assume r3: "updateTemporalIndex X e d (D d) new t2 = Inr t3"
  note s3 = step_temporal [where C = D and d = d, OF r3 s2 u]
  show "fine X (updateGroupByIndex X e i (D d) new t3)"
    using updateGroupByIndex_fine [where new = new, OF index_invD(3) [OF s3(1)] names] doc_keys_okD(2) [OF keys] by blast
  fix t4 assume r4: "updateGroupByIndex X e i (D d) new t3 = Inr t4"
  note s4 = step_groupby [where F = D and d = d, OF r4 s3]
  note fs = inverted.update_frame [OF r1] numeric.update_frame [OF r2] updateTemporalIndex_frame [OF r3]
    groups.update_frame [OF r4]
  have "chain_of X t4 e = chain_of X tx e"
    by (simp add: frame_closure_views(1) [OF fs(4)] frame_closure_views(1) [OF fs(3)]
        frame_closure_views(1) [OF fs(2)] frame_closure_views(1) [OF fs(1)])
  then have "parent_ok X e d new t4" using par by (simp add: parent_ok_def chain_via_def)
  then show "fine X (updateClosureIndex X e d i (D d) new t4)"
    by (rule updateClosureIndex_fine [OF index_invD(4,5) [OF s4(1)] s4(2) inj_of [OF s4(1)] d _ names])
  fix t5 assume r5: "updateClosureIndex X e d i (D d) new t4 = Inr t5"
  note s5 = step_closure [where G = D and d = d, OF r5 s4]
  note f5 = updateClosureIndex_frame [OF r5]
  have st: "stats_of X t5 e = stats_of X tx e"
    by (simp add: frame_stats_views(1) [OF f5] frame_stats_views(1) [OF fs(4)] frame_stats_views(1) [OF fs(3)]
        frame_stats_views(1) [OF fs(2)] frame_stats_views(1) [OF fs(1)] stats_name_apart)
  have "stats_of X t5 e a \<noteq> None" if "attr_value X a (D d) \<noteq> None" for a
  proof -
    from that have "having X a D \<noteq> {}" by (auto simp: having_def)
    with index_invD(7) [OF inv] show ?thesis unfolding stats_exact_def st by blast
  qed
  then show "fine X (updateStatsIndex X e (doc_numerics X (D d)) (doc_numerics X new) t5)"
    using updateStatsIndex_fine [OF index_invD(6) [OF s5(1)] _ _ names] agg unfolding aggregates_ok_def st by blast
  fix t6 assume r6: "updateStatsIndex X e (doc_numerics X (D d)) (doc_numerics X new) t5 = Inr t6"
  note s6 = step_stats [where H = D and d = d, OF r6 s5(1)]
  show "fine X (updateAbsenceIndex X e d (D d) new t6)"
    using updateAbsenceIndex_fine [where new = new, OF index_invD(8,2) [OF s6(1)] names] doc_keys_okD(3) [OF keys] by blast
qed

lemma frame_put_conditions:
  assumes "frame X N tx tx'" "closure_names e \<inter> N = {}" "statsBucketName e \<notin> N"
  shows "parent_ok X e d doc tx' = parent_ok X e d doc tx" "aggregates_ok X e old doc tx' = aggregates_ok X e old doc tx"
  by (simp_all add: parent_ok_def chain_via_def frame_closure_views(1) [OF assms(1,2)]
      aggregates_ok_def frame_stats_views(1) [OF assms(1,3)])

text \<open>The hooks wrap the errors of the steps and change nothing else.\<close>

lemma hooks_fine_iff:
  "fine X (indexDocOnPut X e d old new tx) \<longleftrightarrow>
     fine X (bindR (idmapAssign X e d tx) (\<lambda>(i, t). index_steps e d i old new t))"
  "idmap_ok X tx e \<Longrightarrow> fine X (indexDocOnDelete X e d old tx) \<longleftrightarrow>
     (\<forall>i. id_of X tx e d = Some i \<longrightarrow> fine X (index_steps e d i old [] tx))"
proof -
  obtain os ns where r: "extractTerms X old = Inr os" "extractTerms X new = Inr ns"
    using extractTerms_total by blast
  have em: "extractTerms X [] = Inr emptyResult" by (simp add: extractTerms_def)
  note defs = index_steps_def hookInverted_def hookNumeric_def fine_bind_iff result_simps extractTerms_ok(3) [OF r(1)]
  show "fine X (indexDocOnPut X e d old new tx) \<longleftrightarrow>
     fine X (bindR (idmapAssign X e d tx) (\<lambda>(i, t). index_steps e d i old new t))"
    by (simp add: indexDocOnPut_def defs r extractTerms_ok(3) [OF r(2)] split: prod.splits)
  assume "idmap_ok X tx e"
  then show "fine X (indexDocOnDelete X e d old tx) \<longleftrightarrow>
     (\<forall>i. id_of X tx e d = Some i \<longrightarrow> fine X (index_steps e d i old [] tx))"
    by (cases "id_of X tx e d")
      (simp_all add: indexDocOnDelete_def defs r em emptyResult_def doc_numerics_def [of X "[]"] idmapLookup_ok)
qed

lemma indexDocOnPut_fine:
  assumes ok: "index_ok X tx e D" and d: "key_ok d" "utf8_ok d" and keys: "doc_keys_ok X new"
    and par: "parent_ok X e d new tx" and agg: "aggregates_ok X e (D d) new tx"
    and room: "id_of X tx e d \<noteq> None \<or> next_id X tx e \<noteq> 0"
    and names: "names_ok X e new" "\<forall>n \<in> base_names e. creatable X n"
  shows "fine X (indexDocOnPut X e d (D d) new tx)"
proof -
  have im: "idmap_ok X tx e" using ok by (simp add: index_ok_def index_inv_def)
  have "fine X (idmapAssign X e d tx)"
    using names(2) by (intro idmapAssign_fine [OF im d(1) room]) (simp add: base_names_def)
  moreover have "fine X (index_steps e d i (D d) new t)" if a: "idmapAssign X e d tx = Inr (i, t)" for i t
  proof -
    note s = step_assign [OF a ok]
    note c = frame_put_conditions [OF idmapAssign_frame [OF a]]
    have "statsBucketName e \<notin> idmap_names e" using index_names_disjoint(6) [of e] by blast
    with index_steps_fine [OF s(1,2) d(2,1) keys _ _ names(1)] par agg c show ?thesis by simp
  qed
  ultimately show ?thesis by (auto simp: hooks_fine_iff(1) fine_bind_iff)
qed

text \<open>The reads of a put, which come before its writes, find what the invariant promises.\<close>

lemma put_reads:
  assumes "docs_ok X tx e" "\<And>n k. bucket_get X t n k = bucket_get X tx n k"
  shows "\<exists>old. priorDoc X e d t = Inr old \<and> contents old = doc_contents X tx e d"
    "\<exists>m. nextMeta X now (bucket_get X t (metaBucket e) d) = Inr m"
proof -
  show "\<exists>old. priorDoc X e d t = Inr old \<and> contents old = doc_contents X tx e d"
    using priorDoc_result [OF assms(1), of d] by (auto simp: priorDoc_def assms(2))
  show "\<exists>m. nextMeta X now (bucket_get X t (metaBucket e) d) = Inr m"
    using assms(1) by (fastforce simp: nextMeta_def assms(2) docs_ok_def split: option.splits)
qed

lemma putInTxEvents_fine:
  assumes ok: "store_ok X tx e" and d: "d \<noteq> []" "utf8_ok d" and st: "storable X e d doc tx"
    and names: "names_ok X e doc" "\<forall>n \<in> base_names e. creatable X n"
  shows "fine X (putInTxEvents X now e d doc tx)"
proof -
  have k: "key_ok d" using d(1) st by (simp add: storable_def key_ok_def)
  have dk: "docs_ok X tx e" and ix: "index_ok X tx e (doc_contents X tx e)" using ok by (simp_all add: store_ok_def)
  obtain t1 where c1: "create_bucket X (docsBucket e) tx = Inr t1"
    using names(2) unfolding base_names_def creatable_def by blast
  obtain t2 where c2: "create_bucket X (metaBucket e) t1 = Inr t2"
    using names(2) unfolding base_names_def creatable_def by blast
  have g2: "bucket_get X t2 n k = bucket_get X tx n k" for n k
    by (simp add: create_get [OF c2] create_get [OF c1])
  have h2: "has_bucket X t2 (docsBucket e)" "has_bucket X t2 (metaBucket e)"
    by (simp_all add: create_has [OF c2] create_has [OF c1])
  obtain old where old: "priorDoc X e d t2 = Inr old" "contents old = doc_contents X tx e d"
    using put_reads(1) [where t = t2, OF dk g2] by blast
  obtain m where m: "nextMeta X now (bucket_get X t2 (metaBucket e) d) = Inr m"
    using put_reads(2) [where t = t2, OF dk g2] by blast
  have "fine X (indexDocOnPut X e d (doc_contents X tx e d) doc t4)"
    if p: "bucket_put X (metaBucket e) d (enc_meta X m) t2 = Inr t3" "bucket_put X (docsBucket e) d (snappy_encode X doc) t3 = Inr t4"
    for t3 t4
  proof -
    have f: "frame X {docsBucket e, metaBucket e} tx t4"
      using frame_create [OF c1] frame_create [OF c2] frame_put [OF p(1)] frame_put [OF p(2)]
      by (meson frame_trans insertI1 insertI2 singletonI)
    have "next_id X t4 e = next_id X tx e"
      by (rule idmap_views_cong(3)) (use store_names_outside(3) in \<open>auto intro!: frame_get [OF f]\<close>)
    then show ?thesis
      using ix st index_inv_frame(2,3) [OF f store_names_outside(4)] frame_put_conditions [OF f store_names_outside(1,2)]
      by (intro indexDocOnPut_fine [where D = "doc_contents X tx e", OF _ k d(2) _ _ _ _ names]) (simp_all add: storable_def)
  qed
  moreover have "fine X (liftB (bucket_put X (metaBucket e) d (enc_meta X m) t2))" by (rule fine_put [OF h2(2) k])
  moreover have "fine X (liftB (bucket_put X (docsBucket e) d (snappy_encode X doc) t3))"
    if "bucket_put X (metaBucket e) d (enc_meta X m) t2 = Inr t3" for t3
    using fine_put [OF _ k] h2(1) put_has [OF that] by blast
  ultimately show ?thesis using old by (simp add: putInTxEvents_def c1 c2 m fine_bind_iff result_simps)
qed

lemma doc_keys_ok_empty: "doc_keys_ok X []"
  by (simp add: doc_keys_ok_def doc_terms_def groupByFields_def temporalFields_def)

lemma deleteKey_succeeds: "\<exists>tx'. deleteKey X n k tx = Inr tx'"
  using del_succeeds [of tx n k] by (auto simp: deleteKey_def)

lemma deleteInTx_fine:
  assumes ok: "store_ok X tx e" and u: "utf8_ok d"
  shows "fine X (deleteInTx X now e d tx)"
proof -
  have dk: "docs_ok X tx e" and ix: "index_ok X tx e (doc_contents X tx e)" using ok by (simp_all add: store_ok_def)
  obtain old where old: "(if has_bucket X tx (docsBucket e) then priorDoc X e d tx else Inr None) = Inr old"
    "contents old = doc_contents X tx e d"
  proof (cases "has_bucket X tx (docsBucket e)")
    case True
    then show thesis using that priorDoc_result [OF dk, of d] by auto
  next
    case False
    then show thesis using that [of None] no_bucket_get by (simp add: doc_contents_def stored_def)
  qed
  obtain t1 t2 where t1: "deleteKey X (docsBucket e) d tx = Inr t1" and t2: "deleteKey X (metaBucket e) d t1 = Inr t2"
    using deleteKey_succeeds by blast
  have f: "frame X {docsBucket e, metaBucket e} tx t2"
    using deleteKey_get(2) [OF t1] deleteKey_get(2) [OF t2] by (meson frame_trans insertI1 insertI2 singletonI)
  have iv: "index_inv X t2 e (doc_contents X tx e) (doc_contents X tx e) (doc_contents X tx e)
      (doc_contents X tx e) (doc_contents X tx e) (doc_contents X tx e)"
    using ix index_inv_frame(1) [OF f store_names_outside(4)] by (simp add: index_ok_def)
  have "fine X (index_steps e d i (doc_contents X tx e d) [] t2)" if i: "id_of X t2 e d = Some i" for i
  proof (rule index_steps_fine [OF iv i u _ doc_keys_ok_empty])
    show "key_ok d" using i by (auto simp: id_of_def dest: stored_key split: option.splits)
  qed (simp_all add: parent_ok_def closureParent_def aggregates_ok_def attr_value_def doc_numerics_def byPath_def names_ok_def)
  with old t1 t2 show ?thesis
    by (cases old) (auto simp: deleteInTx_def fine_bind_iff hooks_fine_iff(2) [OF index_invD(9) [OF iv]])
qed

text \<open>The buckets of an entity have names short enough when the entity's own name is.\<close>

lemma short_names_ok:
  assumes "short_names X e doc"
  shows "names_ok X e doc" "\<forall>n \<in> base_names e. creatable X n"
proof -
  have "length e + 11 \<le> max_key_size" using assms by (simp add: short_names_def)
  then show "names_ok X e doc" "\<forall>n \<in> base_names e. creatable X n"
    using assms unfolding names_ok_def short_names_def base_names_def
    by (auto intro!: short_creatable simp: bucket_name_defs docsBucket_def metaBucket_def)
qed

lemma Put_fine:
  assumes "store_ok X db e" "validateIDs e d = Inr ()" "ctx 0 = None" "utf8_ok d" "storable X e d doc db"
    "names_ok X e doc" "\<forall>n \<in> base_names e. creatable X n"
  shows "(\<exists>ev db'. Put X ctx now e d doc db = (Inr (), db', [ev])) \<or>
    (\<exists>er. Put X ctx now e d doc db = (Inl er, db, []) \<and> too_large er \<and> (\<exists>v. \<not> value_fits X v))"
proof -
  have "d \<noteq> []" using assms(2) validateIDs_ok by blast
  then have "fine X (putInTxEvents X now e d doc db)" using putInTxEvents_fine [OF assms(1) _ assms(4-7)] by blast
  with assms(2,3) show ?thesis
    by (cases "putInTxEvents X now e d doc db")
      (auto simp: Put_def ctxErr_def db_update_def finish_def begins commits fine_def)
qed

lemma Delete_fine:
  assumes "store_ok X db e" "validateIDs e d = Inr ()" "ctx 0 = None" "utf8_ok d"
  shows "(\<exists>evs db'. Delete X ctx now e d db = (Inr (), db', evs)) \<or>
    (\<exists>er. Delete X ctx now e d db = (Inl er, db, []) \<and> too_large er \<and> (\<exists>v. \<not> value_fits X v))"
  using deleteInTx_fine [OF assms(1,4), of now] assms(2,3)
  by (cases "deleteInTx X now e d db")
    (auto simp: Delete_def ctxErr_def db_update_def finish_def begins commits fine_def)

end

section \<open>A database without limits\<close>

text \<open>On a database that takes values of every size and buckets of every name, as the tests of the
  repository may assume of the few short documents they write, nothing is left to fail.\<close>

locale roomy = steady X for X :: "('tx, 'v, 'bm) ext" +
  assumes fits: "value_fits X v"
    and names: "n \<noteq> [] \<Longrightarrow> \<exists>tx'. create_bucket X n tx = Inr tx'"
begin

lemma roomy_names: "names_ok X e doc" "\<forall>n \<in> base_names e. creatable X n"
  unfolding names_ok_def base_names_def creatable_def bucket_name_defs docsBucket_def metaBucket_def
  by (auto intro!: names)

lemma putInTxEvents_succeeds:
  assumes "store_ok X tx e" "d \<noteq> []" "utf8_ok d" "storable X e d doc tx"
  shows "\<exists>ev tx'. putInTxEvents X now e d doc tx = Inr (ev, tx')"
  using fine_all_fit [OF putInTxEvents_fine [OF assms roomy_names] fits] by auto

lemma Put_succeeds:
  assumes "store_ok X db e" "validateIDs e d = Inr ()" "ctx 0 = None" "utf8_ok d" "storable X e d doc db"
  shows "\<exists>ev db'. Put X ctx now e d doc db = (Inr (), db', [ev])"
  using Put_fine [where now = now and ctx = ctx, OF assms roomy_names] fits by blast

lemma Delete_succeeds:
  assumes "store_ok X db e" "validateIDs e d = Inr ()" "ctx 0 = None" "utf8_ok d"
  shows "\<exists>evs db'. Delete X ctx now e d db = (Inr (), db', evs)"
  using Delete_fine [where now = now and ctx = ctx, OF assms] fits by blast

end

end
