(* ===== verification/Floatarith.thy ===== *)
theory Floatarith
  imports Float64
begin

text \<open>
  Facts about \<^verbatim>\<open>float64\<close> arithmetic that the components rest on: a rounded value stays on its side
  of a power of two, so sums, products and quotients of numbers of bounded size are of bounded
  size and finite; an exact result that is representable is returned as it is, so the
  arithmetic of small integers is exact.
\<close>

section \<open>Rounding\<close>

lemma ilog2_bounds: "0 < n \<Longrightarrow> 2 ^ ilog2 n \<le> n \<and> n < 2 ^ Suc (ilog2 n)"
proof (induction n rule: ilog2.induct)
  case (1 n)
  show ?case
  proof (cases "n < 2")
    case True
    with 1 show ?thesis by (subst (1 2) ilog2.simps) simp
  next
    case False
    then have "2 ^ ilog2 (n div 2) \<le> n div 2 \<and> n div 2 < 2 ^ Suc (ilog2 (n div 2))" using 1 by simp
    moreover have "ilog2 n = Suc (ilog2 (n div 2))" using False by (subst ilog2.simps) simp
    ultimately show ?thesis by simp linarith
  qed
qed

lemma ilog2_0 [simp]: "ilog2 0 = 0"
  by (subst ilog2.simps) simp

lemma ilog2_le: "n < 2 ^ Suc k \<Longrightarrow> ilog2 n \<le> k"
proof (cases "n = 0")
  case False
  assume n: "n < 2 ^ Suc k"
  have "(2 :: nat) ^ ilog2 n < 2 ^ Suc k" using ilog2_bounds [of n] False n by linarith
  then have "ilog2 n < Suc k" by (rule power_less_imp_less_exp [rotated]) simp
  then show ?thesis by simp
qed simp

lemma ilog2_ge: "2 ^ k \<le> n \<Longrightarrow> k \<le> ilog2 n"
proof -
  assume n: "2 ^ k \<le> n"
  then have "0 < n" by (metis le_zero_eq not_gr_zero power_eq_0_iff zero_neq_numeral)
  with ilog2_bounds [of n] n have "(2 :: nat) ^ k < 2 ^ Suc (ilog2 n)" by linarith
  then have "k < Suc (ilog2 n)" by (rule power_less_imp_less_exp [rotated]) simp
  then show ?thesis by simp
qed

lemma round_half_even_le:
  assumes "0 < d" "n \<le> d * c"
  shows "round_half_even n d \<le> c"
proof (cases "n div d < c")
  case True
  then show ?thesis by (simp add: round_half_even_def Let_def)
next
  case False
  then have "c \<le> n div d" by simp
  then have "d * c \<le> d * (n div d)" by simp
  moreover have "d * (n div d) + n mod d = n" by simp
  ultimately have "d * (n div d) = d * c" "n mod d = 0" using assms(2) by linarith+
  with assms(1) show ?thesis by (simp add: round_half_even_def Let_def)
qed

lemma round_half_even_ge:
  assumes "0 < d" "d * c \<le> n"
  shows "c \<le> round_half_even n d"
proof -
  have "c \<le> n div d" using assms by (simp add: less_eq_div_iff_mult_less_eq mult.commute)
  then show ?thesis by (simp add: round_half_even_def Let_def)
qed

text \<open>The bits of the power \<open>2^K\<close> of units, \<open>K\<close> at least 52.\<close>

definition pow_mag :: "nat \<Rightarrow> nat" where
  "pow_mag K = (K - 51) * 2 ^ 52"

lemma mag_units_pow: "52 \<le> K \<Longrightarrow> mag_units (pow_mag K) = 2 ^ K"
proof -
  assume K: "52 \<le> K"
  have "mag_units ((K - 51) * 2 ^ 52 + 0) = (2 ^ 52 + 0) * 2 ^ (K - 51 - 1)"
    using mag_units_split [of 0 "K - 51"] K by simp
  also have "\<dots> = 2 ^ (52 + (K - 52))" by (simp only: power_add add_0_right) (simp add: diff_diff_add)
  also have "\<dots> = 2 ^ K" using K by simp
  finally show ?thesis by (simp add: pow_mag_def)
qed

lemma pow_mag_inf: "K \<le> 2098 \<Longrightarrow> pow_mag K \<le> inf_mag"
  unfolding pow_mag_def by (intro mult_le_mono1) simp

lemma unat_make: "m < 2 ^ 63 \<Longrightarrow> unat (f64_make neg m) = m + (if neg then 2 ^ 63 else 0)"
  unfolding f64_make_def unat_of_nat by (rule mod_less) simp

lemma f64_mag_make: "m < 2 ^ 63 \<Longrightarrow> f64_mag (f64_make neg m) = m"
  unfolding f64_mag_alt by (simp add: unat_make)

lemma f64_neg_make: "m < 2 ^ 63 \<Longrightarrow> f64_neg (f64_make neg m) = neg"
  unfolding f64_neg_alt by (simp add: unat_make div_add_self2)

lemma pow_split: "52 \<le> k \<Longrightarrow> (2 :: nat) ^ k = 2 ^ (k - 52) * 2 ^ 52"
  by (metis le_add_diff_inverse2 power_add)

lemma inf_mag_small: "inf_mag < 2 ^ 63"
  by simp

lemma f64_mag_round:
  "f64_mag (f64_round neg n d) =
     min (let s = ilog2 (n div d) - 52 in s * 2 ^ 52 + round_half_even n (d * 2 ^ s)) inf_mag"
proof -
  have "min m inf_mag < 2 ^ 63" for m using inf_mag_small by (rule min.strict_coboundedI2)
  then show ?thesis unfolding f64_round_def Let_def by (rule f64_mag_make)
qed

lemma f64_neg_round: "f64_neg (f64_round neg n d) = neg"
proof -
  have "min m inf_mag < 2 ^ 63" for m using inf_mag_small by (rule min.strict_coboundedI2)
  then show ?thesis unfolding f64_round_def Let_def by (rule f64_neg_make)
qed

text \<open>Rounding does not cross a power of two.\<close>

lemma f64_round_le:
  assumes d: "0 < d" and n: "n \<le> d * 2 ^ K" and K: "52 \<le> K"
  shows "f64_mag (f64_round neg n d) \<le> pow_mag K"
proof -
  let ?q = "n div d" and ?s = "ilog2 (n div d) - 52"
  have q: "?q \<le> 2 ^ K" using d n by (metis div_le_mono nonzero_mult_div_cancel_left less_numeral_extra(3))
  have "?s * 2 ^ 52 + round_half_even n (d * 2 ^ ?s) \<le> (K - 51) * 2 ^ 52"
  proof (cases "ilog2 ?q \<ge> K")
    case True
    moreover have "?q < 2 ^ Suc K" using q by (rule le_less_trans) simp
    ultimately have "ilog2 ?q = K" using ilog2_le [of ?q K] by simp
    moreover have "round_half_even n (d * 2 ^ (K - 52)) \<le> 2 ^ 52"
      using d n by (intro round_half_even_le) (simp_all only: mult.assoc pow_split [OF K] nat_0_less_mult_iff
          zero_less_power zero_less_numeral simp_thms)
    moreover have "(K - 51) = Suc (K - 52)" using K by simp
    ultimately show ?thesis by simp
  next
    case False
    show ?thesis
    proof (cases "?s = 0")
      case True
      have "round_half_even n d \<le> 2 ^ 52 * (K - 51)"
      proof (cases "K = 52")
        case True
        then show ?thesis using d n by (intro round_half_even_le) simp_all
      next
        case K': False
        have "?q < 2 ^ 53"
        proof (cases "?q = 0")
          case False
          then have "?q < 2 ^ Suc (ilog2 ?q)" using ilog2_bounds by simp
          also have "\<dots> \<le> 2 ^ 53" using True by (intro power_increasing) simp_all
          finally show ?thesis .
        qed simp
        then have "n < d * 2 ^ 53" using d by (simp add: div_less_iff_less_mult mult.commute)
        then have "round_half_even n d \<le> 2 ^ 53" using d by (intro round_half_even_le) simp_all
        also have "\<dots> \<le> 2 ^ 52 * (K - 51)" using K K' by simp
        finally show ?thesis .
      qed
      with True show ?thesis by (simp add: mult.commute)
    next
      case s: False
      then have "?q \<noteq> 0" by (metis diff_0_eq_0 ilog2_0)
      then have "?q < 2 ^ Suc (ilog2 ?q)" using ilog2_bounds by simp
      also have "Suc (ilog2 ?q) = ?s + 53" using s by simp
      finally have "n < d * 2 ^ (?s + 53)" using d by (simp add: div_less_iff_less_mult mult.commute)
      then have "round_half_even n (d * 2 ^ ?s) \<le> 2 ^ 53"
        using d by (intro round_half_even_le) (simp_all add: power_add mult.assoc)
      then have "?s * 2 ^ 52 + round_half_even n (d * 2 ^ ?s) \<le> (?s + 2) * 2 ^ 52" by simp
      also have "\<dots> \<le> (K - 51) * 2 ^ 52" using False s by (intro mult_le_mono1) simp
      finally show ?thesis .
    qed
  qed
  then show ?thesis unfolding f64_mag_round Let_def pow_mag_def by (rule min.coboundedI1)
qed

lemma f64_round_ge:
  assumes d: "0 < d" and n: "d * 2 ^ K \<le> n" and K: "52 \<le> K" "K \<le> 2098"
  shows "pow_mag K \<le> f64_mag (f64_round neg n d)"
proof -
  let ?q = "n div d" and ?s = "ilog2 (n div d) - 52"
  have "2 ^ K \<le> ?q" using d n by (simp add: less_eq_div_iff_mult_less_eq mult.commute)
  then have l: "K \<le> ilog2 ?q" by (rule ilog2_ge)
  then have q: "2 ^ ilog2 ?q \<le> ?q" using ilog2_bounds [of ?q] \<open>2 ^ K \<le> ?q\<close>
    by (metis bot_nat_0.not_eq_extremum le_zero_eq power_eq_0_iff zero_neq_numeral)
  then have "d * 2 ^ ilog2 ?q \<le> n" using d by (simp add: less_eq_div_iff_mult_less_eq mult.commute)
  moreover have "(2 :: nat) ^ ilog2 ?q = 2 ^ ?s * 2 ^ 52" using l K(1) by (intro pow_split) linarith
  ultimately have "2 ^ 52 \<le> round_half_even n (d * 2 ^ ?s)"
    using d by (intro round_half_even_ge) (simp_all only: mult.assoc nat_0_less_mult_iff zero_less_power zero_less_numeral simp_thms)
  moreover have "(K - 52) * 2 ^ 52 \<le> ?s * 2 ^ 52" using l by (intro mult_le_mono1) simp
  moreover have "(K - 51) * 2 ^ 52 = (K - 52) * 2 ^ 52 + (2 ^ 52 :: nat)"
  proof -
    have "K - 51 = Suc (K - 52)" using K by simp
    then show ?thesis by simp
  qed
  ultimately have "pow_mag K \<le> ?s * 2 ^ 52 + round_half_even n (d * 2 ^ ?s)" unfolding pow_mag_def by linarith
  then show ?thesis unfolding f64_mag_round Let_def using pow_mag_inf [OF K(2)] by (rule min.boundedI)
qed

section \<open>Bounded magnitudes\<close>

text \<open>The absolute value is at most \<open>2^k\<close>.\<close>

definition f64_within :: "nat \<Rightarrow> f64 \<Rightarrow> bool" where
  "f64_within k x \<longleftrightarrow> f64_mag x \<le> pow_mag (1074 + k)"

lemma f64_within_iff: "f64_within k x \<longleftrightarrow> mag_units (f64_mag x) \<le> 2 ^ (1074 + k)"
proof -
  have "mag_units (f64_mag x) \<le> mag_units (pow_mag (1074 + k)) \<longleftrightarrow> f64_mag x \<le> pow_mag (1074 + k)"
    by (metis mag_units_less_iff not_less)
  then show ?thesis by (simp add: f64_within_def mag_units_pow)
qed

lemma f64_within_mono: "f64_within k x \<Longrightarrow> k \<le> l \<Longrightarrow> f64_within l x"
  unfolding f64_within_def pow_mag_def by (erule le_trans) simp

lemma f64_within_finite: "f64_within k x \<Longrightarrow> k \<le> 1023 \<Longrightarrow> f64_finite x"
proof -
  assume x: "f64_within k x" and k: "k \<le> 1023"
  have "pow_mag (1074 + k) \<le> 2046 * 2 ^ 52" unfolding pow_mag_def using k by (intro mult_le_mono1) simp
  also have "\<dots> < inf_mag" by simp
  finally show ?thesis using x unfolding f64_within_def f64_finite_def by (rule le_less_trans [rotated])
qed

lemma f64_within_finite':
  assumes "f64_within k x" "k \<le> 1023"
  shows "\<not> f64_isNaN x" "\<not> f64_isInf x"
  using f64_within_finite [OF assms] by (simp_all add: f64_finite_iff)

lemma f64_within_round: "0 < d \<Longrightarrow> n \<le> d * 2 ^ (1074 + k) \<Longrightarrow> f64_within k (f64_round neg n d)"
  unfolding f64_within_def by (rule f64_round_le) simp_all

lemma f64_within_0 [simp]: "f64_within k 0"
  by (simp add: f64_within_def f64_mag_alt)

lemma f64_within_make_0 [simp]: "f64_within k (f64_make neg 0)"
  by (simp add: f64_within_def f64_mag_make)

lemma f64_within_negate [simp]: "f64_within k (f64_negate x) = f64_within k x"
  by (simp only: f64_within_def f64_negate_def f64_mag_make [OF f64_mag_bound])

lemma f64_units_abs: "nat \<bar>f64_units x\<bar> = mag_units (f64_mag x)"
  by (simp add: f64_units_def)

lemma f64_within_add:
  assumes "f64_within k x" "f64_within k y" "k \<le> 1022"
  shows "f64_within (Suc k) (f64_add x y)"
proof -
  let ?u = "f64_units x + f64_units y"
  have "nat \<bar>?u\<bar> \<le> nat \<bar>f64_units x\<bar> + nat \<bar>f64_units y\<bar>" by linarith
  also have "\<dots> \<le> 2 ^ (1074 + k) + 2 ^ (1074 + k)"
    unfolding f64_units_abs using assms(1,2) by (intro add_mono) (simp_all only: f64_within_iff)
  also have "\<dots> = 1 * 2 ^ (1074 + Suc k)" by (simp only: add_Suc_right power_Suc mult_1 mult_2)
  finally have "f64_within (Suc k) (f64_round neg (nat \<bar>?u\<bar>) 1)" for neg by (intro f64_within_round) simp_all
  with f64_within_finite' [OF assms(1)] f64_within_finite' [OF assms(2)] assms(3) show ?thesis
    by (simp add: f64_add_def Let_def)
qed

lemma f64_within_sub: "f64_within k x \<Longrightarrow> f64_within k y \<Longrightarrow> k \<le> 1022 \<Longrightarrow> f64_within (Suc k) (f64_sub x y)"
  unfolding f64_sub_def by (rule f64_within_add) simp_all

lemma f64_within_mul:
  assumes "f64_within k x" "f64_within l y" "k \<le> 1023" "l \<le> 1023"
  shows "f64_within (k + l) (f64_mul x y)"
proof -
  have "mag_units (f64_mag x) * mag_units (f64_mag y) \<le> 2 ^ (1074 + k) * 2 ^ (1074 + l)"
    using assms(1,2) by (intro mult_le_mono) (simp_all only: f64_within_iff)
  also have "\<dots> = 2 ^ 1074 * 2 ^ (1074 + (k + l))" by (simp only: power_add [symmetric]) (simp only: add.assoc add.left_commute)
  finally have "f64_within (k + l) (f64_round neg (mag_units (f64_mag x) * mag_units (f64_mag y)) (2 ^ 1074))" for neg
    by (intro f64_within_round) (simp_all only: zero_less_power zero_less_numeral)
  with f64_within_finite' [OF assms(1,3)] f64_within_finite' [OF assms(2,4)] show ?thesis
    by (simp add: f64_mul_def Let_def)
qed

lemma f64_within_div:
  assumes "f64_within k x" "k \<le> 1023" "f64_finite y" "pow_mag 1074 \<le> f64_mag y"
  shows "f64_within k (f64_div x y)"
proof -
  have "mag_units (pow_mag 1074) \<le> mag_units (f64_mag y)" using assms(4) by (metis mag_units_less_iff not_less)
  then have y: "2 ^ 1074 \<le> mag_units (f64_mag y)" using mag_units_pow [of 1074] by simp
  have "mag_units (f64_mag x) * 2 ^ 1074 \<le> 2 ^ (1074 + k) * mag_units (f64_mag y)"
    using assms(1) y by (intro mult_le_mono) (simp_all only: f64_within_iff)
  moreover have "0 < mag_units (f64_mag y)" using y by (rule less_le_trans [rotated]) simp
  ultimately have "f64_within k (f64_round neg (mag_units (f64_mag x) * 2 ^ 1074) (mag_units (f64_mag y)))" for neg
    by (intro f64_within_round) (simp_all only: mult.commute)
  moreover have "f64_mag y \<noteq> 0" using \<open>0 < mag_units (f64_mag y)\<close> by simp
  ultimately show ?thesis
    using f64_within_finite' [OF assms(1,2)] assms(3) by (simp add: f64_div_def Let_def f64_finite_iff)
qed

lemma f64_within_of_int: "\<bar>n\<bar> \<le> 2 ^ k \<Longrightarrow> f64_within k (f64_of_int n)"
proof -
  assume n: "\<bar>n\<bar> \<le> 2 ^ k"
  then have "nat \<bar>n\<bar> \<le> 2 ^ k" by (metis nat_le_iff of_nat_numeral of_nat_power)
  then have "nat \<bar>n\<bar> * 2 ^ 1074 \<le> 1 * 2 ^ (1074 + k)" by (simp add: power_add mult.commute)
  then show ?thesis unfolding f64_of_int_def by (intro f64_within_round) simp_all
qed

lemma f64_of_int_ge_1: "1 \<le> n \<Longrightarrow> pow_mag 1074 \<le> f64_mag (f64_of_int n)"
proof -
  assume "1 \<le> n"
  then have "1 * 2 ^ 1074 \<le> nat \<bar>n\<bar> * (2 :: nat) ^ 1074" by (intro mult_le_mono1) simp
  then show ?thesis unfolding f64_of_int_def by (intro f64_round_ge) simp_all
qed

section \<open>Exact results\<close>

lemma f64_round_exact:
  assumes d: "0 < d" and m: "m < inf_mag"
  shows "f64_round neg (d * mag_units m) d = f64_make neg m"
proof -
  define e f where "e = m div 2 ^ 52" and "f = m mod (2::nat) ^ 52"
  have f: "f < 2 ^ 52" unfolding f_def by (rule mod_less_divisor) simp
  have me: "m = e * 2 ^ 52 + f" unfolding e_def f_def by (simp only: div_mult_mod_eq)
  have rhe: "round_half_even (d * (a * b)) (d * b) = a" if "0 < b" for a b
  proof -
    have "d * (a * b) = (d * b) * a" by (simp only: mult.assoc mult.commute mult.left_commute)
    moreover have "0 < d * b" using d that by simp
    ultimately show ?thesis by (simp add: round_half_even_def)
  qed
  have "(let s = ilog2 (d * mag_units m div d) - 52 in s * 2 ^ 52 + round_half_even (d * mag_units m) (d * 2 ^ s)) = m"
  proof (cases "e = 0")
    case True
    then have u: "mag_units m = f" by (simp only: me mag_units_split [OF f] simp_thms if_True)
    have "f < 2 ^ Suc 51" using f by simp
    then have "ilog2 f \<le> 51" by (rule ilog2_le)
    then have s: "ilog2 (d * f div d) - 52 = 0" using d by simp
    have "round_half_even (d * f) (d * 2 ^ 0) = f" using rhe [of 1 f] by simp
    then have "(let s = ilog2 (d * mag_units m div d) - 52 in s * 2 ^ 52 + round_half_even (d * mag_units m) (d * 2 ^ s)) =
        0 * 2 ^ 52 + f" by (simp only: Let_def u s)
    also have "\<dots> = m" using True me by (simp only: mult_0 add_0)
    finally show ?thesis .
  next
    case False
    then have u: "mag_units m = (2 ^ 52 + f) * 2 ^ (e - 1)" by (simp only: me mag_units_split [OF f] if_False)
    have "ilog2 ((2 ^ 52 + f) * 2 ^ (e - 1)) = 52 + (e - 1)"
    proof (rule ilog2_eqI)
      show "2 ^ (52 + (e - 1)) \<le> (2 ^ 52 + f) * 2 ^ (e - 1)" by (simp only: power_add) simp
      have "(2 ^ 52 + f) * 2 ^ (e - 1) < 2 ^ 53 * 2 ^ (e - 1)" using f by (intro mult_strict_right_mono) simp_all
      also have "\<dots> = 2 ^ Suc (52 + (e - 1))" by (simp only: power_add [symmetric]) simp
      finally show "(2 ^ 52 + f) * 2 ^ (e - 1) < 2 ^ Suc (52 + (e - 1))" .
    qed
    then have "ilog2 (d * mag_units m div d) - 52 = e - 1" using d by (simp add: u)
    moreover have "round_half_even (d * mag_units m) (d * 2 ^ (e - 1)) = 2 ^ 52 + f" unfolding u by (rule rhe) simp
    moreover have "(e - 1) * 2 ^ 52 + (2 ^ 52 + f) = m" using False me by (cases e) simp_all
    ultimately show ?thesis by (simp only: Let_def)
  qed
  then have "f64_round neg (d * mag_units m) d = f64_make neg (min m inf_mag)" unfolding f64_round_def Let_def by (simp only:)
  with m show ?thesis by (simp only: min.absorb3)
qed

text \<open>The integers that a double holds exactly: at most \<open>2^53\<close> in absolute value here.\<close>

lemma int_representable:
  assumes "n \<le> 2 ^ 53"
  shows "\<exists>m < inf_mag. mag_units m = n * 2 ^ 1074"
proof -
  consider "n = 0" | "n = 2 ^ 53" | "0 < n" "n < 2 ^ 53" using assms by linarith
  then show ?thesis
  proof cases
    case 1
    then show ?thesis by (intro exI [of _ 0]) simp
  next
    case 2
    have "pow_mag 1127 < inf_mag" by (simp add: pow_mag_def)
    moreover have "mag_units (pow_mag 1127) = n * 2 ^ 1074" unfolding 2 by (simp add: mag_units_pow flip: power_add)
    ultimately show ?thesis by blast
  next
    case 3
    define k where "k = ilog2 n"
    have k: "2 ^ k \<le> n" "n < 2 ^ Suc k" using ilog2_bounds [OF 3(1)] by (simp_all add: k_def)
    have "k \<le> 52" using ilog2_le [of n 52] 3(2) by (simp add: k_def)
    define f where "f = n * 2 ^ (52 - k) - 2 ^ 52"
    have "2 ^ k * 2 ^ (52 - k) \<le> n * 2 ^ (52 - k)" using k(1) by simp
    then have lo: "2 ^ 52 \<le> n * 2 ^ (52 - k)" using \<open>k \<le> 52\<close> by (simp flip: power_add)
    have "n * 2 ^ (52 - k) < 2 ^ Suc k * 2 ^ (52 - k)" using k(2) by (intro mult_strict_right_mono) simp_all
    also have "\<dots> = 2 ^ 53" using \<open>k \<le> 52\<close> by (simp only: power_add [symmetric]) simp
    finally have hi: "n * 2 ^ (52 - k) < 2 ^ 53" .
    have f: "f < 2 ^ 52" "2 ^ 52 + f = n * 2 ^ (52 - k)" using lo hi by (simp_all add: f_def)
    let ?m = "(1023 + k) * 2 ^ 52 + f"
    have "mag_units ?m = (2 ^ 52 + f) * 2 ^ (1022 + k)" using mag_units_split [OF f(1), of "1023 + k"] by simp
    also have "\<dots> = n * 2 ^ (52 - k + (1022 + k))" by (simp only: f(2) mult.assoc power_add)
    also have "52 - k + (1022 + k) = 1074" using \<open>k \<le> 52\<close> by simp
    finally have "mag_units ?m = n * 2 ^ 1074" .
    moreover have "?m < inf_mag"
    proof -
      have "?m < (1023 + k) * 2 ^ 52 + 2 ^ 52" using f(1) by simp
      also have "\<dots> = (1024 + k) * 2 ^ 52" by simp
      also have "\<dots> \<le> inf_mag" using \<open>k \<le> 52\<close> by (intro mult_le_mono1) simp
      finally show ?thesis .
    qed
    ultimately show ?thesis by blast
  qed
qed

lemma f64_round_int:
  assumes d: "0 < d" and n: "n \<le> 2 ^ 53"
  shows "mag_units (f64_mag (f64_round neg (d * (n * 2 ^ 1074)) d)) = n * 2 ^ 1074"
proof -
  obtain m where m: "m < inf_mag" "mag_units m = n * 2 ^ 1074" using int_representable [OF n] by blast
  have "m < 2 ^ 63" using m(1) inf_mag_small by (rule less_trans)
  with f64_round_exact [OF d m(1), of neg] show ?thesis by (simp only: m(2) f64_mag_make)
qed

lemma f64_of_int_units:
  assumes "\<bar>n\<bar> \<le> 2 ^ 53"
  shows "f64_units (f64_of_int n) = n * 2 ^ 1074" "f64_neg (f64_of_int n) \<longleftrightarrow> n < 0" "f64_within 53 (f64_of_int n)"
    "mag_units (f64_mag (f64_of_int n)) = nat \<bar>n\<bar> * 2 ^ 1074"
proof -
  have "nat \<bar>n\<bar> \<le> 2 ^ 53" using assms by simp
  from f64_round_int [OF _ this, of 1 "n < 0"] show mag: "mag_units (f64_mag (f64_of_int n)) = nat \<bar>n\<bar> * 2 ^ 1074"
    by (simp only: f64_of_int_def mult_1 zero_less_one)
  show neg: "f64_neg (f64_of_int n) \<longleftrightarrow> n < 0" by (simp add: f64_of_int_def f64_neg_round)
  show "f64_within 53 (f64_of_int n)" using assms by (rule f64_within_of_int)
  show "f64_units (f64_of_int n) = n * 2 ^ 1074"
    by (cases "n < 0") (simp_all only: f64_units_def neg mag if_True if_False of_nat_mult of_nat_power of_nat_numeral,
        simp_all)
qed

lemma f64_units_negate: "f64_units (f64_negate x) = - f64_units x" "f64_neg (f64_negate x) \<longleftrightarrow> \<not> f64_neg x"
  by (simp_all only: f64_units_def f64_negate_def f64_mag_make [OF f64_mag_bound] f64_neg_make [OF f64_mag_bound]) simp

lemma f64_of_int_0: "f64_of_int 0 = f64_make False 0"
  using f64_round_exact [of 1 0 False] by (simp add: f64_of_int_def)

lemma add_exact:
  assumes x: "\<not> f64_isNaN x" "\<not> f64_isInf x" and y: "\<not> f64_isNaN y" "\<not> f64_isInf y"
    and u: "f64_units x + f64_units y = c * 2 ^ 1074" and z: "c = 0 \<Longrightarrow> \<not> (f64_neg x \<and> f64_neg y)"
  shows "f64_add x y = f64_of_int c"
proof (cases "c = 0")
  case True
  with x y u z [OF True] show ?thesis by (auto simp: f64_add_def f64_of_int_0)
next
  case False
  then have "f64_add x y = f64_round (c * 2 ^ 1074 < 0) (nat \<bar>c * 2 ^ 1074\<bar>) 1"
    using x y by (simp add: f64_add_def Let_def u)
  moreover have "c * 2 ^ 1074 < 0 \<longleftrightarrow> c < 0" by (simp add: mult_less_0_iff)
  moreover have "nat \<bar>c * 2 ^ 1074\<bar> = nat \<bar>c\<bar> * 2 ^ 1074" by (simp add: abs_mult nat_mult_distrib nat_power_eq)
  ultimately show ?thesis by (simp only: f64_of_int_def)
qed

lemma f64_add_int:
  assumes "\<bar>a\<bar> \<le> 2 ^ 53" "\<bar>b\<bar> \<le> 2 ^ 53"
  shows "f64_add (f64_of_int a) (f64_of_int b) = f64_of_int (a + b)"
  using f64_of_int_units [OF assms(1)] f64_of_int_units [OF assms(2)] f64_within_finite'
  by (intro add_exact) (auto simp: distrib_right)

lemma f64_sub_int:
  assumes "\<bar>a\<bar> \<le> 2 ^ 53" "\<bar>b\<bar> \<le> 2 ^ 53"
  shows "f64_sub (f64_of_int a) (f64_of_int b) = f64_of_int (a - b)"
  using f64_of_int_units [OF assms(1)] f64_of_int_units [OF assms(2)] f64_within_finite'
  unfolding f64_sub_def
  by (intro add_exact) (auto simp: f64_units_negate left_diff_distrib)

lemma f64_div_int:
  assumes b: "0 < b" "\<bar>b\<bar> \<le> 2 ^ 53" and c: "\<bar>b * c\<bar> \<le> 2 ^ 53" "\<bar>c\<bar> \<le> 2 ^ 53"
  shows "f64_div (f64_of_int (b * c)) (f64_of_int b) = f64_of_int c"
proof -
  note ub = f64_of_int_units [OF b(2)] and ubc = f64_of_int_units [OF c(1)]
  have fin: "\<not> f64_isNaN (f64_of_int b)" "\<not> f64_isInf (f64_of_int b)" "\<not> f64_isNaN (f64_of_int (b * c))"
    "\<not> f64_isInf (f64_of_int (b * c))"
    using f64_within_finite' [OF ub(3)] f64_within_finite' [OF ubc(3)] by simp_all
  have pos: "0 < nat \<bar>b\<bar> * 2 ^ (1074 :: nat)" using b(1) by (intro mult_pos_pos) simp_all
  then have nz: "f64_mag (f64_of_int b) \<noteq> 0" using ub(4) by (metis mag_units_0 less_numeral_extra(3))
  have sgn: "((b * c < 0) = (\<not> b < 0)) \<longleftrightarrow> c < 0" using b(1) by (simp add: mult_less_0_iff)
  obtain m where m: "m < inf_mag" "mag_units m = nat \<bar>c\<bar> * 2 ^ 1074"
    using int_representable [of "nat \<bar>c\<bar>"] c(2) by (metis nat_le_iff of_nat_numeral of_nat_power)
  have prod: "nat \<bar>b * c\<bar> * 2 ^ 1074 * 2 ^ 1074 = nat \<bar>b\<bar> * 2 ^ 1074 * mag_units m"
    by (simp only: m(2) abs_mult nat_mult_distrib abs_ge_zero) (simp only: ac_simps)
  have "f64_div (f64_of_int (b * c)) (f64_of_int b) =
      f64_round (c < 0) (nat \<bar>b\<bar> * 2 ^ 1074 * mag_units m) (nat \<bar>b\<bar> * 2 ^ 1074)"
    by (simp only: f64_div_def Let_def fin nz ub(2,4) ubc(2,4) if_False simp_thms prod sgn)
  also have "\<dots> = f64_make (c < 0) m" by (rule f64_round_exact [OF pos m(1)])
  also have "\<dots> = f64_of_int c"
    using f64_round_exact [of 1 m "c < 0"] m by (simp only: f64_of_int_def mult_1 zero_less_one)
  finally show ?thesis .
qed

end
