(* ===== verification/Views.thy ===== *)
theory Views
  imports Liveness Lookup Floatarith
begin

text \<open>
  What a write does to the parts of an entity's indexes that depend on the order of the writes: the
  parent chains, the running aggregates, the last-seen cells, the first and last times of a group,
  and the counter of internal ids. Each is the old value changed by a function of the old and the
  new contents of the document.
\<close>

section \<open>The first and last time of a group\<close>

definition span_of :: "('tx, 'v, 'bm) ext \<Rightarrow> 'tx \<Rightarrow> string \<Rightarrow> bytes \<Rightarrow> (i64 \<times> i64) option" where
  "span_of X tx e k =
     (case bucket_get X tx (groupByBucketName e) k of
        None \<Rightarrow> None
      | Some raw \<Rightarrow> map_option (\<lambda>g. (FirstSeen g, GLastSeen g)) (dec_group X raw))"

definition bump_span :: "i64 \<Rightarrow> (i64 \<times> i64) option \<Rightarrow> i64 \<times> i64" where
  "bump_span tm s =
     (let (f, l) = (case s of None \<Rightarrow> (0, 0) | Some p \<Rightarrow> p)
      in (if f = 0 \<or> sint tm < sint f then tm else f, if sint tm > sint l then tm else l))"

lemma bumpGroup_span: "(FirstSeen (bumpGroup b tm g), GLastSeen (bumpGroup b tm g)) =
    bump_span tm (Some (FirstSeen g, GLastSeen g))"
  by (auto simp: bumpGroup_def bump_span_def Let_def)

lemma frame_span: "frame X N tx tx' \<Longrightarrow> groupByBucketName e \<notin> N \<Longrightarrow> span_of X tx' e = span_of X tx e"
  by (simp add: span_of_def frame_get fun_eq_iff)

context ext_laws
begin

lemma groupByAdd_span:
  assumes run: "groupByAdd X e item a v i tm tx = Inr tx'" and ok: "group_ok X tx e"
  shows "span_of X tx' e k =
    (if k = groupByKey item a v then Some (bump_span tm (span_of X tx e k)) else span_of X tx e k)"
proof -
  let ?b = "groupByBucketName e" and ?k = "groupByKey item a v"
  from run obtain t g bm where c: "create_bucket X ?b tx = Inr t"
    and g: "(case bucket_get X t ?b ?k of None \<Rightarrow> Inr zeroGroup | Some raw \<Rightarrow> decodeGroup X raw) = Inr g"
    and p: "bucket_put X ?b ?k (enc_group X ((bumpGroup (i \<notin> set (bm_iter X bm)) tm g)\<lparr>Bitmap := bm_write X (bm_add X i bm)\<rparr>)) t = Inr tx'"
    by (auto simp: groupByAdd_def Let_def result_simps checked_add)
  have "bump_span tm (span_of X tx e ?k) = bump_span tm (Some (FirstSeen g, GLastSeen g))"
    using g by (auto simp: span_of_def create_get [OF c] decodeGroup_def zeroGroup_def bump_span_def split: option.splits)
  then show ?thesis
    by (auto simp: span_of_def put_get [OF p] create_get [OF c] group_roundtrip bumpGroup_span)
qed

lemma groupByAdd_span_loop:
  assumes "foldR (\<lambda>(a, v). groupByAdd X e item a v i tm) sc tx = Inr tx'" "group_ok X tx e"
    "distinct (map (\<lambda>(a, v). groupByKey item a v) sc)"
  shows "span_of X tx' e k =
    (if k \<in> (\<lambda>(a, v). groupByKey item a v) ` set sc then Some (bump_span tm (span_of X tx e k)) else span_of X tx e k)"
  using assms
proof (induction sc arbitrary: tx)
  case (Cons av sc)
  obtain a v where av: "av = (a, v)" by (cases av)
  from Cons.prems(1) obtain t where t: "groupByAdd X e item a v i tm tx = Inr t"
    "foldR (\<lambda>(a, v). groupByAdd X e item a v i tm) sc t = Inr tx'"
    by (auto simp: av result_simps)
  note ih = Cons.IH [OF t(2) groupByAdd_effect(1) [OF t(1) Cons.prems(2)]]
  have "groupByKey item a v \<notin> (\<lambda>(a, v). groupByKey item a v) ` set sc" using Cons.prems(3) by (auto simp: av)
  with ih Cons.prems(3) show ?case by (auto simp: av groupByAdd_span [OF t(1) Cons.prems(2)])
qed simp

section \<open>One document through the hooks\<close>

lemma index_steps_runs:
  assumes run: "index_steps e d i (D d) new tx = Inr tx'" and inv: "index_inv X tx e D D D D D D"
    and id: "id_of X tx e d = Some i" and u: "utf8_ok d"
  shows "stats_of X tx' e a = stats_update (attr_value X a (D d)) (attr_value X a new) (stats_of X tx e a)"
    "chain_of X tx' e x = (if x = d then map_option (chain_via X tx e) (closureParent X new) else chain_of X tx e x)"
    "new \<noteq> [] \<Longrightarrow> cell_of X tx' e k =
      (case temporalFields X new of
         Some (item, ty, tm) \<Rightarrow>
           if k = absenceCellKey item ty then Some (cell_record d tm (cell_of X tx e k)) else cell_of X tx e k
       | None \<Rightarrow> cell_of X tx e k)"
    "D d = [] \<Longrightarrow> span_of X tx' e k =
      (case groupByFields X new of
         Some (item, sc) \<Rightarrow>
           if distinct (map (\<lambda>(a, v). groupByKey item a v) sc) then
             if k \<in> (\<lambda>(a, v). groupByKey item a v) ` set sc
             then Some (bump_span (case temporalFields X new of Some (_, _, tm) \<Rightarrow> tm | None \<Rightarrow> 0) (span_of X tx e k))
             else span_of X tx e k
           else span_of X tx' e k
       | None \<Rightarrow> span_of X tx e k)"
proof -
  from run obtain t1 t2 t3 t4 t5 t6 where r: "hookInverted X e i (D d) new tx = Inr t1"
    "hookNumeric X e i (D d) new t1 = Inr t2" "updateTemporalIndex X e d (D d) new t2 = Inr t3"
    "updateGroupByIndex X e i (D d) new t3 = Inr t4" "updateClosureIndex X e d i (D d) new t4 = Inr t5"
    "updateStatsIndex X e (doc_numerics X (D d)) (doc_numerics X new) t5 = Inr t6"
    "updateAbsenceIndex X e d (D d) new t6 = Inr tx'"
    by (auto simp: index_steps_def result_simps)
  note s1 = step_inverted [where A = D and d = d, OF r(1) inv id]
  note s2 = step_numeric [where B = D and d = d, OF r(2) s1]
  note s3 = step_temporal [where C = D and d = d, OF r(3) s2 u]
  note s4 = step_groupby [where F = D and d = d, OF r(4) s3]
  note s5 = step_closure [where G = D and d = d, OF r(5) s4]
  note s6 = step_stats [where H = D and d = d, OF r(6) s5(1)]
  note f = inverted.update_frame [OF r(1)] numeric.update_frame [OF r(2)] updateTemporalIndex_frame [OF r(3)]
    groups.update_frame [OF r(4)] updateClosureIndex_frame [OF r(5)] updateStatsIndex_frame [OF r(6)]
    updateAbsenceIndex_frame [OF r(7)]
  have fin: "\<forall>n \<in> set (doc_numerics X new). f64_finite (Value n)" using doc_numerics_finite by blast
  have names: "statsBucketName e \<notin> {absenceBucketName e}" "absenceBucketName e \<notin> num_names e"
    "absenceBucketName e \<notin> temporal_names e" "absenceBucketName e \<notin> closure_names e"
    "absenceBucketName e \<notin> {invIndexBucketName e}" "absenceBucketName e \<notin> {groupByBucketName e}"
    "absenceBucketName e \<notin> {statsBucketName e}" "groupByBucketName e \<notin> num_names e"
    "groupByBucketName e \<notin> temporal_names e" "groupByBucketName e \<notin> closure_names e"
    "groupByBucketName e \<notin> {invIndexBucketName e}" "groupByBucketName e \<notin> {statsBucketName e}"
    "groupByBucketName e \<notin> {absenceBucketName e}"
    "statsBucketName e \<notin> num_names e" "statsBucketName e \<notin> temporal_names e"
    "statsBucketName e \<notin> closure_names e" "statsBucketName e \<notin> {invIndexBucketName e}" "statsBucketName e \<notin> {groupByBucketName e}"
    unfolding bucket_name_defs by auto
  have "stats_of X t5 e = stats_of X tx e" "stats_of X tx' e = stats_of X t6 e"
    by (simp_all only: frame_stats_views(1) [OF f(7) names(1)] frame_stats_views(1) [OF f(5) names(16)] frame_stats_views(1) [OF f(4) names(18)]
        frame_stats_views(1) [OF f(3) names(15)] frame_stats_views(1) [OF f(2) names(14)] frame_stats_views(1) [OF f(1) names(17)])
  then show "stats_of X tx' e a = stats_update (attr_value X a (D d)) (attr_value X a new) (stats_of X tx e a)"
    using updateStatsIndex_effect(2) [OF r(6) index_invD(6) [OF s5(1)] fin, of a] by (simp add: attr_value_def)
  have ch: "chain_of X t4 e = chain_of X tx e" "chain_of X tx' e = chain_of X t5 e"
    by (simp_all add: frame_closure_views(1) [OF f(7)] frame_closure_views(1) [OF f(6)] frame_closure_views(1) [OF f(4)] frame_closure_views(1) [OF f(3)]
        frame_closure_views(1) [OF f(2)] frame_closure_views(1) [OF f(1)])
  have "map_option hd (chain_of X t4 e d) = closureParent X (D d)" using s4(1) by (simp add: index_inv_def)
  then have has: "chain_of X t4 e d \<noteq> None \<longleftrightarrow> closureParent X (D d) \<noteq> None" by (metis option.map_disc_iff)
  have "chain_of X t5 e x = (if x = d then map_option (chain_via X t4 e) (closureParent X new) else chain_of X t4 e x)"
    by (rule updateClosureIndex_effect(3) [OF r(5) index_invD(4,5) [OF s4(1)] s4(2) inj_idsD [OF inj_of [OF s4(1)]] has])
  moreover have "chain_via X t4 e = chain_via X tx e" by (simp add: chain_via_def ch(1) fun_eq_iff)
  ultimately show "chain_of X tx' e x = (if x = d then map_option (chain_via X tx e) (closureParent X new) else chain_of X tx e x)"
    by (simp add: ch)
  have ce: "cell_of X t6 e = cell_of X tx e"
    by (simp_all only: frame_absence_views(1) [OF f(6) names(7)] frame_absence_views(1) [OF f(5) names(4)]
        frame_absence_views(1) [OF f(4) names(6)] frame_absence_views(1) [OF f(3) names(3)] frame_absence_views(1) [OF f(2) names(2)]
        frame_absence_views(1) [OF f(1) names(5)])
  show "cell_of X tx' e k =
      (case temporalFields X new of
         Some (item, ty, tm) \<Rightarrow>
           if k = absenceCellKey item ty then Some (cell_record d tm (cell_of X tx e k)) else cell_of X tx e k
       | None \<Rightarrow> cell_of X tx e k)" if "new \<noteq> []"
  proof -
    have "(case temporalFields X new of
        Some (item, ty, tm) \<Rightarrow> absenceRecord X e item ty d tm t6 | None \<Rightarrow> Inr t6) = Inr tx'"
      using r(7) that by (auto simp: updateAbsenceIndex_def result_simps split: option.splits if_splits)
    with absenceRecord_effect(2) [OF _ index_invD(8) [OF s6(1)] u] ce show ?thesis
      by (cases "temporalFields X new") (auto simp: fun_eq_iff)
  qed
  have sp: "span_of X t3 e = span_of X tx e" "span_of X tx' e = span_of X t4 e"
    by (simp_all only: frame_span [OF f(7) names(13)] frame_span [OF f(6) names(12)] frame_span [OF f(5) names(10)]
        frame_span [OF f(3) names(9)] frame_span [OF f(2) names(8)] frame_span [OF f(1) names(11)])
  show "span_of X tx' e k =
      (case groupByFields X new of
         Some (item, sc) \<Rightarrow>
           if distinct (map (\<lambda>(a, v). groupByKey item a v) sc) then
             if k \<in> (\<lambda>(a, v). groupByKey item a v) ` set sc
             then Some (bump_span (case temporalFields X new of Some (_, _, tm) \<Rightarrow> tm | None \<Rightarrow> 0) (span_of X tx e k))
             else span_of X tx e k
           else span_of X tx' e k
       | None \<Rightarrow> span_of X tx e k)" if "D d = []"
  proof -
    have "(case groupByFields X new of
        Some (item, sc) \<Rightarrow> foldR (\<lambda>(a, v). groupByAdd X e item a v i
          (case temporalFields X new of Some (_, _, tm) \<Rightarrow> tm | None \<Rightarrow> 0)) sc t3
      | None \<Rightarrow> Inr t3) = Inr t4"
      using r(4) that groupByFields_nonempty [of X new]
      by (cases "groupByFields X new"; cases "new = []") (auto simp: updateGroupByIndex_def Let_def)
    with groupByAdd_span_loop [OF _ index_invD(3) [OF s3(1)]] sp show ?thesis
      by (cases "groupByFields X new") auto
  qed
qed

section \<open>One document through the operations\<close>

lemma idmapAssign_next:
  assumes "idmapAssign X e d tx = Inr (i, tx')"
  shows "next_id X tx' e = (if id_of X tx e d = None then next_id X tx e + 1 else next_id X tx e)"
  using assms
proof (cases rule: idmapAssign_cases)
  case existing
  then show ?thesis by (simp add: next_id_def)
next
  case (fresh t)
  have "next_id X tx' e = i + 1" by (rule idmapWrite_ok(5) [OF fresh(6)])
  with fresh show ?thesis by simp
qed

lemma put_views:
  assumes run: "putInTxEvents X now e d doc tx = Inr (ev, tx')" and ok: "store_ok X tx e" and u: "utf8_ok d"
  shows "stats_of X tx' e a =
      stats_update (attr_value X a (doc_contents X tx e d)) (attr_value X a doc) (stats_of X tx e a)"
    "chain_of X tx' e x = (if x = d then map_option (chain_via X tx e) (closureParent X doc) else chain_of X tx e x)"
    "doc \<noteq> [] \<Longrightarrow> cell_of X tx' e k =
      (case temporalFields X doc of
         Some (item, ty, tm) \<Rightarrow>
           if k = absenceCellKey item ty then Some (cell_record d tm (cell_of X tx e k)) else cell_of X tx e k
       | None \<Rightarrow> cell_of X tx e k)"
    "doc_contents X tx e d = [] \<Longrightarrow> groupByFields X doc = Some (item, sc) \<Longrightarrow>
      distinct (map (\<lambda>(a, v). groupByKey item a v) sc) \<Longrightarrow> span_of X tx' e k =
        (if k \<in> (\<lambda>(a, v). groupByKey item a v) ` set sc
         then Some (bump_span (case temporalFields X doc of Some (_, _, tm) \<Rightarrow> tm | None \<Rightarrow> 0) (span_of X tx e k))
         else span_of X tx e k)"
    "next_id X tx' e = (if id_of X tx e d = None then next_id X tx e + 1 else next_id X tx e)"
proof -
  obtain old t where p: "priorDoc X e d tx = Inr old" and f: "frame X {docsBucket e, metaBucket e} tx t"
    and ix: "indexDocOnPut X e d (contents old) doc t = Inr tx'"
    using putInTxEvents_parts [OF run] by blast
  let ?D = "doc_contents X tx e"
  have dk: "docs_ok X tx e" and ik: "index_ok X tx e ?D" using ok by (simp_all add: store_ok_def)
  have old: "contents old = ?D d" using priorDoc_result [OF dk, of d] p by auto
  obtain i t2 where a: "idmapAssign X e d t = Inr (i, t2)" and s: "index_steps e d i (?D d) doc t2 = Inr tx'"
    using ix unfolding indexDocOnPut_steps old by blast
  have ikt: "index_ok X t e ?D" using ik index_inv_frame(3) [OF f store_names_outside(4)] by simp
  note asg = step_assign [OF a ikt]
  note v = index_steps_runs [where D = ?D and d = d, OF s asg(1,2) u]
  note fa = idmapAssign_frame [OF a]
  have names: "statsBucketName e \<notin> idmap_names e" "absenceBucketName e \<notin> idmap_names e"
    "groupByBucketName e \<notin> idmap_names e" "statsBucketName e \<notin> {docsBucket e, metaBucket e}"
    "absenceBucketName e \<notin> {docsBucket e, metaBucket e}" "groupByBucketName e \<notin> {docsBucket e, metaBucket e}"
    unfolding bucket_name_defs docsBucket_def metaBucket_def by auto
  have same: "stats_of X t2 e = stats_of X tx e" "chain_of X t2 e = chain_of X tx e" "cell_of X t2 e = cell_of X tx e"
    "span_of X t2 e = span_of X tx e"
    by (simp_all add: frame_stats_views(1) [OF fa names(1)] frame_stats_views(1) [OF f names(4)]
        frame_closure_views(1) [OF fa] frame_closure_views(1) [OF f store_names_outside(1)]
        frame_absence_views(1) [OF fa names(2)] frame_absence_views(1) [OF f names(5)]
        frame_span [OF fa names(3)] frame_span [OF f names(6)])
  have via: "chain_via X t2 e = chain_via X tx e" by (simp add: chain_via_def same(2) fun_eq_iff)
  show "stats_of X tx' e a =
      stats_update (attr_value X a (doc_contents X tx e d)) (attr_value X a doc) (stats_of X tx e a)"
    using v(1) same(1) by simp
  show "chain_of X tx' e x = (if x = d then map_option (chain_via X tx e) (closureParent X doc) else chain_of X tx e x)"
    using v(2) same(2) via by simp
  show "doc \<noteq> [] \<Longrightarrow> cell_of X tx' e k =
      (case temporalFields X doc of
         Some (item, ty, tm) \<Rightarrow>
           if k = absenceCellKey item ty then Some (cell_record d tm (cell_of X tx e k)) else cell_of X tx e k
       | None \<Rightarrow> cell_of X tx e k)"
    using v(3) [of k] unfolding same(3) .
  show "doc_contents X tx e d = [] \<Longrightarrow> groupByFields X doc = Some (item, sc) \<Longrightarrow>
      distinct (map (\<lambda>(a, v). groupByKey item a v) sc) \<Longrightarrow> span_of X tx' e k =
        (if k \<in> (\<lambda>(a, v). groupByKey item a v) ` set sc
         then Some (bump_span (case temporalFields X doc of Some (_, _, tm) \<Rightarrow> tm | None \<Rightarrow> 0) (span_of X tx e k))
         else span_of X tx e k)"
    using v(4) [of k] same(4) by simp
  have nt: "next_id X t e = next_id X tx e"
    by (rule idmap_views_cong(3)) (use store_names_outside(3) in \<open>auto intro!: frame_get [OF f]\<close>)
  have "next_id X tx' e = next_id X t2 e"
    by (rule idmap_views_cong(3)) (auto intro!: frame_get [OF index_steps_frame [OF s]])
  moreover have "id_of X t e d = id_of X tx e d" using frame_idmap_views(1) [OF f store_names_outside(3)] by simp
  ultimately show "next_id X tx' e = (if id_of X tx e d = None then next_id X tx e + 1 else next_id X tx e)"
    using idmapAssign_next [OF a] nt by simp
qed

lemma delete_views:
  assumes run: "deleteInTx X now e d tx = Inr (evs, tx')" and ok: "store_ok X tx e" and u: "utf8_ok d"
  shows "stats_of X tx' e a = stats_of X tx e a \<or> Stale (stats_or_zero (stats_of X tx' e a))"
    "next_id X tx' e = next_id X tx e"
proof -
  let ?D = "doc_contents X tx e"
  have dk: "docs_ok X tx e" and ik: "index_ok X tx e ?D" using ok by (simp_all add: store_ok_def)
  obtain old t where old: "contents old = ?D d" and f: "frame X {docsBucket e, metaBucket e} tx t"
    and rest: "case old of None \<Rightarrow> evs = [] \<and> tx' = t
     | Some b \<Rightarrow> indexDocOnDelete X e d b t = Inr tx' \<and>
         evs = [\<lparr>Kind = EventRetract, EntityID = e, DocID = d, OldDoc = old, NewDoc = None, AtUnixNanos = now\<rparr>]"
    using deleteInTx_parts [OF run dk] by - (elim exE conjE, rule that)
  have nt: "next_id X t e = next_id X tx e"
    by (rule idmap_views_cong(3)) (use store_names_outside(3) in \<open>auto intro!: frame_get [OF f]\<close>)
  have st: "stats_of X t e = stats_of X tx e" by (rule frame_stats_views(1) [OF f store_names_outside(2)])
  have inv: "index_inv X t e ?D ?D ?D ?D ?D ?D"
    using ik index_inv_frame(1) [OF f store_names_outside(4)] by (simp add: index_ok_def)
  have "tx' = t \<or> (\<exists>i. id_of X t e d = Some i \<and> index_steps e d i (?D d) [] t = Inr tx')"
    using rest old indexDocOnDelete_steps [OF index_invD(9) [OF inv], of d "?D d" tx'] by (auto split: option.splits)
  then consider "tx' = t" | i where "id_of X t e d = Some i" "index_steps e d i (?D d) [] t = Inr tx'" by blast
  then have "(stats_of X tx' e a = stats_of X tx e a \<or> Stale (stats_or_zero (stats_of X tx' e a))) \<and>
    next_id X tx' e = next_id X tx e"
  proof cases
    case 1
    with st nt show ?thesis by simp
  next
    case 2
    have "attr_value X a [] = None" by (simp add: attr_value_def doc_numerics_def byPath_def)
    moreover have "next_id X tx' e = next_id X t e"
      by (rule idmap_views_cong(3)) (auto intro!: frame_get [OF index_steps_frame [OF 2(2)]])
    ultimately show ?thesis
      using index_steps_runs(1) [where D = ?D and d = d, OF 2(2) inv 2(1) u, of a] st nt
      by (auto simp: stats_update_def stats_or_zero_def split: option.splits)
  qed
  then show "stats_of X tx' e a = stats_of X tx e a \<or> Stale (stats_or_zero (stats_of X tx' e a))"
    "next_id X tx' e = next_id X tx e" by simp_all
qed

end

end
