(* ===== verification/Conformance.thy ===== *)
theory Conformance
  imports Views Sequence Cluster
begin

text \<open>
  \<^verbatim>\<open>talondbtest/conformance.go\<close> and \<^verbatim>\<open>talondbtest/indexed.go\<close>: the conformance suites that every
  implementation of \<^verbatim>\<open>DocumentStore\<close> (\<^verbatim>\<open>docstore.go\<close>) and \<^verbatim>\<open>IndexedStore\<close> (\<^verbatim>\<open>indexed.go\<close>) has to
  pass. An implementation is a record of operations on a state \<open>'s\<close>; a test is a function that
  runs the operations on a fresh store and tells whether the test passes, false where the
  code calls \<^verbatim>\<open>t.Fatal\<close>.
\<close>

section \<open>The interfaces\<close>

text \<open>The variables that the callbacks of the suite capture.\<close>

record captured =
  seenIDs :: "string list"
  seenCount :: nat

record 's DocumentStore =
  dsPut :: "ctx \<Rightarrow> string \<Rightarrow> string \<Rightarrow> bytes \<Rightarrow> 's \<Rightarrow> unit result \<times> 's"
  dsGet :: "ctx \<Rightarrow> string \<Rightarrow> string \<Rightarrow> 's \<Rightarrow> gobytes result"
  dsDelete :: "ctx \<Rightarrow> string \<Rightarrow> string \<Rightarrow> 's \<Rightarrow> unit result \<times> 's"
  dsBatchPut :: "ctx \<Rightarrow> string \<Rightarrow> (string \<times> bytes) list \<Rightarrow> 's \<Rightarrow> unit result \<times> 's"
  dsScan :: "ctx \<Rightarrow> string \<Rightarrow> (string \<Rightarrow> gobytes \<Rightarrow> captured \<Rightarrow> bool \<times> captured) \<Rightarrow> 's \<Rightarrow> captured \<Rightarrow> unit result \<times> captured"

record 's IndexedStore = "'s DocumentStore" +
  isLookup :: "ctx \<Rightarrow> string \<Rightarrow> string \<Rightarrow> 's \<Rightarrow> DocIDSet result"
  isLookupPrefix :: "ctx \<Rightarrow> string \<Rightarrow> string \<Rightarrow> 's \<Rightarrow> DocIDSet result"
  isLookupNumericRange :: "ctx \<Rightarrow> string \<Rightarrow> string \<Rightarrow> f64 \<Rightarrow> f64 \<Rightarrow> RangeOpts \<Rightarrow> 's \<Rightarrow> DocIDSet result"
  isWindowQuery :: "ctx \<Rightarrow> string \<Rightarrow> string \<Rightarrow> string list \<Rightarrow> i64 \<Rightarrow> 's \<Rightarrow> (TemporalEvent list) result"
  isClusterQuery :: "ctx \<Rightarrow> string \<Rightarrow> string \<Rightarrow> string list \<Rightarrow> i64 \<Rightarrow> int \<Rightarrow> 's \<Rightarrow> (TemporalCluster list) result"
  isSequenceJoin :: "ctx \<Rightarrow> string \<Rightarrow> string list \<Rightarrow> string list \<Rightarrow> i64 \<Rightarrow> 's \<Rightarrow> (SequenceMatch list) result"
  isGroupCount :: "ctx \<Rightarrow> string \<Rightarrow> string \<Rightarrow> string \<Rightarrow> string \<Rightarrow> 's \<Rightarrow> GroupBucket result"
  isStats :: "ctx \<Rightarrow> string \<Rightarrow> string \<Rightarrow> 's \<Rightarrow> RunningStats result \<times> 's"
  isLastSeen :: "ctx \<Rightarrow> string \<Rightarrow> string \<Rightarrow> string \<Rightarrow> 's \<Rightarrow> (i64 option) result"
  isAncestors :: "ctx \<Rightarrow> string \<Rightarrow> string \<Rightarrow> 's \<Rightarrow> (string list) result"
  isDescendants :: "ctx \<Rightarrow> string \<Rightarrow> string \<Rightarrow> 's \<Rightarrow> DocIDSet result"

text \<open>\<^verbatim>\<open>context.Background()\<close>, and a context on which \<^verbatim>\<open>cancel()\<close> has been called.\<close>

definition ctxBackground :: ctx where
  "ctxBackground = (\<lambda>_. None)"

definition ctxCanceled :: ctx where
  "ctxCanceled = (\<lambda>_. Some Canceled)"

text \<open>\<^verbatim>\<open>if err := ...; err != nil { t.Fatalf(...) }\<close>, and the tests for \<^verbatim>\<open>talondb.ErrNotFound\<close> and
  \<^verbatim>\<open>context.Canceled\<close>.\<close>

definition must :: "'a result \<times> 's \<Rightarrow> ('s \<Rightarrow> bool) \<Rightarrow> bool" where
  "must r k = (case r of (Inl _, _) \<Rightarrow> False | (Inr _, s) \<Rightarrow> k s)"

definition notFound :: "'a result \<Rightarrow> bool" where
  "notFound r = (case r of Inl er \<Rightarrow> errors_Is er ErrNotFound | Inr _ \<Rightarrow> False)"

fun is_canceled :: "err \<Rightarrow> bool" where
  "is_canceled Canceled = True"
| "is_canceled (Wrapf m e) = is_canceled e"
| "is_canceled _ = False"

definition failed :: "'a result \<Rightarrow> bool" where
  "failed r = (case r of Inl _ \<Rightarrow> True | Inr _ \<Rightarrow> False)"

definition equalStrings :: "string list \<Rightarrow> string list \<Rightarrow> bool" where
  "equalStrings a b = (if length a \<noteq> length b then False else list_all (\<lambda>i. a ! i = b ! i) [0..<length a])"

section \<open>The suite for document stores\<close>

definition testPutGetRoundtrip :: "('s, 'z) DocumentStore_scheme \<Rightarrow> 's \<Rightarrow> bool" where
  \<open>testPutGetRoundtrip S s =
     (let ctx = ctxBackground; doc = ''{"hello":"world","n":42}'' in
      must (dsPut S ctx ''tenant-a'' ''doc-1'' doc s) (\<lambda>s.
      case dsGet S ctx ''tenant-a'' ''doc-1'' s of
        Inl _ \<Rightarrow> False
      | Inr got \<Rightarrow> contents got = doc))\<close>

text \<open>The subtests share one store; a subtest that fails does not stop the following ones.\<close>

fun getMissingCases :: "('s, 'z) DocumentStore_scheme \<Rightarrow> (string \<times> string \<times> string \<times> string \<times> string) list \<Rightarrow> 's \<Rightarrow> bool" where
  "getMissingCases S [] s = True"
| "getMissingCases S ((name, seedEntity, seedDocID, queryEntity, queryDocID) # tests) s =
     (let (ok, s) =
        (if seedEntity \<noteq> [] then
           (case dsPut S ctxBackground seedEntity seedDocID ''{}'' s of
              (Inl _, s) \<Rightarrow> (False, s)
            | (Inr _, s) \<Rightarrow> (notFound (dsGet S ctxBackground queryEntity queryDocID s), s))
         else (notFound (dsGet S ctxBackground queryEntity queryDocID s), s))
      in getMissingCases S tests s \<and> ok)"

definition testGetMissing :: "('s, 'z) DocumentStore_scheme \<Rightarrow> 's \<Rightarrow> bool" where
  "testGetMissing S s =
     getMissingCases S
       [(''empty store'', '''', '''', ''tenant-a'', ''doc-1''),
        (''wrong entity'', ''tenant-a'', ''doc-1'', ''tenant-b'', ''doc-1''),
        (''wrong doc id'', ''tenant-a'', ''doc-1'', ''tenant-a'', ''doc-2'')] s"

definition testDeleteIdempotent :: "('s, 'z) DocumentStore_scheme \<Rightarrow> 's \<Rightarrow> bool" where
  "testDeleteIdempotent S s =
     (let ctx = ctxBackground in
      must (dsDelete S ctx ''tenant-a'' ''doc-1'' s) (\<lambda>s.
      must (dsPut S ctx ''tenant-a'' ''doc-1'' ''{}'' s) (\<lambda>s.
      must (dsDelete S ctx ''tenant-a'' ''doc-1'' s) (\<lambda>s.
      must (dsDelete S ctx ''tenant-a'' ''doc-1'' s) (\<lambda>s.
      notFound (dsGet S ctx ''tenant-a'' ''doc-1'' s))))))"

definition testBatchPutAtomic :: "('s, 'z) DocumentStore_scheme \<Rightarrow> 's \<Rightarrow> bool" where
  \<open>testBatchPutAtomic S s =
     (let ctx = ctxBackground;
          docs = [(''a'', ''{"v":"a"}''), (''b'', ''{"v":"b"}''), (''c'', ''{"v":"c"}'')] in
      must (dsBatchPut S ctx ''tenant-a'' docs s) (\<lambda>s.
      list_all (\<lambda>(k, want).
        case dsGet S ctx ''tenant-a'' k s of Inl _ \<Rightarrow> False | Inr got \<Rightarrow> contents got = want) docs))\<close>

definition testBatchPutRollback :: "('s, 'z) DocumentStore_scheme \<Rightarrow> 's \<Rightarrow> bool" where
  \<open>testBatchPutRollback S s =
     must (dsPut S ctxBackground ''tenant-a'' ''existing'' ''{"keep":true}'' s) (\<lambda>s.
     let docs = [(''x'', ''{}''), (''y'', ''{}'')] in
     case dsBatchPut S ctxCanceled ''tenant-a'' docs s of (r, s) \<Rightarrow>
       (case r of Inl er \<Rightarrow> is_canceled er | Inr _ \<Rightarrow> False) \<and>
       list_all (\<lambda>k. notFound (dsGet S ctxBackground ''tenant-a'' k s)) [''x'', ''y''] \<and>
       \<not> failed (dsGet S ctxBackground ''tenant-a'' ''existing'' s))\<close>

definition testBatchPutInvalid :: "('s, 'z) DocumentStore_scheme \<Rightarrow> 's \<Rightarrow> bool" where
  "testBatchPutInvalid S s =
     (let docs = [(''a'', ''{}''), ('''', ''{}'')] in
      case dsBatchPut S ctxBackground ''tenant-a'' docs s of (r, s) \<Rightarrow>
        failed r \<and> notFound (dsGet S ctxBackground ''tenant-a'' ''a'' s))"

definition testScan :: "('s, 'z) DocumentStore_scheme \<Rightarrow> 's \<Rightarrow> bool" where
  \<open>testScan S s =
     (let ctx = ctxBackground;
          docs = [(''a'', ''{"v":1}''), (''b'', ''{"v":2}''), (''c'', ''{"v":3}''), (''d'', ''{"v":4}'')];
          none = \<lparr>seenIDs = [], seenCount = 0\<rparr> in
      must (dsBatchPut S ctx ''tenant-a'' docs s) (\<lambda>s.
      must (dsScan S ctx ''tenant-a'' (\<lambda>id _ c. (True, c\<lparr>seenIDs := seenIDs c @ [id]\<rparr>)) s none) (\<lambda>visited.
      equalStrings (sort (seenIDs visited)) [''a'', ''b'', ''c'', ''d''] \<and>
      must (dsScan S ctx ''tenant-a''
              (\<lambda>id _ c. let c = c\<lparr>seenIDs := seenIDs c @ [id]\<rparr> in (length (seenIDs c) < 2, c)) s none) (\<lambda>stopped.
      length (seenIDs stopped) = 2))))\<close>

definition testScanEmpty :: "('s, 'z) DocumentStore_scheme \<Rightarrow> 's \<Rightarrow> bool" where
  "testScanEmpty S s =
     must (dsScan S ctxBackground ''nobody'' (\<lambda>_ _ c. (True, c\<lparr>seenCount := seenCount c + 1\<rparr>)) s
             \<lparr>seenIDs = [], seenCount = 0\<rparr>) (\<lambda>c. seenCount c = 0)"

definition testTenantIsolation :: "('s, 'z) DocumentStore_scheme \<Rightarrow> 's \<Rightarrow> bool" where
  \<open>testTenantIsolation S s =
     (let ctx = ctxBackground in
      must (dsPut S ctx ''tenant-a'' ''doc-1'' ''"a"'' s) (\<lambda>s.
      must (dsPut S ctx ''tenant-b'' ''doc-1'' ''"b"'' s) (\<lambda>s.
      (case dsGet S ctx ''tenant-a'' ''doc-1'' s of Inl _ \<Rightarrow> False | Inr got \<Rightarrow> contents got = ''"a"'') \<and>
      (let seenInA = seenIDs (snd (dsScan S ctx ''tenant-a'' (\<lambda>id _ c. (True, c\<lparr>seenIDs := seenIDs c @ [id]\<rparr>)) s
             \<lparr>seenIDs = [], seenCount = 0\<rparr>)) in
       \<not> (length seenInA \<noteq> 1 \<or> seenInA ! 0 \<noteq> ''doc-1'')) \<and>
      must (dsDelete S ctx ''tenant-a'' ''doc-1'' s) (\<lambda>s.
      \<not> failed (dsGet S ctx ''tenant-b'' ''doc-1'' s)))))\<close>

definition testEmptyEntity :: "('s, 'z) DocumentStore_scheme \<Rightarrow> 's \<Rightarrow> bool" where
  "testEmptyEntity S s =
     (let ctx = ctxBackground in
      case dsPut S ctx '''' ''doc-1'' ''{}'' s of (r, s) \<Rightarrow> failed r \<and>
      failed (dsGet S ctx '''' ''doc-1'' s) \<and>
      (case dsDelete S ctx '''' ''doc-1'' s of (r, s) \<Rightarrow> failed r \<and>
      (case dsBatchPut S ctx '''' [(''a'', ''{}'')] s of (r, s) \<Rightarrow> failed r \<and>
      failed (fst (dsScan S ctx '''' (\<lambda>_ _ c. (True, c)) s \<lparr>seenIDs = [], seenCount = 0\<rparr>)))))"

definition testEmptyDocID :: "('s, 'z) DocumentStore_scheme \<Rightarrow> 's \<Rightarrow> bool" where
  "testEmptyDocID S s =
     (let ctx = ctxBackground in
      case dsPut S ctx ''tenant-a'' '''' ''{}'' s of (r, s) \<Rightarrow> failed r \<and>
      failed (dsGet S ctx ''tenant-a'' '''' s) \<and>
      (case dsDelete S ctx ''tenant-a'' '''' s of (r, s) \<Rightarrow> failed r \<and>
      (case dsBatchPut S ctx ''tenant-a'' [('''', ''{}'')] s of (r, s) \<Rightarrow> failed r)))"

text \<open>Every case runs on a fresh store of its own, which the factory makes.\<close>

definition Suite :: "('s, 'z) DocumentStore_scheme \<Rightarrow> 's \<Rightarrow> (string \<times> bool) list" where
  "Suite S fresh = map (\<lambda>(name, fn). (name, fn S fresh))
     [(''PutGetRoundtrip'', testPutGetRoundtrip),
      (''GetMissingReturnsErrNotFound'', testGetMissing),
      (''DeleteIdempotent'', testDeleteIdempotent),
      (''BatchPutAtomic'', testBatchPutAtomic),
      (''BatchPutRollbackOnCancelledContext'', testBatchPutRollback),
      (''BatchPutRejectsInvalidDocID'', testBatchPutInvalid),
      (''ScanVisitsAllAndStops'', testScan),
      (''ScanEmptyEntity'', testScanEmpty),
      (''TenantIsolation'', testTenantIsolation),
      (''EmptyEntityIDRejected'', testEmptyEntity),
      (''EmptyDocIDRejected'', testEmptyDocID)]"

section \<open>The suite for indexed stores\<close>

text \<open>The verb \<^verbatim>\<open>%d\<close> of \<^verbatim>\<open>fmt.Sprintf\<close>, and \<^verbatim>\<open>%g\<close> at the integral values that the suite prints.\<close>

fun sprintf_d :: "nat \<Rightarrow> string" where
  "sprintf_d n = (if n < 10 then [char_of (48 + n)] else sprintf_d (n div 10) @ [char_of (48 + n mod 10)])"

declare sprintf_d.simps [simp del]

definition testDocID :: "nat \<Rightarrow> string" where
  "testDocID i = ''d'' @ sprintf_d i"

definition mustPut :: "('s, 'z) DocumentStore_scheme \<Rightarrow> string \<Rightarrow> string \<Rightarrow> bytes \<Rightarrow> 's \<Rightarrow> ('s \<Rightarrow> bool) \<Rightarrow> bool" where
  "mustPut S entityID docID body s = must (dsPut S ctxBackground entityID docID body s)"

text \<open>A loop of \<^verbatim>\<open>mustPut\<close> calls.\<close>

fun mustPuts :: "('s, 'z) DocumentStore_scheme \<Rightarrow> string \<Rightarrow> (string \<times> bytes) list \<Rightarrow> 's \<Rightarrow> ('s \<Rightarrow> bool) \<Rightarrow> bool" where
  "mustPuts S entityID [] s k = k s"
| "mustPuts S entityID ((docID, body) # puts) s k = mustPut S entityID docID body s (\<lambda>s. mustPuts S entityID puts s k)"

definition collect :: "DocIDSet \<Rightarrow> string list" where
  "collect s = sort (ForEach s (\<lambda>id out. (True, out @ [id])) [])"

definition equalDocs :: "DocIDSet \<Rightarrow> string list \<Rightarrow> bool" where
  "equalDocs s want =
     (let got = collect s; want = sort want in
      if length got \<noteq> length want then False else list_all (\<lambda>i. got ! i = want ! i) [0..<length got])"

text \<open>A result whose error the test drops: the zero value, nil for a \<^verbatim>\<open>DocIDSet\<close>, on which every
  method panics.\<close>

definition dropErr :: "'a \<Rightarrow> 'a result \<Rightarrow> 'a" where
  "dropErr zero r = (case r of Inl _ \<Rightarrow> zero | Inr v \<Rightarrow> v)"

definition onSet :: "DocIDSet result \<Rightarrow> (DocIDSet \<Rightarrow> bool) \<Rightarrow> bool" where
  "onSet r k = (case r of Inl _ \<Rightarrow> False | Inr v \<Rightarrow> k v)"

definition indexedTestLookup :: "('s, 'z) IndexedStore_scheme \<Rightarrow> 's \<Rightarrow> bool" where
  \<open>indexedTestLookup S s =
     (let ctx = ctxBackground in
      mustPut S ''tenant-a'' ''d1'' ''{"status":"active"}'' s (\<lambda>s.
      mustPut S ''tenant-a'' ''d2'' ''{"status":"retired"}'' s (\<lambda>s.
      onSet (isLookup S ctx ''tenant-a'' ''active'' s) (\<lambda>got.
        \<not> (Len got \<noteq> 1 \<or> \<not> Contains got ''d1'') \<and>
        onSet (isLookup S ctx ''tenant-a'' ''never-indexed'' s) (\<lambda>got. Len got = 0)))))\<close>

definition indexedTestLookupPrefix :: "('s, 'z) IndexedStore_scheme \<Rightarrow> 's \<Rightarrow> bool" where
  \<open>indexedTestLookupPrefix S s =
     mustPut S ''tenant-a'' ''d1'' ''{"category":"truck"}'' s (\<lambda>s.
     mustPut S ''tenant-a'' ''d2'' ''{"category":"trailer"}'' s (\<lambda>s.
     mustPut S ''tenant-a'' ''d3'' ''{"category":"car"}'' s (\<lambda>s.
     onSet (isLookupPrefix S ctxBackground ''tenant-a'' ''category:tr'' s) (\<lambda>got. equalDocs got [''d1'', ''d2'']))))\<close>

definition indexedTestLookupNumericRange :: "('s, 'z) IndexedStore_scheme \<Rightarrow> 's \<Rightarrow> bool" where
  \<open>indexedTestLookupNumericRange S s =
     (let ctx = ctxBackground; min = f64_of_int 20; max = f64_of_int 40 in
      mustPuts S ''tenant-a'' (map (\<lambda>i. (testDocID i, ''{"km":'' @ sprintf_d (i * 10) @ ''}'')) [1..<6]) s (\<lambda>s.
      onSet (isLookupNumericRange S ctx ''tenant-a'' ''km'' min max \<lparr>MinExclusive = False, MaxExclusive = False\<rparr> s) (\<lambda>got.
        equalDocs got [''d2'', ''d3'', ''d4''] \<and>
        onSet (isLookupNumericRange S ctx ''tenant-a'' ''km'' min max \<lparr>MinExclusive = True, MaxExclusive = True\<rparr> s) (\<lambda>got.
          equalDocs got [''d3'']))))\<close>

text \<open>\<^verbatim>\<open>math.NaN()\<close>.\<close>

definition mathNaN :: f64 where
  "mathNaN = 0x7FF8000000000001"

definition indexedTestLookupNumericRangeNaN :: "('s, 'z) IndexedStore_scheme \<Rightarrow> 's \<Rightarrow> bool" where
  "indexedTestLookupNumericRangeNaN S s =
     failed (isLookupNumericRange S ctxBackground ''tenant-a'' ''km'' mathNaN (f64_of_int 10)
       \<lparr>MinExclusive = False, MaxExclusive = False\<rparr> s)"

definition indexedTestWindowQuery :: "('s, 'z) IndexedStore_scheme \<Rightarrow> 's \<Rightarrow> bool" where
  \<open>indexedTestWindowQuery S s =
     (let ctx = ctxBackground in
      mustPut S ''tenant-a'' ''d1'' ''{"item_id":"i1","type":"inspect","at":1000}'' s (\<lambda>s.
      mustPut S ''tenant-a'' ''d2'' ''{"item_id":"i1","type":"repair","at":2000}'' s (\<lambda>s.
      mustPut S ''tenant-a'' ''d3'' ''{"item_id":"i1","type":"inspect","at":3000}'' s (\<lambda>s.
      case isWindowQuery S ctx ''tenant-a'' ''i1'' [] 0 s of
        Inl _ \<Rightarrow> False
      | Inr events \<Rightarrow>
          length events = 3 \<and>
          list_all (\<lambda>i. sint (TAt (events ! (i - 1))) < sint (TAt (events ! i))) [1..<length events] \<and>
          length (dropErr [] (isWindowQuery S ctx ''tenant-a'' ''i1'' [''inspect''] 0 s)) = 2 \<and>
          length (dropErr [] (isWindowQuery S ctx ''tenant-a'' ''unknown'' [] 0 s)) = 0))))\<close>

definition indexedTestGroupCount :: "('s, 'z) IndexedStore_scheme \<Rightarrow> 's \<Rightarrow> bool" where
  \<open>indexedTestGroupCount S s =
     mustPuts S ''tenant-a''
       (map (\<lambda>i. (testDocID i, ''{"item_id":"i1","type":"inspect","at":'' @ sprintf_d (i * 1000) @ ''}'')) [1..<4]) s (\<lambda>s.
     case isGroupCount S ctxBackground ''tenant-a'' ''i1'' ''type'' ''inspect'' s of
       Inl _ \<Rightarrow> False
     | Inr g \<Rightarrow> Count g = 3 \<and> First g = Some 1000 \<and> Last g = Some 3000)\<close>

text \<open>\<^verbatim>\<open>math.Abs\<close> clears the sign; the literal \<^verbatim>\<open>1e-9\<close> is the nearest \<^verbatim>\<open>float64\<close>.\<close>

definition mathAbs :: "f64 \<Rightarrow> f64" where
  "mathAbs x = f64_make False (f64_mag x)"

definition nano :: f64 where
  "nano = f64_round False (2 ^ 1074) (10 ^ 9)"

definition indexedTestStats :: "('s, 'z) IndexedStore_scheme \<Rightarrow> 's \<Rightarrow> bool" where
  \<open>indexedTestStats S s =
     (let vals = [10, 20, 30, 40, 50] in
      mustPuts S ''tenant-a'' (map (\<lambda>(i, v). (testDocID i, ''{"km":'' @ sprintf_d v @ ''}'')) (enumerate 0 vals)) s (\<lambda>s.
      case isStats S ctxBackground ''tenant-a'' ''km'' s of (r, s) \<Rightarrow>
        (case r of
           Inl _ \<Rightarrow> False
         | Inr got \<Rightarrow> RCount got = 5 \<and> \<not> f64_lt nano (mathAbs (f64_sub (RMean got) (f64_of_int 30))))))\<close>

definition indexedTestLastSeen :: "('s, 'z) IndexedStore_scheme \<Rightarrow> 's \<Rightarrow> bool" where
  \<open>indexedTestLastSeen S s =
     (let ctx = ctxBackground in
      mustPut S ''tenant-a'' ''d1'' ''{"item_id":"i1","type":"inspect","at":1000}'' s (\<lambda>s.
      mustPut S ''tenant-a'' ''d2'' ''{"item_id":"i1","type":"inspect","at":2000}'' s (\<lambda>s.
      case isLastSeen S ctx ''tenant-a'' ''i1'' ''inspect'' s of
        Inl _ \<Rightarrow> False
      | Inr seenAt \<Rightarrow>
          seenAt = Some 2000 \<and>
          dropErr None (isLastSeen S ctx ''tenant-a'' ''i1'' ''unknown-type'' s) = None)))\<close>

definition indexedTestClosure :: "('s, 'z) IndexedStore_scheme \<Rightarrow> 's \<Rightarrow> bool" where
  \<open>indexedTestClosure S s =
     (let ctx = ctxBackground in
      mustPut S ''tenant-a'' ''Vehicles'' ''{}'' s (\<lambda>s.
      mustPut S ''tenant-a'' ''Trucks'' ''{"parent":"Vehicles"}'' s (\<lambda>s.
      mustPut S ''tenant-a'' ''BigRigs'' ''{"parent":"Trucks"}'' s (\<lambda>s.
      case isAncestors S ctx ''tenant-a'' ''BigRigs'' s of
        Inl _ \<Rightarrow> False
      | Inr chain \<Rightarrow>
          equalStrings chain [''Trucks'', ''Vehicles''] \<and>
          onSet (isDescendants S ctx ''tenant-a'' ''Vehicles'' s) (\<lambda>desc. equalDocs desc [''Trucks'', ''BigRigs''])))))\<close>

definition IndexedSuite :: "('s, 'z) IndexedStore_scheme \<Rightarrow> 's \<Rightarrow> (string \<times> bool) list" where
  "IndexedSuite S fresh = map (\<lambda>(name, fn). (name, fn S fresh))
     [(''Lookup'', indexedTestLookup),
      (''LookupPrefix'', indexedTestLookupPrefix),
      (''LookupNumericRange'', indexedTestLookupNumericRange),
      (''LookupNumericRangeNaNRejected'', indexedTestLookupNumericRangeNaN),
      (''WindowQuery'', indexedTestWindowQuery),
      (''GroupCount'', indexedTestGroupCount),
      (''Stats'', indexedTestStats),
      (''LastSeen'', indexedTestLastSeen),
      (''Closure'', indexedTestClosure)]"

section \<open>The contract of a document store\<close>

text \<open>The names and the contents that the suite uses.\<close>

definition suiteEntities :: "string list" where
  "suiteEntities = [''tenant-a'', ''tenant-b'', ''nobody'']"

definition suiteDocIDs :: "string list" where
  "suiteDocIDs = [''doc-1'', ''doc-2'', ''a'', ''b'', ''c'', ''d'', ''x'', ''y'', ''existing'']"

definition suiteContents :: "bytes list" where
  \<open>suiteContents =
     [''{"hello":"world","n":42}'', ''{}'', ''{"v":"a"}'', ''{"v":"b"}'', ''{"v":"c"}'', ''{"keep":true}'',
      ''{"v":1}'', ''{"v":2}'', ''{"v":3}'', ''{"v":4}'', ''"a"'', ''"b"'']\<close>

text \<open>The documents that a scan hands to its callback, until the callback returns false.\<close>

fun visit :: "(string \<Rightarrow> gobytes \<Rightarrow> 'c \<Rightarrow> bool \<times> 'c) \<Rightarrow> (string \<times> gobytes) list \<Rightarrow> 'c \<Rightarrow> 'c" where
  "visit fn [] c = c"
| "visit fn ((d, b) # ds) c = (case fn d b c of (go, c) \<Rightarrow> if go then visit fn ds c else c)"

lemma distinct_set_single: "distinct xs \<Longrightarrow> set xs = {x} \<Longrightarrow> xs = [x]"
  by (cases xs; cases "tl xs") auto

text \<open>What a document store promises: \<open>docs\<close> is the map it stands for, \<open>room n\<close> says that it is
  sound and has room for \<open>n\<close> more documents of the kind \<open>takes\<close>.\<close>

locale document_store =
  fixes S :: "('s, 'z) DocumentStore_scheme"
    and room :: "nat \<Rightarrow> 's \<Rightarrow> bool"
    and docs :: "'s \<Rightarrow> string \<Rightarrow> string \<Rightarrow> bytes option"
    and entity_ok doc_ok :: "string \<Rightarrow> bool"
    and takes :: "bytes \<Rightarrow> bool"
  assumes room_less: "room (Suc n) s \<Longrightarrow> room n s"
    and put: "room (Suc n) s \<Longrightarrow> entity_ok e \<Longrightarrow> doc_ok d \<Longrightarrow> takes b \<Longrightarrow>
      \<exists>s'. dsPut S ctxBackground e d b s = (Inr (), s') \<and> room n s' \<and> docs s' = (docs s)(e := (docs s e)(d \<mapsto> b))"
    and batch: "room (length ds + n) s \<Longrightarrow> entity_ok e \<Longrightarrow> distinct (map fst ds) \<Longrightarrow>
      \<forall>(d, b) \<in> set ds. doc_ok d \<and> takes b \<Longrightarrow>
      \<exists>s'. dsBatchPut S ctxBackground e ds s = (Inr (), s') \<and> room n s' \<and> docs s' = (docs s)(e := docs s e ++ map_of ds)"
    and batch_canceled: "room n s \<Longrightarrow> entity_ok e \<Longrightarrow> distinct (map fst ds) \<Longrightarrow> \<forall>(d, b) \<in> set ds. doc_ok d \<Longrightarrow>
      \<exists>er s'. dsBatchPut S ctxCanceled e ds s = (Inl er, s') \<and> is_canceled er \<and> room n s' \<and> docs s' = docs s"
    and batch_invalid: "room n s \<Longrightarrow> distinct (map fst ds) \<Longrightarrow> e = [] \<or> [] \<in> fst ` set ds \<Longrightarrow>
      \<exists>er s'. dsBatchPut S ctxBackground e ds s = (Inl er, s') \<and> room n s' \<and> docs s' = docs s"
    and get: "room n s \<Longrightarrow> entity_ok e \<Longrightarrow> doc_ok d \<Longrightarrow>
      (case docs s e d of
         None \<Rightarrow> \<exists>er. dsGet S ctxBackground e d s = Inl er \<and> errors_Is er ErrNotFound
       | Some b \<Rightarrow> \<exists>g. dsGet S ctxBackground e d s = Inr g \<and> contents g = b)"
    and delete: "room n s \<Longrightarrow> entity_ok e \<Longrightarrow> doc_ok d \<Longrightarrow>
      \<exists>s'. dsDelete S ctxBackground e d s = (Inr (), s') \<and> room n s' \<and> docs s' = (docs s)(e := (docs s e)(d := None))"
    and scan: "room n s \<Longrightarrow> entity_ok e \<Longrightarrow>
      \<exists>ds. distinct (map fst ds) \<and> map_of (map (map_prod id contents) ds) = docs s e \<and>
        (\<forall>fn c. dsScan S ctxBackground e fn s c = (Inr (), visit fn ds c))"
    and put_invalid: "room n s \<Longrightarrow> e = [] \<or> d = [] \<Longrightarrow> \<exists>er s'. dsPut S ctxBackground e d b s = (Inl er, s') \<and> room n s'"
    and delete_invalid: "room n s \<Longrightarrow> e = [] \<or> d = [] \<Longrightarrow> \<exists>er s'. dsDelete S ctxBackground e d s = (Inl er, s') \<and> room n s'"
    and get_invalid: "e = [] \<or> d = [] \<Longrightarrow> \<exists>er. dsGet S ctxBackground e d s = Inl er"
    and scan_invalid: "\<exists>er. dsScan S ctxBackground [] fn s c = (Inl er, c)"
begin

lemma get_missing: "room n s \<Longrightarrow> entity_ok e \<Longrightarrow> doc_ok d \<Longrightarrow> docs s e d = None \<Longrightarrow>
    notFound (dsGet S ctxBackground e d s)"
  using get [of n s e d] by (auto simp: notFound_def)

lemma get_found: "room n s \<Longrightarrow> entity_ok e \<Longrightarrow> doc_ok d \<Longrightarrow> docs s e d = Some b \<Longrightarrow>
    \<exists>g. dsGet S ctxBackground e d s = Inr g \<and> contents g = b"
  using get [of n s e d] by simp

lemma room_mono: "room (n + m) s \<Longrightarrow> room m s"
  by (induction n) (auto intro: room_less)

text \<open>A store that keeps its promises passes the suite.\<close>

definition fresh_store :: "'s \<Rightarrow> bool" where
  "fresh_store s \<longleftrightarrow> room 8 s \<and> docs s = (\<lambda>_ _. None) \<and> (\<forall>e \<in> set suiteEntities. entity_ok e) \<and>
     (\<forall>d \<in> set suiteDocIDs. doc_ok d) \<and> (\<forall>b \<in> set suiteContents. takes b)"

lemma fresh_storeD:
  assumes "fresh_store s"
  shows "docs s e d = None" "entity_ok ''tenant-a''" "entity_ok ''tenant-b''" "entity_ok ''nobody''"
    "doc_ok ''doc-1''" "doc_ok ''doc-2''" "doc_ok ''a''" "doc_ok ''b''" "doc_ok ''c''" "doc_ok ''d''" "doc_ok ''x''"
    "doc_ok ''y''" "doc_ok ''existing''" "n \<le> 8 \<Longrightarrow> room n s"
  using assms room_mono [of "8 - n" n s] by (simp_all add: fresh_store_def suiteEntities_def suiteDocIDs_def)

lemma fresh_store_takes:
  assumes "fresh_store s"
  shows \<open>takes ''{"hello":"world","n":42}''\<close> \<open>takes ''{}''\<close> \<open>takes ''{"v":"a"}''\<close> \<open>takes ''{"v":"b"}''\<close>
    \<open>takes ''{"v":"c"}''\<close> \<open>takes ''{"keep":true}''\<close> \<open>takes ''{"v":1}''\<close> \<open>takes ''{"v":2}''\<close>
    \<open>takes ''{"v":3}''\<close> \<open>takes ''{"v":4}''\<close> \<open>takes ''"a"''\<close> \<open>takes ''"b"''\<close>
  using assms by (simp_all add: fresh_store_def suiteContents_def)

lemmas fresh = fresh_storeD fresh_store_takes

lemma passes_PutGetRoundtrip:
  assumes "fresh_store s"
  shows "testPutGetRoundtrip S s"
proof -
  let ?b = \<open>''{"hello":"world","n":42}''\<close>
  obtain s1 where s1: "dsPut S ctxBackground ''tenant-a'' ''doc-1'' ?b s = (Inr (), s1)" "room 0 s1"
    "docs s1 = (docs s)(''tenant-a'' := (docs s ''tenant-a'')(''doc-1'' \<mapsto> ?b))"
    using put [of 0 s "''tenant-a''" "''doc-1''" ?b] fresh [OF assms] by auto
  then obtain g where "dsGet S ctxBackground ''tenant-a'' ''doc-1'' s1 = Inr g" "contents g = ?b"
    using get_found [OF s1(2), of "''tenant-a''" "''doc-1''" ?b] fresh [OF assms] by auto
  with s1(1) show ?thesis by (simp add: testPutGetRoundtrip_def must_def)
qed

lemma passes_GetMissing:
  assumes "fresh_store s"
  shows "testGetMissing S s"
proof -
  note f = fresh [OF assms]
  obtain s1 where s1: "dsPut S ctxBackground ''tenant-a'' ''doc-1'' ''{}'' s = (Inr (), s1)" "room 1 s1"
    "docs s1 = (docs s)(''tenant-a'' := (docs s ''tenant-a'')(''doc-1'' \<mapsto> ''{}''))"
    using put [of 1 s "''tenant-a''" "''doc-1''" "''{}''"] f by auto
  obtain s2 where s2: "dsPut S ctxBackground ''tenant-a'' ''doc-1'' ''{}'' s1 = (Inr (), s2)" "room 0 s2"
    "docs s2 = (docs s1)(''tenant-a'' := (docs s1 ''tenant-a'')(''doc-1'' \<mapsto> ''{}''))"
    using put [of 0 s1 "''tenant-a''" "''doc-1''" "''{}''"] f s1(2) by auto
  show ?thesis
    using get_missing [OF f(14) [of 0]] get_missing [OF s1(2)] get_missing [OF s2(2)] f s1 s2
    by (simp add: testGetMissing_def Let_def)
qed

lemma passes_DeleteIdempotent:
  assumes "fresh_store s"
  shows "testDeleteIdempotent S s"
proof -
  note f = fresh [OF assms]
  note del = delete [of _ _ "''tenant-a''" "''doc-1''", OF _ f(2,5)]
  obtain s1 where s1: "dsDelete S ctxBackground ''tenant-a'' ''doc-1'' s = (Inr (), s1)" "room 1 s1" using del [of 1 s] f by auto
  obtain s2 where s2: "dsPut S ctxBackground ''tenant-a'' ''doc-1'' ''{}'' s1 = (Inr (), s2)" "room 0 s2"
    using put [of 0 s1 "''tenant-a''" "''doc-1''" "''{}''"] f s1(2) by auto
  obtain s3 where s3: "dsDelete S ctxBackground ''tenant-a'' ''doc-1'' s2 = (Inr (), s3)" "room 0 s3" using del [OF s2(2)] by auto
  obtain s4 where s4: "dsDelete S ctxBackground ''tenant-a'' ''doc-1'' s3 = (Inr (), s4)" "room 0 s4"
    "docs s4 = (docs s3)(''tenant-a'' := (docs s3 ''tenant-a'')(''doc-1'' := None))"
    using del [OF s3(2)] by auto
  have "notFound (dsGet S ctxBackground ''tenant-a'' ''doc-1'' s4)" by (rule get_missing [OF s4(2) f(2,5)]) (simp add: s4(3))
  with s1(1) s2(1) s3(1) s4(1) show ?thesis by (simp add: testDeleteIdempotent_def must_def)
qed

lemma passes_BatchPutAtomic:
  assumes "fresh_store s"
  shows "testBatchPutAtomic S s"
proof -
  note f = fresh [OF assms]
  let ?ds = \<open>[(''a'', ''{"v":"a"}''), (''b'', ''{"v":"b"}''), (''c'', ''{"v":"c"}'')]\<close>
  obtain s1 where s1: "dsBatchPut S ctxBackground ''tenant-a'' ?ds s = (Inr (), s1)" "room 0 s1"
    "docs s1 = (docs s)(''tenant-a'' := docs s ''tenant-a'' ++ map_of ?ds)"
    using batch [of ?ds 0 s "''tenant-a''"] f by auto
  have "case dsGet S ctxBackground ''tenant-a'' k s1 of Inl _ \<Rightarrow> False | Inr got \<Rightarrow> contents got = want"
    if "(k, want) \<in> set ?ds" for k want
  proof -
    have "\<exists>g. dsGet S ctxBackground ''tenant-a'' k s1 = Inr g \<and> contents g = want"
    proof (rule get_found [OF s1(2) f(2)])
      show "doc_ok k" "docs s1 ''tenant-a'' k = Some want" using that f by (auto simp: s1(3))
    qed
    then show ?thesis by auto
  qed
  then have "list_all (\<lambda>(k, want). case dsGet S ctxBackground ''tenant-a'' k s1 of
      Inl _ \<Rightarrow> False | Inr got \<Rightarrow> contents got = want) ?ds" unfolding list_all_iff by blast
  with s1(1) show ?thesis by (simp only: testBatchPutAtomic_def Let_def must_def prod.case sum.case)
qed

lemma passes_BatchPutRollback:
  assumes "fresh_store s"
  shows "testBatchPutRollback S s"
proof -
  note f = fresh [OF assms]
  let ?b = \<open>''{"keep":true}''\<close> and ?ds = "[(''x'', ''{}''), (''y'', ''{}'')]"
  obtain s1 where s1: "dsPut S ctxBackground ''tenant-a'' ''existing'' ?b s = (Inr (), s1)" "room 0 s1"
    "docs s1 = (docs s)(''tenant-a'' := (docs s ''tenant-a'')(''existing'' \<mapsto> ?b))"
    using put [of 0 s "''tenant-a''" "''existing''" ?b] f by auto
  obtain er s2 where s2: "dsBatchPut S ctxCanceled ''tenant-a'' ?ds s1 = (Inl er, s2)" "is_canceled er" "room 0 s2" "docs s2 = docs s1"
    using batch_canceled [OF s1(2) f(2), of ?ds] f by auto
  have "notFound (dsGet S ctxBackground ''tenant-a'' ''x'' s2)" "notFound (dsGet S ctxBackground ''tenant-a'' ''y'' s2)"
    by (rule get_missing [OF s2(3) f(2)], use f in \<open>simp_all add: s1(3) s2(4)\<close>)+
  moreover have "\<not> failed (dsGet S ctxBackground ''tenant-a'' ''existing'' s2)"
    using get_found [OF s2(3) f(2), of "''existing''" ?b] f by (auto simp: s1(3) s2(4) failed_def)
  ultimately show ?thesis using s1(1) s2(1,2) by (simp add: testBatchPutRollback_def must_def)
qed

lemma passes_BatchPutInvalid:
  assumes "fresh_store s"
  shows "testBatchPutInvalid S s"
proof -
  note f = fresh [OF assms]
  obtain er s1 where s1: "dsBatchPut S ctxBackground ''tenant-a'' [(''a'', ''{}''), ('''', ''{}'')] s = (Inl er, s1)" "room 0 s1" "docs s1 = docs s"
    using batch_invalid [OF f(14) [of 0], of "[(''a'', ''{}''), ('''', ''{}'')]" "''tenant-a''"] by auto
  have "notFound (dsGet S ctxBackground ''tenant-a'' ''a'' s1)" using f by (intro get_missing [OF s1(2)]) (simp_all add: s1(3))
  with s1(1) show ?thesis by (simp add: testBatchPutInvalid_def failed_def)
qed

lemma visit_all:
  "visit (\<lambda>id _ c. (True, c\<lparr>seenIDs := seenIDs c @ [id]\<rparr>)) ds c = c\<lparr>seenIDs := seenIDs c @ map fst ds\<rparr>"
  by (induction ds arbitrary: c) auto

lemma passes_Scan:
  assumes "fresh_store s"
  shows "testScan S s"
proof -
  note f = fresh [OF assms]
  let ?ds = \<open>[(''a'', ''{"v":1}''), (''b'', ''{"v":2}''), (''c'', ''{"v":3}''), (''d'', ''{"v":4}'')]\<close>
    and ?ids = "[''a'', ''b'', ''c'', ''d'']"
  obtain s1 where s1: "dsBatchPut S ctxBackground ''tenant-a'' ?ds s = (Inr (), s1)" "room 0 s1"
    "docs s1 = (docs s)(''tenant-a'' := docs s ''tenant-a'' ++ map_of ?ds)"
    using batch [of ?ds 0 s "''tenant-a''"] f by auto
  obtain vs where vs: "distinct (map fst vs)" "map_of (map (map_prod id contents) vs) = docs s1 ''tenant-a''"
    "\<And>fn c. dsScan S ctxBackground ''tenant-a'' fn s1 c = (Inr (), visit fn vs c)"
    using scan [OF s1(2) f(2)] by blast
  have "set (map fst vs) = dom (map_of (map (map_prod id contents) vs))"
    by (simp add: dom_map_of_conv_image_fst image_image)
  also have "\<dots> = set ?ids" using f by (auto simp: vs(2) s1(3) split: if_splits)
  finally have ids: "set (map fst vs) = set ?ids" .
  have srt: "sort (map fst vs) = ?ids"
  proof (rule map_sorted_distinct_set_unique [where f = "\<lambda>x. x"])
    show "distinct (map (\<lambda>x. x) (sort (map fst vs)))" using vs(1) by simp
  qed (use ids in \<open>simp_all add: set_eq_iff\<close>)
  have len: "length vs = length ?ids" using srt by (metis length_map length_sort)
  then obtain v1 v2 vs' where "vs = v1 # v2 # vs'" by (cases vs; cases "tl vs") auto
  then have "length (seenIDs (visit (\<lambda>id _ c. let c = c\<lparr>seenIDs := seenIDs c @ [id]\<rparr> in (length (seenIDs c) < 2, c)) vs
      \<lparr>seenIDs = [], seenCount = 0\<rparr>)) = 2"
    by (cases v1; cases v2) simp
  with s1(1) vs(3) srt len show ?thesis by (simp add: testScan_def must_def visit_all equalStrings_def)
qed

lemma passes_ScanEmpty:
  assumes "fresh_store s"
  shows "testScanEmpty S s"
proof -
  note f = fresh [OF assms]
  obtain vs where vs: "map_of (map (map_prod id contents) vs) = docs s ''nobody''"
    "\<And>fn c. dsScan S ctxBackground ''nobody'' fn s c = (Inr (), visit fn vs c)"
    using scan [OF f(14) [of 0] f(4)] by auto
  have "dom (map_of (map (map_prod id contents) vs)) = {}" using f(1) by (auto simp: vs(1))
  then have "vs = []" by (cases vs) (auto simp: dom_map_of_conv_image_fst)
  with vs(2) show ?thesis by (simp add: testScanEmpty_def must_def)
qed

lemma passes_TenantIsolation:
  assumes "fresh_store s"
  shows "testTenantIsolation S s"
proof -
  note f = fresh [OF assms]
  let ?a = \<open>''"a"''\<close> and ?b = \<open>''"b"''\<close>
  obtain s1 where s1: "dsPut S ctxBackground ''tenant-a'' ''doc-1'' ?a s = (Inr (), s1)" "room 1 s1"
    "docs s1 = (docs s)(''tenant-a'' := (docs s ''tenant-a'')(''doc-1'' \<mapsto> ?a))"
    using put [of 1 s "''tenant-a''" "''doc-1''" ?a] f by auto
  obtain s2 where s2: "dsPut S ctxBackground ''tenant-b'' ''doc-1'' ?b s1 = (Inr (), s2)" "room 0 s2"
    "docs s2 = (docs s1)(''tenant-b'' := (docs s1 ''tenant-b'')(''doc-1'' \<mapsto> ?b))"
    using put [of 0 s1 "''tenant-b''" "''doc-1''" ?b] f s1(2) by auto
  obtain g where g: "dsGet S ctxBackground ''tenant-a'' ''doc-1'' s2 = Inr g" "contents g = ?a"
    using get_found [OF s2(2) f(2,5), of ?a] by (auto simp: s1(3) s2(3))
  obtain vs where vs: "distinct (map fst vs)" "map_of (map (map_prod id contents) vs) = docs s2 ''tenant-a''"
    "\<And>fn c. dsScan S ctxBackground ''tenant-a'' fn s2 c = (Inr (), visit fn vs c)"
    using scan [OF s2(2) f(2)] by blast
  have "set (map fst vs) = dom (map_of (map (map_prod id contents) vs))"
    by (simp add: dom_map_of_conv_image_fst image_image)
  also have "\<dots> = {''doc-1''}" using f by (auto simp: vs(2) s1(3) s2(3) split: if_splits)
  finally have "map fst vs = [''doc-1'']" by (rule distinct_set_single [OF vs(1)])
  obtain s3 where s3: "dsDelete S ctxBackground ''tenant-a'' ''doc-1'' s2 = (Inr (), s3)" "room 0 s3"
    "docs s3 = (docs s2)(''tenant-a'' := (docs s2 ''tenant-a'')(''doc-1'' := None))"
    using delete [OF s2(2) f(2,5)] by auto
  have "\<not> failed (dsGet S ctxBackground ''tenant-b'' ''doc-1'' s3)"
    using get_found [OF s3(2) f(3,5), of ?b] by (auto simp: s1(3) s2(3) s3(3) failed_def)
  with s1(1) s2(1) s3(1) g vs(3) \<open>map fst vs = [''doc-1'']\<close> show ?thesis
    by (simp add: testTenantIsolation_def must_def visit_all)
qed

lemma passes_EmptyEntity:
  assumes "fresh_store s"
  shows "testEmptyEntity S s"
proof -
  note f = fresh [OF assms]
  obtain e1 s1 where s1: "dsPut S ctxBackground '''' ''doc-1'' ''{}'' s = (Inl e1, s1)" "room 0 s1"
    using put_invalid [OF f(14) [of 0]] by blast
  moreover obtain e2 where "dsGet S ctxBackground '''' ''doc-1'' s1 = Inl e2" using get_invalid by blast
  moreover obtain e3 s2 where s2: "dsDelete S ctxBackground '''' ''doc-1'' s1 = (Inl e3, s2)" "room 0 s2"
    using delete_invalid [OF s1(2)] by blast
  moreover obtain e4 s3 where "dsBatchPut S ctxBackground '''' [(''a'', ''{}'')] s2 = (Inl e4, s3)"
    using batch_invalid [OF s2(2), of "[(''a'', ''{}'')]" "[]"] by auto
  moreover obtain e5 where
    "dsScan S ctxBackground '''' (\<lambda>_ _ c. (True, c)) s3 \<lparr>seenIDs = [], seenCount = 0\<rparr> = (Inl e5, \<lparr>seenIDs = [], seenCount = 0\<rparr>)"
    using scan_invalid by blast
  ultimately show ?thesis by (simp add: testEmptyEntity_def failed_def)
qed

lemma passes_EmptyDocID:
  assumes "fresh_store s"
  shows "testEmptyDocID S s"
proof -
  note f = fresh [OF assms]
  obtain e1 s1 where s1: "dsPut S ctxBackground ''tenant-a'' '''' ''{}'' s = (Inl e1, s1)" "room 0 s1"
    using put_invalid [OF f(14) [of 0]] by blast
  moreover obtain e2 where "dsGet S ctxBackground ''tenant-a'' '''' s1 = Inl e2" using get_invalid by blast
  moreover obtain e3 s2 where s2: "dsDelete S ctxBackground ''tenant-a'' '''' s1 = (Inl e3, s2)" "room 0 s2"
    using delete_invalid [OF s1(2)] by blast
  moreover obtain e4 s3 where "dsBatchPut S ctxBackground ''tenant-a'' [('''', ''{}'')] s2 = (Inl e4, s3)"
    using batch_invalid [OF s2(2), of "[('''', ''{}'')]" "''tenant-a''"] by auto
  ultimately show ?thesis by (simp add: testEmptyDocID_def failed_def)
qed

lemma suite_passes:
  assumes "fresh_store s"
  shows "list_all snd (Suite S s)"
  using passes_PutGetRoundtrip [OF assms] passes_GetMissing [OF assms] passes_DeleteIdempotent [OF assms]
    passes_BatchPutAtomic [OF assms] passes_BatchPutRollback [OF assms] passes_BatchPutInvalid [OF assms]
    passes_Scan [OF assms] passes_ScanEmpty [OF assms] passes_TenantIsolation [OF assms]
    passes_EmptyEntity [OF assms] passes_EmptyDocID [OF assms]
  by (simp add: Suite_def)

end

end
