(* ===== verification/Headroom.thy ===== *)
theory Headroom
  imports Views
begin

text \<open>
  How long writes keep succeeding. An entity has headroom for \<open>n\<close> more documents when that many
  ids are left and every running aggregate is small; each put of a document with moderate
  numbers uses up one document of it, so a batch that fits the headroom succeeds as a whole.
\<close>

section \<open>Small aggregates\<close>

text \<open>An aggregate whose mean is at most \<open>2^k\<close> and whose sum of squares is at most \<open>2^(2k)\<close>.\<close>

definition small_stats :: "nat \<Rightarrow> statsValue \<Rightarrow> bool" where
  "small_stats k v \<longleftrightarrow> f64_within k (Mean v) \<and> f64_within (2 * k) (M2 v) \<and> f64_finite (SMin v) \<and> f64_finite (SMax v) \<and>
     0 \<le> sint (SCount v) \<and> sint (SCount v) \<le> int k"

lemma small_stats_zero: "small_stats k zeroStats"
  by (simp add: small_stats_def zeroStats_def f64_within_finite [OF f64_within_0, of 0])

lemma small_stats_finite: "small_stats k v \<Longrightarrow> k \<le> 511 \<Longrightarrow> stats_finite v"
  unfolding small_stats_def stats_finite_def by (auto intro: f64_within_finite)

lemma small_stats_mono: "small_stats k v \<Longrightarrow> k \<le> l \<Longrightarrow> small_stats l v"
  unfolding small_stats_def by (auto intro: f64_within_mono)

lemma small_stats_add:
  assumes v: "small_stats k v" and x: "f64_within 64 x" and k: "64 \<le> k" "k \<le> 500"
  shows "small_stats (k + 3) (statsWelfordAdd x v)"
proof -
  let ?c = "SCount v + 1" and ?m = "Mean v"
  let ?n = "f64_of_int (sint ?c)"
  let ?d = "f64_sub x ?m"
  let ?q = "f64_div ?d ?n"
  let ?m' = "f64_add ?m ?q"
  let ?d2 = "f64_sub x ?m'"
  have v': "f64_within k ?m" "f64_within (2 * k) (M2 v)" "f64_finite (SMin v)" "f64_finite (SMax v)"
    "0 \<le> sint (SCount v)" "sint (SCount v) \<le> int k"
    using v by (simp_all add: small_stats_def)
  have c: "sint ?c = sint (SCount v) + 1"
    using v'(5,6) k(2) by (simp add: sint_word_ariths signed_take_bit_int_eq_self)
  have xk: "f64_within k x" by (rule f64_within_mono [OF x k(1)])
  have d: "f64_within (Suc k) ?d" by (rule f64_within_sub [OF xk v'(1)]) (use k in simp)
  have n: "f64_finite ?n" "pow_mag 1074 \<le> f64_mag ?n"
  proof -
    have "\<bar>sint ?c\<bar> \<le> 2 ^ 10" using c v'(5,6) k(2) by simp
    from f64_within_finite [OF f64_within_of_int [OF this]] show "f64_finite ?n" by simp
    show "pow_mag 1074 \<le> f64_mag ?n" using c v'(5) by (intro f64_of_int_ge_1) simp
  qed
  have q: "f64_within (Suc k) ?q" by (rule f64_within_div [OF d _ n]) (use k in simp)
  have m': "f64_within (Suc (Suc k)) ?m'" by (rule f64_within_add [OF f64_within_mono [OF v'(1)] q]) (use k in simp_all)
  have d2: "f64_within (Suc (Suc (Suc k))) ?d2"
    by (rule f64_within_sub [OF f64_within_mono [OF xk] m']) (use k in simp_all)
  have "f64_within (Suc k + Suc (Suc (Suc k))) (f64_mul ?d ?d2)" by (rule f64_within_mul [OF d d2]) (use k in simp_all)
  then have pr: "f64_within (2 * k + 4) (f64_mul ?d ?d2)" by (rule f64_within_mono) simp
  have m2: "f64_within (2 * k + 4) (M2 v)" by (rule f64_within_mono [OF v'(2)]) simp
  have "f64_within (Suc (2 * k + 4)) (f64_add (M2 v) (f64_mul ?d ?d2))" by (rule f64_within_add [OF m2 pr]) (use k in simp)
  then have "f64_within (2 * (k + 3)) (f64_add (M2 v) (f64_mul ?d ?d2))" by (rule f64_within_mono) simp
  moreover have "f64_within (k + 3) ?m'" using m' by (rule f64_within_mono) simp
  moreover have "f64_finite x" using x by (rule f64_within_finite) simp
  ultimately show ?thesis using v' c
    by (simp add: small_stats_def statsWelfordAdd_def welfordStep_def Let_def)
qed

section \<open>Headroom\<close>

definition headroom :: "('tx, 'v, 'bm) ext \<Rightarrow> nat \<Rightarrow> 'tx \<Rightarrow> string \<Rightarrow> bool" where
  "headroom X n tx e \<longleftrightarrow> next_id X tx e \<noteq> 0 \<and> unat (next_id X tx e) + n < 2 ^ 32 \<and>
     (\<exists>k. 64 \<le> k \<and> k + 3 * n \<le> 500 \<and>
        (\<forall>a. let v = stats_or_zero (stats_of X tx e a) in Stale v \<or> small_stats k v))"

text \<open>Documents whose numbers are at most \<open>2^64\<close>, under attribute names that bbolt takes.\<close>

definition moderate :: "('tx, 'v, 'bm) ext \<Rightarrow> bytes \<Rightarrow> bool" where
  "moderate X doc \<longleftrightarrow> (\<forall>a x. attr_value X a doc = Some x \<longrightarrow> key_ok a \<and> f64_within 64 x)"

lemma headroom_less: "headroom X (n + m) tx e \<Longrightarrow> headroom X m tx e"
  unfolding headroom_def by fastforce

lemma headroom_frame:
  assumes "frame X N tx tx'" "entity_names e \<inter> N = {}"
  shows "headroom X n tx' e = headroom X n tx e"
proof -
  have "statsBucketName e \<in> entity_names e" "idmap_names e \<subseteq> entity_names e" by (auto simp: entity_names_def index_names_def)
  then have "stats_of X tx' e = stats_of X tx e" "next_id X tx' e = next_id X tx e"
    using frame_stats_views(1) [OF assms(1)] assms(2)
    by (auto intro!: idmap_views_cong(3) frame_get [OF assms(1)])
  then show ?thesis by (simp add: headroom_def)
qed

context roomy
begin

lemma headroom_aggregates:
  assumes "headroom X (Suc n) tx e" "moderate X doc"
  shows "aggregates_ok X e old doc tx"
  unfolding aggregates_ok_def Let_def
proof (intro allI impI conjI)
  fix a x assume x: "attr_value X a doc = Some x"
  with assms(2) show "key_ok a" unfolding moderate_def by blast
  obtain k where k: "64 \<le> k" "k + 3 * Suc n \<le> 500"
    "\<And>a. Stale (stats_or_zero (stats_of X tx e a)) \<or> small_stats k (stats_or_zero (stats_of X tx e a))"
    using assms(1) unfolding headroom_def Let_def by blast
  assume "\<not> Stale (stats_or_zero (stats_of X tx e a))"
  with k(3) have "small_stats k (stats_or_zero (stats_of X tx e a))" by blast
  from small_stats_add [OF this _ k(1)] x assms(2) k(2) have "small_stats (k + 3) (statsWelfordAdd x (stats_or_zero (stats_of X tx e a)))"
    unfolding moderate_def by auto
  then show "stats_finite (statsWelfordAdd x (stats_or_zero (stats_of X tx e a)))"
    by (rule small_stats_finite) (use k(2) in simp)
qed

lemma headroom_storable:
  assumes "headroom X (Suc n) tx e" "moderate X doc" "doc_keys_ok X doc" "parent_ok X e d doc tx" "length d \<le> max_key_size"
  shows "storable X e d doc tx"
  using assms headroom_aggregates [OF assms(1,2)] by (simp add: storable_def headroom_def)

lemma headroom_put:
  assumes run: "putInTxEvents X now e d doc tx = Inr (ev, tx')" and ok: "store_ok X tx e" and u: "utf8_ok d"
    and room: "headroom X (Suc n) tx e" and doc: "moderate X doc"
  shows "headroom X n tx' e"
proof -
  note v = put_views(1,5) [OF run ok u]
  obtain k where k: "64 \<le> k" "k + 3 * Suc n \<le> 500"
    "\<And>a. Stale (stats_or_zero (stats_of X tx e a)) \<or> small_stats k (stats_or_zero (stats_of X tx e a))"
    using room unfolding headroom_def Let_def by blast
  have "Stale (stats_or_zero (stats_of X tx' e a)) \<or> small_stats (k + 3) (stats_or_zero (stats_of X tx' e a))" for a
  proof (cases "attr_value X a (doc_contents X tx e d)")
    case (Some y)
    then show ?thesis by (simp add: v(1) stats_update_def stats_or_zero_def)
  next
    case old: None
    show ?thesis
    proof (cases "attr_value X a doc")
      case None
      with old k(3) [of a] show ?thesis by (auto simp: v(1) stats_update_def intro: small_stats_mono)
    next
      case (Some x)
      with doc have "f64_within 64 x" unfolding moderate_def by blast
      with old Some k(3) [of a] small_stats_add [OF _ _ k(1)] k(2) show ?thesis
        by (auto simp: v(1) stats_update_def Let_def stats_or_zero_def [of "Some _"])
    qed
  qed
  moreover have "next_id X tx' e \<noteq> 0" "unat (next_id X tx' e) + n < 2 ^ 32"
  proof -
    have "unat (next_id X tx e + 1) = unat (next_id X tx e) + 1"
      using room unfolding headroom_def by (intro unat_add_lem [THEN iffD1, THEN trans]) simp_all
    with room show "next_id X tx' e \<noteq> 0" "unat (next_id X tx' e) + n < 2 ^ 32"
      unfolding v(2) headroom_def by (auto simp: unat_eq_0 [symmetric])
  qed
  ultimately show ?thesis using k(1,2) unfolding headroom_def Let_def by (intro conjI exI [of _ "k + 3"]) auto
qed

lemma headroom_delete:
  assumes "deleteInTx X now e d tx = Inr (evs, tx')" "store_ok X tx e" "utf8_ok d" "headroom X n tx e"
  shows "headroom X n tx' e"
  using assms(4) delete_views [OF assms(1-3)] unfolding headroom_def Let_def by (metis (no_types, lifting))

lemma batchLoop_succeeds:
  assumes "store_ok X tx e" "headroom X (length docs + n) tx e" "\<forall>m. ctx m = None"
    "\<forall>(d, doc) \<in> set docs. d \<noteq> [] \<and> utf8_ok d \<and> length d \<le> max_key_size \<and> doc_keys_ok X doc \<and> moderate X doc \<and>
       closureParent X doc = None"
  shows "\<exists>evs tx'. batchLoop X ctx now e m docs pending tx = Inr (evs, tx') \<and> headroom X n tx' e"
  using assms
proof (induction docs arbitrary: m pending tx)
  case (Cons dd docs)
  obtain d doc where dd: "dd = (d, doc)" by (cases dd)
  have d: "d \<noteq> []" "utf8_ok d" "length d \<le> max_key_size" "doc_keys_ok X doc" "moderate X doc" "closureParent X doc = None"
    using Cons.prems(4) by (simp_all add: dd)
  have room: "headroom X (Suc (length docs + n)) tx e" using Cons.prems(2) by simp
  have "storable X e d doc tx" by (rule headroom_storable [OF room d(5,4) _ d(3)]) (simp add: parent_ok_def d(6))
  then obtain ev t where p: "putInTxEvents X (now m) e d doc tx = Inr (ev, t)"
    using putInTxEvents_succeeds [OF Cons.prems(1) d(1,2)] by blast
  have "\<exists>evs tx'. batchLoop X ctx now e (Suc m) docs (pending @ [ev]) t = Inr (evs, tx') \<and> headroom X n tx' e"
    using Cons.prems(3,4) headroom_put [OF p Cons.prems(1) d(2) room d(5)] putInTxEvents_ok(1) [OF p Cons.prems(1) d(2)]
    by (intro Cons.IH) auto
  moreover have "ctxErr ctx (Suc m) = Inr ()" using Cons.prems(3) by (simp add: ctxErr_def)
  ultimately show ?case using p by (simp add: dd)
qed simp

end

end
