(* ===== verification/Conforming.thy ===== *)
theory Conforming
  imports Conformance Headroom
begin

text \<open>
  The bbolt store as an implementation of the two interfaces, and the proof that it passes the
  conformance suites. Its state is the committed database with the number of operations so
  far, which indexes the readings of the clock; a query reads the same database in both of
  its view transactions, since a suite runs one operation after the other.
\<close>

section \<open>The store\<close>

definition stamped :: "'a result \<times> 'tx \<times> MutationEvent list \<Rightarrow> nat \<Rightarrow> 'a result \<times> 'tx \<times> nat" where
  "stamped r k = (case r of (res, db, _) \<Rightarrow> (res, db, Suc k))"

definition bboltStore :: "('tx, 'v, 'bm) ext \<Rightarrow> (nat \<Rightarrow> nat \<Rightarrow> i64) \<Rightarrow> ('tx \<times> nat) IndexedStore" where
  "bboltStore X clk =
     \<lparr>dsPut = (\<lambda>ctx e d b (db, k). stamped (Put X ctx (clk k 0) e d b db) k),
      dsGet = (\<lambda>ctx e d (db, k). Get X ctx e d db),
      dsDelete = (\<lambda>ctx e d (db, k). stamped (Delete X ctx (clk k 0) e d db) k),
      dsBatchPut = (\<lambda>ctx e docs (db, k). stamped (BatchPut X ctx (clk k) e (ranged X docs) db) k),
      dsScan = (\<lambda>ctx e fn (db, k) c. Scan X ctx e fn db c),
      isLookup = (\<lambda>ctx e trm (db, k). Lookup X ctx e trm db db),
      isLookupPrefix = (\<lambda>ctx e pfx (db, k). LookupPrefix X ctx e pfx db db),
      isLookupNumericRange = (\<lambda>ctx e a mn mx ro (db, k). LookupNumericRange X ctx e a mn mx ro db db),
      isWindowQuery = (\<lambda>ctx e item types window (db, k). WindowQuery X ctx e item types window db),
      isClusterQuery = (\<lambda>ctx e item types window n (db, k). ClusterQuery X ctx e item types window n db),
      isSequenceJoin = (\<lambda>ctx e items steps window (db, k). SequenceJoin X ctx e items steps window db),
      isGroupCount = (\<lambda>ctx e item a v (db, k). GroupCount X ctx e item a v db db),
      isStats = (\<lambda>ctx e a (db, k). case StatsFor X ctx e a db of (r, db) \<Rightarrow> (r, db, k)),
      isLastSeen = (\<lambda>ctx e item ty (db, k). LastSeen X ctx e item ty db),
      isAncestors = (\<lambda>ctx e d (db, k). Ancestors X ctx e d db),
      isDescendants = (\<lambda>ctx e d (db, k). Descendants X ctx e d db db)\<rparr>"

lemma bboltStore_sel [simp]:
  "dsPut (bboltStore X clk) ctx e d b (db, k) = stamped (Put X ctx (clk k 0) e d b db) k"
  "dsGet (bboltStore X clk) ctx e d (db, k) = Get X ctx e d db"
  "dsDelete (bboltStore X clk) ctx e d (db, k) = stamped (Delete X ctx (clk k 0) e d db) k"
  "dsBatchPut (bboltStore X clk) ctx e docs (db, k) = stamped (BatchPut X ctx (clk k) e (ranged X docs) db) k"
  "dsScan (bboltStore X clk) ctx e fn (db, k) c = Scan X ctx e fn db c"
  "isLookup (bboltStore X clk) ctx e trm (db, k) = Lookup X ctx e trm db db"
  "isLookupPrefix (bboltStore X clk) ctx e pfx (db, k) = LookupPrefix X ctx e pfx db db"
  "isLookupNumericRange (bboltStore X clk) ctx e a mn mx ro (db, k) = LookupNumericRange X ctx e a mn mx ro db db"
  "isWindowQuery (bboltStore X clk) ctx e item types window (db, k) = WindowQuery X ctx e item types window db"
  "isGroupCount (bboltStore X clk) ctx e item a v (db, k) = GroupCount X ctx e item a v db db"
  "isStats (bboltStore X clk) ctx e a (db, k) = (case StatsFor X ctx e a db of (r, db) \<Rightarrow> (r, db, k))"
  "isLastSeen (bboltStore X clk) ctx e item ty (db, k) = LastSeen X ctx e item ty db"
  "isAncestors (bboltStore X clk) ctx e d (db, k) = Ancestors X ctx e d db"
  "isDescendants (bboltStore X clk) ctx e d (db, k) = Descendants X ctx e d db db"
  by (simp_all add: bboltStore_def)

section \<open>The contract of document stores\<close>

text \<open>Room for \<open>n\<close> more documents, the ids the store takes, and the documents: their keys fit, their
  numbers are moderate, and they name no parent.\<close>

definition bbolt_room :: "('tx, 'v, 'bm) ext \<Rightarrow> nat \<Rightarrow> 'tx \<times> nat \<Rightarrow> bool" where
  "bbolt_room X n s \<longleftrightarrow> all_ok X (fst s) \<and> (\<forall>e. no_colon e \<longrightarrow> headroom X n (fst s) e)"

definition bbolt_docs :: "('tx, 'v, 'bm) ext \<Rightarrow> 'tx \<times> nat \<Rightarrow> string \<Rightarrow> string \<Rightarrow> bytes option" where
  "bbolt_docs X s = documents X (fst s)"

definition entity_id_ok :: "string \<Rightarrow> bool" where
  "entity_id_ok e \<longleftrightarrow> e \<noteq> [] \<and> no_colon e"

definition doc_id_ok :: "string \<Rightarrow> bool" where
  "doc_id_ok d \<longleftrightarrow> d \<noteq> [] \<and> utf8_ok d \<and> length d \<le> max_key_size"

definition plain_doc :: "('tx, 'v, 'bm) ext \<Rightarrow> bytes \<Rightarrow> bool" where
  "plain_doc X b \<longleftrightarrow> doc_keys_ok X b \<and> moderate X b \<and> closureParent X b = None"

lemma valid_ids: "entity_id_ok e \<Longrightarrow> doc_id_ok d \<Longrightarrow> validateIDs e d = Inr ()"
  by (simp add: validateIDs_ok entity_id_ok_def doc_id_ok_def)

lemma valid_entity: "entity_id_ok e \<Longrightarrow> validateEntityID e = Inr ()"
  by (simp add: validateEntityID_ok entity_id_ok_def)

lemma invalid_ids: "e = [] \<or> d = [] \<Longrightarrow> \<exists>er. validateIDs e d = Inl er"
  using validateIDs_ok [of e d] by (cases "validateIDs e d") auto

lemma validateDocIDs_ok: "\<forall>(d, b) \<in> set ds. d \<noteq> [] \<Longrightarrow> foldR (\<lambda>(docID, _) u. validateDocID docID) ds () = Inr ()"
  by (induction ds) (auto simp: validateDocID_def result_simps)

lemma validateDocIDs_empty: "[] \<in> fst ` set ds \<Longrightarrow> \<exists>er. foldR (\<lambda>(docID, _) u. validateDocID docID) ds () = Inl er"
  by (induction ds) (auto simp: validateDocID_def result_simps)

lemma ctxErr_background: "ctxErr ctxBackground n = Inr ()"
  by (simp add: ctxErr_def ctxBackground_def)

lemma scanLoop_visit:
  assumes "\<forall>(k, v) \<in> set items. snappy_decode X v \<noteq> None"
  shows "scanLoop X ctxBackground n fn items c = (Inr (), visit fn (map (\<lambda>(k, v). (k, the (snappy_decode X v))) items) c)"
  using assms by (induction items arbitrary: n c) (auto simp: ctxBackground_def split: prod.splits)

context roomy
begin

text \<open>What a successful write keeps: the invariant, and the headroom of every entity it does not
  touch.\<close>

lemma room_write:
  assumes run: "exec_write X w db = (Inr (), db', evs)" and w: "write_ok w" and room: "bbolt_room X m (db, k)"
    and own: "headroom X n db' (write_entity w)" and n: "n \<le> m"
  shows "bbolt_room X n (db', k')"
    "documents X db' = (documents X db)(write_entity w := write_effect w (documents X db (write_entity w)))"
proof -
  have ok: "all_ok X db" using room by (simp add: bbolt_room_def)
  note all = exec_write_all [OF run ok w]
  have k: "store_ok X db (write_entity w)" using ok exec_write_valid [OF run] by (simp add: all_ok_def)
  have "headroom X n db' e" if e: "no_colon e" for e
  proof (cases "e = write_entity w")
    case False
    have "headroom X m db e" using room e by (simp add: bbolt_room_def)
    then have "headroom X n db e" using headroom_less [of X "m - n" n] n by simp
    then show ?thesis using headroom_frame [OF exec_write_other [OF run k w e False]] by simp
  qed (use own in simp)
  with all(1) show "bbolt_room X n (db', k')" by (simp add: bbolt_room_def)
  show "documents X db' = (documents X db)(write_entity w := write_effect w (documents X db (write_entity w)))" by (rule all(2))
qed

lemma bbolt_put:
  assumes "bbolt_room X (Suc n) (db, k)" "entity_id_ok e" "doc_id_ok d" "doc_keys_ok X b" "moderate X b" "parent_ok X e d b db"
  shows "\<exists>db' ev. Put X ctxBackground now e d b db = (Inr (), db', [ev]) \<and> putInTxEvents X now e d b db = Inr (ev, db') \<and>
    bbolt_room X n (db', k') \<and> documents X db' = (documents X db)(e := (documents X db e)(d \<mapsto> b))"
proof -
  have nc: "no_colon e" using assms(2) by (simp add: entity_id_ok_def)
  have room: "headroom X (Suc n) db e" and ok: "store_ok X db e" using assms(1) nc by (simp_all add: bbolt_room_def all_ok_def)
  have u: "utf8_ok d" and len: "length d \<le> max_key_size" using assms(3) by (simp_all add: doc_id_ok_def)
  have st: "storable X e d b db" by (rule headroom_storable [OF room assms(5,4,6) len])
  obtain ev db' where run: "Put X ctxBackground now e d b db = (Inr (), db', [ev])"
    using Put_succeeds [OF ok valid_ids [OF assms(2,3)] _ u st, of ctxBackground now] by (auto simp: ctxBackground_def)
  then have p: "putInTxEvents X now e d b db = Inr (ev, db')" by (cases rule: Put_cases) auto
  have "headroom X n db' e" by (rule headroom_put [OF p ok u room assms(5)])
  then show ?thesis
    using room_write [where w = "WPut ctxBackground now e d b" and n = n, OF _ _ assms(1)] run p u by auto
qed

lemma bbolt_delete:
  assumes "bbolt_room X n (db, k)" "entity_id_ok e" "doc_id_ok d"
  shows "\<exists>db' evs. Delete X ctxBackground now e d db = (Inr (), db', evs) \<and>
    bbolt_room X n (db', k') \<and> documents X db' = (documents X db)(e := (documents X db e)(d := None))"
proof -
  have nc: "no_colon e" using assms(2) by (simp add: entity_id_ok_def)
  have room: "headroom X n db e" and ok: "store_ok X db e" using assms(1) nc by (simp_all add: bbolt_room_def all_ok_def)
  have u: "utf8_ok d" using assms(3) by (simp add: doc_id_ok_def)
  obtain evs db' where run: "Delete X ctxBackground now e d db = (Inr (), db', evs)"
    using Delete_succeeds [OF ok valid_ids [OF assms(2,3)] _ u, of ctxBackground now] by (auto simp: ctxBackground_def)
  then have p: "deleteInTx X now e d db = Inr (evs, db')" by (cases rule: Delete_cases) auto
  have "headroom X n db' e" by (rule headroom_delete [OF p ok u room])
  then show ?thesis
    using room_write [where w = "WDelete ctxBackground now e d" and n = n, OF _ _ assms(1)] run u by auto
qed

lemma bbolt_batch:
  assumes "bbolt_room X (length ds + n) (db, k)" "entity_id_ok e" "distinct (map fst ds)"
    "\<forall>(d, b) \<in> set ds. doc_id_ok d \<and> plain_doc X b"
  shows "\<exists>db' evs. BatchPut X ctxBackground now e ds db = (Inr (), db', evs) \<and>
    bbolt_room X n (db', k') \<and> documents X db' = (documents X db)(e := documents X db e ++ map_of ds)"
proof -
  have nc: "no_colon e" using assms(2) by (simp add: entity_id_ok_def)
  have room: "headroom X (length ds + n) db e" and ok: "store_ok X db e" using assms(1) nc by (simp_all add: bbolt_room_def all_ok_def)
  have "\<exists>evs tx'. batchLoop X ctxBackground now e 0 ds [] db = Inr (evs, tx') \<and> headroom X n tx' e"
    using assms(4) by (intro batchLoop_succeeds [OF ok room]) (auto simp: ctxBackground_def doc_id_ok_def plain_doc_def)
  then obtain evs db' where p: "batchLoop X ctxBackground now e 0 ds [] db = Inr (evs, db')" and h: "headroom X n db' e" by blast
  have "foldR (\<lambda>(docID, _) u. validateDocID docID) ds () = Inr ()"
    using assms(4) by (intro validateDocIDs_ok) (auto simp: doc_id_ok_def)
  then have run: "BatchPut X ctxBackground now e ds db = (Inr (), db', evs)"
    using p valid_entity [OF assms(2)]
    by (simp add: BatchPut_def ctxErr_background db_update_def finish_def begins commits)
  have "write_ok (WBatch ctxBackground now e ds)" using assms(3,4) by (auto simp: doc_id_ok_def)
  then show ?thesis
    using room_write [where w = "WBatch ctxBackground now e ds" and n = n, OF _ _ assms(1)] run h by auto
qed

lemma bbolt_scan:
  assumes "bbolt_room X n (db, k)" "entity_id_ok e"
  shows "\<exists>ds. distinct (map fst ds) \<and> map_of (map (map_prod id contents) ds) = documents X db e \<and>
    (\<forall>fn c. Scan X ctxBackground e fn db c = (Inr (), visit fn ds c))"
proof -
  let ?items = "bucket_items X db (docsBucket e)"
  let ?ds = "map (\<lambda>(k, v). (k, the (snappy_decode X v))) ?items"
  have nc: "no_colon e" using assms(2) by (simp add: entity_id_ok_def)
  then have dk: "docs_ok X db e" using assms(1) by (simp add: bbolt_room_def all_ok_def store_ok_def)
  have dec: "\<forall>(k, v) \<in> set ?items. snappy_decode X v \<noteq> None"
    using dk unfolding docs_ok_def by (auto simp: in_items_iff)
  have list: "map (map_prod id contents) ?ds = doc_list X db e" by (simp add: doc_list_def case_prod_unfold)
  have "map fst ?ds = map fst (doc_list X db e)" by (simp add: doc_list_def case_prod_unfold)
  then have "distinct (map fst ?ds)" using doc_list_spec(1) [OF dk] by (simp add: strict_sorted_iff)
  moreover have "map_of (map (map_prod id contents) ?ds) = documents X db e"
    using doc_list_spec(2) [OF dk] nc by (simp only: list documents_def if_True)
  moreover have "?items = []" if "\<not> has_bucket X db (docsBucket e)"
    using no_bucket_get [OF that] in_items_iff [of _ _ db "docsBucket e"] by (cases ?items) fastforce+
  then have "Scan X ctxBackground e fn db c = (Inr (), visit fn ?ds c)" for fn c
    using valid_entity [OF assms(2)] begins scanLoop_visit [OF dec]
    by (auto simp: Scan_def ctxErr_background)
  ultimately show ?thesis by blast
qed

end

context roomy
begin

lemma ranged_set: "distinct (map fst ds) \<Longrightarrow> set (ranged X ds) = set (ds :: (string \<times> 'a) list)"
  using ranged_keys ranged_map by (metis map_of_inject_set)

lemma ranged_length: "distinct (map fst ds) \<Longrightarrow> length (ranged X ds) = length (ds :: (string \<times> 'a) list)"
  using ranged_set ranged_keys by (metis distinct_card distinct_map)

lemma bbolt_batch_ranged:
  assumes "bbolt_room X (length ds + n) (db, k)" "entity_id_ok e" "distinct (map fst ds)"
    "\<forall>(d, b) \<in> set ds. doc_id_ok d \<and> plain_doc X b"
  shows "\<exists>db' evs. BatchPut X ctxBackground now e (ranged X ds) db = (Inr (), db', evs) \<and>
    bbolt_room X n (db', k') \<and> documents X db' = (documents X db)(e := documents X db e ++ map_of ds)"
  using bbolt_batch [where ds = "ranged X ds" and n = n, OF _ assms(2) ranged_keys [OF assms(3)]] assms(1,4)
  by (simp add: ranged_set [OF assms(3)] ranged_length [OF assms(3)] ranged_map)

lemma bbolt_batch_canceled:
  assumes "entity_id_ok e" "distinct (map fst ds)" "\<forall>(d, b) \<in> set ds. doc_id_ok d"
  shows "BatchPut X ctxCanceled now e (ranged X ds) db = (Inl Canceled, db, [])"
proof -
  have "foldR (\<lambda>(docID, _) u. validateDocID docID) (ranged X ds) () = Inr ()"
    using assms(3) ranged_set [OF assms(2)] by (intro validateDocIDs_ok) (auto simp: doc_id_ok_def)
  then show ?thesis using valid_entity [OF assms(1)] by (simp add: BatchPut_def ctxErr_def ctxCanceled_def)
qed

lemma bbolt_batch_invalid:
  assumes "distinct (map fst ds)" "e = [] \<or> [] \<in> fst ` set ds"
  shows "\<exists>er. BatchPut X ctxBackground now e (ranged X ds) db = (Inl er, db, [])"
  using assms(2) validateDocIDs_empty [of "ranged X ds"] ranged_set [OF assms(1)] validateEntityID_ok [of "[]"]
  by (cases "validateEntityID e") (auto simp: BatchPut_def)

lemma bbolt_get:
  assumes "bbolt_room X n (db, k)" "entity_id_ok e" "doc_id_ok d"
  shows "case documents X db e d of
      None \<Rightarrow> Get X ctxBackground e d db = Inl (Sentinel ErrNotFound)
    | Some doc \<Rightarrow> (\<exists>b. Get X ctxBackground e d db = Inr b \<and> contents b = doc)"
proof -
  have nc: "no_colon e" using assms(2) by (simp add: entity_id_ok_def)
  then have "docs_ok X db e" using assms(1) by (simp add: bbolt_room_def all_ok_def store_ok_def)
  from Get_result [OF this valid_ids [OF assms(2,3)], of ctxBackground] begins nc show ?thesis
    by (simp add: documents_def ctxBackground_def)
qed

end

text \<open>The bbolt store keeps the contract.\<close>

lemmas bbolt_defs = stamped_def bbolt_docs_def plain_doc_def

sublocale roomy \<subseteq> store: document_store "bboltStore X clk" "bbolt_room X" "bbolt_docs X" entity_id_ok doc_id_ok "plain_doc X"
  for clk
proof (unfold_locales, goal_cases)
  case (1 n s)
  then show ?case using headroom_less [of X 1 n "fst s"] by (simp add: bbolt_room_def)
next
  case (2 n s e d b)
  then have "parent_ok X e d b (fst s)" by (simp add: plain_doc_def parent_ok_def)
  with 2 bbolt_put [of n "fst s" "snd s" e d b "clk (snd s) 0" "Suc (snd s)"] show ?case by (cases s) (auto simp: bbolt_defs)
next
  case (3 ds n s e)
  then show ?case using bbolt_batch_ranged [of ds n "fst s" "snd s" e "clk (snd s)" "Suc (snd s)"] by (cases s) (auto simp: bbolt_defs)
next
  case (4 n s e ds)
  then show ?case by (cases s) (simp add: bbolt_batch_canceled bbolt_defs bbolt_room_def)
next
  case (5 n s ds e)
  then show ?case using bbolt_batch_invalid [of ds e "clk (snd s)" "fst s"] by (cases s) (auto simp: bbolt_defs bbolt_room_def)
next
  case (6 n s e d)
  then show ?case using bbolt_get [of n "fst s" "snd s" e d] by (cases s) (auto simp: bbolt_defs split: option.splits)
next
  case (7 n s e d)
  then show ?case using bbolt_delete [of n "fst s" "snd s" e d "clk (snd s) 0" "Suc (snd s)"] by (cases s) (auto simp: bbolt_defs)
next
  case (8 n s e)
  then show ?case using bbolt_scan [of n "fst s" "snd s" e] by (cases s) (simp add: bbolt_defs)
next
  case (9 n s e d b)
  then show ?case using invalid_ids [of e d] by (cases s) (auto simp: bbolt_defs Put_def bbolt_room_def)
next
  case (10 n s e d)
  then show ?case using invalid_ids [of e d] by (cases s) (auto simp: bbolt_defs Delete_def bbolt_room_def)
next
  case (11 e d s)
  then show ?case using invalid_ids [of e d] by (cases s) (auto simp: Get_def)
next
  case (12 fn s c)
  show ?case by (cases s) (simp add: Scan_def validateEntityID_def)
qed

section \<open>The documents of the suites\<close>

text \<open>What \<^verbatim>\<open>encoding/json\<close> makes of the documents that the suites store, and how \<^verbatim>\<open>strconv.FormatFloat\<close>
  prints their numbers.\<close>

definition suiteValues :: "(bytes \<times> any) list" where
  \<open>suiteValues =
     [(''{"hello":"world","n":42}'', AObj [(''hello'', AStr ''world''), (''n'', AFloat (f64_of_int 42))]),
      (''{}'', AObj []),
      (''{"v":"a"}'', AObj [(''v'', AStr ''a'')]),
      (''{"v":"b"}'', AObj [(''v'', AStr ''b'')]),
      (''{"v":"c"}'', AObj [(''v'', AStr ''c'')]),
      (''{"keep":true}'', AObj [(''keep'', ABool True)]),
      (''{"v":1}'', AObj [(''v'', AFloat (f64_of_int 1))]),
      (''{"v":2}'', AObj [(''v'', AFloat (f64_of_int 2))]),
      (''{"v":3}'', AObj [(''v'', AFloat (f64_of_int 3))]),
      (''{"v":4}'', AObj [(''v'', AFloat (f64_of_int 4))]),
      (''"a"'', AStr ''a''),
      (''"b"'', AStr ''b''),
      (''{"status":"active"}'', AObj [(''status'', AStr ''active'')]),
      (''{"status":"retired"}'', AObj [(''status'', AStr ''retired'')]),
      (''{"category":"truck"}'', AObj [(''category'', AStr ''truck'')]),
      (''{"category":"trailer"}'', AObj [(''category'', AStr ''trailer'')]),
      (''{"category":"car"}'', AObj [(''category'', AStr ''car'')]),
      (''{"km":10}'', AObj [(''km'', AFloat (f64_of_int 10))]),
      (''{"km":20}'', AObj [(''km'', AFloat (f64_of_int 20))]),
      (''{"km":30}'', AObj [(''km'', AFloat (f64_of_int 30))]),
      (''{"km":40}'', AObj [(''km'', AFloat (f64_of_int 40))]),
      (''{"km":50}'', AObj [(''km'', AFloat (f64_of_int 50))]),
      (''{"item_id":"i1","type":"inspect","at":1000}'',
         AObj [(''item_id'', AStr ''i1''), (''type'', AStr ''inspect''), (''at'', AFloat (f64_of_int 1000))]),
      (''{"item_id":"i1","type":"inspect","at":2000}'',
         AObj [(''item_id'', AStr ''i1''), (''type'', AStr ''inspect''), (''at'', AFloat (f64_of_int 2000))]),
      (''{"item_id":"i1","type":"inspect","at":3000}'',
         AObj [(''item_id'', AStr ''i1''), (''type'', AStr ''inspect''), (''at'', AFloat (f64_of_int 3000))]),
      (''{"item_id":"i1","type":"repair","at":2000}'',
         AObj [(''item_id'', AStr ''i1''), (''type'', AStr ''repair''), (''at'', AFloat (f64_of_int 2000))]),
      (''{"parent":"Vehicles"}'', AObj [(''parent'', AStr ''Vehicles'')]),
      (''{"parent":"Trucks"}'', AObj [(''parent'', AStr ''Trucks'')])]\<close>

definition suiteNumbers :: "(int \<times> string) list" where
  "suiteNumbers =
     [(1, ''1''), (2, ''2''), (3, ''3''), (4, ''4''), (42, ''42''), (10, ''10''), (20, ''20''), (30, ''30''), (40, ''40''), (50, ''50''),
      (1000, ''1000''), (2000, ''2000''), (3000, ''3000'')]"

definition decodes_suite :: "('tx, 'v, 'bm) ext \<Rightarrow> bool" where
  "decodes_suite X \<longleftrightarrow> (\<forall>(b, v) \<in> set suiteValues. json_unmarshal X b = Some v) \<and>
     (\<forall>(n, s) \<in> set suiteNumbers. format_g X (f64_of_int n) = s)"

lemma decodes_suiteD:
  assumes "decodes_suite X"
  shows "(b, v) \<in> set suiteValues \<Longrightarrow> json_unmarshal X b = Some v" "(n, s) \<in> set suiteNumbers \<Longrightarrow> format_g X (f64_of_int n) = s"
  using assms by (auto simp: decodes_suite_def)

lemma suite_nth:
  assumes "decodes_suite X" "i < 28"
  shows "json_unmarshal X (fst (suiteValues ! i)) = Some (snd (suiteValues ! i))"
proof (rule decodes_suiteD(1) [OF assms(1)])
  have "length suiteValues = 28" by (simp add: suiteValues_def)
  with assms(2) show "(fst (suiteValues ! i), snd (suiteValues ! i)) \<in> set suiteValues" by simp
qed

lemma f64_of_int_small:
  assumes "\<bar>n\<bar> \<le> 2 ^ 16"
  shows "f64_within 64 (f64_of_int n)" "f64_finite (f64_of_int n)"
proof -
  note w = f64_within_of_int [OF assms]
  show "f64_within 64 (f64_of_int n)" by (rule f64_within_mono [OF w]) simp
  show "f64_finite (f64_of_int n)" by (rule f64_within_finite [OF w]) simp
qed

text \<open>What the indexes read from a flat object.\<close>

lemma object_fields:
  assumes "json_unmarshal X b = Some (AObj kvs)" "b \<noteq> []"
  shows "doc_terms X b = \<Union> (leaf_terms ` set (leaves X [] (AObj kvs)))"
    "doc_numerics X b = concat (map num_fields (numbers X [] (AObj kvs)))"
    "groupByFields X b = (case map_of kvs ''item_id'' of
       Some (AStr item) \<Rightarrow> Some (item, List.map_filter (scalarField X) kvs) | _ \<Rightarrow> None)"
    "closureParent X b = (case map_of kvs ''parent'' of Some (AStr s) \<Rightarrow> if s = [] then None else Some s | _ \<Rightarrow> None)"
    "map_of kvs ''item_id'' = None \<Longrightarrow> temporalFields X b = None"
  using assms
  by (simp_all add: doc_terms_def doc_numerics_def groupByFields_def closureParent_def temporalFields_def unmarshal_map_def)

lemmas field_defs = attr_value_def byPath_def num_fields_def leaf_terms_def key_ok_def max_key_size_def groupByKey_def
  absenceCellKey_def List.map_filter_def f64_of_int_small

fun members_of :: "any \<Rightarrow> (string \<times> any) list" where
  "members_of (AObj kvs) = kvs"
| "members_of _ = []"

lemma plain_object:
  fixes X v defines "kvs \<equiv> members_of v"
  assumes "json_unmarshal X b = Some v" "v = AObj kvs" "b \<noteq> []" "map_of kvs ''item_id'' = None" "map_of kvs ''parent'' = None"
    "\<forall>t \<in> \<Union> (leaf_terms ` set (leaves X [] (AObj kvs))). length t \<le> max_key_size"
    "\<forall>a x. map_of (byPath (concat (map num_fields (numbers X [] (AObj kvs))))) a = Some x \<longrightarrow> key_ok a \<and> f64_within 64 x"
  shows "plain_doc X b"
  using assms(4-) object_fields [OF assms(2) [unfolded assms(3)] assms(4)]
  by (simp add: plain_doc_def doc_keys_ok_def moderate_def attr_value_def)

lemma plain_other:
  assumes "json_unmarshal X b = Some v" "\<exists>s. v = AStr s" "b \<noteq> []"
  shows "plain_doc X b"
  using assms by (auto simp: plain_doc_def doc_keys_ok_def moderate_def attr_value_def doc_terms_def doc_numerics_def
      groupByFields_def closureParent_def temporalFields_def unmarshal_map_def byPath_def)

lemma suite_plain:
  assumes "decodes_suite X"
  shows "list_all (plain_doc X) suiteContents"
proof -
  note j = suite_nth [OF assms]
  have g: "format_g X (f64_of_int 1) = ''1''" "format_g X (f64_of_int 2) = ''2''" "format_g X (f64_of_int 3) = ''3''"
    "format_g X (f64_of_int 4) = ''4''" "format_g X (f64_of_int 42) = ''42''"
    by (rule decodes_suiteD(2) [OF assms], simp add: suiteNumbers_def)+
  note simps = suiteValues_def field_defs g
  have objects: "plain_doc X (fst (suiteValues ! i))" if lt: "i < 10" for i
  proof -
    have "i = 0 \<or> i = 1 \<or> i = 2 \<or> i = 3 \<or> i = 4 \<or> i = 5 \<or> i = 6 \<or> i = 7 \<or> i = 8 \<or> i = 9"
      using lt by presburger
    then show ?thesis
      by (elim disjE; intro plain_object [OF j]) (simp_all add: simps)
  qed
  have others: "plain_doc X (fst (suiteValues ! i))" if "i = 10 \<or> i = 11" for i
    by (rule plain_other [OF j]) (use that in \<open>auto simp: suiteValues_def\<close>)
  have "i < 10 \<or> i = 10 \<or> i = 11" if "i < 12" for i :: nat using that by presburger
  then have "plain_doc X (fst (suiteValues ! i))" if "i < 12" for i using objects others that by meson
  then have all: "\<forall>b \<in> (\<lambda>i. fst (suiteValues ! i)) ` {..<12}. plain_doc X b" by auto
  have c: "suiteContents = map (\<lambda>i. fst (suiteValues ! i)) [0..<12]"
    by (simp add: suiteContents_def suiteValues_def upt_rec)
  show ?thesis using all unfolding c list_all_iff set_map set_upt atLeast0LessThan .
qed

lemma suite_ids:
  "list_all entity_id_ok suiteEntities" "list_all doc_id_ok suiteDocIDs"
  by (simp_all add: suiteEntities_def suiteDocIDs_def entity_id_ok_def doc_id_ok_def no_colon_def max_key_size_def byte_in_def)

text \<open>A store on an empty database passes the suite.\<close>

context roomy
begin

lemma empty_headroom:
  assumes "\<And>n. \<not> has_bucket X db n" "n \<le> 140"
  shows "headroom X n db e"
proof -
  have g: "bucket_get X db b k = None" for b k by (rule no_bucket_get [OF assms(1)])
  have "stats_or_zero (stats_of X db e a) = zeroStats" for a by (simp add: stats_of_def g stats_or_zero_def)
  with assms(2) show ?thesis unfolding headroom_def Let_def
    by (intro conjI exI [of _ 64]) (simp_all add: next_id_def g small_stats_zero)
qed

lemma bbolt_passes:
  assumes "\<And>n. \<not> has_bucket X db n" "decodes_suite X"
  shows "list_all snd (Suite (bboltStore X clk) (db, k))"
proof (rule store.suite_passes)
  have g: "bucket_get X db b k = None" for b k by (rule no_bucket_get [OF assms(1)])
  have "bbolt_room X 8 (db, k)" using all_ok_empty [OF assms(1)] empty_headroom [OF assms(1)] by (simp add: bbolt_room_def)
  moreover have "bbolt_docs X (db, k) = (\<lambda>_ _. None)" by (simp add: bbolt_docs_def documents_def stored_def g fun_eq_iff)
  ultimately show "store.fresh_store (db, k)"
    using suite_plain [OF assms(2)] suite_ids by (simp add: store.fresh_store_def list_all_iff)
qed

end

end
