(* ===== verification/Indexedsuite.thy ===== *)
theory Indexedsuite
  imports Conforming
begin

text \<open>
  The bbolt store passes the suite for indexed stores: the puts of a test succeed, the database
  after them shows exactly the documents put, and the exactness of each index gives the answer
  that the test expects. The arithmetic of the aggregates is exact at the integers involved.
\<close>

section \<open>Integers as floats\<close>

lemma f64_int_class:
  assumes "\<bar>n\<bar> \<le> 2 ^ 53"
  shows "\<not> f64_isNaN (f64_of_int n)" "\<not> f64_isInf (f64_of_int n)" "f64_finite (f64_of_int n)"
  using f64_within_finite' [OF f64_of_int_units(3) [OF assms]] f64_within_finite [OF f64_of_int_units(3) [OF assms]] by simp_all

lemma f64_int_order:
  assumes "\<bar>a\<bar> \<le> 2 ^ 53" "\<bar>b\<bar> \<le> 2 ^ 53"
  shows "f64_lt (f64_of_int a) (f64_of_int b) \<longleftrightarrow> a < b" "f64_le (f64_of_int a) (f64_of_int b) \<longleftrightarrow> a \<le> b"
proof -
  have "a * 2 ^ 1074 < b * 2 ^ 1074 \<longleftrightarrow> a < b" "a * 2 ^ 1074 \<le> b * 2 ^ 1074 \<longleftrightarrow> a \<le> b"
    by (simp_all only: mult_less_cancel_right_pos mult_le_cancel_right_pos zero_less_power zero_less_numeral)
  then show "f64_lt (f64_of_int a) (f64_of_int b) \<longleftrightarrow> a < b" "f64_le (f64_of_int a) (f64_of_int b) \<longleftrightarrow> a \<le> b"
    by (simp_all only: f64_lt_def f64_le_def f64_of_int_units(1) assms f64_int_class simp_thms)
qed

lemma f64_of_int_eq:
  assumes "\<bar>a\<bar> \<le> 2 ^ 53" "\<bar>b\<bar> \<le> 2 ^ 53"
  shows "f64_of_int a = f64_of_int b \<longleftrightarrow> a = b"
proof
  assume eq: "f64_of_int a = f64_of_int b"
  show "a = b" using f64_int_order(1) [OF assms] f64_int_order(1) [OF assms(2,1)] unfolding eq f64_lt_def by linarith
qed simp

lemma f64_to_i64_int:
  assumes "\<bar>n\<bar> \<le> 2 ^ 53"
  shows "f64_to_i64 oor (f64_of_int n) = word_of_int n"
proof -
  have "f64_trunc (f64_of_int n) = n"
  proof -
    have "nat \<bar>n\<bar> * 2 ^ 1074 div 2 ^ 1074 = nat \<bar>n\<bar>" by (rule nonzero_mult_div_cancel_right) simp
    then show ?thesis unfolding f64_trunc_def f64_of_int_units(2,4) [OF assms] by (simp add: Let_def)
  qed
  moreover have "- (2 ^ 63) \<le> n" "n < 2 ^ 63" using assms by (simp_all add: abs_le_iff)
  ultimately show ?thesis by (simp only: f64_to_i64_def f64_int_class(3) [OF assms] simp_thms if_True)
qed

section \<open>A sequence of puts\<close>

definition put_cell :: "('tx, 'v, 'bm) ext \<Rightarrow> bytes \<Rightarrow> string \<times> bytes \<Rightarrow> absenceEntry option \<Rightarrow> absenceEntry option" where
  "put_cell X k p c =
     (case temporalFields X (snd p) of
        Some (item, ty, tm) \<Rightarrow> if k = absenceCellKey item ty then Some (cell_record (fst p) tm c) else c
      | None \<Rightarrow> c)"

definition put_span :: "('tx, 'v, 'bm) ext \<Rightarrow> bytes \<Rightarrow> string \<times> bytes \<Rightarrow> (i64 \<times> i64) option \<Rightarrow> (i64 \<times> i64) option" where
  "put_span X k p s =
     (case groupByFields X (snd p) of
        Some (item, sc) \<Rightarrow>
          if k \<in> (\<lambda>(a, v). groupByKey item a v) ` set sc
          then Some (bump_span (case temporalFields X (snd p) of Some (_, _, tm) \<Rightarrow> tm | None \<Rightarrow> 0) s) else s
      | None \<Rightarrow> s)"

definition grouped :: "('tx, 'v, 'bm) ext \<Rightarrow> bytes \<Rightarrow> bool" where
  "grouped X b \<longleftrightarrow> (case groupByFields X b of
     Some (item, sc) \<Rightarrow> distinct (map (\<lambda>(a, v). groupByKey item a v) sc) | None \<Rightarrow> False)"

text \<open>What one or several puts of new documents leave behind.\<close>

definition puts_leave :: "('tx, 'v, 'bm) ext \<Rightarrow> nat \<Rightarrow> string \<Rightarrow> (string \<times> bytes) list \<Rightarrow> 'tx \<Rightarrow> 'tx \<Rightarrow> bool" where
  "puts_leave X n e ps db db' \<longleftrightarrow>
     bbolt_room X n (db', 0) \<and> documents X db' e = documents X db e ++ map_of ps \<and>
     (\<forall>a. stats_of X db' e a = fold (\<lambda>p. stats_update None (attr_value X a (snd p))) ps (stats_of X db e a)) \<and>
     (\<forall>k. cell_of X db' e k = fold (put_cell X k) ps (cell_of X db e k)) \<and>
     ((\<forall>p \<in> set ps. grouped X (snd p)) \<longrightarrow> (\<forall>k. span_of X db' e k = fold (put_span X k) ps (span_of X db e k)))"

lemma room_state: "bbolt_room X n (db, k) = bbolt_room X n (db, k')"
  by (simp add: bbolt_room_def)

context roomy
begin

lemma put_leaves:
  assumes room: "bbolt_room X (Suc n) (db, k)" and e: "entity_id_ok e" and d: "doc_id_ok d" and b: "plain_doc X b" "b \<noteq> []"
    and new: "documents X db e d = None"
  shows "\<exists>db'. (\<forall>K. mustPut (bboltStore X clk) e d b (db, k) K = K (db', Suc k)) \<and> puts_leave X n e [(d, b)] db db'"
proof -
  have "parent_ok X e d b db" using b by (simp add: plain_doc_def parent_ok_def)
  then obtain db' ev where p: "Put X ctxBackground (clk k 0) e d b db = (Inr (), db', [ev])"
    "putInTxEvents X (clk k 0) e d b db = Inr (ev, db')" "bbolt_room X n (db', 0)"
    "documents X db' = (documents X db)(e := (documents X db e)(d \<mapsto> b))"
    using bbolt_put [OF room e d, of b "clk k 0" 0] b(1) unfolding plain_doc_def by blast
  have nc: "no_colon e" using e by (simp add: entity_id_ok_def)
  have ok: "store_ok X db e" using room nc by (simp add: bbolt_room_def all_ok_def)
  have u: "utf8_ok d" using d by (simp add: doc_id_ok_def)
  have "stored X db e d = None" using new nc by (simp add: documents_def)
  then have old: "doc_contents X db e d = []" by (simp add: doc_contents_def)
  note v = put_views [OF p(2) ok u]
  have "stats_of X db' e a = stats_update None (attr_value X a b) (stats_of X db e a)" for a
    using v(1) [of a] old by (simp add: attr_value_def doc_numerics_def byPath_def)
  moreover have "cell_of X db' e c = put_cell X c (d, b) (cell_of X db e c)" for c
    using v(3) [OF b(2), of c] by (simp only: put_cell_def fst_conv snd_conv)
  moreover have "span_of X db' e c = put_span X c (d, b) (span_of X db e c)" if "grouped X b" for c
    using that v(4) [OF old] by (auto simp: grouped_def put_span_def split: option.splits)
  ultimately have "puts_leave X n e [(d, b)] db db'" using p(3,4) by (simp add: puts_leave_def map_add_def fun_eq_iff)
  with p(1) show ?thesis by (auto simp: mustPut_def must_def stamped_def)
qed

lemma puts_run:
  assumes "bbolt_room X (length ps + n) (db, k)" "entity_id_ok e" "distinct (map fst ps)"
    "\<forall>(d, b) \<in> set ps. doc_id_ok d \<and> plain_doc X b \<and> b \<noteq> [] \<and> documents X db e d = None"
  shows "\<exists>db'. (\<forall>K. mustPuts (bboltStore X clk) e ps (db, k) K = K (db', k + length ps)) \<and> puts_leave X n e ps db db'"
  using assms
proof (induction ps arbitrary: db k)
  case Nil
  then show ?case by (auto simp: puts_leave_def room_state [of X n db k 0])
next
  case (Cons p ps)
  obtain d b where p: "p = (d, b)" by (cases p)
  have one: "doc_id_ok d" "plain_doc X b" "b \<noteq> []" "documents X db e d = None" using Cons.prems(4) by (simp_all add: p)
  have "bbolt_room X (Suc (length ps + n)) (db, k)" using Cons.prems(1) by simp
  then obtain db1 where r1: "\<And>K. mustPut (bboltStore X clk) e d b (db, k) K = K (db1, Suc k)"
    and l1: "puts_leave X (length ps + n) e [(d, b)] db db1"
    using put_leaves [OF _ Cons.prems(2) one] by blast
  have room1: "bbolt_room X (length ps + n) (db1, Suc k)" and docs1: "documents X db1 e = (documents X db e)(d \<mapsto> b)"
    using l1 room_state [of X "length ps + n" db1 0 "Suc k"] by (simp_all add: puts_leave_def)
  have "\<forall>(d', b') \<in> set ps. doc_id_ok d' \<and> plain_doc X b' \<and> b' \<noteq> [] \<and> documents X db1 e d' = None"
    using Cons.prems(3,4) by (fastforce simp: p docs1 image_iff)
  from Cons.IH [OF room1 Cons.prems(2) _ this] Cons.prems(3) obtain db' where
    r: "\<And>K. mustPuts (bboltStore X clk) e ps (db1, Suc k) K = K (db', Suc k + length ps)" and l: "puts_leave X n e ps db1 db'"
    by auto
  have "map_of ps d = None" using Cons.prems(3) by (simp add: p map_of_eq_None_iff)
  then have docs: "documents X db' e = documents X db e ++ map_of (p # ps)"
    using l docs1 by (auto simp: puts_leave_def p map_add_def fun_eq_iff split: option.splits)
  have "puts_leave X n e (p # ps) db db'"
    using l l1 docs unfolding puts_leave_def p by (simp add: fun_eq_iff)
  with r1 r show ?case by (auto simp: p)
qed

text \<open>The puts on an empty database.\<close>

lemma puts_fresh:
  assumes empty: "\<And>n. \<not> has_bucket X db n" and e: "entity_id_ok e" and ps: "distinct (map fst ps)" "length ps \<le> 8"
    "\<forall>(d, b) \<in> set ps. doc_id_ok d \<and> plain_doc X b \<and> b \<noteq> []"
  obtains db' where "\<And>K. mustPuts (bboltStore X clk) e ps (db, k) K = K (db', k + length ps)"
    "store_ok X db' e" "doc_contents X db' e = (\<lambda>d. contents (map_of ps d))"
    "\<And>a. stats_of X db' e a = fold (\<lambda>p. stats_update None (attr_value X a (snd p))) ps None"
    "\<And>c. cell_of X db' e c = fold (put_cell X c) ps None"
    "\<forall>p \<in> set ps. grouped X (snd p) \<Longrightarrow> span_of X db' e c = fold (put_span X c) ps None"
proof -
  have g: "bucket_get X db b k = None" for b k by (rule no_bucket_get [OF empty])
  have none: "documents X db e = Map.empty" "stats_of X db e = (\<lambda>_. None)" "cell_of X db e = (\<lambda>_. None)" "span_of X db e = (\<lambda>_. None)"
    by (simp_all add: documents_def stored_def stats_of_def cell_of_def span_of_def g fun_eq_iff)
  have "bbolt_room X (length ps + 0) (db, k)"
    using all_ok_empty [OF empty] empty_headroom [OF empty] ps(2) by (simp add: bbolt_room_def)
  moreover have "\<forall>(d, b) \<in> set ps. doc_id_ok d \<and> plain_doc X b \<and> b \<noteq> [] \<and> documents X db e d = None"
    using ps(3) none(1) by simp
  ultimately obtain db' where
    run: "\<And>K. mustPuts (bboltStore X clk) e ps (db, k) K = K (db', k + length ps)" and l: "puts_leave X 0 e ps db db'"
    using puts_run [OF _ e ps(1)] by blast
  have nc: "no_colon e" using e by (simp add: entity_id_ok_def)
  have "stored X db' e = map_of ps" using l nc none(1) by (simp add: puts_leave_def documents_def)
  then have "doc_contents X db' e = (\<lambda>d. contents (map_of ps d))" by (simp add: doc_contents_def fun_eq_iff)
  moreover have "store_ok X db' e" using l nc by (simp add: puts_leave_def bbolt_room_def all_ok_def)
  ultimately show thesis using l run by (intro that [of db']) (simp_all add: puts_leave_def none)
qed

end

section \<open>Reading the answers\<close>

lemma documents_where:
  assumes "distinct (map fst ps)" "\<not> P []"
  shows "{d. P (contents (map_of ps d))} = fst ` set (filter (\<lambda>p. P (snd p)) ps)"
proof -
  have "P (contents (map_of ps d)) \<longleftrightarrow> d \<in> fst ` set (filter (\<lambda>p. P (snd p)) ps)" for d
  proof (cases "map_of ps d")
    case None
    then have "d \<notin> fst ` set ps" by (simp add: map_of_eq_None_iff)
    with None assms(2) show ?thesis by auto
  next
    case (Some b)
    then have "(d, b') \<in> set ps \<longleftrightarrow> b' = b" for b' using map_of_eq_Some_iff [OF assms(1)] by (metis option.inject)
    with Some show ?thesis by (force simp: image_iff)
  qed
  then show ?thesis by blast
qed

lemma equalDocs_set:
  assumes "distinct (docids s)" "distinct want" "set (docids s) = set want"
  shows "equalDocs s want"
proof -
  have "collect s = sort (docids s)" by (simp add: collect_def dset.for_each_collect)
  moreover have "sort (docids s) = sort want"
    by (rule sorted_distinct_set_unique) (use assms in simp_all)
  ultimately show ?thesis by (simp add: equalDocs_def list_all_length)
qed

text \<open>The documents of the suite by number, and what the indexes read from them.\<close>

definition body :: "nat \<Rightarrow> bytes" where
  "body i = fst (suiteValues ! i)"

definition members_at :: "nat \<Rightarrow> (string \<times> any) list" where
  "members_at i = members_of (snd (suiteValues ! i))"

lemma body_nonempty: "i < 28 \<Longrightarrow> body i \<noteq> []"
proof -
  have "list_all (\<lambda>p. fst p \<noteq> []) suiteValues" "length suiteValues = 28" by (simp_all add: suiteValues_def)
  then show "i < 28 \<Longrightarrow> body i \<noteq> []" by (simp add: body_def list_all_length)
qed

lemma body_object: "12 \<le> i \<Longrightarrow> i < 28 \<Longrightarrow> snd (suiteValues ! i) = AObj (members_at i)"
proof -
  have "list_all (\<lambda>p. snd p = AObj (members_of (snd p))) (drop 12 suiteValues)" "length (drop 12 suiteValues) = 16"
    by (simp_all add: suiteValues_def)
  then have "\<forall>j < 16. snd (drop 12 suiteValues ! j) = AObj (members_of (snd (drop 12 suiteValues ! j)))"
    unfolding list_all_length by metis
  then have "\<forall>j < 16. snd (suiteValues ! (12 + j)) = AObj (members_of (snd (suiteValues ! (12 + j))))"
    by (simp add: suiteValues_def)
  moreover assume "12 \<le> i" "i < 28"
  moreover from \<open>12 \<le> i\<close> have "12 + (i - 12) = i" by simp
  moreover from \<open>12 \<le> i\<close> \<open>i < 28\<close> have "i - 12 < 16" by simp
  ultimately show ?thesis unfolding members_at_def by metis
qed

lemma suite_fields:
  assumes "decodes_suite X" "12 \<le> i" "i < 28"
  shows "doc_terms X (body i) = \<Union> (leaf_terms ` set (leaves X [] (AObj (members_at i))))"
    "doc_numerics X (body i) = concat (map num_fields (numbers X [] (AObj (members_at i))))"
    "groupByFields X (body i) = (case map_of (members_at i) ''item_id'' of
       Some (AStr item) \<Rightarrow> Some (item, List.map_filter (scalarField X) (members_at i)) | _ \<Rightarrow> None)"
    "closureParent X (body i) = (case map_of (members_at i) ''parent'' of
       Some (AStr s) \<Rightarrow> if s = [] then None else Some s | _ \<Rightarrow> None)"
    "map_of (members_at i) ''item_id'' = Some (AStr item) \<Longrightarrow> map_of (members_at i) ''type'' = Some (AStr ty) \<Longrightarrow>
     map_of (members_at i) ''at'' = Some (AFloat v) \<Longrightarrow> temporalFields X (body i) = Some (item, ty, f64_to_i64 (float_oor X) v)"
proof -
  have j: "json_unmarshal X (body i) = Some (AObj (members_at i))"
    using suite_nth [OF assms(1,3)] body_object [OF assms(2,3)] by (simp add: body_def)
  note f = object_fields [OF j body_nonempty [OF assms(3)]]
  show "doc_terms X (body i) = \<Union> (leaf_terms ` set (leaves X [] (AObj (members_at i))))"
    "doc_numerics X (body i) = concat (map num_fields (numbers X [] (AObj (members_at i))))"
    "groupByFields X (body i) = (case map_of (members_at i) ''item_id'' of
       Some (AStr item) \<Rightarrow> Some (item, List.map_filter (scalarField X) (members_at i)) | _ \<Rightarrow> None)"
    "closureParent X (body i) = (case map_of (members_at i) ''parent'' of
       Some (AStr s) \<Rightarrow> if s = [] then None else Some s | _ \<Rightarrow> None)"
    by (rule f)+
  show "map_of (members_at i) ''item_id'' = Some (AStr item) \<Longrightarrow> map_of (members_at i) ''type'' = Some (AStr ty) \<Longrightarrow>
     map_of (members_at i) ''at'' = Some (AFloat v) \<Longrightarrow> temporalFields X (body i) = Some (item, ty, f64_to_i64 (float_oor X) v)"
    using j body_nonempty [OF assms(3)] by (simp add: temporalFields_def unmarshal_map_def)
qed

lemma suite_numbers:
  assumes "decodes_suite X"
  shows "format_g X (f64_of_int 10) = ''10''" "format_g X (f64_of_int 20) = ''20''" "format_g X (f64_of_int 30) = ''30''"
    "format_g X (f64_of_int 40) = ''40''" "format_g X (f64_of_int 50) = ''50''" "format_g X (f64_of_int 1000) = ''1000''"
    "format_g X (f64_of_int 2000) = ''2000''" "format_g X (f64_of_int 3000) = ''3000''"
  by (rule decodes_suiteD(2) [OF assms], simp add: suiteNumbers_def)+

lemma members_at_simps:
  "members_at 12 = [(''status'', AStr ''active'')]" "members_at 13 = [(''status'', AStr ''retired'')]"
  "members_at 14 = [(''category'', AStr ''truck'')]" "members_at 15 = [(''category'', AStr ''trailer'')]"
  "members_at 16 = [(''category'', AStr ''car'')]" "members_at 17 = [(''km'', AFloat (f64_of_int 10))]"
  "members_at 18 = [(''km'', AFloat (f64_of_int 20))]" "members_at 19 = [(''km'', AFloat (f64_of_int 30))]"
  "members_at 20 = [(''km'', AFloat (f64_of_int 40))]" "members_at 21 = [(''km'', AFloat (f64_of_int 50))]"
  "members_at 22 = [(''item_id'', AStr ''i1''), (''type'', AStr ''inspect''), (''at'', AFloat (f64_of_int 1000))]"
  "members_at 23 = [(''item_id'', AStr ''i1''), (''type'', AStr ''inspect''), (''at'', AFloat (f64_of_int 2000))]"
  "members_at 24 = [(''item_id'', AStr ''i1''), (''type'', AStr ''inspect''), (''at'', AFloat (f64_of_int 3000))]"
  "members_at 25 = [(''item_id'', AStr ''i1''), (''type'', AStr ''repair''), (''at'', AFloat (f64_of_int 2000))]"
  "members_at 26 = [(''parent'', AStr ''Vehicles'')]" "members_at 27 = [(''parent'', AStr ''Trucks'')]"
  by (simp_all add: members_at_def suiteValues_def)

lemma suite_plain_objects:
  assumes "decodes_suite X" "12 \<le> i" "i < 22"
  shows "plain_doc X (body i)"
proof -
  have "i = 12 \<or> i = 13 \<or> i = 14 \<or> i = 15 \<or> i = 16 \<or> i = 17 \<or> i = 18 \<or> i = 19 \<or> i = 20 \<or> i = 21"
    using assms(2,3) by presburger
  then show ?thesis unfolding body_def
    by (elim disjE; intro plain_object [OF suite_nth [OF assms(1)]])
      (simp_all add: suiteValues_def field_defs suite_numbers [OF assms(1)])
qed

text \<open>The documents with an item, a type and a time.\<close>

definition record_at :: "nat \<Rightarrow> string \<times> int \<times> string" where
  "record_at i = (if i = 22 then (''inspect'', 1000, ''1000'') else if i = 23 then (''inspect'', 2000, ''2000'')
     else if i = 24 then (''inspect'', 3000, ''3000'') else (''repair'', 2000, ''2000''))"

lemma suite_records:
  assumes "decodes_suite X" "22 \<le> i" "i < 26" "record_at i = (ty, n, s)"
  shows "temporalFields X (body i) = Some (''i1'', ty, word_of_int n)"
    "groupByFields X (body i) = Some (''i1'', [(''type'', ty), (''at'', s)])"
    "plain_doc X (body i)" "grouped X (body i)"
proof -
  have c: "12 \<le> i" "i < 28" using assms(2,3) by simp_all
  note f = suite_fields [OF assms(1) c] and g = suite_numbers [OF assms(1)]
  have "i = 22 \<or> i = 23 \<or> i = 24 \<or> i = 25" using assms(2,3) by presburger
  then have m: "members_at i = [(''item_id'', AStr ''i1''), (''type'', AStr ty), (''at'', AFloat (f64_of_int n))]"
    "format_g X (f64_of_int n) = s" "\<bar>n\<bar> \<le> 2 ^ 16" "length s \<le> 4" "length ty \<le> 7"
    using assms(4) by (auto simp: members_at_simps record_at_def g)
  have n: "\<bar>n\<bar> \<le> 2 ^ 53" using m(3) by simp
  show t: "temporalFields X (body i) = Some (''i1'', ty, word_of_int n)"
    using f(5) by (simp add: m(1) f64_to_i64_int [OF n])
  show gr: "groupByFields X (body i) = Some (''i1'', [(''type'', ty), (''at'', s)])"
    using f(3) by (simp add: m(1,2) List.map_filter_def)
  then show "grouped X (body i)" by (simp add: grouped_def groupByKey_def)
  have "closureParent X (body i) = None" using f(4) by (simp add: m(1))
  moreover have "doc_keys_ok X (body i)"
    unfolding doc_keys_ok_def t gr f(1) m(1) using m(4,5)
    by (auto simp: m(2) leaf_terms_def groupByKey_def absenceCellKey_def max_key_size_def)
  moreover have "moderate X (body i)"
    using f(2) f64_of_int_small [OF m(3)]
    by (simp add: moderate_def m(1) attr_value_def byPath_def num_fields_def key_ok_def max_key_size_def)
  ultimately show "plain_doc X (body i)" by (simp add: plain_doc_def)
qed

lemma suite_docs_plain:
  assumes "decodes_suite X" "12 \<le> i" "i < 26"
  shows "plain_doc X (body i)"
  using suite_plain_objects [OF assms(1,2)] suite_records(3) [OF assms(1) _ assms(3)] by (metis leI prod_cases3)

lemma suite_doc_ids:
  "doc_id_ok ''d0''" "doc_id_ok ''d1''" "doc_id_ok ''d2''" "doc_id_ok ''d3''" "doc_id_ok ''d4''" "doc_id_ok ''d5''"
  "entity_id_ok ''tenant-a''"
  by (simp_all add: entity_id_ok_def doc_id_ok_def no_colon_def max_key_size_def byte_in_def)

lemma printed:
  \<open>map (\<lambda>i. (testDocID i, ''{"km":'' @ sprintf_d (i * 10) @ ''}'')) [1..<6] =
     [(''d1'', body 17), (''d2'', body 18), (''d3'', body 19), (''d4'', body 20), (''d5'', body 21)]\<close>
  \<open>map (\<lambda>(i, v). (testDocID i, ''{"km":'' @ sprintf_d v @ ''}'')) (enumerate 0 [10, 20, 30, 40, 50]) =
     [(''d0'', body 17), (''d1'', body 18), (''d2'', body 19), (''d3'', body 20), (''d4'', body 21)]\<close>
  \<open>map (\<lambda>i. (testDocID i, ''{"item_id":"i1","type":"inspect","at":'' @ sprintf_d (i * 1000) @ ''}'')) [1..<4] =
     [(''d1'', body 22), (''d2'', body 23), (''d3'', body 24)]\<close>
  by (simp_all add: upt_rec testDocID_def sprintf_d.simps body_def suiteValues_def char_of_def bit_0)

lemma f64_int_mag: "\<bar>n\<bar> \<le> 2 ^ 53 \<Longrightarrow> n \<noteq> 0 \<Longrightarrow> f64_mag (f64_of_int n) \<noteq> 0"
proof
  assume n: "\<bar>n\<bar> \<le> 2 ^ 53" "n \<noteq> 0" and m: "f64_mag (f64_of_int n) = 0"
  have "nat \<bar>n\<bar> * 2 ^ 1074 = 0" using f64_of_int_units(4) [OF n(1)] unfolding m by (simp add: mag_units_def)
  with n(2) show False by simp
qed

lemma in_range_int:
  assumes "\<bar>a\<bar> \<le> 2 ^ 53" "\<bar>b\<bar> \<le> 2 ^ 53" "\<bar>n\<bar> \<le> 2 ^ 53" "a \<noteq> 0" "b \<noteq> 0"
  shows "in_range (f64_of_int a) (f64_of_int b) lo hi (f64_of_int n) \<longleftrightarrow>
    (if lo then a < n else a \<le> n) \<and> (if hi then n < b else n \<le> b)"
  using in_range_numeric [OF f64_int_class(3) [OF assms(3)] f64_int_class(3) [OF assms(1)] f64_int_class(3) [OF assms(2)]
      f64_int_mag [OF assms(1,4)] f64_int_mag [OF assms(2,5)], of lo hi]
  by (simp only: f64_int_order [OF assms(1,3)] f64_int_order [OF assms(3,2)])

text \<open>A step of the running mean between integers.\<close>

lemma welford_int_step:
  assumes v: "Mean v = f64_of_int m" "sint (SCount v) = c" "0 \<le> c" "c < 100" and q: "\<bar>m\<bar> \<le> 2 ^ 16" "\<bar>q\<bar> \<le> 2 ^ 16"
  shows "Mean (statsWelfordAdd (f64_of_int (m + (c + 1) * q)) v) = f64_of_int (m + q)"
    "sint (SCount (statsWelfordAdd (f64_of_int (m + (c + 1) * q)) v)) = c + 1"
    "Stale (statsWelfordAdd (f64_of_int (m + (c + 1) * q)) v) = Stale v"
proof -
  have s: "sint (SCount v + 1) = c + 1"
    using v(2-4) by (simp add: sint_word_ariths signed_take_bit_int_eq_self)
  have "\<bar>(c + 1) * q\<bar> = (c + 1) * \<bar>q\<bar>" using v(3) by (simp add: abs_mult)
  also have "\<dots> \<le> 100 * 2 ^ 16" by (rule mult_mono) (use v(3,4) q(2) in simp_all)
  finally have p: "\<bar>(c + 1) * q\<bar> \<le> 100 * 2 ^ 16" .
  have b: "\<bar>m + (c + 1) * q\<bar> \<le> 2 ^ 53" "\<bar>(c + 1) * q\<bar> \<le> 2 ^ 53"
    using order_trans [OF abs_triangle_ineq add_mono [OF q(1) p]] p by (simp_all only: power_numeral_even power_numeral_odd) simp_all
  have b': "\<bar>m\<bar> \<le> 2 ^ 53" "\<bar>q\<bar> \<le> 2 ^ 53" "\<bar>c + 1\<bar> \<le> 2 ^ 53" "0 < c + 1" using q v(3,4) by simp_all
  have "f64_sub (f64_of_int (m + (c + 1) * q)) (f64_of_int m) = f64_of_int ((c + 1) * q)"
    using f64_sub_int [OF b(1) b'(1)] by simp
  then have "f64_add (f64_of_int m) (f64_div (f64_sub (f64_of_int (m + (c + 1) * q)) (f64_of_int m)) (f64_of_int (c + 1))) =
      f64_of_int (m + q)"
    using f64_div_int [OF b'(4,3) b(2) b'(2)] f64_add_int [OF b'(1,2)] by simp
  with s v(1) show "Mean (statsWelfordAdd (f64_of_int (m + (c + 1) * q)) v) = f64_of_int (m + q)"
    "sint (SCount (statsWelfordAdd (f64_of_int (m + (c + 1) * q)) v)) = c + 1"
    "Stale (statsWelfordAdd (f64_of_int (m + (c + 1) * q)) v) = Stale v"
    by (simp_all add: statsWelfordAdd_def welfordStep_def Let_def)
qed

text \<open>The events that the put documents describe.\<close>

definition event_of :: "('tx, 'v, 'bm) ext \<Rightarrow> string \<Rightarrow> string list \<Rightarrow> string \<times> bytes \<Rightarrow> TemporalEvent option" where
  "event_of X item types p =
     (case temporalFields X (snd p) of
        Some (item', ty, tm) \<Rightarrow>
          if item' = item \<and> (types = [] \<or> ty \<in> set types) then Some \<lparr>TDocID = fst p, TType = ty, TAt = tm\<rparr> else None
      | None \<Rightarrow> None)"

lemma stats_update_fold:
  "xs \<noteq> [] \<Longrightarrow> \<not> Stale (stats_or_zero s) \<Longrightarrow>
   fold (\<lambda>x. stats_update None (Some x)) xs s = Some (fold statsWelfordAdd xs (stats_or_zero s))"
proof (induction xs arbitrary: s)
  case (Cons x xs)
  let ?v = "statsWelfordAdd x (stats_or_zero s)"
  have "\<not> Stale ?v" using Cons.prems(2) by (simp add: statsWelfordAdd_def Let_def)
  with Cons show ?case by (cases "xs = []") (simp_all add: stats_update_def Let_def stats_or_zero_def [of "Some _"])
qed simp

text \<open>The mean of the sample of the suite is exact at every step.\<close>

lemma welford_tens:
  defines "v \<equiv> fold statsWelfordAdd (map f64_of_int [10, 20, 30, 40, 50]) zeroStats"
  shows "Mean v = f64_of_int 30" "SCount v = 5" "\<not> Stale v"
proof -
  define v1 v2 v3 v4 where "v1 = statsWelfordAdd (f64_of_int 10) zeroStats" and "v2 = statsWelfordAdd (f64_of_int 20) v1"
    and "v3 = statsWelfordAdd (f64_of_int 30) v2" and "v4 = statsWelfordAdd (f64_of_int 40) v3"
  have v: "v = statsWelfordAdd (f64_of_int 50) v4" by (simp add: v_def v1_def v2_def v3_def v4_def)
  have s0: "Mean zeroStats = f64_of_int 0" "sint (SCount zeroStats) = 0" "\<not> Stale zeroStats"
    by (simp_all add: zeroStats_def f64_of_int_0 f64_make_def)
  have s1: "Mean v1 = f64_of_int 10" "sint (SCount v1) = 1" "\<not> Stale v1"
    using welford_int_step [OF s0(1,2), of 10] s0(3) by (simp_all add: v1_def)
  have s2: "Mean v2 = f64_of_int 15" "sint (SCount v2) = 2" "\<not> Stale v2"
    using welford_int_step [OF s1(1,2), of 5] s1(3) by (simp_all add: v2_def)
  have s3: "Mean v3 = f64_of_int 20" "sint (SCount v3) = 3" "\<not> Stale v3"
    using welford_int_step [OF s2(1,2), of 5] s2(3) by (simp_all add: v3_def)
  have s4: "Mean v4 = f64_of_int 25" "sint (SCount v4) = 4" "\<not> Stale v4"
    using welford_int_step [OF s3(1,2), of 5] s3(3) by (simp_all add: v4_def)
  show "Mean v = f64_of_int 30" "\<not> Stale v" using welford_int_step [OF s4(1,2), of 5] s4(3) by (simp_all add: v)
  have "sint (SCount v) = 5" using welford_int_step [OF s4(1,2), of 5] by (simp add: v)
  then show "SCount v = 5" by (intro signed_word_eqI) simp
qed

lemma suite_parents:
  assumes "decodes_suite X"
  shows "closureParent X (body 26) = Some ''Vehicles''" "closureParent X (body 27) = Some ''Trucks''"
    "doc_keys_ok X (body 26)" "doc_keys_ok X (body 27)" "moderate X (body 26)" "moderate X (body 27)"
proof -
  note f = suite_fields [OF assms]
  show "closureParent X (body 26) = Some ''Vehicles''" "closureParent X (body 27) = Some ''Trucks''"
    by (simp_all add: f(4) members_at_simps)
  have "doc_numerics X (body 26) = []" "doc_numerics X (body 27) = []" by (simp_all add: f(2) members_at_simps)
  then show "moderate X (body 26)" "moderate X (body 27)" by (simp_all add: moderate_def attr_value_def byPath_def)
  have g: "groupByFields X (body 26) = None" "groupByFields X (body 27) = None" by (simp_all add: f(3) members_at_simps)
  have t: "temporalFields X (body i) = None" if "i = 26 \<or> i = 27" for i
    by (rule object_fields(5) [of _ _ "members_at i"])
      (use that suite_nth [OF assms, of i] body_object [of i] body_nonempty [of i] in \<open>auto simp: body_def members_at_simps\<close>)
  show "doc_keys_ok X (body 26)" "doc_keys_ok X (body 27)"
    using t by (simp_all add: doc_keys_ok_def g f(1) members_at_simps leaf_terms_def max_key_size_def)
qed

lemma suite_empty_object:
  assumes "decodes_suite X"
  shows "closureParent X ''{}'' = None" "doc_keys_ok X ''{}''" "moderate X ''{}''"
proof -
  have "plain_doc X ''{}''" using suite_plain [OF assms] by (simp add: suiteContents_def)
  then show "closureParent X ''{}'' = None" "doc_keys_ok X ''{}''" "moderate X ''{}''" by (simp_all add: plain_doc_def)
qed

section \<open>The tests\<close>

context roomy
begin

lemma queries_admitted: "entity_id_ok e \<Longrightarrow> admitted X ctxBackground e db db"
  by (simp add: admitted_def entity_id_ok_def ctxBackground_def begins)

lemma queries_kept: "store_ok X db e \<Longrightarrow> ids_kept X e db db"
  by (simp add: ids_kept_def store_ok_def index_ok_def index_inv_def)

lemma puts_suite:
  assumes empty: "\<And>n. \<not> has_bucket X db n" and dec: "decodes_suite X"
    and js: "ps = map (\<lambda>(d, i). (d, body i)) js" "distinct (map fst js)" "length js \<le> 8" "\<forall>(d, i) \<in> set js. doc_id_ok d \<and> 12 \<le> i \<and> i < 26"
  obtains db' where "\<And>K. mustPuts (bboltStore X clk) ''tenant-a'' ps (db, k) K = K (db', k + length ps)"
    "store_ok X db' ''tenant-a''" "doc_contents X db' ''tenant-a'' = (\<lambda>d. contents (map_of ps d))"
    "\<And>a. stats_of X db' ''tenant-a'' a = fold (\<lambda>p. stats_update None (attr_value X a (snd p))) ps None"
    "\<And>c. cell_of X db' ''tenant-a'' c = fold (put_cell X c) ps None"
    "\<forall>p \<in> set ps. grouped X (snd p) \<Longrightarrow> span_of X db' ''tenant-a'' c = fold (put_span X c) ps None"
proof -
  have "map fst ps = map fst js" by (simp add: js(1) case_prod_unfold)
  then have "distinct (map fst ps)" using js(2) by (simp only:)
  moreover have "length ps \<le> 8" using js(3) by (simp add: js(1))
  moreover have "\<forall>(d, b) \<in> set ps. doc_id_ok d \<and> plain_doc X b \<and> b \<noteq> []"
  proof -
    have "plain_doc X (body i) \<and> body i \<noteq> []" if "12 \<le> i" "i < 26" for i
      using suite_docs_plain [OF dec that] body_nonempty [of i] that(2) by simp
    with js(4) show ?thesis by (auto simp: js(1))
  qed
  ultimately show thesis by (rule puts_fresh [OF empty suite_doc_ids(7)]) (rule that)
qed

lemma lookup_after:
  assumes "store_ok X db ''tenant-a''" "doc_contents X db ''tenant-a'' = (\<lambda>d. contents (map_of ps d))" "distinct (map fst ps)"
  shows "\<exists>s. Lookup X ctxBackground ''tenant-a'' t db db = Inr s \<and> distinct (docids s) \<and>
      set (docids s) = fst ` set (filter (\<lambda>p. t \<in> doc_terms X (snd p)) ps)"
  using Lookup_documents [OF assms(1) queries_kept [OF assms(1)] queries_admitted [OF suite_doc_ids(7)], of t]
    documents_where [of ps "\<lambda>b. t \<in> doc_terms X b", OF assms(3)] unfolding assms(2) by (simp add: doc_terms_def)

lemma passes_Lookup:
  assumes empty: "\<And>n. \<not> has_bucket X db n" and dec: "decodes_suite X"
  shows "indexedTestLookup (bboltStore X clk) (db, k)"
proof -
  let ?ps = "[(''d1'', body 12), (''d2'', body 13)]"
  obtain db' where run: "\<And>K. mustPuts (bboltStore X clk) ''tenant-a'' ?ps (db, k) K = K (db', k + length ?ps)"
    and ok: "store_ok X db' ''tenant-a''" and docs: "doc_contents X db' ''tenant-a'' = (\<lambda>d. contents (map_of ?ps d))"
    by (rule puts_suite [OF empty dec, of ?ps "[(''d1'', 12), (''d2'', 13)]"]) (auto simp: suite_doc_ids)
  have terms: "doc_terms X (body 12) = {''active'', ''status:active''}" "doc_terms X (body 13) = {''retired'', ''status:retired''}"
    by (simp_all add: suite_fields(1) [OF dec] members_at_simps leaf_terms_def)
  note q = lookup_after [OF ok docs]
  obtain s where s: "Lookup X ctxBackground ''tenant-a'' ''active'' db' db' = Inr s" "distinct (docids s)" "set (docids s) = {''d1''}"
    using q [of "''active''"] by (auto simp: terms)
  obtain s' where s': "Lookup X ctxBackground ''tenant-a'' ''never-indexed'' db' db' = Inr s'" "docids s' = []"
    using q [of "''never-indexed''"] by (auto simp: terms)
  have "docids s = [''d1'']" by (rule distinct_set_single [OF s(2,3)])
  moreover have "indexedTestLookup (bboltStore X clk) (db, k) = mustPuts (bboltStore X clk) ''tenant-a'' ?ps (db, k) (\<lambda>s.
      onSet (isLookup (bboltStore X clk) ctxBackground ''tenant-a'' ''active'' s) (\<lambda>got.
        \<not> (Len got \<noteq> 1 \<or> \<not> Contains got ''d1'') \<and>
        onSet (isLookup (bboltStore X clk) ctxBackground ''tenant-a'' ''never-indexed'' s) (\<lambda>got. Len got = 0)))"
    by (simp add: indexedTestLookup_def body_def suiteValues_def)
  ultimately show ?thesis using s(1) s' by (simp only: run bboltStore_sel) (simp add: onSet_def dset.len_members dset.contains_members)
qed

lemma passes_LookupPrefix:
  assumes empty: "\<And>n. \<not> has_bucket X db n" and dec: "decodes_suite X"
  shows "indexedTestLookupPrefix (bboltStore X clk) (db, k)"
proof -
  let ?ps = "[(''d1'', body 14), (''d2'', body 15), (''d3'', body 16)]" and ?p = "''category:tr''"
  obtain db' where run: "\<And>K. mustPuts (bboltStore X clk) ''tenant-a'' ?ps (db, k) K = K (db', k + length ?ps)"
    and ok: "store_ok X db' ''tenant-a''" and docs: "doc_contents X db' ''tenant-a'' = (\<lambda>d. contents (map_of ?ps d))"
    by (rule puts_suite [OF empty dec, of ?ps "[(''d1'', 14), (''d2'', 15), (''d3'', 16)]"]) (auto simp: suite_doc_ids)
  have terms: "doc_terms X (body 14) = {''truck'', ''category:truck''}" "doc_terms X (body 15) = {''trailer'', ''category:trailer''}"
    "doc_terms X (body 16) = {''car'', ''category:car''}"
    by (simp_all add: suite_fields(1) [OF dec] members_at_simps leaf_terms_def)
  obtain s where s: "LookupPrefix X ctxBackground ''tenant-a'' ?p db' db' = Inr s" "distinct (docids s)"
    "set (docids s) = fst ` set (filter (\<lambda>p. \<exists>t \<in> doc_terms X (snd p). prefix ?p t) ?ps)"
    using LookupPrefix_documents [OF ok queries_kept [OF ok] queries_admitted [OF suite_doc_ids(7)], of ?p]
      documents_where [of ?ps "\<lambda>b. \<exists>t \<in> doc_terms X b. prefix ?p t"] unfolding docs
    by (auto simp: doc_terms_def [of X "[]"] Bex_def conj_commute)
  have "set (docids s) = set [''d1'', ''d2'']" unfolding s(3) by (simp add: terms)
  then have "equalDocs s [''d1'', ''d2'']" using s(2) by (intro equalDocs_set) simp_all
  moreover have "indexedTestLookupPrefix (bboltStore X clk) (db, k) = mustPuts (bboltStore X clk) ''tenant-a'' ?ps (db, k) (\<lambda>s.
      onSet (isLookupPrefix (bboltStore X clk) ctxBackground ''tenant-a'' ?p s) (\<lambda>got. equalDocs got [''d1'', ''d2'']))"
    by (simp add: indexedTestLookupPrefix_def body_def suiteValues_def)
  ultimately show ?thesis using s(1) by (simp only: run bboltStore_sel) (simp add: onSet_def)
qed

lemma range_after:
  assumes "store_ok X db ''tenant-a''" "doc_contents X db ''tenant-a'' = (\<lambda>d. contents (map_of ps d))" "distinct (map fst ps)"
    "f64_finite mn" "f64_finite mx"
  shows "\<exists>s. LookupNumericRange X ctxBackground ''tenant-a'' a mn mx ro db db = Inr s \<and> distinct (docids s) \<and>
      set (docids s) = fst ` set (filter (\<lambda>p. \<exists>av \<in> num_keys X (snd p). fst av = a \<and>
        in_range mn mx (MinExclusive ro) (MaxExclusive ro) (snd av)) ps)"
proof -
  let ?P = "\<lambda>b. \<exists>v. (a, v) \<in> num_keys X b \<and> in_range mn mx (MinExclusive ro) (MaxExclusive ro) v"
  have "\<not> ?P []" by (simp add: num_keys_def doc_numerics_def)
  from documents_where [where P = ?P, OF assms(3) this]
    LookupNumericRange_documents [OF assms(1) queries_kept [OF assms(1)] queries_admitted [OF suite_doc_ids(7)] assms(4,5), of a ro]
  show ?thesis unfolding assms(2) by (simp add: Bex_def)
qed

lemma passes_LookupNumericRange:
  assumes empty: "\<And>n. \<not> has_bucket X db n" and dec: "decodes_suite X"
  shows "indexedTestLookupNumericRange (bboltStore X clk) (db, k)"
proof -
  let ?ps = "[(''d1'', body 17), (''d2'', body 18), (''d3'', body 19), (''d4'', body 20), (''d5'', body 21)]"
    and ?closed = "\<lparr>MinExclusive = False, MaxExclusive = False\<rparr>" and ?open = "\<lparr>MinExclusive = True, MaxExclusive = True\<rparr>"
    and ?a = "f64_of_int 20" and ?b = "f64_of_int 40"
  obtain db' where run: "\<And>K. mustPuts (bboltStore X clk) ''tenant-a'' ?ps (db, k) K = K (db', k + length ?ps)"
    and ok: "store_ok X db' ''tenant-a''" and docs: "doc_contents X db' ''tenant-a'' = (\<lambda>d. contents (map_of ?ps d))"
    by (rule puts_suite [OF empty dec, of ?ps "[(''d1'', 17), (''d2'', 18), (''d3'', 19), (''d4'', 20), (''d5'', 21)]"])
      (auto simp: suite_doc_ids)
  have keys: "num_keys X (body 17) = {(''km'', f64_of_int 10)}" "num_keys X (body 18) = {(''km'', f64_of_int 20)}"
    "num_keys X (body 19) = {(''km'', f64_of_int 30)}" "num_keys X (body 20) = {(''km'', f64_of_int 40)}"
    "num_keys X (body 21) = {(''km'', f64_of_int 50)}"
    by (simp_all add: num_keys_def suite_fields(2) [OF dec] members_at_simps num_fields_def f64_of_int_small)
  note q = range_after [OF ok docs _ f64_int_class(3) f64_int_class(3), of 20 40 "''km''"]
  obtain s where s: "LookupNumericRange X ctxBackground ''tenant-a'' ''km'' ?a ?b ?closed db' db' = Inr s"
    "distinct (docids s)" "set (docids s) = {''d2'', ''d3'', ''d4''}"
    using q [of ?closed] by (auto simp: keys in_range_int)
  obtain s' where s': "LookupNumericRange X ctxBackground ''tenant-a'' ''km'' ?a ?b ?open db' db' = Inr s'"
    "distinct (docids s')" "set (docids s') = {''d3''}"
    using q [of ?open] by (auto simp: keys in_range_int)
  have "equalDocs s [''d2'', ''d3'', ''d4'']" using s by (intro equalDocs_set) simp_all
  moreover have "equalDocs s' [''d3'']" using s' by (intro equalDocs_set) simp_all
  ultimately show ?thesis using s(1) s'(1)
    by (simp only: indexedTestLookupNumericRange_def Let_def printed run bboltStore_sel) (simp add: onSet_def)
qed

lemma passes_LookupNumericRangeNaN:
  assumes "\<And>n. \<not> has_bucket X db n"
  shows "indexedTestLookupNumericRangeNaN (bboltStore X clk) (db, k)"
proof -
  have ok: "store_ok X db ''tenant-a''" using all_ok_empty [OF assms] by (simp add: all_ok_def no_colon_def)
  have "\<not> f64_finite mathNaN" by (simp add: mathNaN_def f64_finite_def f64_mag_def)
  then show ?thesis
    using LookupNumericRange_invalid [OF ok queries_admitted [OF suite_doc_ids(7)], of mathNaN]
    by (simp add: indexedTestLookupNumericRangeNaN_def failed_def)
qed

lemma passes_LastSeen:
  assumes empty: "\<And>n. \<not> has_bucket X db n" and dec: "decodes_suite X"
  shows "indexedTestLastSeen (bboltStore X clk) (db, k)"
proof -
  let ?ps = "[(''d1'', body 22), (''d2'', body 23)]"
  obtain db' where run: "\<And>K. mustPuts (bboltStore X clk) ''tenant-a'' ?ps (db, k) K = K (db', k + length ?ps)"
    and ok: "store_ok X db' ''tenant-a''" and cells: "\<And>c. cell_of X db' ''tenant-a'' c = fold (put_cell X c) ?ps None"
    by (rule puts_suite [OF empty dec, of ?ps "[(''d1'', 22), (''d2'', 23)]"]) (auto simp: suite_doc_ids)
  note r = suite_records(1) [OF dec, of 22] suite_records(1) [OF dec, of 23]
  have t: "temporalFields X (body 22) = Some (''i1'', ''inspect'', 1000)" "temporalFields X (body 23) = Some (''i1'', ''inspect'', 2000)"
    using r by (simp_all add: record_at_def)
  note q = LastSeen_result [OF ok queries_admitted [OF suite_doc_ids(7)]]
  have "LastSeen X ctxBackground ''tenant-a'' ''i1'' ''inspect'' db' = Inr (Some 2000)"
    "LastSeen X ctxBackground ''tenant-a'' ''i1'' ''unknown-type'' db' = Inr None"
    by (simp_all add: q cells put_cell_def t cell_record_def absenceCellKey_def)
  moreover have "indexedTestLastSeen (bboltStore X clk) (db, k) = mustPuts (bboltStore X clk) ''tenant-a'' ?ps (db, k) (\<lambda>s.
      case isLastSeen (bboltStore X clk) ctxBackground ''tenant-a'' ''i1'' ''inspect'' s of
        Inl _ \<Rightarrow> False
      | Inr seenAt \<Rightarrow>
          seenAt = Some 2000 \<and>
          dropErr None (isLastSeen (bboltStore X clk) ctxBackground ''tenant-a'' ''i1'' ''unknown-type'' s) = None)"
    by (simp add: indexedTestLastSeen_def body_def suiteValues_def)
  ultimately show ?thesis by (simp only: run bboltStore_sel) (simp add: dropErr_def)
qed

lemma window_after:
  assumes "store_ok X db ''tenant-a''" "doc_contents X db ''tenant-a'' = (\<lambda>d. contents (map_of ps d))" "distinct (map fst ps)"
  shows "\<exists>evs. WindowQuery X ctxBackground ''tenant-a'' item types w db = Inr evs \<and>
    sorted (map (\<lambda>ev. sint (TAt ev)) evs) \<and> distinct evs \<and> set evs = set (List.map_filter (event_of X item types) ps)"
proof -
  obtain evs where q: "WindowQuery X ctxBackground ''tenant-a'' item types w db = Inr evs"
    "sorted_wrt (\<lambda>a b. sint (TAt a) \<le> sint (TAt b)) evs" "distinct (map TDocID evs)"
    "\<And>ev. ev \<in> set evs \<longleftrightarrow> temporalFields X (contents (map_of ps (TDocID ev))) = Some (item, TType ev, TAt ev) \<and>
      (types = [] \<or> TType ev \<in> set types)"
    using WindowQuery_events [OF assms(1) queries_admitted [OF suite_doc_ids(7)], of item types w] unfolding assms(2) by blast
  have "ev \<in> set evs \<longleftrightarrow> (\<exists>p \<in> set ps. event_of X item types p = Some ev)" for ev
  proof -
    let ?P = "\<lambda>b. temporalFields X b = Some (item, TType ev, TAt ev) \<and> (types = [] \<or> TType ev \<in> set types)"
    have "\<not> ?P []" by (simp add: temporalFields_def)
    from documents_where [where P = ?P, OF assms(3) this] have "ev \<in> set evs \<longleftrightarrow> TDocID ev \<in> fst ` set (filter (\<lambda>p. ?P (snd p)) ps)"
      unfolding q(4) by blast
    also have "\<dots> \<longleftrightarrow> (\<exists>p \<in> set ps. fst p = TDocID ev \<and> ?P (snd p))"
      unfolding image_iff set_filter mem_Collect_eq Bex_def by metis
    also have "\<dots> \<longleftrightarrow> (\<exists>p \<in> set ps. event_of X item types p = Some ev)"
      by (rule bex_cong) (cases ev, auto simp: event_of_def split: option.splits)
    finally show ?thesis .
  qed
  then have "set evs = set (List.map_filter (event_of X item types) ps)"
    unfolding List.map_filter_def set_eq_iff by (force simp: image_iff)
  moreover have "distinct evs" using q(3) by (simp add: distinct_map)
  moreover have "sorted (map (\<lambda>ev. sint (TAt ev)) evs)" using q(2) by (simp add: sorted_wrt_map)
  ultimately show ?thesis using q(1) by blast
qed

lemma passes_WindowQuery:
  assumes empty: "\<And>n. \<not> has_bucket X db n" and dec: "decodes_suite X"
  shows "indexedTestWindowQuery (bboltStore X clk) (db, k)"
proof -
  let ?ps = "[(''d1'', body 22), (''d2'', body 25), (''d3'', body 24)]"
  obtain db' where run: "\<And>K. mustPuts (bboltStore X clk) ''tenant-a'' ?ps (db, k) K = K (db', k + length ?ps)"
    and ok: "store_ok X db' ''tenant-a''" and docs: "doc_contents X db' ''tenant-a'' = (\<lambda>d. contents (map_of ?ps d))"
    by (rule puts_suite [OF empty dec, of ?ps "[(''d1'', 22), (''d2'', 25), (''d3'', 24)]"]) (auto simp: suite_doc_ids)
  note r = suite_records(1) [OF dec, of 22] suite_records(1) [OF dec, of 25] suite_records(1) [OF dec, of 24]
  have t: "temporalFields X (body 22) = Some (''i1'', ''inspect'', 1000)" "temporalFields X (body 25) = Some (''i1'', ''repair'', 2000)"
    "temporalFields X (body 24) = Some (''i1'', ''inspect'', 3000)"
    using r by (simp_all add: record_at_def)
  note q = window_after [OF ok docs]
  obtain a where a: "WindowQuery X ctxBackground ''tenant-a'' ''i1'' [] 0 db' = Inr a" "sorted (map (\<lambda>ev. sint (TAt ev)) a)" "distinct a"
    "set a = set [\<lparr>TDocID = ''d1'', TType = ''inspect'', TAt = 1000\<rparr>, \<lparr>TDocID = ''d2'', TType = ''repair'', TAt = 2000\<rparr>,
       \<lparr>TDocID = ''d3'', TType = ''inspect'', TAt = 3000\<rparr>]"
    using q [of "''i1''" "[]" 0] by (auto simp: event_of_def t List.map_filter_def)
  obtain b where b: "WindowQuery X ctxBackground ''tenant-a'' ''i1'' [''inspect''] 0 db' = Inr b" "distinct b"
    "set b = set [\<lparr>TDocID = ''d1'', TType = ''inspect'', TAt = 1000\<rparr>, \<lparr>TDocID = ''d3'', TType = ''inspect'', TAt = 3000\<rparr>]"
    using q [of "''i1''" "[''inspect'']" 0] by (auto simp: event_of_def t List.map_filter_def)
  obtain c where c: "WindowQuery X ctxBackground ''tenant-a'' ''unknown'' [] 0 db' = Inr c" "set c = {}"
    using q [of "''unknown''" "[]" 0] by (auto simp: event_of_def t List.map_filter_def)
  have len: "length a = 3" "length b = 2"
    using distinct_card [OF a(3)] distinct_card [OF b(2)] unfolding a(4) b(3) by simp_all
  have "map (\<lambda>ev. sint (TAt ev)) a = [1000, 2000, 3000]"
  proof (rule sorted_distinct_set_unique [OF a(2)])
    have "inj_on (\<lambda>ev. sint (TAt ev)) (set a)" unfolding a(4) by (auto simp: inj_on_def)
    then show "distinct (map (\<lambda>ev. sint (TAt ev)) a)" using a(3) by (simp add: distinct_map)
  qed (simp_all add: a(4))
  then have "sint (TAt (a ! i)) = [1000, 2000, 3000] ! i" if "i < 3" for i using that len(1) by (metis nth_map)
  then have "list_all (\<lambda>i. sint (TAt (a ! (i - 1))) < sint (TAt (a ! i))) [1..<length a]"
    by (simp add: len upt_rec)
  moreover have "indexedTestWindowQuery (bboltStore X clk) (db, k) = mustPuts (bboltStore X clk) ''tenant-a'' ?ps (db, k) (\<lambda>s.
      case isWindowQuery (bboltStore X clk) ctxBackground ''tenant-a'' ''i1'' [] 0 s of
        Inl _ \<Rightarrow> False
      | Inr events \<Rightarrow>
          length events = 3 \<and>
          list_all (\<lambda>i. sint (TAt (events ! (i - 1))) < sint (TAt (events ! i))) [1..<length events] \<and>
          length (dropErr [] (isWindowQuery (bboltStore X clk) ctxBackground ''tenant-a'' ''i1'' [''inspect''] 0 s)) = 2 \<and>
          length (dropErr [] (isWindowQuery (bboltStore X clk) ctxBackground ''tenant-a'' ''unknown'' [] 0 s)) = 0)"
    by (simp add: indexedTestWindowQuery_def body_def suiteValues_def)
  ultimately show ?thesis using a(1) b(1) c len by (simp only: run bboltStore_sel) (simp add: dropErr_def)
qed

text \<open>The times that a group shows are the first and the last it has recorded.\<close>

lemma GroupCount_span:
  assumes "GroupCount X ctx e item a v db db2 = Inr g" "Count g \<noteq> 0"
  shows "map_option Some (span_of X db e (groupByKey item a v)) = Some (Some (the (First g), the (Last g)))" "First g \<noteq> None" "Last g \<noteq> None"
  using assms
  by (auto simp: GroupCount_def db_view_def groupByRead_def span_of_def decodeGroup_def zeroGroup_def Let_def result_simps
      split: if_splits option.splits prod.splits)

lemma passes_GroupCount:
  assumes empty: "\<And>n. \<not> has_bucket X db n" and dec: "decodes_suite X"
  shows "indexedTestGroupCount (bboltStore X clk) (db, k)"
proof -
  let ?ps = "[(''d1'', body 22), (''d2'', body 23), (''d3'', body 24)]" and ?key = "groupByKey ''i1'' ''type'' ''inspect''"
  note r = suite_records [OF dec, of 22] suite_records [OF dec, of 23] suite_records [OF dec, of 24]
  have t: "temporalFields X (body 22) = Some (''i1'', ''inspect'', 1000)" "temporalFields X (body 23) = Some (''i1'', ''inspect'', 2000)"
    "temporalFields X (body 24) = Some (''i1'', ''inspect'', 3000)"
    and gr: "groupByFields X (body 22) = Some (''i1'', [(''type'', ''inspect''), (''at'', ''1000'')])"
    "groupByFields X (body 23) = Some (''i1'', [(''type'', ''inspect''), (''at'', ''2000'')])"
    "groupByFields X (body 24) = Some (''i1'', [(''type'', ''inspect''), (''at'', ''3000'')])"
    and all: "\<forall>p \<in> set ?ps. grouped X (snd p)"
    using r by (simp_all add: record_at_def)
  obtain db' where run: "\<And>K. mustPuts (bboltStore X clk) ''tenant-a'' ?ps (db, k) K = K (db', k + length ?ps)"
    and ok: "store_ok X db' ''tenant-a''" and docs: "doc_contents X db' ''tenant-a'' = (\<lambda>d. contents (map_of ?ps d))"
    and span: "span_of X db' ''tenant-a'' ?key = fold (put_span X ?key) ?ps None"
    by (rule puts_suite [OF empty dec, of ?ps "[(''d1'', 22), (''d2'', 23), (''d3'', 24)]"]) (use all in \<open>auto simp: suite_doc_ids\<close>)
  have sp: "span_of X db' ''tenant-a'' ?key = Some (1000, 3000)"
    by (simp add: span put_span_def gr t bump_span_def)
  have "{d. ?key \<in> group_keys X (contents (map_of ?ps d))} = fst ` set (filter (\<lambda>p. ?key \<in> group_keys X (snd p)) ?ps)"
    by (rule documents_where) (simp_all add: group_keys_def groupByFields_def)
  then have mem: "{d. ?key \<in> group_keys X (doc_contents X db' ''tenant-a'' d)} = {''d1'', ''d2'', ''d3''}"
    unfolding docs by (simp add: group_keys_def gr)
  obtain g where g: "GroupCount X ctxBackground ''tenant-a'' ''i1'' ''type'' ''inspect'' db' db' = Inr g" "Count g = 3"
    using GroupCount_documents [OF ok queries_kept [OF ok] queries_admitted [OF suite_doc_ids(7)], of "''i1''" "''type''" "''inspect''"]
    unfolding mem Let_def by auto
  have "First g = Some 1000" "Last g = Some 3000" using GroupCount_span [OF g(1)] g(2) sp by auto
  with g show ?thesis by (simp only: indexedTestGroupCount_def printed run bboltStore_sel) simp
qed

lemma StatsFor_fresh:
  assumes "store_ok X db e" "entity_id_ok e" "stats_of X db e a = Some v" "\<not> Stale v"
  shows "StatsFor X ctxBackground e a db =
    (Inr \<lparr>RCount = SCount v, RMean = Mean v, RM2 = M2 v, RMin = SMin v, RMax = SMax v\<rparr>, db)"
proof -
  have "stats_ok X db e" using assms(1) by (simp add: store_ok_def index_ok_def index_inv_def)
  then show ?thesis using assms(2-4) begins
    by (simp add: StatsFor_def admitted_checks entity_id_ok_def ctxBackground_def statsRead_def db_view_def statsLoad_result stats_or_zero_def)
qed

lemma passes_Stats:
  assumes empty: "\<And>n. \<not> has_bucket X db n" and dec: "decodes_suite X"
  shows "indexedTestStats (bboltStore X clk) (db, k)"
proof -
  let ?ps = "[(''d0'', body 17), (''d1'', body 18), (''d2'', body 19), (''d3'', body 20), (''d4'', body 21)]"
  obtain db' where run: "\<And>K. mustPuts (bboltStore X clk) ''tenant-a'' ?ps (db, k) K = K (db', k + length ?ps)"
    and ok: "store_ok X db' ''tenant-a''"
    and st: "\<And>a. stats_of X db' ''tenant-a'' a = fold (\<lambda>p. stats_update None (attr_value X a (snd p))) ?ps None"
    by (rule puts_suite [OF empty dec, of ?ps "[(''d0'', 17), (''d1'', 18), (''d2'', 19), (''d3'', 20), (''d4'', 21)]"])
      (auto simp: suite_doc_ids)
  have x: "attr_value X ''km'' (body 17) = Some (f64_of_int 10)" "attr_value X ''km'' (body 18) = Some (f64_of_int 20)"
    "attr_value X ''km'' (body 19) = Some (f64_of_int 30)" "attr_value X ''km'' (body 20) = Some (f64_of_int 40)"
    "attr_value X ''km'' (body 21) = Some (f64_of_int 50)"
    by (simp_all add: attr_value_def suite_fields(2) [OF dec] members_at_simps num_fields_def f64_of_int_small byPath_def)
  let ?v = "fold statsWelfordAdd (map f64_of_int [10, 20, 30, 40, 50]) zeroStats"
  have "stats_of X db' ''tenant-a'' ''km'' =
      fold (\<lambda>y. stats_update None (Some y)) (map f64_of_int [10, 20, 30, 40, 50]) None" by (simp add: st x)
  also have "\<dots> = Some ?v"
    by (subst stats_update_fold) (simp_all add: stats_or_zero_def zeroStats_def)
  finally have "stats_of X db' ''tenant-a'' ''km'' = Some ?v" .
  note q = StatsFor_fresh [OF ok suite_doc_ids(7) this welford_tens(3)]
  have "\<not> f64_lt nano (mathAbs (f64_sub (f64_of_int 30) (f64_of_int 30)))"
  proof -
    have "mathAbs (f64_sub (f64_of_int 30) (f64_of_int 30)) = 0"
      using f64_sub_int [of 30 30] by (simp add: mathAbs_def f64_of_int_0 f64_mag_make) (simp add: f64_make_def)
    moreover have "0 \<le> f64_units nano" by (simp add: nano_def f64_units_def f64_neg_round)
    moreover have "f64_units 0 = 0" by (simp add: f64_units_def f64_mag_alt mag_units_def)
    ultimately show ?thesis by (simp add: f64_lt_def)
  qed
  then show ?thesis using q welford_tens(1,2)
    by (simp only: indexedTestStats_def Let_def printed run bboltStore_sel) simp
qed

lemma put_child:
  assumes room: "bbolt_room X (Suc n) (db, k)" and e: "entity_id_ok e" and d: "doc_id_ok d" and b: "doc_keys_ok X b" "moderate X b"
    and par: "parent_ok X e d b db"
  shows "\<exists>db'. (\<forall>K. mustPut (bboltStore X clk) e d b (db, k) K = K (db', Suc k)) \<and> bbolt_room X n (db', Suc k) \<and>
    (\<forall>x. chain_of X db' e x = (if x = d then map_option (chain_via X db e) (closureParent X b) else chain_of X db e x))"
proof -
  obtain db' ev where p: "Put X ctxBackground (clk k 0) e d b db = (Inr (), db', [ev])"
    "putInTxEvents X (clk k 0) e d b db = Inr (ev, db')" "bbolt_room X n (db', Suc k)"
    using bbolt_put [OF room e d b par] by blast
  have "store_ok X db e" "utf8_ok d" using room e d by (simp_all add: bbolt_room_def all_ok_def entity_id_ok_def doc_id_ok_def)
  with put_views(2) [OF p(2)] p(1,3) show ?thesis by (auto simp: mustPut_def must_def stamped_def)
qed

lemma passes_Closure:
  assumes empty: "\<And>n. \<not> has_bucket X db n" and dec: "decodes_suite X"
  shows "indexedTestClosure (bboltStore X clk) (db, k)"
proof -
  let ?S = "bboltStore X clk" and ?e = "''tenant-a''"
  have ids: "doc_id_ok ''Vehicles''" "doc_id_ok ''Trucks''" "doc_id_ok ''BigRigs''"
    by (simp_all add: doc_id_ok_def max_key_size_def byte_in_def)
  have par: "closureParent X ''{}'' = None" "closureParent X (body 26) = Some ''Vehicles''" "closureParent X (body 27) = Some ''Trucks''"
    and docs: "doc_keys_ok X ''{}''" "doc_keys_ok X (body 26)" "doc_keys_ok X (body 27)"
    "moderate X ''{}''" "moderate X (body 26)" "moderate X (body 27)"
    using suite_empty_object [OF dec] suite_parents [OF dec] by simp_all
  have chain0: "chain_of X db ?e = (\<lambda>_. None)" by (simp add: chain_of_def no_bucket_get [OF empty] fun_eq_iff)
  have room: "bbolt_room X (Suc (Suc (Suc 0))) (db, k)"
    using all_ok_empty [OF empty] empty_headroom [OF empty] by (simp add: bbolt_room_def)
  have "parent_ok X ?e ''Vehicles'' ''{}'' db" by (simp add: parent_ok_def par)
  then obtain db1 where d1: "\<And>K. mustPut ?S ?e ''Vehicles'' ''{}'' (db, k) K = K (db1, Suc k)"
    "bbolt_room X (Suc (Suc 0)) (db1, Suc k)" and c1: "\<And>x. chain_of X db1 ?e x = None"
    using put_child [OF room suite_doc_ids(7) ids(1) docs(1,4), where clk = clk] unfolding par chain0 by auto
  have "parent_ok X ?e ''Trucks'' (body 26) db1"
    by (simp add: parent_ok_def par chain_via_def c1 closureMaxDepth_def key_ok_def max_key_size_def)
  then obtain db2 where d2: "\<And>K. mustPut ?S ?e ''Trucks'' (body 26) (db1, Suc k) K = K (db2, Suc (Suc k))"
    "bbolt_room X (Suc 0) (db2, Suc (Suc k))" and c2: "\<And>x. chain_of X db2 ?e x = (if x = ''Trucks'' then Some [''Vehicles''] else None)"
    using put_child [OF d1(2) suite_doc_ids(7) ids(2) docs(2,5), where clk = clk] unfolding par c1 by (auto simp: chain_via_def c1)
  have "parent_ok X ?e ''BigRigs'' (body 27) db2"
    by (simp add: parent_ok_def par chain_via_def c2 closureMaxDepth_def key_ok_def max_key_size_def)
  then obtain db3 where d3: "\<And>K. mustPut ?S ?e ''BigRigs'' (body 27) (db2, Suc (Suc k)) K = K (db3, Suc (Suc (Suc k)))"
    "bbolt_room X 0 (db3, Suc (Suc (Suc k)))" and c3: "\<And>x. chain_of X db3 ?e x = (if x = ''BigRigs'' then Some [''Trucks'', ''Vehicles'']
      else if x = ''Trucks'' then Some [''Vehicles''] else None)"
    using put_child [OF d2(2) suite_doc_ids(7) ids(3) docs(3,6), where clk = clk] unfolding par c2 by (auto simp: chain_via_def c2)
  have ok: "store_ok X db3 ?e" using d3(2) by (simp add: bbolt_room_def all_ok_def no_colon_def)
  note ad = queries_admitted [OF suite_doc_ids(7), of db3]
  have anc: "Ancestors X ctxBackground ?e ''BigRigs'' db3 = Inr [''Trucks'', ''Vehicles'']"
    by (simp add: Ancestors_result [OF ok ad] c3)
  obtain s where s: "Descendants X ctxBackground ?e ''Vehicles'' db3 db3 = Inr s" "distinct (docids s)"
    "set (docids s) = {d. \<exists>c. chain_of X db3 ?e d = Some c \<and> ''Vehicles'' \<in> set c}"
    using Descendants_documents [OF ok queries_kept [OF ok] ad, of "''Vehicles''"] by blast
  have "set (docids s) = set [''Trucks'', ''BigRigs'']" unfolding s(3) c3 by auto
  then have "equalDocs s [''Trucks'', ''BigRigs'']" by (intro equalDocs_set [OF s(2)]) simp_all
  moreover have "indexedTestClosure ?S (db, k) = mustPut ?S ?e ''Vehicles'' ''{}'' (db, k) (\<lambda>s.
      mustPut ?S ?e ''Trucks'' (body 26) s (\<lambda>s. mustPut ?S ?e ''BigRigs'' (body 27) s (\<lambda>s.
      case isAncestors ?S ctxBackground ?e ''BigRigs'' s of
        Inl _ \<Rightarrow> False
      | Inr chain \<Rightarrow> equalStrings chain [''Trucks'', ''Vehicles''] \<and>
          onSet (isDescendants ?S ctxBackground ?e ''Vehicles'' s) (\<lambda>desc. equalDocs desc [''Trucks'', ''BigRigs'']))))"
    by (simp add: indexedTestClosure_def body_def suiteValues_def)
  ultimately show ?thesis using anc s(1)
    by (simp only: d1(1) d2(1) d3(1) bboltStore_sel) (simp add: onSet_def equalStrings_def)
qed

lemma bbolt_passes_indexed:
  assumes "\<And>n. \<not> has_bucket X db n" "decodes_suite X"
  shows "list_all snd (IndexedSuite (bboltStore X clk) (db, k))"
  using passes_Lookup [OF assms] passes_LookupPrefix [OF assms] passes_LookupNumericRange [OF assms]
    passes_LookupNumericRangeNaN [OF assms(1)] passes_WindowQuery [OF assms] passes_GroupCount [OF assms]
    passes_Stats [OF assms] passes_LastSeen [OF assms] passes_Closure [OF assms]
  by (simp add: IndexedSuite_def)

end

end
