(* ===== verification/Reference.thy ===== *)
theory Reference
  imports Buckets
begin

text \<open>
  A concrete instance of the calls that the program makes: buckets as association lists,
  bitmaps as lists of ids with a four-byte encoding, struct codecs as constructors, and a JSON
  decoder that knows a handful of documents. It satisfies every law of \<open>ext_laws\<close>, which shows
  that the laws can hold together, and the statements about the program are evaluated on it at
  concrete inputs.
\<close>

datatype cell =
    Bytes bytes
  | CMeta docMeta
  | CLog "temporalEntry list"
  | CGroup groupByValue
  | CStats statsValue
  | CAbs absenceEntry
  | CChain "string list"
  | CScope scopeMeta

type_synonym rdb = "(string \<times> (bytes \<times> cell) list) list"

definition r_has :: "rdb \<Rightarrow> string \<Rightarrow> bool" where
  "r_has db n \<longleftrightarrow> map_of db n \<noteq> None"

definition r_bucket :: "rdb \<Rightarrow> string \<Rightarrow> (bytes \<times> cell) list" where
  "r_bucket db n = (case map_of db n of None \<Rightarrow> [] | Some b \<Rightarrow> filter (\<lambda>(k, v). key_ok k) b)"

definition r_create :: "string \<Rightarrow> rdb \<Rightarrow> bolt_err + rdb" where
  "r_create n db =
     (if n = [] then Inl ErrBucketNameRequired
      else if r_has db n then Inr db else Inr ((n, []) # db))"

definition r_delete_bucket :: "string \<Rightarrow> rdb \<Rightarrow> bolt_err + rdb" where
  "r_delete_bucket n db = (if r_has db n then Inr (AList.delete n db) else Inl ErrBucketNotFound)"

definition r_get :: "rdb \<Rightarrow> string \<Rightarrow> bytes \<Rightarrow> cell option" where
  "r_get db n k = map_of (r_bucket db n) k"

definition r_put :: "string \<Rightarrow> bytes \<Rightarrow> cell \<Rightarrow> rdb \<Rightarrow> bolt_err + rdb" where
  "r_put n k v db =
     (if k = [] then Inl ErrKeyRequired
      else if max_key_size < length k then Inl ErrKeyTooLarge
      else if \<not> r_has db n then Inl ErrBucketNotFound
      else Inr (AList.update n (AList.update k v (r_bucket db n)) db))"

definition r_del :: "string \<Rightarrow> bytes \<Rightarrow> rdb \<Rightarrow> bolt_err + rdb" where
  "r_del n k db =
     (if \<not> r_has db n then Inr db
      else Inr (AList.update n (AList.delete k (r_bucket db n)) db))"

definition r_items :: "rdb \<Rightarrow> string \<Rightarrow> (bytes \<times> cell) list" where
  "r_items db n = sort_key fst (AList.clearjunk (r_bucket db n))"

definition r_seek :: "rdb \<Rightarrow> string \<Rightarrow> bytes \<Rightarrow> (bytes \<times> cell) list" where
  "r_seek db n p = filter (\<lambda>(k, v). p \<le> k) (r_items db n)"

definition r_names :: "rdb \<Rightarrow> string list" where
  "r_names db = sort (remdups (map fst db))"

fun r_to_bytes :: "cell \<Rightarrow> bytes" where
  "r_to_bytes (Bytes b) = b"
| "r_to_bytes _ = []"

definition r_iter :: "u32 list \<Rightarrow> u32 list" where
  "r_iter b = sort (remdups b)"

fun r_chunks :: "bytes \<Rightarrow> u32 list" where
  "r_chunks (a # b # c # d # rest) = BigEndian_Uint32 [a, b, c, d] # r_chunks rest"
| "r_chunks _ = []"

definition r_write :: "u32 list \<Rightarrow> bytes" where
  "r_write b = CHR 0x3A # concat (map BigEndian_PutUint32 (r_iter b))"

fun r_read :: "bytes \<Rightarrow> u32 list option" where
  "r_read [] = None"
| "r_read (c # rest) = Some (r_chunks rest)"

fun r_snappy_decode :: "cell \<Rightarrow> gobytes option" where
  "r_snappy_decode (Bytes b) = Some (if b = [] then None else Some b)"
| "r_snappy_decode _ = None"

text \<open>The documents the reference decoder knows.\<close>

definition five :: f64 where
  "five = 0x4014000000000000"

definition doc_ann :: bytes where
  "doc_ann = ''{name:ann}''"

definition doc_visit :: bytes where
  "doc_visit = ''{item_id:i,type:visit,at:5}''"

definition doc_child :: bytes where
  "doc_child = ''{parent:p}''"

fun r_sprint :: "any \<Rightarrow> string" where
  "r_sprint (AStr s) = s"
| "r_sprint (ABool b) = (if b then ''true'' else ''false'')"
| "r_sprint ANil = ''<nil>''"
| "r_sprint (AFloat x) = (if x = five then ''5'' else ''0'')"
| "r_sprint _ = ''?''"

definition r_json :: "bytes \<Rightarrow> any option" where
  "r_json d =
     (if d = doc_ann then Some (AObj [(''name'', AStr ''ann'')])
      else if d = doc_visit then
        Some (AObj [(''item_id'', AStr ''i''), (''type'', AStr ''visit''), (''at'', AFloat five)])
      else if d = doc_child then Some (AObj [(''parent'', AStr ''p'')])
      else None)"

fun r_dec_meta :: "cell \<Rightarrow> docMeta option" where
  "r_dec_meta (CMeta m) = Some m" | "r_dec_meta _ = None"

fun r_dec_log :: "cell \<Rightarrow> temporalEntry list option" where
  "r_dec_log (CLog m) = Some m" | "r_dec_log _ = None"

fun r_dec_group :: "cell \<Rightarrow> groupByValue option" where
  "r_dec_group (CGroup m) = Some m" | "r_dec_group _ = None"

fun r_dec_stats :: "cell \<Rightarrow> statsValue option" where
  "r_dec_stats (CStats m) = (if stats_finite m then Some m else None)" | "r_dec_stats _ = None"

fun r_dec_abs :: "cell \<Rightarrow> absenceEntry option" where
  "r_dec_abs (CAbs m) = Some m" | "r_dec_abs _ = None"

fun r_dec_chain :: "cell \<Rightarrow> string list option" where
  "r_dec_chain (CChain m) = Some m" | "r_dec_chain _ = None"

fun r_dec_scope :: "cell \<Rightarrow> scopeMeta option" where
  "r_dec_scope (CScope m) = Some m" | "r_dec_scope _ = None"

definition ref_ext :: "(rdb, cell, u32 list) ext" where
  "ref_ext = \<lparr>
     begin_err = (\<lambda>_. None), commit_err = (\<lambda>_. None), has_bucket = r_has, create_bucket = r_create,
     delete_bucket = r_delete_bucket, bucket_get = r_get, bucket_put = r_put, bucket_delete = r_del,
     bucket_items = r_items, bucket_seek = r_seek, bucket_names = r_names,
     of_bytes = Bytes, to_bytes = r_to_bytes, value_fits = (\<lambda>_. True),
     bm_new = [], bm_add = Cons, bm_remove = removeAll,
     bm_checked_add = (\<lambda>i b. (i \<notin> set b, i # b)), bm_checked_remove = (\<lambda>i b. (i \<in> set b, removeAll i b)),
     bm_or = (@), bm_is_empty = (\<lambda>b. b = []), bm_iter = r_iter, bm_run_optimize = (\<lambda>b. b),
     bm_write = r_write, bm_read = r_read,
     snappy_encode = Bytes, snappy_decode = r_snappy_decode,
     json_unmarshal = r_json,
     enc_meta = CMeta, dec_meta = r_dec_meta, enc_log = CLog, dec_log = r_dec_log,
     enc_group = CGroup, dec_group = r_dec_group,
     enc_stats = (\<lambda>v. if stats_finite v then Some (CStats v) else None), dec_stats = r_dec_stats,
     enc_abs = CAbs, dec_abs = r_dec_abs, enc_chain = CChain, dec_chain = r_dec_chain,
     enc_scope = CScope, dec_scope = r_dec_scope,
     time_parse = (\<lambda>_ _. None), format_g = (\<lambda>x. if x = five then ''5'' else ''0''),
     number_float = (\<lambda>_. None), float_oor = (\<lambda>_. 0), float_of_f32 = (\<lambda>_. 0), sprint = r_sprint,
     to_lower = (\<lambda>s. s), sort_slice = sort_key (\<lambda>e. sint (At e)), range_order = (\<lambda>ks. ks)\<rparr>"

section \<open>The laws hold\<close>

lemma ref_ext_simps [simp]:
  "begin_err ref_ext = (\<lambda>_. None)" "commit_err ref_ext = (\<lambda>_. None)" "has_bucket ref_ext = r_has"
  "create_bucket ref_ext = r_create" "delete_bucket ref_ext = r_delete_bucket" "bucket_get ref_ext = r_get"
  "bucket_put ref_ext = r_put" "bucket_delete ref_ext = r_del" "bucket_items ref_ext = r_items"
  "bucket_seek ref_ext = r_seek" "bucket_names ref_ext = r_names" "of_bytes ref_ext = Bytes"
  "to_bytes ref_ext = r_to_bytes" "value_fits ref_ext = (\<lambda>_. True)" "bm_new ref_ext = []" "bm_add ref_ext = Cons"
  "bm_remove ref_ext = removeAll" "bm_checked_add ref_ext = (\<lambda>i b. (i \<notin> set b, i # b))"
  "bm_checked_remove ref_ext = (\<lambda>i b. (i \<in> set b, removeAll i b))" "bm_or ref_ext = (@)"
  "bm_is_empty ref_ext = (\<lambda>b. b = [])" "bm_iter ref_ext = r_iter" "bm_run_optimize ref_ext = (\<lambda>b. b)"
  "bm_write ref_ext = r_write" "bm_read ref_ext = r_read" "snappy_encode ref_ext = Bytes"
  "snappy_decode ref_ext = r_snappy_decode" "json_unmarshal ref_ext = r_json" "enc_meta ref_ext = CMeta"
  "dec_meta ref_ext = r_dec_meta" "enc_log ref_ext = CLog" "dec_log ref_ext = r_dec_log"
  "enc_group ref_ext = CGroup" "dec_group ref_ext = r_dec_group"
  "enc_stats ref_ext = (\<lambda>v. if stats_finite v then Some (CStats v) else None)" "dec_stats ref_ext = r_dec_stats"
  "enc_abs ref_ext = CAbs" "dec_abs ref_ext = r_dec_abs" "enc_chain ref_ext = CChain"
  "dec_chain ref_ext = r_dec_chain" "enc_scope ref_ext = CScope" "dec_scope ref_ext = r_dec_scope"
  "time_parse ref_ext = (\<lambda>_ _. None)" "format_g ref_ext = (\<lambda>x. if x = five then ''5'' else ''0'')"
  "number_float ref_ext = (\<lambda>_. None)" "float_oor ref_ext = (\<lambda>_. 0)" "float_of_f32 ref_ext = (\<lambda>_. 0)"
  "sprint ref_ext = r_sprint" "to_lower ref_ext = (\<lambda>s. s)"
  "sort_slice ref_ext = sort_key (\<lambda>e. sint (At e))" "range_order ref_ext = (\<lambda>ks. ks)"
  by (simp_all add: ref_ext_def)

lemma r_iter_sorted: "sorted_wrt (<) (r_iter b)"
  by (simp add: r_iter_def strict_sorted_iff)

lemma set_r_iter [simp]: "set (r_iter b) = set b"
  by (simp add: r_iter_def)

lemma r_chunks_write: "r_chunks (concat (map BigEndian_PutUint32 is)) = is"
proof (induction "is")
  case (Cons i "is")
  have "length (BigEndian_PutUint32 i) = Suc (Suc (Suc (Suc 0)))" by simp
  then obtain a b c d where e: "BigEndian_PutUint32 i = [a, b, c, d]"
    unfolding length_Suc_conv by auto
  have "BigEndian_Uint32 [a, b, c, d] = i" using BigEndian_Uint32_Put' [of i] e by simp
  with Cons e show ?case by simp
qed simp

lemma map_of_filter_keys:
  "map_of (filter (\<lambda>(k, v). P k) b) k = (if P k then map_of b k else None)"
  by (induction b) auto

lemma r_bucket_update:
  "r_bucket (AList.update n b db) m = (if m = n then filter (\<lambda>(k, v). key_ok k) b else r_bucket db m)"
  by (simp add: r_bucket_def update_conv')

lemma r_bucket_key: "\<not> key_ok k \<Longrightarrow> map_of (r_bucket db n) k = None"
  by (simp add: r_bucket_def map_of_filter_keys split: option.splits)

lemma r_has_update: "r_has (AList.update n b db) m \<longleftrightarrow> m = n \<or> r_has db m"
  by (simp add: r_has_def update_conv')

interpretation ref_bbolt: bbolt_laws ref_ext
proof
  fix tx tx' :: rdb and n m k j v p b
  show "has_bucket ref_ext tx n" if "bucket_get ref_ext tx n k = Some v"
    using that by (auto simp: r_get_def r_bucket_def r_has_def split: option.splits)
  show "\<exists>tx'. create_bucket ref_ext n tx = Inr tx'" if "n \<noteq> []"
    using that by (auto simp: r_create_def)
  show "\<exists>tx'. delete_bucket ref_ext n tx = Inr tx'" if "has_bucket ref_ext tx n"
    using that by (simp add: r_delete_bucket_def)
  show "\<exists>tx'. bucket_put ref_ext n k v tx = Inr tx'"
    if "has_bucket ref_ext tx n" "k \<noteq> []" "length k \<le> max_key_size" "value_fits ref_ext v"
    using that by (simp add: r_put_def)
  show "bucket_put ref_ext n k v tx = Inl ErrValueTooLarge" if "\<not> value_fits ref_ext v"
    using that by simp
  show "key_ok k" if "bucket_get ref_ext tx n k = Some v"
    using that r_bucket_key [of k tx n] by (auto simp: r_get_def)
  show "bucket_put ref_ext n [] v tx = Inl ErrKeyRequired" by (simp add: r_put_def)
  show "bucket_put ref_ext n k v tx = Inl ErrKeyTooLarge" if "max_key_size < length k"
    using that by (auto simp: r_put_def)
  show "\<exists>tx'. bucket_delete ref_ext n k tx = Inr tx'" if "has_bucket ref_ext tx n"
    using that by (simp add: r_del_def)
  show "sorted_wrt (<) (map fst (bucket_items ref_ext tx n))"
  proof -
    have "distinct (map fst (r_items tx n))"
      by (simp add: r_items_def) (metis distinct_clearjunk distinct_map distinct_sort set_sort)
    then show ?thesis by (simp add: r_items_def strict_sorted_iff)
  qed
  show "map_of (bucket_items ref_ext tx n) = bucket_get ref_ext tx n"
    by (simp add: r_items_def r_get_def map_of_sort_key_fst distinct_clearjunk map_of_clearjunk fun_eq_iff)
  show "bucket_seek ref_ext tx n p = filter (\<lambda>(k, v). p \<le> k) (bucket_items ref_ext tx n)"
    by (simp add: r_seek_def)
  show "sorted_wrt (<) (bucket_names ref_ext tx)" by (simp add: r_names_def strict_sorted_iff)
  show "set (bucket_names ref_ext tx) = {n. has_bucket ref_ext tx n}"
    by (auto simp: r_names_def r_has_def map_of_eq_None_iff)
  show "to_bytes ref_ext (of_bytes ref_ext b) = b" by simp
next
  fix tx tx' :: rdb and n m k
  assume c: "create_bucket ref_ext n tx = Inr tx'"
  then have "tx' = tx \<and> r_has tx n \<or> tx' = (n, []) # tx \<and> \<not> r_has tx n"
    by (auto simp: r_create_def split: if_splits)
  then show "has_bucket ref_ext tx' m \<longleftrightarrow> m = n \<or> has_bucket ref_ext tx m"
    "bucket_get ref_ext tx' m k = bucket_get ref_ext tx m k"
    by (auto simp: r_has_def r_get_def r_bucket_def)
next
  fix tx tx' :: rdb and n m k
  assume "delete_bucket ref_ext n tx = Inr tx'"
  then have "tx' = AList.delete n tx" by (auto simp: r_delete_bucket_def split: if_splits)
  then show "has_bucket ref_ext tx' m \<longleftrightarrow> m \<noteq> n \<and> has_bucket ref_ext tx m"
    "bucket_get ref_ext tx' m k = (if m = n then None else bucket_get ref_ext tx m k)"
    by (auto simp: r_has_def r_get_def r_bucket_def delete_conv')
next
  fix tx tx' :: rdb and n m k j v
  assume "bucket_put ref_ext n k v tx = Inr tx'"
  then have "r_has tx n" "key_ok k" "tx' = AList.update n (AList.update k v (r_bucket tx n)) tx"
    by (auto simp: r_put_def key_ok_def split: if_splits)
  then show "has_bucket ref_ext tx' m \<longleftrightarrow> has_bucket ref_ext tx m"
    "bucket_get ref_ext tx' m j = (if m = n \<and> j = k then Some v else bucket_get ref_ext tx m j)"
    by (auto simp: r_has_update r_get_def r_bucket_update update_conv' map_of_filter_keys r_bucket_key)
next
  fix tx tx' :: rdb and n m k j
  assume "bucket_delete ref_ext n k tx = Inr tx'"
  then have "(r_has tx n \<and> tx' = AList.update n (AList.delete k (r_bucket tx n)) tx) \<or> (\<not> r_has tx n \<and> tx' = tx)"
    by (auto simp: r_del_def split: if_splits)
  then show "has_bucket ref_ext tx' m \<longleftrightarrow> has_bucket ref_ext tx m"
    "bucket_get ref_ext tx' m j = (if m = n \<and> j = k then None else bucket_get ref_ext tx m j)"
    by (auto simp: r_has_update r_get_def r_bucket_update delete_conv' map_of_filter_keys r_bucket_key)
       (auto simp: r_has_def r_bucket_def)
qed

interpretation ref_roaring: roaring_laws ref_ext
proof
  fix i b c
  show "sorted_wrt (<) (bm_iter ref_ext b)" by (simp add: r_iter_sorted)
  show "bm_is_empty ref_ext b \<longleftrightarrow> bm_iter ref_ext b = []" by (metis empty_set ref_ext_simps(21,22) set_empty set_r_iter)
  have "r_iter (r_iter b) = r_iter b"
    by (rule strict_sorted_set_eqI) (simp_all add: r_iter_sorted)
  then show "\<exists>b'. bm_read ref_ext (bm_write ref_ext b) = Some b' \<and> bm_iter ref_ext b' = bm_iter ref_ext b"
    by (simp add: r_write_def r_chunks_write)
  show "bm_write ref_ext b \<noteq> []" by (simp add: r_write_def)
  show "bm_iter ref_ext (bm_new ref_ext) = []" by (simp add: r_iter_def)
qed auto

interpretation ref_snappy: snappy_laws ref_ext
  by unfold_locales simp

interpretation ref_golib: golib_laws ref_ext
proof
  fix d v
  assume "json_unmarshal ref_ext d = Some v"
  then show "any_wf v"
    by (auto simp: r_json_def byte_in_def f64_finite_def f64_mag_def five_def split: if_splits)
next
  show "json_unmarshal ref_ext [] = None"
    by (simp add: r_json_def doc_ann_def doc_visit_def doc_child_def)
next
  fix raw sv
  assume "dec_stats ref_ext raw = Some sv"
  then show "stats_finite sv" by (cases raw) (auto split: if_splits)
next
  fix es
  show "sorted_wrt (\<lambda>a b. sint (At a) \<le> sint (At b)) (sort_slice ref_ext es)"
    using sorted_sort_key [of "\<lambda>e. sint (At e)" es] by (simp add: sorted_wrt_map)
qed (auto split: if_splits)

interpretation ref: ext_laws ref_ext ..

lemma ref_laws: "ext_laws ref_ext"
  by (rule ref.ext_laws_axioms)

end
