(* ===== verification/Suitefixture.thy ===== *)
theory Suitefixture
  imports Indexedsuite Reference
begin

text \<open>
  A database on which the conditions of the statements about successful writes and about the
  conformance suites hold: the reference instance is steady and roomy, and with a JSON decoder and a
  number printer that know the documents of the suites it decodes them.
\<close>

interpretation ref_roomy: roomy ref_ext
  by unfold_locales (simp_all add: r_create_def)

lemma ref_is_steady: "steady ref_ext"
  by (rule ref_roomy.steady_axioms)

section \<open>The documents of the suites decoded\<close>

definition suite_format :: "f64 \<Rightarrow> string" where
  "suite_format x = (case map_of (map (\<lambda>(n, s). (f64_of_int n, s)) suiteNumbers) x of None \<Rightarrow> ''0'' | Some s \<Rightarrow> s)"

definition suite_ext :: "(rdb, cell, u32 list) ext" where
  "suite_ext = ref_ext\<lparr>json_unmarshal := map_of suiteValues, format_g := suite_format\<rparr>"

lemma suite_ext_sel [simp]:
  "json_unmarshal suite_ext = map_of suiteValues" "format_g suite_ext = suite_format"
  by (simp_all add: suite_ext_def)

interpretation suite_bbolt: bbolt_laws suite_ext
  using ref_bbolt.bbolt_laws_axioms unfolding bbolt_laws_def suite_ext_def by simp

interpretation suite_roaring: roaring_laws suite_ext
  using ref_roaring.roaring_laws_axioms unfolding roaring_laws_def suite_ext_def by simp

interpretation suite_snappy: snappy_laws suite_ext
  using ref_snappy.snappy_laws_axioms unfolding snappy_laws_def suite_ext_def by simp

lemma suite_values_wf: "list_all (\<lambda>(b, v). any_wf v \<and> b \<noteq> []) suiteValues"
  by (simp add: suiteValues_def byte_in_def f64_of_int_small)

interpretation suite_golib: golib_laws suite_ext
proof -
  have wf: "any_wf v \<and> d \<noteq> []" if "map_of suiteValues d = Some v" for d v
    using suite_values_wf map_of_SomeD [OF that] by (auto simp: list_all_iff)
  have none: "map_of suiteValues [] = None" using wf [of "[]"] by (cases "map_of suiteValues []") simp_all
  have "golib_laws ref_ext" by (rule ref_golib.golib_laws_axioms)
  then show "golib_laws suite_ext"
    unfolding golib_laws_def suite_ext_def using wf none by (simp del: ref_ext_simps)
qed

interpretation suite: roomy suite_ext
  by unfold_locales (simp_all add: suite_ext_def r_create_def)

lemma suite_is_roomy: "roomy suite_ext"
  by (rule suite.roomy_axioms)

lemma suite_decodes: "decodes_suite suite_ext"
proof -
  have "distinct (map fst suiteValues)" by (simp add: suiteValues_def)
  moreover have "distinct (map fst (map (\<lambda>(n, s). (f64_of_int n, s)) suiteNumbers))"
    by (simp add: suiteNumbers_def f64_of_int_eq)
  then have "suite_format (f64_of_int n) = s" if "(n, s) \<in> set suiteNumbers" for n s
    unfolding suite_format_def using that by (subst map_of_is_SomeI [of _ "f64_of_int n" s]) force+
  ultimately show ?thesis unfolding decodes_suite_def by (auto simp: map_of_is_SomeI)
qed

end
