(* ===== verification/Fixtures.thy ===== *)
theory Fixtures
  imports Lookup Reference Vector "HOL-Library.Code_Target_Numeral" "HOL-Library.Power_By_Squaring"
begin

text \<open>
  Concrete databases over \<open>ref_ext\<close>, made by running the store's own operations, at which the
  statements about the program are evaluated. The aggregate of a single five is computed once,
  by arithmetic on the numerals, and handed to the evaluator as a code equation.
\<close>

section \<open>Arithmetic on five\<close>

declare power_by_squaring [symmetric, code_unfold]

definition one64 :: f64 where
  "one64 = 0x3FF0000000000000"

lemma five_parts:
  "f64_mag five = 0x4014000000000000" "\<not> f64_neg five" "f64_mag one64 = 0x3FF0000000000000"
  "\<not> f64_neg one64" "f64_mag 0 = 0" "\<not> f64_neg 0"
  by (simp_all add: f64_mag_def f64_neg_def five_def one64_def)

lemma five_units:
  "mag_units 0x4014000000000000 = 5 * 2 ^ 1074" "mag_units 0x3FF0000000000000 = 2 ^ 1074" "mag_units 0 = 0"
  by (simp_all add: mag_units_def)

lemma five_classes [simp]:
  "\<not> f64_isNaN five" "\<not> f64_isInf five" "\<not> f64_isNaN one64" "\<not> f64_isInf one64" "\<not> f64_isNaN 0" "\<not> f64_isInf 0"
  by (simp_all add: f64_isNaN_def f64_isInf_def five_parts)

lemma ilog2_big: "ilog2 (5 * 2 ^ 1074) = 1076" "ilog2 (2 ^ 1074) = 1074" "ilog2 0 = 0"
proof -
  show "ilog2 (5 * 2 ^ 1074) = 1076" by (rule ilog2_eqI; simp)
  show "ilog2 (2 ^ 1074) = 1074" by (rule ilog2_eqI; simp)
  show "ilog2 0 = 0" by (subst ilog2.simps) simp
qed

lemma round_five: "f64_round False (5 * 2 ^ 1074) 1 = five"
  by (simp only: f64_round_def div_by_1 ilog2_big Let_def) (simp add: round_half_even_def f64_make_def five_def)

lemma round_one: "f64_round False (2 ^ 1074) 1 = one64"
  by (simp only: f64_round_def div_by_1 ilog2_big Let_def) (simp add: round_half_even_def f64_make_def one64_def)

lemma round_zero: "f64_round neg 0 d = f64_make neg 0"
  by (auto simp: f64_round_def ilog2_big round_half_even_def)

lemma five_arith:
  "f64_of_int 1 = one64" "f64_sub five 0 = five" "f64_div five one64 = five" "f64_add 0 five = five"
  "f64_sub five five = 0" "f64_mul five 0 = 0" "f64_add 0 0 = 0"
proof -
  have neg: "f64_negate 0 = 0x8000000000000000" "f64_negate five = 0xC014000000000000"
    by (simp_all add: f64_negate_def five_parts f64_make_def)
  have nparts: "f64_mag 0x8000000000000000 = 0" "f64_neg 0x8000000000000000"
    "f64_mag 0xC014000000000000 = 0x4014000000000000" "f64_neg 0xC014000000000000"
    by (simp_all add: f64_mag_def f64_neg_def)
  have ncls: "\<not> f64_isNaN 0x8000000000000000" "\<not> f64_isInf 0x8000000000000000"
    "\<not> f64_isNaN 0xC014000000000000" "\<not> f64_isInf 0xC014000000000000"
    by (simp_all add: f64_isNaN_def f64_isInf_def nparts)
  have units: "f64_units five = int (5 * 2 ^ 1074)" "f64_units 0 = 0" "f64_units 0x8000000000000000 = 0"
    "f64_units 0xC014000000000000 = - int (5 * 2 ^ 1074)"
    by (simp_all only: f64_units_def five_parts nparts five_units simp_thms if_True if_False of_nat_0 minus_zero)
  have make: "f64_make False 0 = 0" by (simp add: f64_make_def)
  show "f64_of_int 1 = one64" using round_one by (simp only: f64_of_int_def) simp
  have u5: "f64_round (int (5 * 2 ^ 1074) < 0) (nat \<bar>int (5 * 2 ^ 1074)\<bar>) 1 = five"
    by (subst round_five [symmetric]) (simp only: nat_int abs_of_nat of_nat_less_0_iff)
  have nz: "int (5 * 2 ^ 1074) \<noteq> 0" by simp
  show "f64_sub five 0 = five" "f64_add 0 five = five"
    by (simp_all only: f64_sub_def neg f64_add_def five_classes ncls units simp_thms if_False add_0_right add_0_left Let_def nz u5)
  show "f64_sub five five = 0"
    by (simp only: f64_sub_def neg f64_add_def five_classes ncls units simp_thms if_False if_True Let_def
        right_minus five_parts make)
  show "f64_add 0 0 = 0"
    by (simp only: f64_add_def five_classes units simp_thms if_False if_True Let_def add_0_left five_parts make)
  show "f64_mul five 0 = 0"
    by (simp only: f64_mul_def five_classes five_parts five_units simp_thms if_False Let_def mult_0_right round_zero make)
  have q: "5 * 2 ^ 1074 * 2 ^ 1074 div 2 ^ 1074 = (5 * 2 ^ 1074 :: nat)" by (rule nonzero_mult_div_cancel_right) simp
  have "f64_round False (5 * 2 ^ 1074 * 2 ^ 1074) (2 ^ 1074) = f64_round False (5 * 2 ^ 1074) 1"
    by (simp only: f64_round_def q div_by_1 Let_def ilog2_big) (simp add: round_half_even_def)
  then have "f64_round False (5 * 2 ^ 1074 * 2 ^ 1074) (2 ^ 1074) = five" by (simp only: round_five)
  then show "f64_div five one64 = five"
    by (simp only: f64_div_def five_classes five_parts five_units simp_thms if_False Let_def) simp
qed

lemma welford_five:
  "statsWelfordAdd five zeroStats = \<lparr>SCount = 1, Mean = five, M2 = 0, SMin = five, SMax = five, Stale = False\<rparr>"
  by (simp add: statsWelfordAdd_def welfordStep_def zeroStats_def Let_def five_arith)

lemma statsWelfordAdd_code [code]:
  "statsWelfordAdd x v =
     (if x = five \<and> v = zeroStats
      then \<lparr>SCount = 1, Mean = five, M2 = 0, SMin = five, SMax = five, Stale = False\<rparr>
      else let cnt = SCount v + 1;
          s = welfordStep f64_add f64_sub f64_mul f64_div (f64_of_int (sint cnt)) x (Mean v, M2 v)
      in v\<lparr>SCount := cnt, Mean := fst s, M2 := snd s,
           SMin := (if cnt = 1 \<or> f64_lt x (SMin v) then x else SMin v),
           SMax := (if cnt = 1 \<or> f64_lt (SMax v) x then x else SMax v)\<rparr>)"
proof (cases "x = five \<and> v = zeroStats")
  case True
  then show ?thesis by (simp add: welford_five)
next
  case False
  then show ?thesis by (simp only: statsWelfordAdd_def if_False)
qed

section \<open>Databases\<close>

text \<open>A context that is never cancelled.\<close>

definition ctx0 :: ctx where
  "ctx0 = (\<lambda>n. None)"

text \<open>The bitmap that holds the id 1.\<close>

definition bits1 :: cell where
  "bits1 = Bytes [CHR '':'', CHR 0x00, CHR 0x00, CHR 0x00, CHR 0x01]"

definition db_ann :: rdb where
  "db_ann =
    [(''inv:acme'', [(''ann'', bits1), (''name:ann'', bits1)]),
     (''idmap:acme:meta'', [(''next'', Bytes [CHR 0x00, CHR 0x00, CHR 0x00, CHR 0x02])]),
     (''idmap:acme:rev'', [([CHR 0x00, CHR 0x00, CHR 0x00, CHR 0x01], Bytes ''d1'')]),
     (''idmap:acme:fwd'', [(''d1'', Bytes [CHR 0x00, CHR 0x00, CHR 0x00, CHR 0x01])]),
     (''meta:acme'', [(''d1'', CMeta \<lparr>CreatedAt = 7, UpdatedAt = 7, Version = 1\<rparr>)]),
     (''docs:acme'', [(''d1'', Bytes doc_ann)])]"

definition db_child :: rdb where
  "db_child =
    [(''clo:desc:acme'', [(''p'', bits1)]),
     (''clo:asc:acme'', [(''d1'', CChain [''p''])]),
     (''inv:acme'', [(''p'', bits1), (''parent:p'', bits1)]),
     (''idmap:acme:meta'', [(''next'', Bytes [CHR 0x00, CHR 0x00, CHR 0x00, CHR 0x02])]),
     (''idmap:acme:rev'', [([CHR 0x00, CHR 0x00, CHR 0x00, CHR 0x01], Bytes ''d1'')]),
     (''idmap:acme:fwd'', [(''d1'', Bytes [CHR 0x00, CHR 0x00, CHR 0x00, CHR 0x01])]),
     (''meta:acme'', [(''d1'', CMeta \<lparr>CreatedAt = 7, UpdatedAt = 7, Version = 1\<rparr>)]),
     (''docs:acme'', [(''d1'', Bytes doc_child)])]"

definition group_five :: groupByValue where
  "group_five = \<lparr>GCount = 1, FirstSeen = 5, GLastSeen = 5,
     Bitmap = [CHR '':'', CHR 0x00, CHR 0x00, CHR 0x00, CHR 0x01]\<rparr>"

definition db_visit :: rdb where
  "db_visit =
    [(''absbucket:acme'', [(''i|visit'', CAbs \<lparr>AbsAt = 5, AbsDocID = ''d1''\<rparr>)]),
     (''stat:acme'', [(''at'', CStats
        \<lparr>SCount = 1, Mean = five, M2 = 0, SMin = five, SMax = five, Stale = False\<rparr>)]),
     (''gby:acme'', [(''i|type|visit'', CGroup group_five), (''i|at|5'', CGroup group_five)]),
     (''temp:acme:i'', [(''log'', CLog [\<lparr>At = 5, EType = ''visit'', EDocID = ''d1''\<rparr>])]),
     (''num:acme:at'', [([CHR 0xC0, CHR 0x14, CHR 0x00, CHR 0x00, CHR 0x00, CHR 0x00, CHR 0x00, CHR 0x00,
        CHR 0x00, CHR 0x00, CHR 0x00, CHR 0x01], Bytes [])]),
     (''inv:acme'', [(''5'', bits1), (''at:5'', bits1), (''i'', bits1), (''item_id:i'', bits1), (''type:visit'', bits1), (''visit'', bits1)]),
     (''idmap:acme:meta'', [(''next'', Bytes [CHR 0x00, CHR 0x00, CHR 0x00, CHR 0x02])]),
     (''idmap:acme:rev'', [([CHR 0x00, CHR 0x00, CHR 0x00, CHR 0x01], Bytes ''d1'')]),
     (''idmap:acme:fwd'', [(''d1'', Bytes [CHR 0x00, CHR 0x00, CHR 0x00, CHR 0x01])]),
     (''meta:acme'', [(''d1'', CMeta \<lparr>CreatedAt = 7, UpdatedAt = 7, Version = 1\<rparr>)]),
     (''docs:acme'', [(''d1'', Bytes doc_visit)])]"

text \<open>They are what \<^verbatim>\<open>Put\<close> makes of an empty database.\<close>

definition put_event :: "bytes \<Rightarrow> MutationEvent" where
  "put_event doc = \<lparr>Kind = EventAssert, EntityID = ''acme'', DocID = ''d1'', OldDoc = None,
     NewDoc = Some doc, AtUnixNanos = 7\<rparr>"

lemma fixture_puts:
  "Put ref_ext ctx0 7 ''acme'' ''d1'' doc_ann [] = (Inr (), db_ann, [put_event doc_ann])"
  "Put ref_ext ctx0 7 ''acme'' ''d1'' doc_child [] = (Inr (), db_child, [put_event doc_child])"
  "Put ref_ext ctx0 7 ''acme'' ''d1'' doc_visit [] = (Inr (), db_visit, [put_event doc_visit])"
  by code_simp+

lemma empty_reachable: "reachable ref_ext []"
  by (rule reachable.start) (simp add: r_has_def)

lemma utf8_d1 [simp]: "utf8_ok ''d1''"
  by code_simp

lemma put_reachable:
  assumes "Put ref_ext ctx0 7 ''acme'' ''d1'' doc [] = (r, db, evs)"
  shows "reachable ref_ext db"
  by (rule reachable.step [OF empty_reachable, where w = "WPut ctx0 7 ''acme'' ''d1'' doc"])
    (simp_all add: assms del: utf8_ok.simps)

lemmas fixture_reachable = fixture_puts [THEN put_reachable]

lemma reachable_acme: "reachable ref_ext db \<Longrightarrow> store_ok ref_ext db ''acme''"
  using ext_laws.reachable_ok [OF ref_laws] by (simp add: all_ok_def no_colon_def)

lemmas fixture_ok = fixture_reachable [THEN reachable_acme]

section \<open>A vector\<close>

interpretation ref_vectors: vector_store ref_ext list_hnsw "\<lambda>_. True" "\<lambda>_. True"
  by (intro vector_store.intro ref_laws list_index.hnsw_laws_axioms)

definition db_vec :: rdb where
  "db_vec =
    [(''vec_data:acme:s'', [(''v'', Bytes [CHR 0x01, CHR 0x00, CHR 0x00, CHR 0x00, CHR 0x02, CHR 0x00, CHR 0x00, CHR 0x00])]),
     (''vec_registry:acme'', [(''s'', CScope \<lparr>MDim = 2, MMetric = 0\<rparr>)])]"

definition vs_vec :: "lgraph vecState" where
  "vs_vec = \<lparr>vecOnce = True,
     vectors = \<lparr>scopes = [((''acme'', ''s''), \<lparr>graph = [(''v'', [1, 2])], dim = 2, metric = 0, tombstones = []\<rparr>)],
       opts = \<lparr>OptM = 0, OptMl = 0, OptEfSearch = 0\<rparr>\<rparr>, vecLoadErr = None\<rparr>"

lemma fixture_vector:
  "VectorInsert ref_ext list_hnsw ctx0 ''acme'' ''s'' ''v'' [1, 2] Cosine ([], unloaded) = (Inr (), db_vec, vs_vec)"
  by code_simp

lemma no_colon_acme: "no_colon ''acme''"
  by (simp add: no_colon_def)

lemma fixture_vec_start: "vec_reachable ref_ext list_hnsw [] unloaded"
  by (rule vec_start) (simp add: r_has_def)

lemma fixture_vec_reachable: "vec_reachable ref_ext list_hnsw db_vec vs_vec"
  by (rule vec_insert [OF fixture_vec_start no_colon_acme fixture_vector])

end
