(* ===== verification/Spec2Isabelle.thy ===== *)
theory Spec2Isabelle
  imports Complex_Main Lookup Sequence Cluster Query Vector Grpc Daemon Suitefixture Fixtures
begin

text \<open>
  talon-db is a document database in Go over bbolt, embedded as a library or run as a server. A
  document is a byte string under a tenant (entity) and an id; JSON objects are indexed on every
  write, inside the transaction of the write. This development models the store, its indexes and
  queries, the vectors, the mutation events, the RPC server, and the conformance suites that an
  implementation of the store has to pass.

  \<^bold>\<open>Parts of the program and the theories that model them.\<close>
  \<^item> \<^verbatim>\<open>bboltstore/store.go\<close>, \<^verbatim>\<open>docstore.go\<close>: \<^verbatim>\<open>Store\<close>. Put, Get, Delete, BatchPut and Scan are functions of the
    committed database, a context (the outcomes of its polls) and a clock, that return the result,
    the database and the events to emit. \<open>db_update\<close> and \<open>db_view\<close> (\<^verbatim>\<open>Externals\<close>) are bbolt's transactions:
    an error of the function or of the commit rolls back.
  \<^item> \<^verbatim>\<open>bboltstore/idmap.go\<close>: \<^verbatim>\<open>Idmap\<close>, the 32-bit internal ids. \<^verbatim>\<open>internal/index/terms.go\<close>: \<^verbatim>\<open>Terms\<close>, the
    extraction of terms and numbers from a JSON value.
  \<^item> the indexes: \<^verbatim>\<open>invindex.go\<close> (\<^verbatim>\<open>Invindex\<close>, with \<^verbatim>\<open>Postings\<close> as the contract that posting lists share),
    \<^verbatim>\<open>numidx.go\<close> (\<^verbatim>\<open>Numidx\<close>), \<^verbatim>\<open>temporal.go\<close> (\<^verbatim>\<open>Temporal\<close>), \<^verbatim>\<open>groupby.go\<close> (\<^verbatim>\<open>Groupby\<close>), \<^verbatim>\<open>closure.go\<close> (\<^verbatim>\<open>Closure\<close>),
    \<^verbatim>\<open>stats.go\<close> (\<^verbatim>\<open>Stats\<close>), \<^verbatim>\<open>absence.go\<close> (\<^verbatim>\<open>Absence\<close>), called by \<^verbatim>\<open>indexhooks.go\<close> (\<^verbatim>\<open>Indexhooks\<close>) in the order of the code.
  \<^item> \<^verbatim>\<open>lookup.go\<close>, \<^verbatim>\<open>indexed.go\<close>: \<^verbatim>\<open>Lookup\<close>; \<^verbatim>\<open>sequence.go\<close>: \<^verbatim>\<open>Sequence\<close>; \<^verbatim>\<open>cluster.go\<close>: \<^verbatim>\<open>Cluster\<close>; \<^verbatim>\<open>query.go\<close>, \<^verbatim>\<open>aggregate.go\<close>:
    \<^verbatim>\<open>Query\<close>. A query that resolves a bitmap takes the databases of its two view transactions, between
    which other writes may run.
  \<^item> \<^verbatim>\<open>vectorindex/index.go\<close>: \<^verbatim>\<open>Vectorindex\<close>; \<^verbatim>\<open>bboltstore/vector.go\<close>: \<^verbatim>\<open>Vector\<close>, whose state is the database with
    the lazily loaded index.
  \<^item> \<^verbatim>\<open>events.go\<close>: \<^verbatim>\<open>Events\<close>; \<^verbatim>\<open>grpcserver\<close>: \<^verbatim>\<open>Grpc\<close>; \<^verbatim>\<open>cmd/talondb-server/main.go\<close>: \<^verbatim>\<open>Httpd\<close>, the route table
    and the handler of every method, and \<^verbatim>\<open>Daemon\<close>, the life of the process: startup as a function of the
    flags and the outcomes of the system calls, then a transition system up to the return of \<^verbatim>\<open>main\<close>.
  \<^item> the interfaces of \<^verbatim>\<open>docstore.go\<close> and \<^verbatim>\<open>indexed.go\<close> and the suites \<^verbatim>\<open>talondbtest/conformance.go\<close> and
    \<^verbatim>\<open>talondbtest/indexed.go\<close>: \<^verbatim>\<open>Conformance\<close>. An interface is a record of operations on an abstract state;
    \<^verbatim>\<open>Conforming\<close> and \<^verbatim>\<open>Indexedsuite\<close> show that the bbolt store passes.
  \<^item> \<^verbatim>\<open>Liveness\<close>, \<^verbatim>\<open>Headroom\<close> and \<^verbatim>\<open>Views\<close> have no code of their own: they say when writes succeed, for how
    long, and what a write does to those indexes that depend on the order of writes.
  \<^item> \<^verbatim>\<open>Talon_Prelude\<close> has errors and results, \<^verbatim>\<open>Float64\<close> binary64 arithmetic on 64-bit words
    (\<^verbatim>\<open>Floatarith\<close> its bounds), \<^verbatim>\<open>Binary\<close> the
    byte encodings, \<^verbatim>\<open>Buckets\<close> the frames of transactions and the bitmaps under a key.

  \<^bold>\<open>What is not in the repository.\<close> bbolt, roaring, snappy and the text codecs of the standard library
  are the fields of the record \<open>ext\<close>, an argument of the definitions; \<^verbatim>\<open>coder/hnsw\<close> is the record
  \<open>hnsw\<close>; \<^verbatim>\<open>structpb.NewValue\<close> and \<^verbatim>\<open>protojson\<close> are function arguments. The locales \<open>ext_laws\<close> and
  \<open>hnsw_laws\<close> state what the code relies on. \<^verbatim>\<open>Reference\<close> gives a concrete instance of the first,
  \<^verbatim>\<open>Vectorindex\<close> one of the second, and \<^verbatim>\<open>Fixtures\<close> and \<^verbatim>\<open>Suitefixture\<close> the databases at which statements are
  evaluated. The locale \<open>steady\<close> extends \<open>ext_laws\<close> for the statement that writes succeed:
  transactions begin and commit, while keys, bucket names and values keep the limits that bbolt
  documents. \<open>roomy\<close> extends it once more to a database without limits on values and names, the one
  on which the short documents of the conformance suites are run.

  \<^bold>\<open>What the theorems show.\<close> The invariant of reachable databases (C1) says how the indexes of an entity
  agree with its documents: five of the seven exactly, the closure table up to the tails of its chains,
  while of the last-seen cache, which may lag behind the documents, it only says that the cells decode
  (C26 and C27 are about its updates). It is kept by every write, and C2 refines histories of writes to an
  abstract map of documents. C3 to C9, C18 and C19 are the contract of the document store: round
  trips, errors, atomicity, isolation of tenants, metadata, events. C17 says when a write must succeed,
  with every reason for which it may not, and C11 that the store passes both conformance suites. C10, C12 to C16 and C28 to C32 show
  that each query returns exactly what its documents determine, C31 that narrowing through the
  index equals a full scan. C20 is the event emitter; C21, C22 and C24 to C27 are the algorithms below the queries: key order,
  Welford's recurrence, term extraction, ancestor chains, the absence cache. C23 is the shutdown of the
  server process. C33 to C37 treat
  vectors: the invariant over documents and vectors together, restarts, effects, the locked
  dimension, searching. C38 to C40 are about the RPC methods.

  \<^bold>\<open>Bounds.\<close> Internal ids are 32-bit words and their exhaustion is a branch; counters and times are 64-bit
  words that wrap; floating-point numbers are 64-bit words with IEEE rounding. No definition
  uses fuel: loops are structural recursions or have a termination proof.

  \<^bold>\<open>Not modelled.\<close> The parsing of flags and what the operating system does for a socket, a file or a
  signal: the model has the outcomes of these calls. Generated protocol code.
  Go's data races: every operation is atomic under bbolt's transactions or its mutex, and the
  theorems about queries and streams name the points where other steps come in between.
\<close>

section \<open>The store\<close>

lemma reachable_store_ok:
  "ext_laws X \<Longrightarrow> reachable X db \<Longrightarrow> no_colon e \<Longrightarrow> store_ok X db e"
  using ext_laws.reachable_ok [of X db] by (simp add: all_ok_def)

lemma acme_valid [simp]: "no_colon ''acme''" "validateEntityID ''acme'' = Inr ()" "ctx0 n = None"
  by (simp_all add: no_colon_def validateEntityID_def ctx0_def)

lemma acme_admitted: "admitted ref_ext ctx0 ''acme'' db db2"
  by (simp add: admitted_def)

lemma write_ok_d1: "write_ok (WPut ctx0 7 ''acme'' ''d1'' doc)" "write_ok (WDelete ctx0 9 ''acme'' ''d1'')"
  by (simp_all del: utf8_ok.simps)

text \<open>C1. In every database that arises from an empty one by writes and aggregate reads, stored
  documents and their metadata decode and exist for the same ids, and the indexes of an entity are
  consistent with its documents. Every document has an internal id, no two the same; the inverted,
  numeric, temporal and group indexes have exactly the entries that the documents determine; the
  aggregate of an attribute that no document repeats is marked stale or counts exactly the documents;
  a stored chain starts with the parent that its document names, and the descendant sets are the
  inverse of the chains. The cells of the last-seen cache decode; what they hold is not claimed here.\<close>

theorem reachable_invariant:
  assumes "ext_laws X" "reachable X db" "no_colon e"
  shows "docs_ok X db e \<and> index_ok X db e (doc_contents X db e)"
  using reachable_store_ok [OF assms] by (simp add: store_ok_def)

theorem reachable_invariant_witness:
  "ext_laws ref_ext \<and> reachable ref_ext db_visit \<and> no_colon ''acme'' \<and>
   docs_ok ref_ext db_visit ''acme'' \<and> index_ok ref_ext db_visit ''acme'' (doc_contents ref_ext db_visit ''acme'')"
  using reachable_invariant [OF ref_laws fixture_reachable(3) acme_valid(1)] ref_laws fixture_reachable(3) by simp

text \<open>C2. Any sequence of Put, Delete and BatchPut refines the abstract store, a map from entity
  and document id to contents: the writes that reported success applied in order, the others not
  at all.\<close>

theorem history_refines_map:
  assumes "ext_laws X" "reachable X db" "\<forall>w \<in> set ws. write_ok w"
    "history (exec_ok X) ws db = (bs, db')"
  shows "length bs = length ws \<and>
    documents X db' = spec_history write_entity write_effect (zip ws bs) (documents X db)"
  using ext_laws.store_history [OF assms(1,4) ext_laws.reachable_ok [OF assms(1,2)] assms(3)] by blast

theorem history_refines_map_witness:
  "history (exec_ok ref_ext) [WPut ctx0 7 ''acme'' ''d1'' doc_ann] [] = ([True], db_ann) \<and>
   documents ref_ext db_ann = spec_history write_entity write_effect
     [(WPut ctx0 7 ''acme'' ''d1'' doc_ann, True)] (documents ref_ext [])"
proof -
  have run: "history (exec_ok ref_ext) [WPut ctx0 7 ''acme'' ''d1'' doc_ann] [] = ([True], db_ann)"
    by (simp add: exec_ok_def fixture_puts)
  with history_refines_map [OF ref_laws empty_reachable _ run] show ?thesis
    by (simp del: utf8_ok.simps)
qed

text \<open>C3. A document that Put has stored is what Get returns.\<close>

theorem put_then_get:
  assumes "ext_laws X" "reachable X db" "write_ok (WPut ctx now e d doc)"
    "Put X ctx now e d doc db = (Inr (), db', evs)" "ctx' 0 = None" "begin_err X db' = None"
  shows "\<exists>b. Get X ctx' e d db' = Inr b \<and> contents b = doc"
  using assms(4)
proof (cases rule: Put_cases)
  case (success ev)
  have "store_ok X db e" using reachable_store_ok [OF assms(1,2) success(3)] .
  then have "docs_ok X db' e"
    using ext_laws.putInTxEvents_ok(1) [OF assms(1) success(6)] assms(3) by (simp add: store_ok_def)
  from ext_laws.Get_result [where ctx = ctx' and d = d, OF assms(1) this _ assms(5,6)] success
    ext_laws.putInTxEvents_stored [OF assms(1) success(6), of d]
  show ?thesis by (simp add: validateIDs_ok)
qed simp

theorem put_then_get_witness:
  "Put ref_ext ctx0 7 ''acme'' ''d1'' doc_ann [] = (Inr (), db_ann, [put_event doc_ann]) \<and>
   (\<exists>b. Get ref_ext ctx0 ''acme'' ''d1'' db_ann = Inr b \<and> contents b = doc_ann)"
  using put_then_get [OF ref_laws empty_reachable write_ok_d1(1) fixture_puts(1), of ctx0] fixture_puts(1) by simp

text \<open>C4. After a successful Delete the document is not found.\<close>

theorem delete_then_get:
  assumes "ext_laws X" "reachable X db" "write_ok (WDelete ctx now e d)"
    "Delete X ctx now e d db = (Inr (), db', evs)" "ctx' 0 = None" "begin_err X db' = None"
  shows "Get X ctx' e d db' = Inl (Sentinel ErrNotFound)"
  using assms(4)
proof (cases rule: Delete_cases)
  case success
  have ok: "store_ok X db e" using reachable_store_ok [OF assms(1,2) success(3)] .
  have u: "utf8_ok d" using assms(3) by simp
  note del = ext_laws.deleteInTx_ok [OF assms(1) success(6) ok u]
  have "docs_ok X db' e" using del(1) by (simp add: store_ok_def)
  from ext_laws.Get_result [where ctx = ctx' and d = d, OF assms(1) this _ assms(5,6)] success del(3) [of d]
  show ?thesis by (simp add: validateIDs_ok)
qed simp

theorem delete_then_get_witness:
  "fst (Delete ref_ext ctx0 9 ''acme'' ''d1'' db_ann) = Inr () \<and>
   Get ref_ext ctx0 ''acme'' ''d1'' (fst (snd (Delete ref_ext ctx0 9 ''acme'' ''d1'' db_ann))) =
     Inl (Sentinel ErrNotFound)"
proof -
  have d: "fst (Delete ref_ext ctx0 9 ''acme'' ''d1'' db_ann) = Inr ()" by code_simp
  then have "Delete ref_ext ctx0 9 ''acme'' ''d1'' db_ann = (Inr (),
      fst (snd (Delete ref_ext ctx0 9 ''acme'' ''d1'' db_ann)), snd (snd (Delete ref_ext ctx0 9 ''acme'' ''d1'' db_ann)))"
    by (metis prod.collapse)
  from delete_then_get [OF ref_laws fixture_reachable(1) write_ok_d1(2) this, of ctx0] d show ?thesis by simp
qed

text \<open>C5. A write that reports an error has changed nothing and emits no event: a failing index
  update, a failing commit and a cancelled context all roll back the whole transaction.\<close>

theorem failed_write_changes_nothing:
  assumes "exec_write X w db = (Inl er, db', evs)"
  shows "db' = db \<and> evs = []"
  using assms by (cases w) (auto elim!: Put_cases Delete_cases BatchPut_cases)

theorem failed_write_changes_nothing_witness:
  "exec_write ref_ext (WPut ctx0 7 ''a:b'' ''d1'' doc_ann) db_ann =
     (Inl (Wrapf '': contains reserved character'' (Sentinel ErrInvalidEntityID)), db_ann, []) \<and>
   db_ann = db_ann \<and> ([] :: MutationEvent list) = []"
proof -
  have "exec_write ref_ext (WPut ctx0 7 ''a:b'' ''d1'' doc_ann) db_ann =
     (Inl (Wrapf '': contains reserved character'' (Sentinel ErrInvalidEntityID)), db_ann, [])"
    by (simp add: Put_def validateIDs_def validateEntityID_def)
  from failed_write_changes_nothing [OF this] this show ?thesis by simp
qed

text \<open>C6. Tenants are isolated: no write to one entity, successful or not, changes any bucket of
  another entity, its documents, metadata and indexes included.\<close>

theorem tenant_isolation:
  assumes "ext_laws X" "reachable X db" "write_ok w" "exec_write X w db = (r, db', evs)"
    "no_colon e" "e \<noteq> write_entity w" "n \<in> entity_names e"
  shows "bucket_get X db' n = bucket_get X db n \<and> has_bucket X db' n = has_bucket X db n"
proof (cases r)
  case (Inl er)
  with assms(4) have "exec_write X w db = (Inl er, db', evs)" by simp
  from ext_laws.exec_write_failed [OF assms(1) this] show ?thesis by simp
next
  case (Inr u)
  then have "exec_write X w db = (Inr (), db', evs)" using assms(4) by simp
  from reachable_store_ok [OF assms(1,2) exec_write_valid [OF this]] have "store_ok X db (write_entity w)" .
  from ext_laws.exec_write_other [OF assms(1,4) this assms(3,5,6)] assms(7) show ?thesis
    by (simp add: frame_def fun_eq_iff)
qed

theorem tenant_isolation_witness:
  "bucket_get ref_ext db_ann (docsBucket ''beta'') = bucket_get ref_ext [] (docsBucket ''beta'') \<and>
   has_bucket ref_ext db_ann (docsBucket ''beta'') = has_bucket ref_ext [] (docsBucket ''beta'')"
proof -
  have run: "exec_write ref_ext (WPut ctx0 7 ''acme'' ''d1'' doc_ann) [] = (Inr (), db_ann, [put_event doc_ann])"
    by (simp add: fixture_puts)
  have "no_colon ''beta''" by (simp add: no_colon_def)
  from tenant_isolation [OF ref_laws empty_reachable write_ok_d1(1) run this _ store_names(1)] show ?thesis by simp
qed

text \<open>C7. A successful Put keeps the creation time of a document that exists, stamps the update
  and counts the version; it touches the metadata of no other document.\<close>

theorem put_metadata:
  assumes "ext_laws X" "Put X ctx now e d doc db = (Inr (), db', evs)"
  shows "meta_of X db' e x = (if x = d then
      Some (case meta_of X db e d of
              None \<Rightarrow> \<lparr>CreatedAt = now, UpdatedAt = now, Version = 1\<rparr>
            | Some m \<Rightarrow> m\<lparr>UpdatedAt := now, Version := Version m + 1\<rparr>)
      else meta_of X db e x)"
  using assms(2)
proof (cases rule: Put_cases)
  case (success ev)
  show ?thesis by (rule ext_laws.putInTxEvents_meta [OF assms(1) success(6)])
qed simp

theorem put_metadata_witness:
  "meta_of ref_ext db_ann ''acme'' ''d1'' = Some \<lparr>CreatedAt = 7, UpdatedAt = 7, Version = 1\<rparr>"
proof -
  have "meta_of ref_ext [] ''acme'' ''d1'' = None" by code_simp
  with put_metadata [OF ref_laws fixture_puts(1), of "''d1''"] show ?thesis by simp
qed

text \<open>C8. A successful Put hands exactly one event to the emitter, with the previous and the new
  contents; it is an assertion when no document was stored.\<close>

theorem put_event_spec:
  assumes "ext_laws X" "reachable X db" "write_ok (WPut ctx now e d doc)"
    "Put X ctx now e d doc db = (Inr (), db', evs)"
  shows "\<exists>ev. evs = [ev] \<and> EntityID ev = e \<and> DocID ev = d \<and> AtUnixNanos ev = now \<and>
    contents (OldDoc ev) = doc_contents X db e d \<and> contents (NewDoc ev) = doc \<and>
    Kind ev = (if OldDoc ev = None then EventAssert else EventChange) \<and>
    (stored X db e d = None \<longrightarrow> Kind ev = EventAssert)"
  using assms(4)
proof (cases rule: Put_cases)
  case (success ev)
  have "store_ok X db e" using reachable_store_ok [OF assms(1,2) success(3)] .
  then obtain old where "contents old = doc_contents X db e d" "stored X db e d = None \<longrightarrow> old = None"
    "ev = \<lparr>Kind = (if old \<noteq> None then EventChange else EventAssert), EntityID = e, DocID = d,
        OldDoc = old, NewDoc = (if doc = [] then None else Some doc), AtUnixNanos = now\<rparr>"
    using ext_laws.putInTxEvents_ok(2) [OF assms(1) success(6)] assms(3) by auto
  with success(7) show ?thesis by auto
qed simp

theorem put_event_spec_witness:
  "\<exists>ev. [put_event doc_ann] = [ev] \<and> EntityID ev = ''acme'' \<and> contents (NewDoc ev) = doc_ann"
  using put_event_spec [OF ref_laws empty_reachable write_ok_d1(1) fixture_puts(1)] by blast

text \<open>C9. Scan with a callback that does not stop visits every document of the entity exactly once,
  in the order of the document ids, with its contents.\<close>

theorem scan_visits_documents:
  assumes "ext_laws X" "reachable X db" "validateEntityID e = Inr ()" "\<forall>n. ctx n = None"
    "begin_err X db = None"
  shows "\<exists>docs. Scan X ctx e (\<lambda>k b acc. (True, acc @ [(k, contents b)])) db [] = (Inr (), docs) \<and>
    sorted_wrt (<) (map fst docs) \<and> map_of docs = stored X db e"
proof -
  have "no_colon e" using assms(3) validateEntityID_ok by blast
  then have ok: "docs_ok X db e" using reachable_store_ok [OF assms(1,2)] by (simp add: store_ok_def)
  show ?thesis
    by (intro exI [of _ "doc_list X db e"] conjI ext_laws.Scan_collects ext_laws.doc_list_spec) (fact assms ok)+
qed

theorem scan_visits_documents_witness:
  "Scan ref_ext ctx0 ''acme'' (\<lambda>k b acc. (True, acc @ [(k, contents b)])) db_ann [] = (Inr (), [(''d1'', doc_ann)]) \<and>
   (\<exists>docs. Scan ref_ext ctx0 ''acme'' (\<lambda>k b acc. (True, acc @ [(k, contents b)])) db_ann [] = (Inr (), docs) \<and>
    sorted_wrt (<) (map fst docs) \<and> map_of docs = stored ref_ext db_ann ''acme'')"
proof
  show "Scan ref_ext ctx0 ''acme'' (\<lambda>k b acc. (True, acc @ [(k, contents b)])) db_ann [] = (Inr (), [(''d1'', doc_ann)])"
    by code_simp
  show "\<exists>docs. Scan ref_ext ctx0 ''acme'' (\<lambda>k b acc. (True, acc @ [(k, contents b)])) db_ann [] = (Inr (), docs) \<and>
    sorted_wrt (<) (map fst docs) \<and> map_of docs = stored ref_ext db_ann ''acme''"
    by (rule scan_visits_documents [OF ref_laws fixture_reachable(1)]) simp_all
qed

section \<open>Queries\<close>

lemma query_context:
  assumes "ext_laws X" "reachable X db" "evolves X db db2" "admitted X ctx e db db2"
  shows "store_ok X db e" "ids_kept X e db db2"
proof -
  have "no_colon e" using assms(4) by (simp add: admitted_def)
  then show "store_ok X db e" "ids_kept X e db db2"
    using reachable_store_ok [OF assms(1,2)] ext_laws.evolves_ids_kept [OF assms(1,3,2)] by auto
qed

text \<open>C10. Lookup returns exactly the documents of which the extractor yields the term, and
  LookupPrefix exactly the documents with a term that starts with the prefix, each once, even when
  later writes run between the two view transactions of the query.\<close>

theorem lookup_exact:
  assumes "ext_laws X" "reachable X db" "evolves X db db2" "admitted X ctx e db db2"
  shows "(\<exists>s. Lookup X ctx e t db db2 = Inr s \<and> distinct (docids s) \<and>
      set (docids s) = {d. t \<in> doc_terms X (doc_contents X db e d)}) \<and>
    (\<exists>s. LookupPrefix X ctx e p db db2 = Inr s \<and> distinct (docids s) \<and>
      set (docids s) = {d. \<exists>t. prefix p t \<and> t \<in> doc_terms X (doc_contents X db e d)})"
  by (intro conjI ext_laws.Lookup_documents ext_laws.LookupPrefix_documents) (fact assms query_context [OF assms])+

theorem lookup_exact_witness:
  "(case Lookup ref_ext ctx0 ''acme'' ''name:ann'' db_ann db_ann of Inr s \<Rightarrow> docids s | Inl _ \<Rightarrow> []) = [''d1''] \<and>
   (case LookupPrefix ref_ext ctx0 ''acme'' ''name:'' db_ann db_ann of Inr s \<Rightarrow> docids s | Inl _ \<Rightarrow> []) = [''d1''] \<and>
   {d. ''name:ann'' \<in> doc_terms ref_ext (doc_contents ref_ext db_ann ''acme'' d)} = {''d1''} \<and>
   {d. \<exists>t. prefix ''name:'' t \<and> t \<in> doc_terms ref_ext (doc_contents ref_ext db_ann ''acme'' d)} = {''d1''}"
proof -
  have q: "(case Lookup ref_ext ctx0 ''acme'' ''name:ann'' db_ann db_ann of Inr s \<Rightarrow> docids s | Inl _ \<Rightarrow> []) = [''d1'']"
    "(case LookupPrefix ref_ext ctx0 ''acme'' ''name:'' db_ann db_ann of Inr s \<Rightarrow> docids s | Inl _ \<Rightarrow> []) = [''d1'']"
    by code_simp+
  with lookup_exact [OF ref_laws fixture_reachable(1) evolves.same acme_admitted, of "''name:ann''" "''name:''"]
  show ?thesis by (elim conjE exE) simp
qed

text \<open>C11. The bbolt store passes every test of the two conformance suites, on any database file that is
  still empty: the tests of Put, Get, Delete, BatchPut and Scan with their errors, and those of
  the lookups, the numeric range, the event log, the group counter, the running mean, LastSeen
  and the ancestor chains. The conditions are that transactions begin and commit, that values
  stay below bbolt's size limit, and that \<^verbatim>\<open>encoding/json\<close> and \<^verbatim>\<open>strconv\<close> read and print the
  literals of the suites as they should.\<close>

theorem conformance_suites_pass:
  assumes "roomy X" "decodes_suite X" "\<forall>n. \<not> has_bucket X db n"
  shows "list_all snd (Suite (bboltStore X clk) (db, k)) \<and> list_all snd (IndexedSuite (bboltStore X clk) (db, k))"
  using roomy.bbolt_passes [OF assms(1) _ assms(2)] roomy.bbolt_passes_indexed [OF assms(1) _ assms(2)] assms(3) by blast

theorem conformance_suites_pass_witness:
  "roomy suite_ext \<and> decodes_suite suite_ext \<and> (\<forall>n. \<not> has_bucket suite_ext [] n) \<and>
   testBatchPutRollback (bboltStore suite_ext (\<lambda>_ _. 7)) ([], 0) \<and> indexedTestStats (bboltStore suite_ext (\<lambda>_ _. 7)) ([], 0)"
proof -
  have empty: "\<forall>n. \<not> has_bucket suite_ext [] n" by (simp add: suite_ext_def r_has_def)
  show ?thesis
    using conformance_suites_pass [OF suite_is_roomy suite_decodes empty, of "\<lambda>_ _. 7" 0] suite_is_roomy suite_decodes empty
    by (simp add: Suite_def IndexedSuite_def)
qed

text \<open>C12. LookupNumericRange with bounds other than zero returns exactly the documents with a
  number of that attribute between the bounds, each bound inclusive or exclusive as asked.\<close>

theorem numeric_range_exact:
  assumes "ext_laws X" "reachable X db" "evolves X db db2" "admitted X ctx e db db2"
    and fin: "f64_finite mn" "f64_finite mx" and nz: "f64_mag mn \<noteq> 0" "f64_mag mx \<noteq> 0"
  shows "\<exists>s. LookupNumericRange X ctx e a mn mx ro db db2 = Inr s \<and> distinct (docids s) \<and>
    set (docids s) = {d. \<exists>v. (a, v) \<in> num_keys X (doc_contents X db e d) \<and>
      (if MinExclusive ro then f64_lt mn v else f64_le mn v) \<and>
      (if MaxExclusive ro then f64_lt v mx else f64_le v mx)}"
proof -
  have "f64_finite v" if "(a, v) \<in> num_keys X doc" for v doc
    using doc_numerics_finite that unfolding num_keys_iff by fastforce
  then have "((a, v) \<in> num_keys X doc \<and> in_range mn mx (MinExclusive ro) (MaxExclusive ro) v) =
      ((a, v) \<in> num_keys X doc \<and> (if MinExclusive ro then f64_lt mn v else f64_le mn v) \<and>
        (if MaxExclusive ro then f64_lt v mx else f64_le v mx))" for v doc
    using in_range_numeric [OF _ fin nz] by blast
  with ext_laws.LookupNumericRange_documents [OF assms(1) query_context [OF assms(1-4)] assms(4) fin, of a ro]
  show ?thesis by simp
qed

theorem numeric_range_exact_witness:
  "f64_finite five \<and>
   (case LookupNumericRange ref_ext ctx0 ''acme'' ''at'' five five \<lparr>MinExclusive = False, MaxExclusive = False\<rparr>
      db_visit db_visit of Inr s \<Rightarrow> docids s | Inl _ \<Rightarrow> []) = [''d1''] \<and>
   (\<exists>s. LookupNumericRange ref_ext ctx0 ''acme'' ''at'' five five \<lparr>MinExclusive = False, MaxExclusive = False\<rparr>
      db_visit db_visit = Inr s \<and>
    set (docids s) = {d. \<exists>v. (''at'', v) \<in> num_keys ref_ext (doc_contents ref_ext db_visit ''acme'' d) \<and>
      f64_le five v \<and> f64_le v five})"
proof (intro conjI)
  show fin: "f64_finite five" by (simp add: f64_finite_iff)
  have nz: "f64_mag five \<noteq> 0" by (simp add: five_parts)
  show "(case LookupNumericRange ref_ext ctx0 ''acme'' ''at'' five five \<lparr>MinExclusive = False, MaxExclusive = False\<rparr>
      db_visit db_visit of Inr s \<Rightarrow> docids s | Inl _ \<Rightarrow> []) = [''d1'']"
    by code_simp
  from numeric_range_exact [OF ref_laws fixture_reachable(3) evolves.same acme_admitted fin fin nz nz,
      of "''at''" "\<lparr>MinExclusive = False, MaxExclusive = False\<rparr>"]
  show "\<exists>s. LookupNumericRange ref_ext ctx0 ''acme'' ''at'' five five \<lparr>MinExclusive = False, MaxExclusive = False\<rparr>
      db_visit db_visit = Inr s \<and>
    set (docids s) = {d. \<exists>v. (''at'', v) \<in> num_keys ref_ext (doc_contents ref_ext db_visit ''acme'' d) \<and>
      f64_le five v \<and> f64_le v five}"
    by auto
qed

text \<open>C13. WindowQuery returns, for every window, exactly the events of the documents of the item, of the
  given types when types are given, each document once, in ascending order of time. The window is
  advisory, as the comment of the method in \<^verbatim>\<open>lookup.go\<close> says: it restricts nothing here, although the
  comment of the interface in \<^verbatim>\<open>indexed.go\<close> lets an implementation return only the events near an anchor.\<close>

theorem window_query_exact:
  assumes "ext_laws X" "reachable X db" "admitted X ctx e db db"
  shows "\<exists>evs. WindowQuery X ctx e item types w db = Inr evs \<and>
    sorted_wrt (\<lambda>a b. sint (TAt a) \<le> sint (TAt b)) evs \<and> distinct (map TDocID evs) \<and>
    (\<forall>ev. ev \<in> set evs \<longleftrightarrow>
      temporalFields X (doc_contents X db e (TDocID ev)) = Some (item, TType ev, TAt ev) \<and>
      (types = [] \<or> TType ev \<in> set types))"
  using query_context(1) [OF assms(1,2) evolves.same assms(3)] assms(3)
  by (rule ext_laws.WindowQuery_events [OF assms(1)])

theorem window_query_exact_witness:
  "WindowQuery ref_ext ctx0 ''acme'' ''i'' [''visit''] 0 db_visit =
     Inr [\<lparr>TDocID = ''d1'', TType = ''visit'', TAt = 5\<rparr>] \<and>
   (\<exists>evs. WindowQuery ref_ext ctx0 ''acme'' ''i'' [''visit''] 0 db_visit = Inr evs \<and>
    sorted_wrt (\<lambda>a b. sint (TAt a) \<le> sint (TAt b)) evs)"
proof
  show "WindowQuery ref_ext ctx0 ''acme'' ''i'' [''visit''] 0 db_visit =
     Inr [\<lparr>TDocID = ''d1'', TType = ''visit'', TAt = 5\<rparr>]" by code_simp
  show "\<exists>evs. WindowQuery ref_ext ctx0 ''acme'' ''i'' [''visit''] 0 db_visit = Inr evs \<and>
    sorted_wrt (\<lambda>a b. sint (TAt a) \<le> sint (TAt b)) evs"
    using window_query_exact [OF ref_laws fixture_reachable(3) acme_admitted, of "''i''" "[''visit'']" 0] by blast
qed

text \<open>C14. GroupCount, for an item, an attribute and a value without the separator \<^verbatim>\<open>|\<close> of the keys, counts
  exactly the documents whose JSON object has the item and, at the attribute, a scalar that prints
  as the value, and returns them, each once; no set is returned when there are none.\<close>

theorem group_count_exact:
  assumes "ext_laws X" "reachable X db" "evolves X db db2" "admitted X ctx e db db2"
    and plain: "CHR ''|'' \<notin> set item" "CHR ''|'' \<notin> set attr" "CHR ''|'' \<notin> set vl"
    and counted: "counted = {d. in_group X item attr vl (doc_contents X db e d)}"
  shows "finite counted \<and>
    (\<exists>g. GroupCount X ctx e item attr vl db db2 = Inr g \<and> Count g = word_of_nat (card counted) \<and>
      (if counted = {} then DocIDs g = None
       else \<exists>s. DocIDs g = Some s \<and> distinct (docids s) \<and> set (docids s) = counted))"
proof -
  have c: "counted = {d. groupByKey item attr vl \<in> group_keys X (doc_contents X db e d)}"
    by (simp add: counted ext_laws.group_keys_in_group [OF assms(1) plain])
  show ?thesis
    using ext_laws.GroupCount_documents [OF assms(1) query_context(1) [OF assms(1-4)] query_context(2) [OF assms(1-4)] assms(4),
        of item attr vl] unfolding Let_def c by blast
qed

theorem group_count_exact_witness:
  "{d. in_group ref_ext ''i'' ''type'' ''visit'' (doc_contents ref_ext db_visit ''acme'' d)} = {''d1''} \<and>
   (\<exists>g. GroupCount ref_ext ctx0 ''acme'' ''i'' ''type'' ''visit'' db_visit db_visit = Inr g \<and> Count g = 1)"
proof -
  have "case GroupCount ref_ext ctx0 ''acme'' ''i'' ''type'' ''visit'' db_visit db_visit of
      Inr g \<Rightarrow> Count g = 1 \<and> map_option docids (DocIDs g) = Some [''d1''] | Inl _ \<Rightarrow> False"
    by code_simp
  then obtain g where g: "GroupCount ref_ext ctx0 ''acme'' ''i'' ''type'' ''visit'' db_visit db_visit = Inr g"
    "Count g = 1" "map_option docids (DocIDs g) = Some [''d1'']" by (auto split: sum.splits)
  with group_count_exact [OF ref_laws fixture_reachable(3) evolves.same acme_admitted _ _ _ refl, of "''i''" "''type''" "''visit''"]
  show ?thesis by (auto split: if_splits)
qed

text \<open>C15. Ancestors returns the chain stored for the document: it starts with the parent that the
  document names, has at most 256 members and never contains the document itself; a document
  without a parent has no ancestors. Descendants is the inverse relation.\<close>

theorem ancestors_descendants:
  assumes "ext_laws X" "reachable X db" "evolves X db db2" "admitted X ctx e db db2"
  shows "\<exists>c s. Ancestors X ctx e d db = Inr c \<and> length c \<le> 256 \<and> d \<notin> set c \<and>
    (case closureParent X (doc_contents X db e d) of None \<Rightarrow> c = [] | Some p \<Rightarrow> c \<noteq> [] \<and> hd c = p) \<and>
    Descendants X ctx e r db db2 = Inr s \<and> distinct (docids s) \<and> (d \<in> set (docids s) \<longleftrightarrow> r \<in> set c)"
proof -
  note ctx = query_context [OF assms]
  let ?c = "case chain_of X db e d of None \<Rightarrow> [] | Some c \<Rightarrow> c"
  have inv: "closure_ok X db e" "map_option hd (chain_of X db e d) = closureParent X (doc_contents X db e d)"
    using ctx(1) by (simp_all add: store_ok_def index_ok_def index_inv_def)
  have chain: "chain_ok d c" if "chain_of X db e d = Some c" for c
    by (rule closure_ok_chain [OF inv(1) that])
  obtain s where s: "Descendants X ctx e r db db2 = Inr s" "distinct (docids s)"
    "set (docids s) = {d. \<exists>c. chain_of X db e d = Some c \<and> r \<in> set c}"
    using ext_laws.Descendants_documents [OF assms(1) ctx assms(4), of r] by blast
  have "Ancestors X ctx e d db = Inr ?c" by (rule ext_laws.Ancestors_result [OF assms(1) ctx(1) assms(4)])
  moreover have "length ?c \<le> 256 \<and> d \<notin> set ?c \<and>
      (case closureParent X (doc_contents X db e d) of None \<Rightarrow> ?c = [] | Some p \<Rightarrow> ?c \<noteq> [] \<and> hd ?c = p)"
    using chain inv(2) [symmetric]
    by (cases "chain_of X db e d") (simp_all add: chain_ok_def closureMaxDepth_def)
  moreover have "d \<in> set (docids s) \<longleftrightarrow> r \<in> set ?c" by (cases "chain_of X db e d") (simp_all add: s(3))
  ultimately show ?thesis using s(1,2) by (intro exI [of _ ?c] exI [of _ s]) simp
qed

theorem ancestors_descendants_witness:
  "Ancestors ref_ext ctx0 ''acme'' ''d1'' db_child = Inr [''p''] \<and>
   (\<exists>c s. Ancestors ref_ext ctx0 ''acme'' ''d1'' db_child = Inr c \<and> ''d1'' \<notin> set c \<and>
     Descendants ref_ext ctx0 ''acme'' ''p'' db_child db_child = Inr s \<and> (''d1'' \<in> set (docids s) \<longleftrightarrow> ''p'' \<in> set c))"
proof
  show "Ancestors ref_ext ctx0 ''acme'' ''d1'' db_child = Inr [''p'']" by code_simp
qed (use ancestors_descendants [OF ref_laws fixture_reachable(2) evolves.same acme_admitted, of "''d1''" "''p''"] in blast)

text \<open>C16. Stats of an attribute that no document has twice is Welford's aggregate of exactly the
  documents' values, in some order: stale aggregates are rebuilt before they are returned.\<close>

theorem stats_exact_aggregate:
  assumes "ext_laws X" "reachable X db" "no_colon e" "StatsFor X ctx e a db = (Inr rs, db')"
    "single_valued X a (doc_contents X db e)"
  shows "\<exists>vs. mset vs = image_mset (\<lambda>d. the (attr_value X a (doc_contents X db e d)))
        (mset_set (having X a (doc_contents X db e))) \<and>
      rs = \<lparr>RCount = SCount (welford vs), RMean = Mean (welford vs), RM2 = M2 (welford vs),
        RMin = SMin (welford vs), RMax = SMax (welford vs)\<rparr>"
  by (rule ext_laws.StatsFor_result [OF assms(1,4) reachable_store_ok [OF assms(1-3)] assms(5)])

lemma visit_contents: "doc_contents ref_ext db_visit ''acme'' d = (if d = ''d1'' then doc_visit else [])"
  by (simp add: doc_contents_def stored_def r_get_def r_bucket_def docsBucket_def db_visit_def doc_visit_def
      key_ok_def max_key_size_def)

lemma visit_single_valued: "single_valued ref_ext ''at'' (doc_contents ref_ext db_visit ''acme'')"
proof -
  have "length (filter (\<lambda>n. Path n = ''at'') (doc_numerics ref_ext doc_visit)) = 1" by code_simp
  then show ?thesis by (simp add: single_valued_def visit_contents doc_numerics_def [of _ "[]"])
qed

theorem stats_exact_aggregate_witness:
  "StatsFor ref_ext ctx0 ''acme'' ''at'' db_visit =
     (Inr \<lparr>RCount = 1, RMean = five, RM2 = 0, RMin = five, RMax = five\<rparr>, db_visit) \<and>
   (\<exists>vs. (\<lparr>RCount = 1, RMean = five, RM2 = 0, RMin = five, RMax = five\<rparr> :: RunningStats) =
     \<lparr>RCount = SCount (welford vs), RMean = Mean (welford vs), RM2 = M2 (welford vs),
        RMin = SMin (welford vs), RMax = SMax (welford vs)\<rparr>)"
proof
  show run: "StatsFor ref_ext ctx0 ''acme'' ''at'' db_visit =
     (Inr \<lparr>RCount = 1, RMean = five, RM2 = 0, RMin = five, RMax = five\<rparr>, db_visit)" by code_simp
  have sv: "single_valued ref_ext ''at'' (doc_contents ref_ext db_visit ''acme'')"
    by (rule visit_single_valued)
  show "\<exists>vs. (\<lparr>RCount = 1, RMean = five, RM2 = 0, RMin = five, RMax = five\<rparr> :: RunningStats) =
     \<lparr>RCount = SCount (welford vs), RMean = Mean (welford vs), RM2 = M2 (welford vs),
        RMin = SMin (welford vs), RMax = SMax (welford vs)\<rparr>"
    using stats_exact_aggregate [OF ref_laws fixture_reachable(3) acme_valid(1) run sv] by blast
qed

section \<open>Liveness, identifiers and events\<close>

text \<open>C17. Writes succeed. When transactions begin and commit, a Put of valid ids is refused only
  when its id or one of its index keys is longer than bbolt takes, a number stands under an empty or
  overlong field name (\<open>storable\<close>), the name of one of its buckets is too long
  (\<open>short_names\<close>), its parent chain is too deep, has an unusable link or leads back to the document, a
  running aggregate overflows, or the 32-bit ids are exhausted. Otherwise it succeeds, and a Delete
  of valid ids always does: the document is then stored, or gone, and no other document of the
  entity has changed. The one exception to both is a value over bbolt's size limit: the write then
  reports that error, changes nothing and emits nothing. When all values fit there is no such
  exception.\<close>

theorem writes_succeed:
  assumes "steady X" "reachable X db" "validateIDs e d = Inr ()" "ctx 0 = None" "utf8_ok d"
  shows "(storable X e d doc db \<and> short_names X e doc \<longrightarrow>
      (\<exists>ev db'. Put X ctx now e d doc db = (Inr (), db', [ev]) \<and> stored X db' e = (stored X db e)(d \<mapsto> doc)) \<or>
      (\<exists>er. Put X ctx now e d doc db = (Inl er, db, []) \<and> too_large er \<and> (\<exists>v. \<not> value_fits X v))) \<and>
    ((\<exists>evs db'. Delete X ctx now e d db = (Inr (), db', evs) \<and> stored X db' e = (stored X db e)(d := None)) \<or>
     (\<exists>er. Delete X ctx now e d db = (Inl er, db, []) \<and> too_large er \<and> (\<exists>v. \<not> value_fits X v)))"
proof -
  have ext: "ext_laws X" by (rule steady.axioms(1) [OF assms(1)])
  have "no_colon e" using assms(3) validateIDs_ok by blast
  then have ok: "store_ok X db e" by (rule reachable_store_ok [OF ext assms(2)])
  have put: "stored X db' e = (stored X db e)(d \<mapsto> doc)" if "Put X ctx now e d doc db = (Inr (), db', evs)" for db' evs
    using ext_laws.exec_write_ok(4) [OF ext, of "WPut ctx now e d doc"] that ok assms(5) by (simp del: utf8_ok.simps)
  have del: "stored X db' e = (stored X db e)(d := None)" if "Delete X ctx now e d db = (Inr (), db', evs)" for db' evs
    using ext_laws.exec_write_ok(4) [OF ext, of "WDelete ctx now e d"] that ok assms(5) by (simp del: utf8_ok.simps)
  show ?thesis
    using steady.Put_fine [where ctx = ctx and now = now and doc = doc, OF assms(1) ok assms(3-5)]
      steady.short_names_ok [OF assms(1), of e doc]
      steady.Delete_fine [where ctx = ctx and now = now, OF assms(1) ok assms(3-5)] put del by blast
qed

theorem writes_succeed_witness:
  "storable ref_ext ''acme'' ''d1'' doc_child db_visit \<and> short_names ref_ext ''acme'' doc_child \<and>
   (\<exists>ev db'. Put ref_ext ctx0 8 ''acme'' ''d1'' doc_child db_visit = (Inr (), db', [ev]) \<and>
     stored ref_ext db' ''acme'' = (stored ref_ext db_visit ''acme'')(''d1'' \<mapsto> doc_child))"
proof -
  have j: "r_json doc_child = Some (AObj [(''parent'', AStr ''p'')])" "doc_child \<noteq> []"
    by (simp_all add: r_json_def doc_ann_def doc_visit_def doc_child_def)
  have fields: "doc_terms ref_ext doc_child = {''p'', ''parent:p''}" "attr_value ref_ext a doc_child = None"
    "groupByFields ref_ext doc_child = None" "temporalFields ref_ext doc_child = None"
    "closureParent ref_ext doc_child = Some ''p''" "doc_numerics ref_ext doc_child = []" for a
    by (simp_all add: doc_terms_def attr_value_def doc_numerics_def byPath_def groupByFields_def temporalFields_def
        closureParent_def unmarshal_map_def leaf_terms_def j)
  have "chain_of ref_ext db_visit ''acme'' ''p'' = None" "id_of ref_ext db_visit ''acme'' ''d1'' = Some 1" by code_simp+
  then have st: "storable ref_ext ''acme'' ''d1'' doc_child db_visit"
    by (simp add: storable_def doc_keys_ok_def parent_ok_def aggregates_ok_def fields chain_via_def closureMaxDepth_def
        key_ok_def max_key_size_def)
  have sh: "short_names ref_ext ''acme'' doc_child" by (simp add: short_names_def fields max_key_size_def)
  have "validateIDs ''acme'' ''d1'' = Inr ()" by (simp add: validateIDs_ok)
  from writes_succeed [where doc = doc_child and now = 8 and ctx = ctx0, OF ref_is_steady fixture_reachable(3) this acme_valid(3) utf8_d1] st sh
  show ?thesis by auto
qed

text \<open>C18. An internal id, once handed out, stays with its document through every later write,
  deletion included, and no two documents of an entity share one.\<close>

theorem internal_ids_stable:
  assumes "ext_laws X" "reachable X db" "evolves X db db2" "no_colon e" "id_of X db e d = Some i"
  shows "id_of X db2 e d = Some i \<and> doc_of X db2 e i = Some d \<and>
    (\<forall>d'. id_of X db2 e d' = Some i \<longrightarrow> d' = d)"
proof -
  have k: "idmap_ok X db2 e" "id_of X db2 e d = Some i"
    using ext_laws.evolves_ids_kept [OF assms(1,3,2,4)] assms(5) by (simp_all add: ids_kept_def)
  then show ?thesis using idmap_okD(3) [OF k(1)] by fastforce
qed

theorem internal_ids_stable_witness:
  "id_of ref_ext db_ann ''acme'' ''d1'' = Some 1 \<and> doc_of ref_ext db_ann ''acme'' 1 = Some ''d1''"
proof -
  have "id_of ref_ext db_ann ''acme'' ''d1'' = Some 1" by code_simp
  from internal_ids_stable [OF ref_laws fixture_reachable(1) evolves.same acme_valid(1) this] show ?thesis by simp
qed

text \<open>C19. A successful batch emits one event per document, in the order in which the batch stored
  them.\<close>

theorem batch_events_in_order:
  assumes "ext_laws X" "reachable X db" "write_ok (WBatch ctx now e docs)"
    "BatchPut X ctx now e docs db = (Inr (), db', evs)"
  shows "map DocID evs = map fst docs"
  using assms(4)
proof (cases rule: BatchPut_cases)
  case success
  have ok: "store_ok X db e" by (rule reachable_store_ok [OF assms(1,2) success(3)])
  have w: "\<forall>(d, doc) \<in> set docs. utf8_ok d" "distinct (map fst docs)" using assms(3) by simp_all
  from ext_laws.batchLoop_ok [OF assms(1) success(4) ok w] show ?thesis by auto
qed simp

theorem batch_events_in_order_witness:
  "fst (BatchPut ref_ext ctx0 (\<lambda>n. 7) ''acme'' [(''d1'', doc_ann)] []) = Inr () \<and>
   map DocID (snd (snd (BatchPut ref_ext ctx0 (\<lambda>n. 7) ''acme'' [(''d1'', doc_ann)] []))) = [''d1'']"
proof -
  have b: "fst (BatchPut ref_ext ctx0 (\<lambda>n. 7) ''acme'' [(''d1'', doc_ann)] []) = Inr ()" by code_simp
  then have "BatchPut ref_ext ctx0 (\<lambda>n. 7) ''acme'' [(''d1'', doc_ann)] [] = (Inr (),
      fst (snd (BatchPut ref_ext ctx0 (\<lambda>n. 7) ''acme'' [(''d1'', doc_ann)] [])),
      snd (snd (BatchPut ref_ext ctx0 (\<lambda>n. 7) ''acme'' [(''d1'', doc_ann)] [])))"
    by (metis prod.collapse)
  from batch_events_in_order [OF ref_laws empty_reachable _ this] b show ?thesis
    by (simp del: utf8_ok.simps)
qed

text \<open>C20. Emit calls the live subscribers in the order of their subscription, each once, and a new
  subscriber last. However others have subscribed and unsubscribed in the meantime, ending a
  subscription takes its own subscriber out of the calls and no other one; ending it again does
  nothing.\<close>

theorem emit_live_subscribers:
  fixes em :: "'sub EventEmitter"
  assumes "Subscribe sub em = (sn, em1)" "\<forall>other. OpUnsubscribe other \<in> set ops \<longrightarrow> idx other \<noteq> idx sn"
    and em2: "em2 = fold emitter_exec ops em1" and un: "unsubscribe sn em2 = (sn', em3)"
  shows "Emit (\<lambda>_. em1) call ev s = fold (\<lambda>c. call c ev) (live em @ [sub]) s \<and>
    (\<exists>before after. Emit (\<lambda>_. em2) call ev s = fold (\<lambda>c. call c ev) (before @ sub # after) s \<and>
       Emit (\<lambda>_. em3) call ev s = fold (\<lambda>c. call c ev) (before @ after) s \<and>
       live em2 = before @ sub # after \<and> live em3 = before @ after) \<and>
    unsubscribe sn' later = (sn', later)"
proof -
  have em1: "subs em1 = subs em @ [Some sub]" and sn: "\<not> fired sn" "idx sn = length (subs em)"
    using assms(1) by (auto simp: Subscribe_def)
  have "idx sn < length (subs em2) \<and> subs em2 ! idx sn = Some sub"
    using slot_kept [of "idx sn" em1 ops] assms(2) em1 sn(2) by (simp add: em2)
  then obtain xs ys where e2: "subs em2 = xs @ Some sub # ys" "idx sn = length xs"
    using id_take_nth_drop [of "idx sn" "subs em2"] by (metis length_take min.absorb4)
  let ?b = "List.map_filter (\<lambda>x. x) xs" and ?a = "List.map_filter (\<lambda>x. x) ys"
  have "live em1 = live em @ [sub]" using live_Subscribe [of sub em] assms(1) by simp
  moreover have "\<exists>before after. live em2 = before @ sub # after \<and> live em3 = before @ after"
  proof (intro exI conjI)
    show "live em2 = ?b @ sub # ?a" using e2(1) by (simp add: live_def List.map_filter_def)
    show "live em3 = ?b @ ?a" using live_unsubscribe [OF e2(1) sn(1) e2(2)] un by simp
  qed
  moreover have "unsubscribe sn' later = (sn', later)" using unsubscribe_twice [of sn em2 later] un by simp
  moreover have "Emit (\<lambda>_. em') call ev s = fold (\<lambda>c. call c ev) (live em') s" for em'
    by (simp add: Emit_def emitLoop_fold live_def [symmetric])
  ultimately show ?thesis by metis
qed

theorem emit_live_subscribers_witness:
  "Emit (\<lambda>_. snd (Subscribe (2 :: nat) \<lparr>subs = [Some 1, None]\<rparr>)) (\<lambda>c ev s. s @ [c]) (put_event []) [] = [1, 2] \<and>
   live (snd (unsubscribe \<lparr>idx = 2, fired = False\<rparr> \<lparr>subs = [Some 1, None, Some 2, Some 3]\<rparr>)) = [1, 3 :: nat] \<and>
   (\<exists>before after. [1, 2, 3 :: nat] = before @ 2 # after \<and> [1, 3] = before @ after)"
proof -
  have s: "Subscribe (2 :: nat) \<lparr>subs = [Some 1, None]\<rparr> = (\<lparr>idx = 2, fired = False\<rparr>, \<lparr>subs = [Some 1, None, Some 2]\<rparr>)"
    by (simp add: Subscribe_def)
  have o: "\<lparr>subs = [Some 1, None, Some 2, Some 3]\<rparr> = fold emitter_exec [OpSubscribe (3 :: nat)] \<lparr>subs = [Some 1, None, Some 2]\<rparr>"
    by (simp add: Subscribe_def)
  have u: "unsubscribe \<lparr>idx = 2, fired = False\<rparr> \<lparr>subs = [Some 1, None, Some 2, Some (3 :: nat)]\<rparr> =
      (\<lparr>idx = 2, fired = True\<rparr>, \<lparr>subs = [Some 1, None, None, Some 3]\<rparr>)"
    by (simp add: unsubscribe_def)
  from emit_live_subscribers [OF s _ o u, where call = "\<lambda>c ev s. s @ [c]" and ev = "put_event []" and s = "[]"
      and later = "\<lparr>subs = []\<rparr>"] s u show ?thesis
    by (auto simp: live_def List.map_filter_simps)
qed

section \<open>Codecs and aggregates\<close>

text \<open>C21. The twelve-byte key of the numeric index orders by value first, as \<^verbatim>\<open>float64\<close> compares
  (negative zero just before zero), then by id, and decodes to both.\<close>

theorem numeric_key_order:
  "length (numEncode v i) = 12 \<and> decodeFloat (take 8 (numEncode v i)) = v \<and>
   BigEndian_Uint32 (drop 8 (numEncode v i)) = i \<and>
   (numEncode v i < numEncode w j \<longleftrightarrow> f64_before v w \<or> v = w \<and> i < j) \<and>
   (\<not> f64_isNaN v \<longrightarrow> \<not> f64_isNaN w \<longrightarrow> f64_mag w \<noteq> 0 \<longrightarrow> (f64_before v w \<longleftrightarrow> f64_lt v w))"
proof -
  have "numEncode v i < numEncode w j \<longleftrightarrow> f64_before v w \<or> v = w \<and> i < j"
    by (auto simp: numEncode_def append_less_iff PutUint64_less_iff PutUint32_less_iff sortableBits_less_iff
        sortableBits_inject)
  then show ?thesis using f64_before_nonzero(1) by simp
qed

theorem numeric_key_order_witness:
  "numEncode 0 1 < numEncode five 1 \<and> f64_lt 0 five"
proof -
  have "f64_before 0 five \<longleftrightarrow> f64_lt 0 five" "numEncode 0 1 < numEncode five 1 \<longleftrightarrow> f64_before 0 five"
    using numeric_key_order [of 0 1 five 1] by (auto simp: five_parts)
  moreover have "f64_lt 0 five"
    by (simp add: f64_lt_def f64_units_less_iff five_parts)
  ultimately show ?thesis by simp
qed

lemma welford_exact_result:
  fixes xs :: "'a::field_char_0 list"
  assumes "xs \<noteq> []"
  shows "welford_exact xs = (length xs, sum_list xs / of_nat (length xs),
    \<Sum>x\<leftarrow>xs. (x - sum_list xs / of_nat (length xs))\<^sup>2)"
proof -
  obtain m q where w: "welford_exact xs = (length xs, m, q)" "m * of_nat (length xs) = sum_list xs"
    "q = (\<Sum>x\<leftarrow>xs. x\<^sup>2) - of_nat (length xs) * m\<^sup>2"
    using welford_exact_state [of xs] by blast
  have "m = sum_list xs / of_nat (length xs)" using w(2) assms by (simp add: field_simps)
  with w squared_deviations [OF w(2)] show ?thesis by simp
qed

text \<open>C22. The running aggregate that the code keeps in \<^verbatim>\<open>float64\<close> counts every value, and its
  extremes are values of the list that bound all the others. Its recurrence, run on the values in
  exact arithmetic, yields their number, their mean and the sum of the squared deviations from it.\<close>

theorem welford_aggregate:
  assumes "vs \<noteq> []" "length vs < 2 ^ 63" "\<forall>x \<in> set vs. f64_finite x"
    and xs: "xs = map (\<lambda>x. rat_of_int (f64_units x)) vs" and mean: "mean = sum_list xs / of_nat (length vs)"
  shows "sint (SCount (welford vs)) = int (length vs) \<and>
    SMin (welford vs) \<in> set vs \<and> (\<forall>x \<in> set vs. f64_le (SMin (welford vs)) x) \<and>
    SMax (welford vs) \<in> set vs \<and> (\<forall>x \<in> set vs. f64_le x (SMax (welford vs))) \<and>
    welford_exact xs = (length vs, mean, \<Sum>x\<leftarrow>xs. (x - mean)\<^sup>2)"
proof -
  have len: "length vs < 2 ^ 64" using assms(2) by simp
  have "sint (word_of_nat (length vs) :: i64) = int (length vs)"
    using assms(2) by (simp add: sint_uint unat_of_nat uint_nat signed_take_bit_int_eq_self)
  moreover have "welford_exact xs = (length vs, mean, \<Sum>x\<leftarrow>xs. (x - mean)\<^sup>2)"
    using welford_exact_result [of xs] assms(1) by (simp add: mean xs)
  ultimately show ?thesis
    using welford_count(1) [of vs] welford_extremes [OF assms(1) len assms(3)] by simp
qed

theorem welford_aggregate_witness:
  "sint (SCount (welford [five])) = 1 \<and> SMin (welford [five]) = five \<and>
   welford_exact [rat_of_int (f64_units five)] = (1, rat_of_int (f64_units five), 0)"
  using welford_aggregate [OF _ _ _ refl refl, of "[five]"] by (simp add: f64_finite_iff)

text \<open>C23. A signal brings the server process to its end. The process returns from \<^verbatim>\<open>main\<close> with no RPC in
  progress and no goroutine serving, its socket file gone and its database closed once, and
  not before; from every state of a run it can get there, and once the RPCs have drained every
  interleaving of its steps is finite, with the rank of the state as a bound.\<close>

theorem daemon_shutdown:
  assumes "runs W f d"
  shows "(\<exists>d'. daemon_step\<^sup>*\<^sup>* d d' \<and> dPhase d' = Exited) \<and>
    (dPhase d = Exited \<longrightarrow> grpcCalls d = 0 \<and> dServing d = [] \<and> files (dTrace d) = {} \<and> count_list (dTrace d) ClosedDB = 1) \<and>
    (dPhase d \<noteq> Exited \<longrightarrow> ClosedDB \<notin> set (dTrace d)) \<and>
    (dPhase d \<noteq> Serving \<and> dPhase d \<noteq> Draining \<and> (daemon_step ^^ n) d d2 \<longrightarrow> n \<le> shutdown_rank d)"
  using exit_reachable [of d] runs_inv [OF assms] shutdown_bounded [of n d d2]
  by (auto simp: daemon_inv_def count_list_0_iff split: if_splits)

theorem daemon_shutdown_witness:
  "runs ok_machine defaultFlags ok_end \<and> dPhase ok_end = Exited \<and> files (dTrace ok_end) = {} \<and>
   count_list (dTrace ok_end) ClosedDB = 1"
proof -
  have "dPhase ok_end = Exited" by (simp add: ok_end_def onReturn_def)
  with daemon_shutdown [OF ok_runs] ok_runs show ?thesis by simp
qed

text \<open>C24. Extract fails exactly on a non-empty document that is not a JSON object. Otherwise its
  terms are sorted, without duplicates, never empty, and are exactly the values of the document's
  leaves, bare and prefixed with the name of their field; its numbers are the finite ones.\<close>

theorem extract_terms_exact:
  "((\<exists>er. Extract X doc = Inl er) \<longleftrightarrow> doc \<noteq> [] \<and> \<not> (\<exists>obj. json_unmarshal X doc = Some (AObj obj))) \<and>
   (\<forall>r. Extract X doc = Inr r \<longrightarrow>
      sorted_wrt (<) (Terms r) \<and> set (Terms r) = doc_terms X doc \<and> [] \<notin> set (Terms r) \<and>
      Numerics r = doc_numerics X doc \<and> (\<forall>n \<in> set (Numerics r). f64_finite (Value n)))"
  using Extract_error_iff [where X = X and doc = doc] Extract_ok [where X = X and doc = doc]
    doc_terms_nonempty [where X = X and doc = doc] doc_numerics_finite [where X = X and doc = doc] by auto

theorem extract_terms_exact_witness:
  "(case Extract ref_ext doc_ann of Inr r \<Rightarrow> Terms r | Inl _ \<Rightarrow> []) = [''ann'', ''name:ann''] \<and>
   (case Extract ref_ext doc_ann of Inr r \<Rightarrow> set (Terms r) = doc_terms ref_ext doc_ann | Inl _ \<Rightarrow> False) \<and>
   (\<exists>er. Extract ref_ext ''x'' = Inl er)"
proof (intro conjI)
  show "(case Extract ref_ext doc_ann of Inr r \<Rightarrow> Terms r | Inl _ \<Rightarrow> []) = [''ann'', ''name:ann'']" by code_simp
  have j: "json_unmarshal ref_ext doc_ann = Some (AObj [(''name'', AStr ''ann'')])" "json_unmarshal ref_ext ''x'' = None"
    by code_simp+
  show "case Extract ref_ext doc_ann of Inr r \<Rightarrow> set (Terms r) = doc_terms ref_ext doc_ann | Inl _ \<Rightarrow> False"
    using extract_terms_exact [where X = ref_ext and doc = doc_ann] j(1) by (auto split: sum.splits)
  show "\<exists>er. Extract ref_ext ''x'' = Inl er"
    using extract_terms_exact [where X = ref_ext and doc = "''x''"] j(2) by simp
qed

section \<open>Hierarchy and last-seen cache\<close>

text \<open>C25. A parent whose chain is too deep or leads back to the document is refused; otherwise the
  document's chain becomes its parent followed by the parent's chain.\<close>

theorem closure_add_outcome:
  assumes "ext_laws X" "closure_ok X tx e" "utf8_ok p"
  shows "case closureAdd X e d p i tx of
      Inr tx' \<Rightarrow> closure_ok X tx' e \<and>
        (\<forall>x. chain_of X tx' e x = (if x = d then Some (chain_via X tx e p) else chain_of X tx e x)) \<and>
        length (chain_via X tx e p) \<le> closureMaxDepth \<and> d \<notin> set (chain_via X tx e p)
    | Inl er \<Rightarrow>
        (closureMaxDepth < length (chain_via X tx e p) \<longrightarrow> er = NewErr ''closure: depth exceeds'') \<and>
        (length (chain_via X tx e p) \<le> closureMaxDepth \<and> d \<in> set (chain_via X tx e p) \<longrightarrow>
          er = NewErr ''closure: cycle detected'')"
proof (cases "closureAdd X e d p i tx")
  case (Inl er)
  with ext_laws.closureAdd_refuses [OF assms(1,2), of p d i] show ?thesis by (auto simp: not_le)
next
  case (Inr tx')
  note eff = ext_laws.closureAdd_effect [OF assms(1) Inr assms(2,3)]
  have "length (chain_via X tx e p) \<le> closureMaxDepth \<and> d \<notin> set (chain_via X tx e p)"
    using ext_laws.closureAdd_refuses [OF assms(1,2), of p d i] Inr by (cases "closureMaxDepth < length (chain_via X tx e p)") auto
  with Inr eff show ?thesis by simp
qed

theorem closure_add_outcome_witness:
  "closureAdd ref_ext ''acme'' ''p'' ''d1'' 9 db_child = Inl (NewErr ''closure: cycle detected'')"
proof -
  have ok: "closure_ok ref_ext db_child ''acme''"
    using fixture_ok(2) by (simp add: store_ok_def index_ok_def index_inv_def)
  have ch: "chain_via ref_ext db_child ''acme'' ''d1'' = [''d1'', ''p'']" by code_simp
  show ?thesis
    using closure_add_outcome [OF ref_laws ok utf8_d1, of "''p''" 9] ch
    by (auto simp: closureMaxDepth_def split: sum.splits)
qed

text \<open>C26. Recording events of different documents for one item and type, in any order, leaves the
  latest of their times as what LastSeen reads.\<close>

theorem last_seen_is_latest:
  assumes "ext_laws X" "absence_ok X tx e" "cell_of X tx e (absenceCellKey item ty) = None"
    "evs \<noteq> []" "distinct (map fst evs)" "\<forall>(d, tm) \<in> set evs. utf8_ok d"
    "foldR (\<lambda>(d, tm). absenceRecord X e item ty d tm) evs tx = Inr tx'"
  shows "\<exists>tm. absenceLookup X e item ty tx' = Inr (tm, True) \<and> tm \<in> snd ` set evs \<and>
    (\<forall>(d, tm') \<in> set evs. sint tm' \<le> sint tm)"
proof -
  have run: "absence_ok X tx' e \<and> cell_of X tx' e (absenceCellKey item ty) =
      foldl (\<lambda>c (d, tm). Some (cell_record d tm c)) (cell_of X tx e (absenceCellKey item ty)) evs"
    using assms(2,6,7)
  proof (induction evs arbitrary: tx)
    case (Cons ev evs)
    obtain d tm where ev: "ev = (d, tm)" by (cases ev)
    from Cons.prems(3) obtain t where t: "absenceRecord X e item ty d tm tx = Inr t"
      "foldR (\<lambda>(d, tm). absenceRecord X e item ty d tm) evs t = Inr tx'"
      by (auto simp: ev result_simps)
    have "utf8_ok d" using Cons.prems(2) ev by simp
    note eff = ext_laws.absenceRecord_effect [OF assms(1) t(1) Cons.prems(1) this]
    from Cons.IH [OF eff(1) _ t(2)] Cons.prems(2) eff(2) show ?case by (simp add: ev)
  qed simp
  obtain c where c: "foldl (\<lambda>c (d, tm). Some (cell_record d tm c)) None evs = Some c"
    using assms(4) by (cases evs rule: rev_cases) auto
  have max: "(AbsDocID c, AbsAt c) \<in> set evs" "\<forall>(d, tm) \<in> set evs. sint tm \<le> sint (AbsAt c)"
    using cell_record_max [OF assms(5,4) c] by simp_all
  have "absenceLookup X e item ty tx' = Inr (AbsAt c, True)"
    using ext_laws.absenceLookup_result [OF assms(1)] run c assms(3) by simp
  moreover have "AbsAt c \<in> snd ` set evs" using max(1) by force
  ultimately show ?thesis using max(2) by blast
qed

theorem last_seen_is_latest_witness:
  "\<exists>tx' tm. foldR (\<lambda>(d, tm). absenceRecord ref_ext ''acme'' ''i'' ''visit'' d tm) [(''a'', 5), (''b'', 3)] [] = Inr tx' \<and>
    absenceLookup ref_ext ''acme'' ''i'' ''visit'' tx' = Inr (tm, True) \<and> sint tm \<ge> 5"
proof -
  have run: "foldR (\<lambda>(d, tm). absenceRecord ref_ext ''acme'' ''i'' ''visit'' d tm) [(''a'', 5), (''b'', 3)] [] =
      Inr [(''absbucket:acme'', [(''i|visit'', CAbs \<lparr>AbsAt = 5, AbsDocID = ''a''\<rparr>)])]"
    by code_simp
  have "absence_ok ref_ext [] ''acme''" "cell_of ref_ext [] ''acme'' (absenceCellKey ''i'' ''visit'') = None"
    by (simp_all add: absence_ok_def cell_of_def r_get_def r_bucket_def)
  moreover have "\<forall>(d, tm) \<in> set [(''a'', 5), (''b'', 3 :: i64)]. utf8_ok d" by code_simp
  ultimately obtain tm where "absenceLookup ref_ext ''acme'' ''i'' ''visit''
      [(''absbucket:acme'', [(''i|visit'', CAbs \<lparr>AbsAt = 5, AbsDocID = ''a''\<rparr>)])] = Inr (tm, True)"
    "sint (5 :: i64) \<le> sint tm"
    using last_seen_is_latest [OF ref_laws _ _ _ _ _ run] by auto
  with run show ?thesis by (intro exI conjI) (assumption | simp)+
qed






section \<open>Sequences and clusters\<close>

text \<open>C28. On a log sorted by time, with times that differ by less than the range of 64 bits, the
  greedy walk finds a match exactly when one exists: a subsequence of the log with the
  types of the steps whose span fits the window. What it returns is such a match.\<close>

theorem sequence_walk_complete:
  assumes "sorted_log events" "no_overflow events" "steps \<noteq> []"
  shows "(sequenceWalk events steps w = None \<longleftrightarrow> \<not> (\<exists>picked. matches events steps w picked)) \<and>
    (\<forall>picked. sequenceWalk events steps w = Some picked \<longrightarrow> matches events steps w picked)"
  using sequenceWalk_iff [OF assms(1,2), of steps w] walkFrom_sound [OF _ assms(3), of events w] assms(3)
  by (auto simp: sequenceWalk_def)

theorem sequence_walk_complete_witness:
  "sequenceWalk [\<lparr>At = 1, EType = ''a'', EDocID = ''x''\<rparr>, \<lparr>At = 5, EType = ''a'', EDocID = ''y''\<rparr>,
      \<lparr>At = 7, EType = ''b'', EDocID = ''z''\<rparr>] [''a'', ''b''] 3 =
     Some [\<lparr>At = 5, EType = ''a'', EDocID = ''y''\<rparr>, \<lparr>At = 7, EType = ''b'', EDocID = ''z''\<rparr>] \<and>
   matches [\<lparr>At = 1, EType = ''a'', EDocID = ''x''\<rparr>, \<lparr>At = 5, EType = ''a'', EDocID = ''y''\<rparr>,
      \<lparr>At = 7, EType = ''b'', EDocID = ''z''\<rparr>] [''a'', ''b''] 3
     [\<lparr>At = 5, EType = ''a'', EDocID = ''y''\<rparr>, \<lparr>At = 7, EType = ''b'', EDocID = ''z''\<rparr>]"
proof -
  let ?es = "[\<lparr>At = 1, EType = ''a'', EDocID = ''x''\<rparr>, \<lparr>At = 5, EType = ''a'', EDocID = ''y''\<rparr>,
      \<lparr>At = 7, EType = ''b'', EDocID = ''z''\<rparr>] :: temporalEntry list"
  have s: "sorted_log ?es" "no_overflow ?es" by (simp_all add: no_overflow_def)
  have w: "sequenceWalk ?es [''a'', ''b''] 3 =
     Some [\<lparr>At = 5, EType = ''a'', EDocID = ''y''\<rparr>, \<lparr>At = 7, EType = ''b'', EDocID = ''z''\<rparr>]"
    by (simp add: sequenceWalk_def Let_def)
  with sequence_walk_complete [OF s, of "[''a'', ''b'']" 3] show ?thesis by simp
qed

text \<open>C29. When the times of every log differ by less than the range of 64 bits, SequenceJoin reports exactly the items, among the given ones or all, whose log matches
  the steps, each with a matching run of events.\<close>

theorem sequence_join_exact:
  assumes "ext_laws X" "reachable X db" "admitted X ctx e db db" "\<forall>n. ctx n = None"
    "\<And>item. no_overflow (log_of X db e item)" "steps \<noteq> []"
  shows "\<exists>ms. SequenceJoin X ctx e itemIDs steps w db = Inr ms \<and>
    (\<forall>m \<in> set ms. \<exists>picked. matches (log_of X db e (ItemID m)) steps w picked \<and> Events m = map toEvent picked) \<and>
    ItemID ` set ms = {item. (itemIDs = [] \<or> item \<in> set itemIDs) \<and>
      (\<exists>picked. matches (log_of X db e item) steps w picked)}"
  by (rule ext_laws.SequenceJoin_spec) (fact assms query_context(1) [OF assms(1,2) evolves.same assms(3)])+

theorem sequence_join_exact_witness:
  "\<exists>ms. SequenceJoin ref_ext ctx0 ''acme'' [] [''visit''] 0 db_visit = Inr ms \<and>
    ItemID ` set ms = {item. \<exists>picked. matches (log_of ref_ext db_visit ''acme'' item) [''visit''] 0 picked}"
proof -
  have log: "log_of ref_ext db_visit ''acme'' item =
      (if item = ''i'' then [\<lparr>At = 5, EType = ''visit'', EDocID = ''d1''\<rparr>] else [])" for item
    by (simp add: log_of_def r_get_def r_bucket_def temporalBucketName_def db_visit_def logKey_def
        key_ok_def max_key_size_def)
  have "no_overflow (log_of ref_ext db_visit ''acme'' item)" for item
    by (simp add: log no_overflow_def)
  from sequence_join_exact [OF ref_laws fixture_reachable(3) acme_admitted _ this, of "[''visit'']" "[]" 0]
  show ?thesis by auto
qed

text \<open>C30. On a log whose times differ by less than the range of 64 bits, ClusterQuery returns disjoint
  runs of the item's events of the given types, in their order. Each has at least the asked number of
  events and spans at most the window from its first to its last event, a window that is not positive being
  no bound, and every run of that size and span has an event in one of them.\<close>

theorem cluster_query_sound_complete:
  assumes "ext_laws X" "reachable X db" "admitted X ctx e db db" "no_overflow (log_of X db e item)"
    and lg: "evlog = (if types = [] then log_of X db e item else filter (\<lambda>en. EType en \<in> set types) (log_of X db e item))"
  shows "\<exists>runs. ClusterQuery X ctx e item types w n db = Inr (map toCluster runs) \<and>
    subseq (concat runs) evlog \<and>
    (\<forall>run \<in> set runs. spans_at_most w run \<and> int (length run) \<ge> max 1 n \<and> sublist run evlog) \<and>
    (\<forall>run. spans_at_most w run \<and> int (length run) \<ge> max 1 n \<and> sublist run evlog \<longrightarrow>
      (\<exists>c \<in> set runs. set c \<inter> set run \<noteq> {}))"
proof -
  have ok: "store_ok X db e" by (rule query_context(1) [OF assms(1,2) evolves.same assms(3)])
  then have "sorted_log (log_of X db e item)" by (simp add: store_ok_def index_ok_def index_inv_def temporal_ok_def)
  then have log: "sorted_log evlog" "no_overflow evlog"
    using assms(4) by (auto simp: lg no_overflow_def sorted_wrt_filter)
  let ?runs = "clusterLoop evlog w (max 1 n)"
  have short: "?runs = []" if "length evlog = 0 \<or> max 1 n > int (length evlog)"
  proof (rule ccontr)
    assume "?runs \<noteq> []"
    then obtain run where run: "run \<in> set ?runs" by (cases ?runs) auto
    from bspec [OF clusterLoop_runs run] have "int (length run) \<ge> max 1 n" "sublist run evlog" by simp_all
    with sublist_length_le [of run evlog] that show False by auto
  qed
  have "ClusterQuery X ctx e item types w n db = Inr (map toCluster ?runs)"
    using ext_laws.ClusterQuery_result [OF assms(1) ok assms(3), of item types w n] short
    by (auto simp: clusterScan_def lg)
  with clusterLoop_disjoint [of evlog w "max 1 n"] clusterLoop_spec(1) [OF log, of w "max 1 n"] clusterLoop_spec(2) [OF log, of _ w "max 1 n"]
  show ?thesis by (intro exI [of _ ?runs]) blast
qed

theorem cluster_query_sound_complete_witness:
  "\<exists>runs. ClusterQuery ref_ext ctx0 ''acme'' ''i'' [] 0 1 db_visit = Inr (map toCluster runs) \<and>
    (\<exists>c \<in> set runs. \<lparr>At = 5, EType = ''visit'', EDocID = ''d1''\<rparr> \<in> set c)"
proof -
  let ?en = "\<lparr>At = 5, EType = ''visit'', EDocID = ''d1''\<rparr>"
  have log: "log_of ref_ext db_visit ''acme'' ''i'' = [?en]" by code_simp
  then have no: "no_overflow (log_of ref_ext db_visit ''acme'' ''i'')" by (simp add: no_overflow_def)
  from cluster_query_sound_complete [OF ref_laws fixture_reachable(3) acme_admitted no refl, of "[]" 0 1]
  obtain runs where runs: "ClusterQuery ref_ext ctx0 ''acme'' ''i'' [] 0 1 db_visit = Inr (map toCluster runs)"
    and covers: "\<And>run. spans_at_most 0 run \<and> int (length run) \<ge> max 1 1 \<and> sublist run [?en] \<Longrightarrow>
      \<exists>c \<in> set runs. set c \<inter> set run \<noteq> {}" by (auto simp: log)
  from covers [of "[?en]"] have "\<exists>c \<in> set runs. ?en \<in> set c" by (simp add: spans_at_most_def)
  with runs show ?thesis by blast
qed

section \<open>Structured queries\<close>

text \<open>C31. A structured query with at least one anchor whose anchor literals are strings, truth values or
  \<^verbatim>\<open>float64\<close> numbers other than zero, and in which no comparison panics, returns what evaluating its
  clauses on every document of the entity returns, projected or aggregated: for such queries
  narrowing the documents through the inverted index loses nothing.\<close>

theorem query_equals_full_scan:
  assumes "ext_laws X" "reachable X db" "admitted X ctx (QEntityID req) db db" "\<forall>n. ctx n = None"
    and "collectQueryAnchors (Where req) \<noteq> []"
    and "\<forall>p \<in> set (collectQueryAnchors (Where req)). plain (Literal (PValue p))"
    and "\<forall>d. query_match X req db d \<noteq> None"
  shows "Query X ctx req db = Some (Inr (query_rows X req (full_scan X req db)))"
proof -
  have ok: "store_ok X db (QEntityID req)"
    by (rule query_context(1) [OF assms(1,2) evolves.same assms(3)])
  have v: "validateEntityID (QEntityID req) = Inr ()" "begin_err X db = None"
    using assms(3) validateEntityID_ok by (auto simp: admitted_def)
  from ext_laws.Query_full_scan [OF assms(1) ok v(1) assms(4) v(2) assms(5-7)] show ?thesis .
qed

definition ann_query :: QueryRequest where
  "ann_query = \<lparr>QEntityID = ''acme'', Find = [''?e''],
     Where = [QueryClause (Some \<lparr>PEntity = \<lparr>Var = ''?e'', Literal = ANil\<rparr>, PAttribute = ''name'',
       PValue = \<lparr>Var = [], Literal = AStr ''ann''\<rparr>\<rparr>) None None None None],
     Aggregates = [], GroupBy = []\<rparr>"

lemma ann_query_total: "query_match ref_ext ann_query db d \<noteq> None"
  by (auto simp: query_match_def ann_query_def matchQueryPattern_def IsLiteral_def equalQueryValues_def go_eq_def
      queryNumeric_def split: option.splits bool.splits any.splits)

theorem query_equals_full_scan_witness:
  "Query ref_ext ctx0 ann_query db_ann = Some (Inr [[AStr ''d1'']]) \<and>
   Query ref_ext ctx0 ann_query db_ann = Some (Inr (query_rows ref_ext ann_query (full_scan ref_ext ann_query db_ann)))"
proof
  show "Query ref_ext ctx0 ann_query db_ann = Some (Inr [[AStr ''d1'']])" by code_simp
  have "collectQueryAnchors (Where ann_query) \<noteq> []"
    "\<forall>p \<in> set (collectQueryAnchors (Where ann_query)). plain (Literal (PValue p))"
    by (simp_all add: collectQueryAnchors_def ann_query_def List.map_filter_simps IsLiteral_def plain_def)
  moreover have "admitted ref_ext ctx0 (QEntityID ann_query) db_ann db_ann"
    using acme_admitted by (simp add: ann_query_def)
  ultimately show "Query ref_ext ctx0 ann_query db_ann =
      Some (Inr (query_rows ref_ext ann_query (full_scan ref_ext ann_query db_ann)))"
    using ann_query_total by (intro query_equals_full_scan [OF ref_laws fixture_reachable(1)]) simp_all
qed

text \<open>C32. When no printed value of a group-by variable contains the separator \<^verbatim>\<open>|\<close>, grouping yields one
  row per different list of printed values, in the order of these lists joined by the separator: the
  values of the first such match, then the aggregates over exactly the matches that print so, in
  their order; without group-by variables there is one row over all matches. Each aggregate is the
  count, sum, mean, least or greatest that its name says.\<close>

theorem aggregate_groups:
  assumes "\<forall>b \<in> set ms. \<forall>t \<in> set (shown X groupBy b). CHR ''|'' \<notin> set t"
  shows "runQueryAggregates X ms groupBy aggs =
    (if groupBy = [] then [map (\<lambda>a. computeQueryAggregate X a ms) aggs] else rows_by_text X ms groupBy aggs) \<and>
    (\<forall>a g. aggregate_meant X a g (computeQueryAggregate X a g))"
proof (cases "groupBy = []")
  case True
  then show ?thesis by (simp add: runQueryAggregates_def computeQueryAggregate_meant)
next
  case False
  with runQueryAggregates_grouped [OF False, of X ms aggs] grouped_rows_by_text [OF assms, of aggs]
  show ?thesis by (simp add: computeQueryAggregate_meant)
qed

theorem aggregate_groups_witness:
  "runQueryAggregates ref_ext [[(''?t'', AStr ''b'')], [(''?t'', AStr ''a'')], [(''?t'', AStr ''b''), (''?n'', AFloat five)]] [''?t'']
     [\<lparr>Fn = ''min'', Over = \<lparr>Var = ''?n'', Literal = ANil\<rparr>, As = ''m''\<rparr>] = [[AStr ''a'', ANil], [AStr ''b'', AFloat five]] \<and>
   runQueryAggregates ref_ext [[(''?t'', AStr ''b'')], [(''?t'', AStr ''a'')], [(''?t'', AStr ''b''), (''?n'', AFloat five)]] [''?t'']
     [\<lparr>Fn = ''min'', Over = \<lparr>Var = ''?n'', Literal = ANil\<rparr>, As = ''m''\<rparr>] =
   rows_by_text ref_ext [[(''?t'', AStr ''b'')], [(''?t'', AStr ''a'')], [(''?t'', AStr ''b''), (''?n'', AFloat five)]] [''?t'']
     [\<lparr>Fn = ''min'', Over = \<lparr>Var = ''?n'', Literal = ANil\<rparr>, As = ''m''\<rparr>]"
proof
  let ?ms = "[[(''?t'', AStr ''b'')], [(''?t'', AStr ''a'')], [(''?t'', AStr ''b''), (''?n'', AFloat five)]]"
  let ?aggs = "[\<lparr>Fn = ''min'', Over = \<lparr>Var = ''?n'', Literal = ANil\<rparr>, As = ''m''\<rparr>]"
  show "runQueryAggregates ref_ext ?ms [''?t''] ?aggs = [[AStr ''a'', ANil], [AStr ''b'', AFloat five]]" by code_simp
  have "\<forall>b \<in> set ?ms. \<forall>t \<in> set (shown ref_ext [''?t''] b). CHR ''|'' \<notin> set t" by code_simp
  from aggregate_groups [OF this, of ?aggs]
  show "runQueryAggregates ref_ext ?ms [''?t''] ?aggs = rows_by_text ref_ext ?ms [''?t''] ?aggs" by simp
qed

section \<open>Vectors\<close>

text \<open>C33. Whatever vector operations, document writes, reads and restarts a store has gone through
  (entities without a colon), its registry and vector buckets are consistent, the loaded index
  mirrors them, with every graph in a state that the library can work on, and the documents and
  their indexes are consistent too.\<close>

theorem vector_state_invariant:
  assumes "ext_laws X" "hnsw_laws H A S" "vec_reachable X H db vs" "no_colon e"
  shows "vec_db_ok X db \<and> store_ok X db e \<and>
    (vecOnce vs \<and> vecLoadErr vs = None \<longrightarrow> vindex_ok H A S (vectors vs) \<and> mirrors X H db (vectors vs))"
  using vector_store.vec_reachable_ok [OF vector_store.intro [OF assms(1,2)] assms(3)] assms(4)
  by (simp add: vstate_ok_def all_ok_def)

theorem vector_state_invariant_witness:
  "mirrors ref_ext list_hnsw db_vec (vectors vs_vec) \<and> vec_db_ok ref_ext db_vec"
  using vector_state_invariant [OF ref_laws list_index.hnsw_laws_axioms fixture_vec_reachable acme_valid(1)]
  by (simp add: vs_vec_def)

text \<open>C34. Restarting the store rebuilds an index with the same dimensions, metrics and live vectors
  in every scope that has a vector; a scope without one is gone.\<close>

theorem vector_restart_equivalent:
  assumes "ext_laws X" "hnsw_laws H A S" "vec_reachable X H db vs" "vecOnce vs" "vecLoadErr vs = None"
    "begin_err X db = None"
  shows "\<exists>i. rebuildVectorIndex X H db = Inr i \<and>
    (\<forall>k. index_view H i k = drop_empty (index_view H (vectors vs) k))"
  using vector_store.restart_same [OF vector_store.intro [OF assms(1,2)] assms(3-6)] by metis

theorem vector_restart_equivalent_witness:
  "\<exists>i. rebuildVectorIndex ref_ext list_hnsw db_vec = Inr i \<and>
    (\<forall>k. index_view list_hnsw i k = drop_empty (index_view list_hnsw (vectors vs_vec) k))"
  by (rule vector_restart_equivalent [OF ref_laws list_index.hnsw_laws_axioms fixture_vec_reachable])
    (simp_all add: vs_vec_def)

text \<open>C35. A successful vector insert stores the vector under its id and fixes the dimension and the
  metric of a new scope; a delete removes that vector only, a drop that scope only. A failed
  insert or delete leaves the database as it was, a failed drop every scope.\<close>

theorem vector_writes:
  assumes "ext_laws X" "hnsw_laws H A S" "vec_reachable X H db vs" "no_colon e"
  shows "(\<forall>r db' vs'. VectorInsert X H ctx e s vid vec m (db, vs) = (r, db', vs') \<longrightarrow>
      (case r of Inl _ \<Rightarrow> db' = db
       | Inr _ \<Rightarrow> disk_view X db' = (disk_view X db)((e, s) \<mapsto> view_insert vid vec m (disk_view X db (e, s))))) \<and>
    (\<forall>r db' vs'. VectorDelete X H ctx e s vid (db, vs) = (r, db', vs') \<longrightarrow>
      (case r of Inl _ \<Rightarrow> db' = db
       | Inr _ \<Rightarrow> \<exists>d m w. disk_view X db (e, s) = Some (d, m, w) \<and> w vid \<noteq> None \<and>
           disk_view X db' = (disk_view X db)((e, s) \<mapsto> (d, m, w(vid := None))))) \<and>
    (\<forall>r db' vs'. VectorDropScope X H ctx e s (db, vs) = (r, db', vs') \<longrightarrow>
      disk_view X db' = (case r of Inl _ \<Rightarrow> disk_view X db | Inr _ \<Rightarrow> (disk_view X db)((e, s) := None)))"
proof -
  note vst = vector_store.intro [OF assms(1,2)]
  have ok: "vstate_ok X H A S db vs" using vector_store.vec_reachable_ok [OF vst assms(3)] by simp
  note ops = vector_store.VectorInsert_ok(3,4) [OF vst ok assms(4)] vector_store.VectorDelete_ok(3,4) [OF vst ok assms(4)]
    vector_store.VectorDropScope_ok(3,4) [OF vst ok assms(4)]
  show ?thesis
  proof (intro conjI allI impI, goal_cases)
    case (1 r db' vs')
    then show ?case using ops(1,2) by (cases r) auto
  next
    case (2 r db' vs')
    then show ?case using ops(3,4) by (cases r) auto
  next
    case (3 r db' vs')
    then show ?case using ops(5,6) by (cases r) auto
  qed
qed

theorem vector_writes_witness:
  "disk_view ref_ext db_vec =
   (disk_view ref_ext [])((''acme'', ''s'') \<mapsto> view_insert ''v'' [1, 2] Cosine (disk_view ref_ext [] (''acme'', ''s'')))"
proof -
  from conjunct1 [OF vector_writes [OF ref_laws list_index.hnsw_laws_axioms fixture_vec_start acme_valid(1)],
      THEN spec, THEN spec, THEN spec, THEN mp, OF fixture_vector]
  show ?thesis by simp
qed

text \<open>C36. An insert of another dimension than the one a scope was created with reports a dimension
  mismatch and changes nothing on disk.\<close>

theorem vector_dimension_locked:
  assumes "ext_laws X" "hnsw_laws H A S" "vec_reachable X H db vs"
    "e \<noteq> []" "s \<noteq> []" "vid \<noteq> []" "vec \<noteq> []" "ctx 0 = None"
    "vectorIndex X H db vs = (Inr i, vs')" "begin_err X db = None"
    "disk_view X db (e, s) = Some (d, m0, w)" "length vec \<noteq> d"
  shows "\<exists>er. VectorInsert X H ctx e s vid vec m (db, vs) = (Inl er, db, vs') \<and> errors_Is er ErrDimensionMismatch"
proof -
  note vst = vector_store.intro [OF assms(1,2)]
  have "vstate_ok X H A S db vs" using vector_store.vec_reachable_ok [OF vst assms(3)] by simp
  from vector_store.VectorInsert_mismatch [where ctx = ctx, OF vst this assms(4-12)] show ?thesis .
qed

theorem vector_dimension_locked_witness:
  "\<exists>er. VectorInsert ref_ext list_hnsw ctx0 ''acme'' ''s'' ''v'' [1, 2, 3] Cosine (db_vec, vs_vec) = (Inl er, db_vec, vs_vec) \<and>
    errors_Is er ErrDimensionMismatch"
proof -
  have i: "vectorIndex ref_ext list_hnsw db_vec vs_vec = (Inr (vectors vs_vec), vs_vec)"
    by (simp add: vectorIndex_def vs_vec_def)
  have d: "disk_view ref_ext db_vec (''acme'', ''s'') = Some (2, 0, disk_vec ref_ext db_vec ''acme'' ''s'' 2)"
    by (simp add: disk_view_def db_vec_def r_get_def r_bucket_def vecRegistryBucket_def vecRegistryBucketPrefix_def
        key_ok_def max_key_size_def)
  show ?thesis
    by (rule vector_dimension_locked [OF ref_laws list_index.hnsw_laws_axioms fixture_vec_reachable _ _ _ _ _ i _ d]) simp_all
qed

text \<open>C37. The results of a vector search are different stored vectors of the scope, at most as many
  as asked for, with their distances; when the graph returns as many nodes as it is asked for, the
  search fills its answer although deleted vectors are still in the graph.\<close>

theorem vector_search:
  assumes "ext_laws X" "hnsw_laws H A S" "vec_reachable X H db vs" "0 < k"
    "VectorSearch X H ctx e s q k (db, vs) = (Inr out, vs')"
  shows "\<exists>m w. disk_view X db (e, s) = Some (length q, m, w) \<and> distinct (map RID out) \<and> int (length out) \<le> k \<and>
    (\<forall>h \<in> set out. \<exists>v. w (RID h) = Some v \<and> Distance h = distanceFunc H m q v) \<and>
    ((\<forall>g n. length (graphSearch H g q n) = min n (graphLen H g)) \<longrightarrow> length out = min (nat k) (card (dom w)))"
proof -
  note vst = vector_store.intro [OF assms(1,2)]
  have "vstate_ok X H A S db vs" using vector_store.vec_reachable_ok [OF vst assms(3)] by simp
  from vector_store.VectorSearch_ok [OF vst this assms(5,4)] show ?thesis .
qed

theorem vector_search_witness:
  "VectorSearch ref_ext list_hnsw ctx0 ''acme'' ''s'' [1, 2] 5 (db_vec, vs_vec) =
     (Inr [\<lparr>RID = ''v'', Distance = 0\<rparr>], vs_vec) \<and>
   (\<exists>m w. disk_view ref_ext db_vec (''acme'', ''s'') = Some (2, m, w) \<and> w ''v'' \<noteq> None)"
proof -
  have s: "VectorSearch ref_ext list_hnsw ctx0 ''acme'' ''s'' [1, 2] 5 (db_vec, vs_vec) =
     (Inr [\<lparr>RID = ''v'', Distance = 0\<rparr>], vs_vec)" by code_simp
  from vector_search [OF ref_laws list_index.hnsw_laws_axioms fixture_vec_reachable _ s] s show ?thesis
    by (auto simp: numeral_2_eq_2)
qed

section \<open>The server\<close>

text \<open>C38. The Get method answers with the stored contents, or with \<open>found\<close> false, never with a
  NotFound status; an invalid entity is an InvalidArgument, an empty document id an Internal error.\<close>

theorem rpc_get:
  assumes "ext_laws X" "reachable X db" "ctx 0 = None" "begin_err X db = None"
  shows "(case Get_rpc X ctx \<lparr>GetEntityId = e, GetDocId = d\<rparr> db of
      Inr resp \<Rightarrow> RespFound resp = (stored X db e d \<noteq> None) \<and> contents (RespDoc resp) = doc_contents X db e d
    | Inl er \<Rightarrow> er = (case validateEntityID e of Inl x \<Rightarrow> Status CInvalidArgument x
        | Inr _ \<Rightarrow> Status CInternal (NewErr ''bboltstore: docID must not be empty'')) \<and> validateIDs e d \<noteq> Inr ())"
proof (cases "no_colon e")
  case True
  have "docs_ok X db e" using reachable_store_ok [OF assms(1,2) True] by (simp add: store_ok_def)
  then have dk: "docs_ok X db (GetEntityId \<lparr>GetEntityId = e, GetDocId = d\<rparr>)" by simp
  note g = ext_laws.Get_rpc_spec [where ctx = ctx, OF assms(1) dk assms(3,4)]
  show ?thesis
    using g(1) g(2) True validateEntityID_ok [of e] validateIDs_ok [of e d] by (auto split: sum.splits if_splits)
next
  case False
  then obtain er where er: "validateEntityID e = Inl er" using validateEntityID_ok [of e] by (cases "validateEntityID e") auto
  then have "\<not> errors_Is er ErrNotFound" by (auto simp: validateEntityID_def split: if_splits)
  with er validateEntityID_error [OF er] show ?thesis
    by (simp add: Get_rpc_def Get_def validateIDs_def mapError_def)
qed

theorem rpc_get_witness:
  "Get_rpc ref_ext ctx0 \<lparr>GetEntityId = ''acme'', GetDocId = ''d1''\<rparr> db_ann =
     Inr \<lparr>RespDoc = Some doc_ann, RespFound = True\<rparr> \<and> stored ref_ext db_ann ''acme'' ''d1'' \<noteq> None"
proof -
  have g: "Get_rpc ref_ext ctx0 \<lparr>GetEntityId = ''acme'', GetDocId = ''d1''\<rparr> db_ann =
     Inr \<lparr>RespDoc = Some doc_ann, RespFound = True\<rparr>" by code_simp
  from rpc_get [where ctx = ctx0 and e = "''acme''" and d = "''d1''", OF ref_laws fixture_reachable(1)] g
  show ?thesis by simp
qed

text \<open>C39. After a successful BatchPut call every document has the contents of its last entry in the
  request, whatever order the store visits them in, and other documents keep theirs.\<close>

theorem rpc_batch_last_wins:
  assumes "ext_laws X" "reachable X db" "\<forall>en \<in> set es. utf8_ok (BDocId en)"
    "BatchPut_rpc X ctx now \<lparr>BEntityId = e, BEntries = es\<rparr> db = (Inr (), db', evs)"
  shows "stored X db' e = stored X db e ++ map_of (rev (map (\<lambda>en. (BDocId en, BDoc en)) es))"
proof -
  let ?docs = "ranged X (batchDocs es)"
  have gl: "golib_laws X" using assms(1) by (rule ext_laws.axioms)
  have run: "exec_write X (WBatch ctx now e ?docs) db = (Inr (), db', evs)"
    using assms(4) by (auto simp: BatchPut_rpc_def rpc_of_def split: prod.splits sum.splits)
  have keys: "fst ` set ?docs \<subseteq> BDocId ` set es"
  proof -
    have "dom (map_of ?docs) = dom (map_of (rev (map (\<lambda>en. (BDocId en, BDoc en)) es)))"
      by (simp only: golib_laws.ranged_map [OF gl] map_of_batchDocs)
    then show ?thesis by (auto simp: dom_map_of_conv_image_fst image_image)
  qed
  have w: "write_ok (WBatch ctx now e ?docs)"
    using golib_laws.ranged_keys [OF gl distinct_batchDocs] assms(3) keys by fastforce
  have "store_ok X db e" using reachable_store_ok [OF assms(1,2) exec_write_valid [OF run]] by simp
  from ext_laws.exec_write_ok(4) [OF assms(1) run _ w] this show ?thesis
    by (simp add: golib_laws.ranged_map [OF gl] map_of_batchDocs)
qed

theorem rpc_batch_last_wins_witness:
  "\<exists>db' evs. BatchPut_rpc ref_ext ctx0 (\<lambda>n. 7)
      \<lparr>BEntityId = ''acme'', BEntries = [\<lparr>BDocId = ''d1'', BDoc = ''x''\<rparr>, \<lparr>BDocId = ''d1'', BDoc = ''y''\<rparr>]\<rparr> [] = (Inr (), db', evs) \<and>
    stored ref_ext db' ''acme'' ''d1'' = Some ''y''"
proof -
  let ?es = "[\<lparr>BDocId = ''d1'', BDoc = ''x''\<rparr>, \<lparr>BDocId = ''d1'', BDoc = ''y''\<rparr>]"
  let ?run = "BatchPut_rpc ref_ext ctx0 (\<lambda>n. 7) \<lparr>BEntityId = ''acme'', BEntries = ?es\<rparr> []"
  have "fst ?run = Inr ()" by code_simp
  then have run: "?run = (Inr (), fst (snd ?run), snd (snd ?run))" by (metis prod.collapse)
  have "\<forall>en \<in> set ?es. utf8_ok (BDocId en)" by (simp del: utf8_ok.simps)
  from rpc_batch_last_wins [OF ref_laws empty_reachable this run]
  have "stored ref_ext (fst (snd ?run)) ''acme'' ''d1'' = Some ''y''" by simp
  with run show ?thesis by (intro exI conjI)
qed

text \<open>C40. What a subscriber has been sent, followed by what waits in its channel, are matching events
  in the order of their emission. The channel holds at most 1024 events; as long as every matching event
  finds the callback registered and room in the channel, and sending succeeds, none is missing. After the method has returned
  nothing is sent, its deferred call ends the subscription, and then nothing enters the channel. What
  becomes of the stream when an event finds the channel full is not part of this statement: there the
  code departs from the comments of \<^verbatim>\<open>server.go\<close>, see \<open>overflow_unreported\<close>.\<close>

theorem subscribe_in_order:
  assumes run: "run = Subscribe_rpc True req send"
  shows "subseq (sent (run steps) @ map pbMutation (chan (run steps))) (wanted req steps) \<and>
    length (chan (run steps)) \<le> subscribeQueueDepth \<and>
    ((\<forall>m. send m = None) \<and>
     (\<forall>pre ev post. steps = pre @ SEmit ev # post \<and> passes req ev \<longrightarrow>
        subscribed (run pre) \<and> length (chan (run pre)) < subscribeQueueDepth) \<longrightarrow>
      sent (run steps) @ map pbMutation (chan (run steps)) = wanted req steps) \<and>
    (\<not> subscribed (run steps) \<longrightarrow> (\<forall>ev. run (steps @ [SEmit ev]) = run steps)) \<and>
    (returned (run steps) \<noteq> None \<longrightarrow>
      (\<forall>s. sent (run (steps @ [s])) = sent (run steps)) \<and> \<not> subscribed (run (steps @ [SUnsubscribe])))"
proof -
  have eq: "run = (\<lambda>steps. fold (stream_exec req send) steps stream_start)"
    by (simp add: run Subscribe_rpc_def fun_eq_iff)
  have snoc: "run (xs @ [x]) = stream_exec req send x (run xs)" for xs x by (simp add: eq)
  have "sent (run steps) @ map pbMutation (chan (run steps)) = wanted req steps"
    if "\<forall>m. send m = None" "\<forall>pre ev post. steps = pre @ SEmit ev # post \<and> passes req ev \<longrightarrow>
        subscribed (run pre) \<and> length (chan (run pre)) < subscribeQueueDepth"
    using that stream_no_loss [of send steps req] unfolding eq by blast
  then show ?thesis
    using stream_order [of req send steps] stream_stays [of "run steps" req send]
    by (auto simp: snoc deferredUnsubscribe_def) (simp_all add: eq)
qed

theorem subscribe_in_order_witness:
  "sent (Subscribe_rpc True \<lparr>SubEntityId = ''acme'', SubDocIdPrefix = []\<rparr> (\<lambda>_. None) [SEmit (put_event doc_ann), SReceive]) =
     [pbMutation (put_event doc_ann)] \<and>
   wanted \<lparr>SubEntityId = ''acme'', SubDocIdPrefix = []\<rparr> [SEmit (put_event doc_ann), SReceive] = [pbMutation (put_event doc_ann)]"
proof -
  let ?req = "\<lparr>SubEntityId = ''acme'', SubDocIdPrefix = []\<rparr>" and ?steps = "[SEmit (put_event doc_ann), SReceive]"
  let ?run = "Subscribe_rpc True ?req (\<lambda>_. None)"
  have s: "sent (?run ?steps) = [pbMutation (put_event doc_ann)]" "chan (?run ?steps) = []"
    by (simp_all add: Subscribe_rpc_def stream_start_def onEvent_def passes_def put_event_def subscribeQueueDepth_def loopReceive_def)
  have "\<forall>pre ev post. ?steps = pre @ SEmit ev # post \<and> passes ?req ev \<longrightarrow>
      subscribed (?run pre) \<and> length (chan (?run pre)) < subscribeQueueDepth"
    by (auto simp: Cons_eq_append_conv Subscribe_rpc_def stream_start_def subscribeQueueDepth_def)
  with subscribe_in_order [OF refl, of ?req "\<lambda>_. None" ?steps] s show ?thesis by simp
qed

end
